(* ===== verification/C_Prelude.thy ===== *)
theory C_Prelude
  imports Main "HOL-Library.Word" "HOL-Library.Monad_Syntax"
begin

unbundle bit_operations_syntax

text \<open>
  What the components share: the C integer types as they are used by the sources, C's
  truncating division and arithmetic shift, and the two memory primitives \<open>memcpy\<close> and
  \<open>memset\<close> on byte blocks.

  A signed value of width \<open>w\<close> is an \<open>int\<close>; \<open>s16\<close> and \<open>s32\<close> are the conversions to
  \<^verbatim>\<open>int16_t\<close> and \<^verbatim>\<open>int32_t\<close> (two's complement, the wrap-around the compilers the project
  supports implement), written as a \<open>mod\<close> by a numeral so that linear arithmetic decides
  goals about them.  An operation whose exact result may leave the type is followed by the
  conversion; where a component shows that the wrap-around never happens, that is a lemma.

  A memory access out of the bounds of its block is the value \<open>None\<close>: \<open>memcpy\<close> and \<open>memset\<close>
  are partial, and a component that uses them proves that its calls return \<open>Some\<close>.
\<close>

section \<open>Integer types\<close>

type_synonym byte = "8 word"

definition s16 :: "int \<Rightarrow> int" where
  "s16 x = (x + 32768) mod 65536 - 32768"

definition s32 :: "int \<Rightarrow> int" where
  "s32 x = (x + 2147483648) mod 4294967296 - 2147483648"

definition u16 :: "int \<Rightarrow> int" where
  "u16 x = x mod 65536"

definition u32 :: "int \<Rightarrow> int" where
  "u32 x = x mod 4294967296"

definition is_s16 :: "int \<Rightarrow> bool" where
  "is_s16 x \<longleftrightarrow> -32768 \<le> x \<and> x \<le> 32767"

definition is_s32 :: "int \<Rightarrow> bool" where
  "is_s32 x \<longleftrightarrow> -2147483648 \<le> x \<and> x \<le> 2147483647"

definition is_u32 :: "int \<Rightarrow> bool" where
  "is_u32 x \<longleftrightarrow> 0 \<le> x \<and> x \<le> 4294967295"

text \<open>\<open>x >> n\<close> on a signed value (arithmetic shift) and on an unsigned one.\<close>

definition asr :: "int \<Rightarrow> nat \<Rightarrow> int" where
  "asr x n = x div 2 ^ n"

text \<open>C's \<open>/\<close>: rounds towards zero. The callers guard a zero divisor themselves.\<close>

definition cdiv :: "int \<Rightarrow> int \<Rightarrow> int" where
  "cdiv a b = sgn a * sgn b * (\<bar>a\<bar> div \<bar>b\<bar>)"

text \<open>\<open>size_t\<close> is 64 bits wide: a \<open>nat\<close> with the wrap-around of its operations.\<close>

definition size_range :: nat where
  "size_range = 2 ^ 64"

definition sz_add :: "nat \<Rightarrow> nat \<Rightarrow> nat" where
  "sz_add a b = (a + b) mod size_range"

definition sz_sub :: "nat \<Rightarrow> nat \<Rightarrow> nat" where
  "sz_sub a b = (a + size_range - b) mod size_range"

definition sz_mul :: "nat \<Rightarrow> nat \<Rightarrow> nat" where
  "sz_mul a b = (a * b) mod size_range"

definition sz_of_int :: "int \<Rightarrow> nat" where
  "sz_of_int x = nat (x mod int size_range)"

section \<open>Byte blocks\<close>

text \<open>
  \<open>memcpy dst d src s n\<close> copies \<open>n\<close> bytes from offset \<open>s\<close> of the block \<open>src\<close> to offset
  \<open>d\<close> of the block \<open>dst\<close>; \<open>memset\<close> fills.
\<close>

definition memcpy :: "'a list \<Rightarrow> nat \<Rightarrow> 'a list \<Rightarrow> nat \<Rightarrow> nat \<Rightarrow> 'a list option" where
  "memcpy dst d src s n =
     (if d + n \<le> length dst \<and> s + n \<le> length src
      then Some (take d dst @ take n (drop s src) @ drop (d + n) dst)
      else None)"

definition memset :: "'a list \<Rightarrow> nat \<Rightarrow> 'a \<Rightarrow> nat \<Rightarrow> 'a list option" where
  "memset dst d v n =
     (if d + n \<le> length dst then Some (take d dst @ replicate n v @ drop (d + n) dst)
      else None)"

section \<open>Lemmas\<close>

named_theorems c_int_defs \<open>definitions of the integer conversions, for linear arithmetic\<close>

declare s16_def [c_int_defs] s32_def [c_int_defs] u16_def [c_int_defs] u32_def [c_int_defs]
  is_s16_def [c_int_defs] is_s32_def [c_int_defs] is_u32_def [c_int_defs]

lemma s16_bounds [simp]: "-32768 \<le> s16 x" "s16 x \<le> 32767" "s16 x < 32768"
  by (simp_all add: s16_def)

lemma s32_bounds [simp]: "-2147483648 \<le> s32 x" "s32 x \<le> 2147483647" "s32 x < 2147483648"
  by (simp_all add: s32_def)

lemma u32_bounds [simp]: "0 \<le> u32 x" "u32 x \<le> 4294967295" "u32 x < 4294967296"
  by (simp_all add: u32_def)

lemma is_s16_s16 [simp]: "is_s16 (s16 x)"
  by (simp add: is_s16_def)

lemma is_s32_s32 [simp]: "is_s32 (s32 x)"
  by (simp add: is_s32_def)

lemma s16_id: "is_s16 x \<Longrightarrow> s16 x = x"
  by (simp add: s16_def is_s16_def)

lemma s32_id: "is_s32 x \<Longrightarrow> s32 x = x"
  by (simp add: s32_def is_s32_def)

lemma u32_id: "is_u32 x \<Longrightarrow> u32 x = x"
  by (simp add: u32_def is_u32_def)

lemma s16_s16 [simp]: "s16 (s16 x) = s16 x"
  by (rule s16_id) simp

lemma s32_s32 [simp]: "s32 (s32 x) = s32 x"
  by (rule s32_id) simp

lemma s32_s16 [simp]: "s32 (s16 x) = s16 x"
  by (rule s32_id) (simp add: is_s32_def order.trans [OF _ s16_bounds(1)] order.trans [OF s16_bounds(2)])

lemma is_s16_s32: "is_s16 x \<Longrightarrow> is_s32 x"
  by (simp add: is_s16_def is_s32_def)

lemma asr_0 [simp]: "asr 0 n = 0" "asr x 0 = x"
  by (simp_all add: asr_def)

lemma asr_mono: "x \<le> y \<Longrightarrow> asr x n \<le> asr y n"
  by (simp add: asr_def zdiv_mono1)

lemma asr_nonneg: "0 \<le> x \<Longrightarrow> 0 \<le> asr x n"
  by (simp add: asr_def pos_imp_zdiv_nonneg_iff)

lemma cdiv_nonneg: "0 \<le> a \<Longrightarrow> 0 \<le> b \<Longrightarrow> cdiv a b = a div b"
  by (cases "a = 0"; cases "b = 0") (auto simp: cdiv_def)

lemma size_range_gt: "k \<le> 4294967296 \<Longrightarrow> k < size_range"
proof -
  assume "k \<le> 4294967296"
  also have "(4294967296::nat) = 2 ^ 32" by simp
  also have "(2::nat) ^ 32 < 2 ^ 64" by (rule power_strict_increasing) simp_all
  finally show ?thesis by (simp only: size_range_def)
qed

lemma size_range_gt40: "k \<le> 1099511627776 \<Longrightarrow> k < size_range"
proof -
  assume "k \<le> 1099511627776"
  also have "(1099511627776::nat) = 2 ^ 40" by simp
  also have "\<dots> < size_range" unfolding size_range_def by (rule power_strict_increasing) simp_all
  finally show ?thesis .
qed

lemma sz_add_id: "a + b < size_range \<Longrightarrow> sz_add a b = a + b"
  by (simp add: sz_add_def)

lemma sz_sub_id: "b \<le> a \<Longrightarrow> a < size_range \<Longrightarrow> sz_sub a b = a - b"
proof -
  assume "b \<le> a" and a: "a < size_range"
  then have "a + size_range - b = (a - b) + size_range" by linarith
  moreover have "(a - b) mod size_range = a - b" using a by (intro mod_less) linarith
  ultimately show ?thesis by (simp only: sz_sub_def mod_add_self2)
qed

lemma sz_mul_id: "a * b < size_range \<Longrightarrow> sz_mul a b = a * b"
  by (simp add: sz_mul_def)

lemma sz_of_int_id: "0 \<le> x \<Longrightarrow> x < int size_range \<Longrightarrow> sz_of_int x = nat x"
  by (simp add: sz_of_int_def)

lemma memcpy_Some:
  "d + n \<le> length dst \<Longrightarrow> s + n \<le> length src \<Longrightarrow>
   memcpy dst d src s n = Some (take d dst @ take n (drop s src) @ drop (d + n) dst)"
  by (simp add: memcpy_def)

lemma length_memcpy: "memcpy dst d src s n = Some dst' \<Longrightarrow> length dst' = length dst"
  by (auto simp: memcpy_def split: if_splits)

lemma length_memset: "memset dst d v n = Some dst' \<Longrightarrow> length dst' = length dst"
  by (auto simp: memset_def split: if_splits)

section \<open>Arrays\<close>

text \<open>Access to an array by index; out of its bounds it is \<open>None\<close>.\<close>

definition fetch :: "'a list \<Rightarrow> nat \<Rightarrow> 'a option" where
  "fetch xs i = (if i < length xs then Some (xs ! i) else None)"

definition store :: "'a list \<Rightarrow> nat \<Rightarrow> 'a \<Rightarrow> 'a list option" where
  "store xs i v = (if i < length xs then Some (xs[i := v]) else None)"

lemma fetch_less [simp]: "i < length xs \<Longrightarrow> fetch xs i = Some (xs ! i)"
  by (simp add: fetch_def)

lemma store_less [simp]: "i < length xs \<Longrightarrow> store xs i v = Some (xs[i := v])"
  by (simp add: store_def)

section \<open>Words as numbers\<close>

lemma unat_less_16: "unat (w :: 16 word) < 65536"
  using unsigned_less [of w, where 'a = nat] by simp

lemma unat_less_32: "unat (w :: 32 word) < 4294967296"
  using unsigned_less [of w, where 'a = nat] by simp

lemma unat_low: "n < LENGTH('a) \<Longrightarrow> unat (w AND mask n :: 'a :: len word) = unat w mod 2 ^ n"
  unfolding take_bit_eq_mask [symmetric] unsigned_take_bit_eq by (simp only: take_bit_eq_mod)

lemma unat_high: "unat (drop_bit n w :: 'a :: len word) = unat w div 2 ^ n"
  unfolding unat_drop_bit_eq by (simp only: drop_bit_eq_div)

lemma unat_up: "LENGTH('a) \<le> LENGTH('b) \<Longrightarrow> unat (ucast (w :: 'a :: len word) :: 'b :: len word) = unat w"
  unfolding unsigned_ucast_eq by (rule take_bit_nat_eq_self) (rule less_le_trans [OF unsigned_less], simp)

lemma unat_down: "unat (ucast (w :: 'a :: len word) :: 'b :: len word) = unat w mod 2 ^ LENGTH('b)"
  unfolding unsigned_ucast_eq by (simp only: take_bit_eq_mod)

lemma unat_shift: "unat (push_bit n w :: 'a :: len word) = unat w * 2 ^ n mod 2 ^ LENGTH('a)"
  unfolding unsigned_push_bit_eq by (simp only: push_bit_eq_mult take_bit_eq_mod)

lemma nat_or_add: "y < 2 ^ n \<Longrightarrow> (x * 2 ^ n OR y) = x * 2 ^ n + (y :: nat)"
proof -
  assume y: "y < 2 ^ n"
  have "push_bit n x OR y = push_bit n x + y"
  proof (rule disjunctive_add_eq_or [symmetric], rule bit_eqI)
    fix k
    have "bit y k \<Longrightarrow> k < n" using y by (metis bit_take_bit_iff take_bit_nat_eq_self)
    then show "bit (push_bit n x AND y) k = bit 0 k" by (auto simp: bit_simps)
  qed
  then show ?thesis by (simp add: push_bit_eq_mult)
qed

end
