(* ===== verification/Stream_Buffer.thy ===== *)
theory Stream_Buffer
  imports C_Prelude
begin

text \<open>
  The contract of a bounded byte queue, as the audio code uses one: \<open>put\<close> accepts a prefix of
  what it is offered, as much as there is room for, \<open>get\<close> removes from the front.  Sizes are in
  granules of \<open>granule q\<close> items.  The client's theorem is proved once, for every implementation:
  over any sequence of calls the stream that comes out, followed by what is still queued, is
  what was queued at the start followed by what was accepted.  A second locale adds the capacity;
  its implementations run every sequence of calls as a list bounded by the capacity does, so that any two of them
  are interchangeable.
\<close>

datatype 'a stream_op = Put "'a list" nat | Get nat

text \<open>A run returns what was accepted, what was read, and the final state.\<close>

fun run_ops ::
    "('q \<Rightarrow> nat) \<Rightarrow> ('q \<Rightarrow> 'a list \<Rightarrow> nat \<Rightarrow> (nat \<times> 'q) option) \<Rightarrow>
     ('q \<Rightarrow> nat \<Rightarrow> ('a list \<times> 'q) option) \<Rightarrow> 'q \<Rightarrow> 'a stream_op list \<Rightarrow>
     ('a list \<times> 'a list \<times> 'q) option" where
  "run_ops granule put get q [] = Some ([], [], q)"
| "run_ops granule put get q (Put xs n # ops) = do {
     (k, q1) \<leftarrow> put q xs n;
     (acc, out, q2) \<leftarrow> run_ops granule put get q1 ops;
     Some (take (k * granule q) xs @ acc, out, q2)
   }"
| "run_ops granule put get q (Get n # ops) = do {
     (ys, q1) \<leftarrow> get q n;
     (acc, out, q2) \<leftarrow> run_ops granule put get q1 ops;
     Some (acc, ys @ out, q2)
   }"

text \<open>An offered block holds the granules it is said to hold.\<close>

fun op_ok :: "nat \<Rightarrow> 'a stream_op \<Rightarrow> bool" where
  "op_ok g (Put xs n) = (n * g \<le> length xs)"
| "op_ok g (Get n) = True"

locale stream_buffer =
  fixes invar :: "'q \<Rightarrow> bool" and queued :: "'q \<Rightarrow> 'a list"
    and granule :: "'q \<Rightarrow> nat" and room :: "'q \<Rightarrow> nat"
    and put :: "'q \<Rightarrow> 'a list \<Rightarrow> nat \<Rightarrow> (nat \<times> 'q) option"
    and get :: "'q \<Rightarrow> nat \<Rightarrow> ('a list \<times> 'q) option"
  assumes put_law: "invar q \<Longrightarrow> n * granule q \<le> length xs \<Longrightarrow>
      \<exists>q'. put q xs n = Some (min n (room q), q') \<and> invar q' \<and> granule q' = granule q \<and>
           queued q' = queued q @ take (min n (room q) * granule q) xs"
    and get_law: "invar q \<Longrightarrow>
      \<exists>q'. get q n = Some (take (n * granule q) (queued q), q') \<and> invar q' \<and>
           granule q' = granule q \<and> queued q' = drop (n * granule q) (queued q)"
begin

lemma run_conserves:
  assumes "invar q" and "list_all (op_ok (granule q)) ops"
  shows "\<exists>acc out q'. run_ops granule put get q ops = Some (acc, out, q') \<and> invar q' \<and>
    queued q @ acc = out @ queued q'"
  using assms
proof (induction ops arbitrary: q)
  case Nil
  then show ?case by simp
next
  case (Cons op ops)
  show ?case
  proof (cases op)
    case (Put xs n)
    with Cons.prems put_law [of q n xs] obtain q1 where q1:
        "put q xs n = Some (min n (room q), q1)" "invar q1" "granule q1 = granule q"
        "queued q1 = queued q @ take (min n (room q) * granule q) xs"
      by auto
    with Cons.IH [of q1] Cons.prems obtain acc out q2 where
        "run_ops granule put get q1 ops = Some (acc, out, q2)" "invar q2"
        "queued q1 @ acc = out @ queued q2"
      by auto
    with q1 show ?thesis by (simp add: Put)
  next
    case (Get n)
    with Cons.prems get_law [of q n] obtain q1 where q1:
        "get q n = Some (take (n * granule q) (queued q), q1)" "invar q1" "granule q1 = granule q"
        "queued q1 = drop (n * granule q) (queued q)"
      by auto
    with Cons.IH [of q1] Cons.prems obtain acc out q2 where r:
        "run_ops granule put get q1 ops = Some (acc, out, q2)" "invar q2"
        "queued q1 @ acc = out @ queued q2"
      by auto
    have "queued q @ acc = take (n * granule q) (queued q) @ queued q1 @ acc"
      by (simp add: q1(4))
    with q1 r show ?thesis by (simp add: Get)
  qed
qed

end

text \<open>The reference: a list of at most \<open>c\<close> granules of \<open>g\<close> items, and what a sequence of calls
  accepts, hands out and leaves.\<close>

fun queue_ops :: "nat \<Rightarrow> nat \<Rightarrow> 'a list \<Rightarrow> 'a stream_op list \<Rightarrow> 'a list \<times> 'a list \<times> 'a list" where
  "queue_ops c g q [] = ([], [], q)"
| "queue_ops c g q (Put xs n # ops) =
     (let ys = take (min n (c - length q div g) * g) xs; (acc, out, q') = queue_ops c g (q @ ys) ops
      in (ys @ acc, out, q'))"
| "queue_ops c g q (Get n # ops) =
     (let (acc, out, q') = queue_ops c g (drop (n * g) q) ops in (acc, take (n * g) q @ out, q'))"

locale bounded_buffer = stream_buffer +
  fixes capacity :: nat and item :: nat
  assumes granule_law: "invar q \<Longrightarrow> granule q = item"
    and room_law: "invar q \<Longrightarrow> room q = capacity - length (queued q) div item"
begin

lemma run_refines:
  assumes "invar q" and "list_all (op_ok item) ops" and "queue_ops capacity item (queued q) ops = (acc, out, c)"
  shows "\<exists>q'. run_ops granule put get q ops = Some (acc, out, q') \<and> invar q' \<and> queued q' = c"
  using assms
proof (induction ops arbitrary: q acc out)
  case Nil
  then show ?case by simp
next
  case (Cons op ops)
  note g = granule_law [OF Cons.prems(1)]
  show ?case
  proof (cases op)
    case (Put xs n)
    with Cons.prems put_law [of q n xs] obtain q1 where q1:
        "put q xs n = Some (min n (room q), q1)" "invar q1"
        "queued q1 = queued q @ take (min n (room q) * item) xs"
      by (auto simp: g)
    with Cons.IH [OF q1(2)] Cons.prems show ?thesis
      by (auto simp: Put g room_law [OF Cons.prems(1)] Let_def split: prod.splits)
  next
    case (Get n)
    with Cons.prems get_law [of q n] obtain q1 where q1:
        "get q n = Some (take (n * item) (queued q), q1)" "invar q1" "queued q1 = drop (n * item) (queued q)"
      by (auto simp: g)
    with Cons.IH [OF q1(2)] Cons.prems show ?thesis by (auto simp: Get split: prod.splits)
  qed
qed

end

end
