(* ===== verification/Ring_Buffer.thy ===== *)
theory Ring_Buffer
  imports C_Prelude Stream_Buffer
begin

text \<open>
  The ring buffer of \<^verbatim>\<open>common_audio/ring_buffer.c\<close>: a block of
  \<open>element_count * element_size\<close> bytes, a read and a write position in elements, and a flag
  that tells a full buffer from an empty one.

  A pointer argument that may be \<open>NULL\<close> is an \<open>option\<close>.  An operation that touches memory
  returns \<open>None\<close> when an access leaves its block.  \<open>contents\<close> is the abstraction: the unread
  bytes in the order they will be read.
\<close>

section \<open>State\<close>

datatype wrap = SAME_WRAP | DIFF_WRAP

record ring_buffer =
  read_pos :: nat
  write_pos :: nat
  element_count :: nat
  element_size :: nat
  rw_wrap :: wrap
  data :: "byte list"

text \<open>
  What \<open>GetBufferReadRegions\<close> returns: the count and the one or two regions, each a byte
  offset into \<open>data\<close> and a length in bytes.
\<close>

record read_regions =
  read_elements :: nat
  data_ptr_1 :: nat
  data_ptr_bytes_1 :: nat
  data_ptr_2 :: "nat option"
  data_ptr_bytes_2 :: nat

text \<open>
  The pointer \<open>WebRtc_ReadBuffer\<close> hands out: \<open>NULL\<close>, an offset into the buffer's own block,
  or the caller's block.
\<close>

datatype read_ptr = Null_ptr | Buffer_ptr nat | Data_ptr

section \<open>Operations\<close>

definition WebRtc_available_read :: "ring_buffer option \<Rightarrow> nat" where
  "WebRtc_available_read self =
     (case self of
        None \<Rightarrow> 0
      | Some b \<Rightarrow>
          (if rw_wrap b = SAME_WRAP then sz_sub (write_pos b) (read_pos b)
           else sz_add (sz_sub (element_count b) (read_pos b)) (write_pos b)))"

definition WebRtc_available_write :: "ring_buffer option \<Rightarrow> nat" where
  "WebRtc_available_write self =
     (case self of
        None \<Rightarrow> 0
      | Some b \<Rightarrow> sz_sub (element_count b) (WebRtc_available_read self))"

definition GetBufferReadRegions :: "ring_buffer \<Rightarrow> nat \<Rightarrow> read_regions" where
  "GetBufferReadRegions buf n =
     (let readable = WebRtc_available_read (Some buf);
          read = (if readable < n then readable else n);
          margin = sz_sub (element_count buf) (read_pos buf)
      in if read > margin
         then \<lparr>read_elements = read,
               data_ptr_1 = sz_mul (read_pos buf) (element_size buf),
               data_ptr_bytes_1 = sz_mul margin (element_size buf),
               data_ptr_2 = Some 0,
               data_ptr_bytes_2 = sz_mul (sz_sub read margin) (element_size buf)\<rparr>
         else \<lparr>read_elements = read,
               data_ptr_1 = sz_mul (read_pos buf) (element_size buf),
               data_ptr_bytes_1 = sz_mul read (element_size buf),
               data_ptr_2 = None,
               data_ptr_bytes_2 = 0\<rparr>)"

definition WebRtc_InitBuffer :: "ring_buffer \<Rightarrow> ring_buffer option" where
  "WebRtc_InitBuffer self = do {
     d \<leftarrow> memset (data self) 0 0 (sz_mul (element_count self) (element_size self));
     Some (self\<lparr>read_pos := 0, write_pos := 0, rw_wrap := SAME_WRAP, data := d\<rparr>)
   }"

text \<open>
  \<open>malloc\<close> is a parameter: it returns a block of the requested size with arbitrary contents,
  or \<open>None\<close> for \<open>NULL\<close>.  The outer \<open>option\<close> of the result is the memory fault, the inner one
  the \<open>NULL\<close> that reports a failed creation.
\<close>

definition sizeof_RingBuffer :: nat where
  "sizeof_RingBuffer = 48"

definition WebRtc_CreateBuffer ::
    "(nat \<Rightarrow> byte list option) \<Rightarrow> nat \<Rightarrow> nat \<Rightarrow> ring_buffer option option" where
  "WebRtc_CreateBuffer malloc n sz =
     (if n = 0 \<or> sz = 0 then Some None
      else case malloc sizeof_RingBuffer of
             None \<Rightarrow> Some None
           | Some _ \<Rightarrow>
               (case malloc (sz_mul n sz) of
                  None \<Rightarrow> Some None
                | Some block \<Rightarrow>
                    map_option Some (WebRtc_InitBuffer
                      \<lparr>read_pos = 0, write_pos = 0, element_count = n, element_size = sz,
                       rw_wrap = SAME_WRAP, data = block\<rparr>)))"

definition WebRtc_MoveReadPtr :: "ring_buffer option \<Rightarrow> int \<Rightarrow> int \<times> ring_buffer option" where
  "WebRtc_MoveReadPtr self n =
     (case self of
        None \<Rightarrow> (0, None)
      | Some b \<Rightarrow>
          (let free_elements = s32 (int (WebRtc_available_write self));
               readable_elements = s32 (int (WebRtc_available_read self));
               pos = s32 (int (read_pos b));
               n1 = (if n > readable_elements then readable_elements else n);
               n2 = (if n1 < s32 (- free_elements) then s32 (- free_elements) else n1);
               pos1 = s32 (pos + n2);
               (pos2, wrap2) =
                 (if pos1 > s32 (int (element_count b))
                  then (s32 (pos1 - s32 (int (element_count b))), SAME_WRAP)
                  else (pos1, rw_wrap b));
               (pos3, wrap3) =
                 (if pos2 < 0
                  then (s32 (pos2 + s32 (int (element_count b))), DIFF_WRAP)
                  else (pos2, wrap2))
           in (n2, Some (b\<lparr>read_pos := sz_of_int pos3, rw_wrap := wrap3\<rparr>))))"

text \<open>
  \<open>WebRtc_ReadBuffer self data_ptr data n\<close>: \<open>data_ptr\<close> tells whether the caller passed a
  non-null \<open>data_ptr\<close>.  The result is the count, the value stored in \<open>*data_ptr\<close> (\<open>None\<close>
  when nothing is stored), the caller's block and the buffer afterwards.
\<close>

definition WebRtc_ReadBuffer ::
    "ring_buffer option \<Rightarrow> bool \<Rightarrow> byte list option \<Rightarrow> nat \<Rightarrow>
     (nat \<times> read_ptr option \<times> byte list option \<times> ring_buffer option) option" where
  "WebRtc_ReadBuffer self data_ptr dst n =
     (case self of
        None \<Rightarrow> Some (0, None, dst, None)
      | Some b \<Rightarrow>
          (case dst of
             None \<Rightarrow> Some (0, None, None, self)
           | Some blk \<Rightarrow>
               (let r = GetBufferReadRegions b n in do {
                  (blk', ptr) \<leftarrow>
                    (if data_ptr_bytes_2 r > 0 then do {
                       b1 \<leftarrow> memcpy blk 0 (data b) (data_ptr_1 r) (data_ptr_bytes_1 r);
                       p2 \<leftarrow> data_ptr_2 r;
                       b2 \<leftarrow> memcpy b1 (data_ptr_bytes_1 r) (data b) p2 (data_ptr_bytes_2 r);
                       Some (b2, Data_ptr)
                     } else if \<not> data_ptr then do {
                       b1 \<leftarrow> memcpy blk 0 (data b) (data_ptr_1 r) (data_ptr_bytes_1 r);
                       Some (b1, Buffer_ptr (data_ptr_1 r))
                     } else Some (blk, Buffer_ptr (data_ptr_1 r)));
                  Some (read_elements r,
                        (if data_ptr then Some (if read_elements r = 0 then Null_ptr else ptr)
                         else None),
                        Some blk',
                        snd (WebRtc_MoveReadPtr self (s32 (int (read_elements r)))))
                })))"

definition WebRtc_WriteBuffer ::
    "ring_buffer option \<Rightarrow> byte list option \<Rightarrow> nat \<Rightarrow> (nat \<times> ring_buffer option) option" where
  "WebRtc_WriteBuffer self src n =
     (case self of
        None \<Rightarrow> Some (0, None)
      | Some b \<Rightarrow>
          (case src of
             None \<Rightarrow> Some (0, self)
           | Some s \<Rightarrow>
               (let free_elements = WebRtc_available_write self;
                    write_elements = (if free_elements < n then free_elements else n);
                    margin = sz_sub (element_count b) (write_pos b) in do {
                  (b1, n1) \<leftarrow>
                    (if write_elements > margin then do {
                       d \<leftarrow> memcpy (data b) (sz_mul (write_pos b) (element_size b)) s 0
                                   (sz_mul margin (element_size b));
                       Some (b\<lparr>data := d, write_pos := 0, rw_wrap := DIFF_WRAP\<rparr>,
                             sz_sub write_elements margin)
                     } else Some (b, write_elements));
                  d \<leftarrow> memcpy (data b1) (sz_mul (write_pos b1) (element_size b1)) s
                              (sz_mul (sz_sub write_elements n1) (element_size b1))
                              (sz_mul n1 (element_size b1));
                  Some (write_elements,
                        Some (b1\<lparr>data := d, write_pos := sz_add (write_pos b1) n1\<rparr>))
                })))"


section \<open>Abstraction and invariant\<close>

definition available :: "ring_buffer \<Rightarrow> nat" where
  "available b =
     (if rw_wrap b = SAME_WRAP then write_pos b - read_pos b
      else element_count b - read_pos b + write_pos b)"

text \<open>The whole block in ring order, from the read position on, and its unread part.\<close>

definition ring_order :: "ring_buffer \<Rightarrow> byte list" where
  "ring_order b = rotate (read_pos b * element_size b) (data b)"

definition contents :: "ring_buffer \<Rightarrow> byte list" where
  "contents b = take (available b * element_size b) (ring_order b)"

definition free_area :: "ring_buffer \<Rightarrow> byte list" where
  "free_area b = drop (available b * element_size b) (ring_order b)"

definition rb_inv :: "ring_buffer \<Rightarrow> bool" where
  "rb_inv b \<longleftrightarrow>
     0 < element_count b \<and> 0 < element_size b \<and>
     2 * element_count b < 2147483648 \<and> element_count b * element_size b < size_range \<and>
     length (data b) = element_count b * element_size b \<and>
     read_pos b \<le> element_count b \<and> write_pos b \<le> element_count b \<and>
     (if rw_wrap b = SAME_WRAP then read_pos b \<le> write_pos b else write_pos b \<le> read_pos b)"

section \<open>Lemmas on rotated blocks\<close>

lemma rotate_le: "m \<le> length xs \<Longrightarrow> rotate m xs = drop m xs @ take m xs"
  by (cases "m = length xs") (simp_all add: rotate_drop_take)

lemma rotate_add_length: "rotate (m + length xs) xs = rotate m xs"
  by (simp add: rotate_drop_take)

lemma take_rotated_back:
  assumes "length W = N" "A + M \<le> N"
  shows "take (A + M) (drop (N - M) W @ take (N - M) W) = drop (N - M) W @ take A W"
proof -
  have "N - (N - M) = M" "A \<le> N - M" using assms by linarith+
  then show ?thesis using assms(1) by simp
qed

lemma rotate_prefix: "length A = a \<Longrightarrow> rotate a (A @ R) = R @ A"
  by (auto simp: rotate_append)

lemma split_at:
  assumes "m \<le> length d"
  obtains A R where "d = A @ R" "length A = m"
proof (rule that)
  show "d = take m d @ drop m d" by simp
  show "length (take m d) = m" using assms by simp
qed

text \<open>Overwriting \<open>k\<close> bytes at the write position is appending to the unread part.\<close>

lemma rotate_write_straight:
  assumes s: "length s = k" and k: "w + k \<le> length d" and a: "a \<le> w"
  shows "rotate a (take w d @ s @ drop (w + k) d) =
         take (w - a) (rotate a d) @ s @ drop (w - a + k) (rotate a d)"
proof -
  from k a have "a \<le> length d" by simp
  then obtain A R where d: "d = A @ R" "length A = a" by (rule split_at)
  with k a have "w - a \<le> length R" by simp
  then obtain B R' where R: "R = B @ R'" "length B = w - a" by (rule split_at)
  with k a d have "k \<le> length R'" by simp
  then obtain C D where R': "R' = C @ D" "length C = k" by (rule split_at)
  have "rotate a d = B @ C @ D @ A" by (simp add: d R R' rotate_prefix)
  moreover have "take w d @ s @ drop (w + k) d = A @ B @ s @ D"
    using a by (simp add: d R R')
  ultimately show ?thesis
    by (simp only: rotate_prefix [OF d(2)]) (simp add: R(2) R'(2))
qed

lemma rotate_write_behind:
  assumes s: "length s = k" and k: "w + k \<le> a" and a: "a \<le> length d"
  shows "rotate a (take w d @ s @ drop (w + k) d) =
         take (length d - a + w) (rotate a d) @ s @ drop (length d - a + w + k) (rotate a d)"
proof -
  from k a have "w \<le> length d" by simp
  then obtain B R where d: "d = B @ R" "length B = w" by (rule split_at)
  with k a have "k \<le> length R" by simp
  then obtain C R' where R: "R = C @ R'" "length C = k" by (rule split_at)
  with k a d have "a - w - k \<le> length R'" by simp
  then obtain E D where R': "R' = E @ D" "length E = a - w - k" by (rule split_at)
  have aeq: "a = length (B @ C @ E)" "a = length (B @ s @ E)" using k s by (simp_all add: d R R')
  have "rotate a d = D @ B @ C @ E"
    using rotate_prefix [OF aeq(1) [symmetric], of D] by (simp add: d R R')
  moreover have "take w d @ s @ drop (w + k) d = (B @ s @ E) @ D"
    by (simp add: d R R')
  ultimately show ?thesis
    using rotate_prefix [OF aeq(2) [symmetric], of D] k by (simp add: d R R')
qed


lemma rotate_write_wrapped:
  assumes s: "length s1 = m" "length s2 = k" and w: "w + m = length d" and a: "a \<le> w" "k \<le> a"
  shows "rotate a (s2 @ drop k (take w d @ s1)) =
         take (w - a) (rotate a d) @ s1 @ s2 @ drop (length d - a + k) (rotate a d)"
proof -
  from w a have "k \<le> length d" by simp
  then obtain C R where d: "d = C @ R" "length C = k" by (rule split_at)
  with w a have "a - k \<le> length R" by simp
  then obtain E R' where R: "R = E @ R'" "length E = a - k" by (rule split_at)
  with w a d have "w - a \<le> length R'" by simp
  then obtain B M where R': "R' = B @ M" "length B = w - a" by (rule split_at)
  have m: "length M = m" using w a by (simp add: d R R')
  have ae: "length (C @ E) = a" "length (s2 @ E) = a" using a s by (simp_all add: d R)
  have "rotate a d = B @ M @ C @ E"
    using rotate_prefix [OF ae(1), of "B @ M"] by (simp add: d R R')
  moreover have "s2 @ drop k (take w d @ s1) = (s2 @ E) @ B @ s1"
    using a w by (simp add: d R R')
  moreover have "length d - a + k = (w - a) + (m + k)" using w a by linarith
  ultimately show ?thesis
    by (simp only: rotate_prefix [OF ae(2)]) (simp add: R'(2) m d(2))
qed

section \<open>The operations without wrap-around\<close>

lemma rb_invD:
  assumes "rb_inv b"
  shows "0 < element_count b" "0 < element_size b" "2 * element_count b < 2147483648"
    "element_count b * element_size b < size_range"
    "length (data b) = element_count b * element_size b"
    "read_pos b \<le> element_count b" "write_pos b \<le> element_count b"
    "rw_wrap b = SAME_WRAP \<Longrightarrow> read_pos b \<le> write_pos b"
    "rw_wrap b \<noteq> SAME_WRAP \<Longrightarrow> write_pos b \<le> read_pos b"
  using assms by (simp_all add: rb_inv_def)

lemma count_lt_size_t: "rb_inv b \<Longrightarrow> element_count b < size_range"
  by (drule rb_invD(3)) (simp add: size_range_gt)

lemma available_le: "rb_inv b \<Longrightarrow> available b \<le> element_count b"
  using rb_invD(6-9) [of b] by (auto simp: available_def)

lemma available_read [simp]: "rb_inv b \<Longrightarrow> WebRtc_available_read (Some b) = available b"
  using rb_invD(6-9) [of b] count_lt_size_t [of b] available_le [of b]
  by (auto simp: WebRtc_available_read_def available_def sz_sub_id sz_add_id)

lemma available_write [simp]:
  "rb_inv b \<Longrightarrow> WebRtc_available_write (Some b) = element_count b - available b"
  using count_lt_size_t [of b] available_le [of b]
  by (simp add: WebRtc_available_write_def sz_sub_id)

lemma sz_mul_size:
  assumes "rb_inv b" "n \<le> element_count b"
  shows "sz_mul n (element_size b) = n * element_size b"
proof (rule sz_mul_id)
  have "n * element_size b \<le> element_count b * element_size b"
    using assms(2) by simp
  also have "\<dots> < size_range" using rb_invD(4) [OF assms(1)] .
  finally show "n * element_size b < size_range" .
qed

text \<open>The move that \<open>WebRtc_MoveReadPtr\<close> performs once its argument is clipped.\<close>

definition clipped :: "ring_buffer \<Rightarrow> int \<Rightarrow> int" where
  "clipped b n = max (min n (int (available b))) (- int (element_count b - available b))"

definition moved :: "ring_buffer \<Rightarrow> int \<Rightarrow> ring_buffer" where
  "moved b m =
     (let p = int (read_pos b) + m; c = int (element_count b)
      in if p > c then b\<lparr>read_pos := nat (p - c), rw_wrap := SAME_WRAP\<rparr>
         else if p < 0 then b\<lparr>read_pos := nat (p + c), rw_wrap := DIFF_WRAP\<rparr>
         else b\<lparr>read_pos := nat p\<rparr>)"

lemma clipped_bounds:
  "rb_inv b \<Longrightarrow> - int (element_count b - available b) \<le> clipped b n"
  "rb_inv b \<Longrightarrow> clipped b n \<le> int (available b)"
  by (auto simp: clipped_def)

lemma MoveReadPtr_eq:
  assumes inv: "rb_inv b" and n: "is_s32 n"
  shows "WebRtc_MoveReadPtr (Some b) n = (clipped b n, Some (moved b (clipped b n)))"
proof -
  note bnd = rb_invD(1,3,6) [OF inv] available_le [OF inv]
  have small [simp]: "s32 (int k) = int k" "s32 (- int k) = - int k" if "k \<le> element_count b" for k
    using that bnd by (auto intro!: s32_id simp: is_s32_def)
  have m: "(if (if n > int (available b) then int (available b) else n) < - int (element_count b - available b)
            then - int (element_count b - available b)
            else if n > int (available b) then int (available b) else n) = clipped b n"
    using bnd by (auto simp: clipped_def)
  have p: "s32 (int (read_pos b) + clipped b n) = int (read_pos b) + clipped b n"
    using clipped_bounds [OF inv, of n] bnd by (auto intro!: s32_id simp: is_s32_def)
  have q: "int (read_pos b) + clipped b n > int (element_count b) \<Longrightarrow>
      s32 (int (read_pos b) + clipped b n - int (element_count b)) =
      int (read_pos b) + clipped b n - int (element_count b)"
    "int (read_pos b) + clipped b n < 0 \<Longrightarrow>
      s32 (int (read_pos b) + clipped b n + int (element_count b)) =
      int (read_pos b) + clipped b n + int (element_count b)"
    using clipped_bounds [OF inv, of n] bnd by (auto intro!: s32_id simp: is_s32_def)
  have z: "sz_of_int x = nat x" if "0 \<le> x" "x < 4294967296" for x
  proof (rule sz_of_int_id)
    have "nat x < size_range" using that by (intro size_range_gt) simp
    with that show "x < int size_range" by simp
  qed (use that in simp)
  have s: "s32 (int (available b)) = int (available b)"
    "s32 (int (element_count b)) = int (element_count b)"
    "s32 (int (read_pos b)) = int (read_pos b)"
    "s32 (int (element_count b - available b)) = int (element_count b - available b)"
    "s32 (- int (element_count b - available b)) = - int (element_count b - available b)"
    using bnd by (simp_all only: small)
  let ?p = "int (read_pos b) + clipped b n"
  have r: "- int (element_count b) \<le> ?p" "?p \<le> 2 * int (element_count b)"
    using bnd clipped_bounds [OF inv, of n] by linarith+
  have eq: "WebRtc_MoveReadPtr (Some b) n =
     (let (pos2, wrap2) = (if ?p > int (element_count b)
             then (s32 (?p - int (element_count b)), SAME_WRAP) else (?p, rw_wrap b));
          (pos3, wrap3) = (if pos2 < 0
             then (s32 (pos2 + int (element_count b)), DIFF_WRAP) else (pos2, wrap2))
      in (clipped b n, Some (b\<lparr>read_pos := sz_of_int pos3, rw_wrap := wrap3\<rparr>)))"
    unfolding WebRtc_MoveReadPtr_def option.case available_read [OF inv] available_write [OF inv]
      s Let_def [where 'a = int] m p ..
  show ?thesis
  proof (cases "?p > int (element_count b)")
    case True
    then show ?thesis using q(1) z r bnd by (simp add: eq moved_def)
  next
    case False
    then show ?thesis using q(2) z r bnd by (simp add: eq moved_def)
  qed
qed

lemma moved_fields [simp]:
  "element_count (moved b m) = element_count b" "element_size (moved b m) = element_size b"
  "write_pos (moved b m) = write_pos b" "data (moved b m) = data b"
  by (simp_all add: moved_def Let_def)


lemma moved_pos:
  assumes "rb_inv b" "- int (element_count b - available b) \<le> m" "m \<le> int (available b)"
  shows "read_pos (moved b m) \<le> element_count b \<and>
    (if rw_wrap (moved b m) = SAME_WRAP then read_pos (moved b m) \<le> write_pos b
     else write_pos b \<le> read_pos (moved b m)) \<and>
    available (moved b m) = nat (int (available b) - m)"
proof -
  note bnd = rb_invD(1,6-9) [OF assms(1)]
  consider "int (read_pos b) + m > int (element_count b)" | "int (read_pos b) + m < 0"
    | "0 \<le> int (read_pos b) + m" "int (read_pos b) + m \<le> int (element_count b)" by linarith
  then show ?thesis
  proof cases
    case 1
    moreover from 1 have "rw_wrap b \<noteq> SAME_WRAP"
      using assms(3) bnd by (auto simp: available_def)
    ultimately show ?thesis
      using assms(2,3) bnd by (simp add: moved_def available_def nat_le_iff)
  next
    case 2
    moreover from 2 have "rw_wrap b = SAME_WRAP"
      using assms(2) bnd by (auto simp: available_def of_nat_diff split: if_splits)
    ultimately show ?thesis
      using assms(2,3) bnd by (simp add: moved_def available_def of_nat_diff nat_le_iff le_nat_iff)
  next
    case 3
    then show ?thesis
      using assms(2,3) bnd
      by (cases "rw_wrap b") (simp_all add: moved_def available_def of_nat_diff nat_le_iff le_nat_iff)
  qed
qed

lemma moved_inv:
  assumes "rb_inv b" "- int (element_count b - available b) \<le> m" "m \<le> int (available b)"
  shows "rb_inv (moved b m)" and "available (moved b m) = nat (int (available b) - m)"
  using moved_pos [OF assms] assms(1) by (simp_all add: rb_inv_def)

lemma length_ring_order [simp]: "length (ring_order b) = length (data b)"
  by (simp add: ring_order_def)

lemma available_bytes: "rb_inv b \<Longrightarrow> available b * element_size b \<le> length (data b)"
  by (simp add: rb_invD(5) available_le)

lemma length_contents: "rb_inv b \<Longrightarrow> length (contents b) = available b * element_size b"
  by (simp add: contents_def available_bytes)

lemma contents_free_area: "contents b @ free_area b = ring_order b"
  by (simp add: contents_def free_area_def)

lemma moved_index:
  assumes inv: "rb_inv b" and m: "- int (element_count b) \<le> m" "m \<le> int (element_count b)"
  shows "\<exists>j. read_pos b + nat (if m < 0 then m + int (element_count b) else m) =
             read_pos (moved b m) + j * element_count b" (is "\<exists>j. ?l = ?r j")
proof -
  let ?p = "int (read_pos b) + m" and ?c = "int (element_count b)"
  note rp = rb_invD(6) [OF inv]
  consider "?p > ?c" | "?p < 0" | "0 \<le> ?p" "?p \<le> ?c" "m < 0" | "0 \<le> ?p" "?p \<le> ?c" "0 \<le> m"
    by linarith
  then have "?l = ?r 1 \<or> ?l = ?r 0"
    by cases (use rp m in \<open>auto simp: moved_def\<close>)
  then show ?thesis by blast
qed

lemma ring_order_moved:
  assumes inv: "rb_inv b" and m: "- int (element_count b) \<le> m" "m \<le> int (element_count b)"
  shows "ring_order (moved b m) =
    rotate (nat (if m < 0 then m + int (element_count b) else m) * element_size b) (ring_order b)"
proof -
  let ?N = "element_count b * element_size b" and ?z = "element_size b"
  let ?k = "nat (if m < 0 then m + int (element_count b) else m)"
  have N: "length (data b) = ?N" using rb_invD(5) [OF inv] .
  obtain j where j: "read_pos b + ?k = read_pos (moved b m) + j * element_count b"
    using moved_index [OF assms] ..
  have "rotate (?k * ?z) (ring_order b) = rotate ((read_pos b + ?k) * ?z) (data b)"
    by (simp add: ring_order_def rotate_rotate algebra_simps)
  also have "(read_pos b + ?k) * ?z = read_pos (moved b m) * ?z + j * ?N"
    unfolding j by (simp add: algebra_simps)
  also have "rotate \<dots> (data b) = rotate (read_pos (moved b m) * ?z) (data b)"
    by (subst (1 2) rotate_conv_mod) (simp add: N)
  finally show ?thesis by (simp add: ring_order_def)
qed

lemma ring_order_undo:
  assumes inv: "rb_inv b" and inv': "rb_inv (moved b m)"
    and m: "- int (element_count b) \<le> m" "m \<le> int (element_count b)"
  shows "ring_order (moved (moved b m) (- m)) = ring_order b"
proof -
  let ?c = "element_count b" and ?z = "element_size b"
  have N: "length (ring_order b) = ?c * ?z" using rb_invD(5) [OF inv] by simp
  have "ring_order (moved (moved b m) (- m)) =
      rotate (nat (if - m < 0 then - m + int ?c else - m) * ?z
              + nat (if m < 0 then m + int ?c else m) * ?z) (ring_order b)"
    using ring_order_moved [OF inv m] ring_order_moved [OF inv', of "- m"] m
    by (simp add: rotate_rotate)
  also have "nat (if - m < 0 then - m + int ?c else - m) * ?z + nat (if m < 0 then m + int ?c else m) * ?z
      = (if m = 0 then 0 else length (ring_order b))"
    unfolding N using m by (auto simp: nat_diff_distrib' simp flip: add_mult_distrib)
  finally show ?thesis by simp
qed

lemma contents_moved_forward:
  assumes inv: "rb_inv b" and m: "m \<le> available b"
  shows "contents (moved b (int m)) = drop (m * element_size b) (contents b)"
proof -
  let ?z = "element_size b"
  have le: "m * ?z \<le> length (data b)"
    using m available_bytes [OF inv] by (meson le_trans mult_le_mono1)
  have "ring_order (moved b (int m)) = drop (m * ?z) (ring_order b) @ take (m * ?z) (ring_order b)"
    using ring_order_moved [OF inv, of "int m"] m available_le [OF inv] le by (simp add: rotate_le)
  moreover have "available (moved b (int m)) = available b - m"
    using moved_inv(2) [OF inv, of "int m"] m by simp
  moreover have "(available b - m) * ?z \<le> length (data b) - m * ?z"
    using available_bytes [OF inv] by (simp add: diff_mult_distrib)
  ultimately show ?thesis
    by (simp add: contents_def drop_take diff_mult_distrib)
qed

lemma contents_moved_back:
  assumes inv: "rb_inv b" and m: "0 < m" "m \<le> element_count b - available b"
  shows "contents (moved b (- int m)) =
    drop (length (free_area b) - m * element_size b) (free_area b) @ contents b"
proof -
  let ?z = "element_size b" and ?W = "ring_order b"
  let ?A = "available b * ?z" and ?M = "m * ?z" and ?N = "element_count b * ?z"
  have N: "length (data b) = ?N" using rb_invD(5) [OF inv] .
  have AM: "?A + ?M \<le> ?N"
    using mult_le_mono1 [of "available b + m" "element_count b" ?z] m available_le [OF inv]
    by (simp add: add_mult_distrib)
  have "nat (- int m + int (element_count b)) = element_count b - m" by linarith
  then have k: "nat (- int m + int (element_count b)) * ?z = ?N - ?M"
    by (simp only: diff_mult_distrib)
  have "ring_order (moved b (- int m)) = drop (?N - ?M) ?W @ take (?N - ?M) ?W"
    using ring_order_moved [OF inv, of "- int m"] m k N by (simp add: rotate_le)
  moreover have "available (moved b (- int m)) * ?z = ?A + ?M"
    using moved_inv(2) [OF inv, of "- int m"] m available_le [OF inv]
    by (simp add: nat_int_add add_mult_distrib)
  moreover have "take (?A + ?M) (drop (?N - ?M) ?W @ take (?N - ?M) ?W) =
      drop (?N - ?M) ?W @ take ?A ?W"
    using AM N by (intro take_rotated_back) simp_all
  moreover have "length (free_area b) - ?M + ?A = ?N - ?M"
    using AM N by (simp add: free_area_def)
  ultimately show ?thesis
    by (simp add: contents_def free_area_def add.commute)
qed


text \<open>A write appends to the unread part, whichever of the three layouts it meets.\<close>

lemma WriteBuffer_straight:
  assumes inv: "rb_inv b" and k: "k = min n (element_count b - available b)"
    and s: "k * element_size b \<le> length s" and fits: "k \<le> element_count b - write_pos b"
  shows "WebRtc_WriteBuffer (Some b) (Some s) n =
    Some (k, Some (b\<lparr>data := take (write_pos b * element_size b) (data b)
                          @ take (k * element_size b) s
                          @ drop (write_pos b * element_size b + k * element_size b) (data b),
                     write_pos := write_pos b + k\<rparr>))"
proof -
  let ?z = "element_size b"
  note szc = count_lt_size_t [OF inv]
  have wp: "write_pos b + k \<le> element_count b" using fits rb_invD(7) [OF inv] by linarith
  have le: "write_pos b * ?z + k * ?z \<le> length (data b)"
    using mult_le_mono1 [OF wp, of ?z] rb_invD(5) [OF inv] by (simp add: add_mult_distrib)
  have kk: "(if element_count b - available b < n then element_count b - available b else n) = k"
    using k by simp
  have "sz_sub (element_count b) (write_pos b) = element_count b - write_pos b"
    using rb_invD(7) [OF inv] szc by (rule sz_sub_id)
  moreover have "sz_sub k k = 0" using wp szc by (simp add: sz_sub_id)
  moreover have "sz_add (write_pos b) k = write_pos b + k" using wp szc by (intro sz_add_id) simp
  moreover have "sz_mul k ?z = k * ?z" "sz_mul (write_pos b) ?z = write_pos b * ?z" "sz_mul 0 ?z = 0"
    using sz_mul_size [OF inv] wp by simp_all
  ultimately show ?thesis
    using inv fits le s by (simp add: WebRtc_WriteBuffer_def kk memcpy_Some)
qed

lemma WriteBuffer_wrap:
  assumes inv: "rb_inv b" and k: "k = min n (element_count b - available b)"
    and s: "k * element_size b \<le> length s" and wrap: "k > element_count b - write_pos b"
  defines "mg \<equiv> element_count b - write_pos b"
  defines "d1 \<equiv> take (write_pos b * element_size b) (data b) @ take (mg * element_size b) s"
  shows "WebRtc_WriteBuffer (Some b) (Some s) n =
    Some (k, Some (b\<lparr>data := take ((k - mg) * element_size b) (drop (mg * element_size b) s)
                          @ drop ((k - mg) * element_size b) d1,
                     write_pos := k - mg, rw_wrap := DIFF_WRAP\<rparr>))"
proof -
  let ?z = "element_size b"
  note szc = count_lt_size_t [OF inv]
  have kc: "k \<le> element_count b" using k by simp
  have mg: "mg < k" "mg + write_pos b = element_count b"
    using wrap rb_invD(7) [OF inv] by (simp_all add: mg_def)
  have le: "mg * ?z + write_pos b * ?z = length (data b)"
    using mg(2) rb_invD(5) [OF inv] by (metis add_mult_distrib)
  have kz: "(k - mg) * ?z + mg * ?z = k * ?z" using mg(1) by (metis add_mult_distrib le_add_diff_inverse2 less_imp_le)
  have "k - mg \<le> element_count b" using kc by linarith
  then have kle: "(k - mg) * ?z \<le> length (data b)"
    unfolding rb_invD(5) [OF inv] by (rule mult_le_mono1)
  have len1: "length d1 = length (data b)" using le s kz by (simp add: d1_def)
  have m1: "memcpy (data b) (write_pos b * ?z) s 0 (mg * ?z) = Some d1"
    using le s kz by (simp add: memcpy_def d1_def)
  have m2: "memcpy d1 0 s (mg * ?z) ((k - mg) * ?z) =
      Some (take ((k - mg) * ?z) (drop (mg * ?z) s) @ drop ((k - mg) * ?z) d1)"
    using kle s kz len1 by (simp add: memcpy_def)
  have kk: "(if element_count b - available b < n then element_count b - available b else n) = k"
    using k by simp
  have "sz_sub (element_count b) (write_pos b) = mg"
    using rb_invD(7) [OF inv] szc by (simp add: sz_sub_id mg_def)
  moreover have "sz_sub k mg = k - mg" "sz_sub k (k - mg) = mg" "sz_add 0 (k - mg) = k - mg"
    using mg kc szc by (simp_all add: sz_sub_id sz_add_id)
  moreover have "sz_mul (write_pos b) ?z = write_pos b * ?z" "sz_mul mg ?z = mg * ?z"
      "sz_mul (k - mg) ?z = (k - mg) * ?z" "sz_mul 0 ?z = 0"
    using sz_mul_size [OF inv] mg(2) kc by simp_all
  ultimately show ?thesis
    using inv mg(1) by (simp add: WebRtc_WriteBuffer_def kk m1 m2)
qed

text \<open>The state after a write, as the next lemmas establish it in the two cases.\<close>

definition appended :: "ring_buffer \<Rightarrow> nat \<Rightarrow> byte list \<Rightarrow> ring_buffer \<Rightarrow> bool" where
  "appended b k s b' \<longleftrightarrow> rb_inv b' \<and>
     element_count b' = element_count b \<and> element_size b' = element_size b \<and>
     available b' = available b + k \<and>
     ring_order b' = contents b @ take (k * element_size b) s
                     @ drop ((available b + k) * element_size b) (ring_order b)"

lemma write_step_straight:
  assumes inv: "rb_inv b" and k: "k = min n (element_count b - available b)"
    and s: "k * element_size b \<le> length s" and fits: "k \<le> element_count b - write_pos b"
  shows "\<exists>b'. WebRtc_WriteBuffer (Some b) (Some s) n = Some (k, Some b') \<and> appended b k s b'"
proof -
  let ?z = "element_size b" and ?d = "data b"
  let ?a = "read_pos b * ?z" and ?w = "write_pos b * ?z"
  let ?b = "b\<lparr>data := take ?w ?d @ take (k * ?z) s @ drop (?w + k * ?z) ?d,
              write_pos := write_pos b + k\<rparr>"
  note I = rb_invD [OF inv]
  have ak: "available b + k \<le> element_count b" using k available_le [OF inv] by simp
  have sk: "length (take (k * ?z) s) = k * ?z" using s by simp
  have mono: "x * ?z \<le> y * ?z" if "x \<le> y" for x y using that by simp
  have wk: "write_pos b + k \<le> element_count b" using fits I(7) by linarith
  then have le: "?w + k * ?z \<le> length ?d"
    using mono [OF wk] I(5) by (simp add: add_mult_distrib)
  have "rb_inv ?b \<and> available ?b = available b + k \<and>
    rotate ?a (take ?w ?d @ take (k * ?z) s @ drop (?w + k * ?z) ?d) =
    take (available b * ?z) (rotate ?a ?d) @ take (k * ?z) s
      @ drop (available b * ?z + k * ?z) (rotate ?a ?d)"
  proof (cases "rw_wrap b")
    case SAME_WRAP
    then have "available b * ?z = ?w - ?a" by (simp add: available_def diff_mult_distrib)
    then show ?thesis
      using rotate_write_straight [OF sk le, of ?a] I SAME_WRAP wk le sk
      by (simp add: rb_inv_def available_def)
  next
    case DIFF_WRAP
    then have av: "available b * ?z = length ?d - ?a + ?w"
      using I by (simp add: available_def diff_mult_distrib add_mult_distrib)
    have "write_pos b + k \<le> read_pos b"
      using ak I DIFF_WRAP by (simp add: available_def)
    with mono [OF this] rotate_write_behind [OF sk, of ?w ?a ?d] av I DIFF_WRAP wk le sk
    show ?thesis
      by (simp add: rb_inv_def available_def add_mult_distrib)
  qed
  then show ?thesis
    using WriteBuffer_straight [OF inv k s fits]
    by (simp add: appended_def ring_order_def contents_def add_mult_distrib)
qed

lemma write_step_wrap:
  assumes inv: "rb_inv b" and k: "k = min n (element_count b - available b)"
    and s: "k * element_size b \<le> length s" and wrap: "k > element_count b - write_pos b"
  shows "\<exists>b'. WebRtc_WriteBuffer (Some b) (Some s) n = Some (k, Some b') \<and> appended b k s b'"
proof -
  let ?z = "element_size b" and ?d = "data b"
  let ?a = "read_pos b * ?z" and ?w = "write_pos b * ?z"
  define mg where "mg = element_count b - write_pos b"
  define d1 where "d1 = take ?w ?d @ take (mg * ?z) s"
  let ?k' = "k - mg"
  let ?b = "b\<lparr>data := take (?k' * ?z) (drop (mg * ?z) s) @ drop (?k' * ?z) d1,
              write_pos := ?k', rw_wrap := DIFF_WRAP\<rparr>"
  note I = rb_invD [OF inv]
  have "available b + k \<le> element_count b" using k available_le [OF inv] by simp
  with wrap have same: "rw_wrap b = SAME_WRAP" and k': "?k' \<le> read_pos b" and mg: "mg < k"
      "mg + write_pos b = element_count b"
    using I by (auto simp: available_def mg_def split: if_splits)
  have kz: "k * ?z = mg * ?z + ?k' * ?z"
    using mg(1) by (metis add_mult_distrib le_add_diff_inverse less_imp_le)
  have wz: "?w + mg * ?z = length ?d" using mg(2) I(5) by (metis add.commute add_mult_distrib)
  have s1: "length (take (mg * ?z) s) = mg * ?z"
      "length (take (?k' * ?z) (drop (mg * ?z) s)) = ?k' * ?z"
    using s kz by simp_all
  have az: "?k' * ?z \<le> ?a" "?a \<le> ?w"
    using k' I(8) [OF same] by simp_all
  have av: "available b * ?z = ?w - ?a" using same by (simp add: available_def diff_mult_distrib)
  have avk: "(available b + k) * ?z = length ?d - ?a + ?k' * ?z"
    unfolding add_mult_distrib av kz using az wz by linarith
  have "rotate ?a (take (?k' * ?z) (drop (mg * ?z) s) @ drop (?k' * ?z) d1) =
      take (?w - ?a) (rotate ?a ?d) @ take (mg * ?z) s @ take (?k' * ?z) (drop (mg * ?z) s)
      @ drop (length ?d - ?a + ?k' * ?z) (rotate ?a ?d)"
    unfolding d1_def using s1 wz az(2,1) by (rule rotate_write_wrapped)
  moreover have "take (k * ?z) s = take (mg * ?z) s @ take (?k' * ?z) (drop (mg * ?z) s)"
    unfolding kz by (rule take_add)
  moreover have "length d1 = length ?d" unfolding d1_def length_append s1 using wz by simp
  then have "length (take (?k' * ?z) (drop (mg * ?z) s) @ drop (?k' * ?z) d1) = length ?d"
    unfolding length_append s1 length_drop using az wz by linarith
  then have "rb_inv ?b"
    using I k' by (simp add: rb_inv_def)
  moreover have "available ?b = available b + k"
    using same mg I(6,8) by (simp add: available_def)
  moreover have "WebRtc_WriteBuffer (Some b) (Some s) n = Some (k, Some ?b)"
    using WriteBuffer_wrap [OF inv k s wrap] by (simp add: mg_def d1_def)
  ultimately show ?thesis
    by (intro exI [of _ ?b]) (simp add: appended_def ring_order_def contents_def av avk)
qed

lemma appended_contents:
  assumes inv: "rb_inv b" and app: "appended b k s b'" and s: "k * element_size b \<le> length s"
  shows "contents b' = contents b @ take (k * element_size b) s"
  using app length_contents [OF inv] s
  by (simp add: contents_def [of b'] appended_def add_mult_distrib)

lemma write_step:
  assumes inv: "rb_inv b" and s: "min n (element_count b - available b) * element_size b \<le> length s"
  shows "\<exists>b'. WebRtc_WriteBuffer (Some b) (Some s) n =
                Some (min n (element_count b - available b), Some b') \<and>
              appended b (min n (element_count b - available b)) s b'"
  using write_step_straight [OF inv refl s] write_step_wrap [OF inv refl s]
  by (meson not_le)

text \<open>The bytes a reader gets through the pointer it is handed.\<close>

definition seen :: "ring_buffer \<Rightarrow> byte list \<Rightarrow> read_ptr option \<Rightarrow> nat \<Rightarrow> byte list" where
  "seen b blk ptr n =
     (case ptr of
        None \<Rightarrow> take n blk
      | Some Null_ptr \<Rightarrow> []
      | Some (Buffer_ptr off) \<Rightarrow> take n (drop off (data b))
      | Some Data_ptr \<Rightarrow> take n blk)"

lemma take_rotate_straight:
  "a + n \<le> length d \<Longrightarrow> take n (rotate a d) = take n (drop a d)"
  by (simp add: rotate_le)

lemma take_rotate_wrapped:
  "m + a = length d \<Longrightarrow> r \<le> a \<Longrightarrow> take (m + r) (rotate a d) = drop a d @ take r d"
proof -
  assume m: "m + a = length d" and "r \<le> a"
  then have "m + r + a - length d = r" "a \<le> length d" by linarith+
  then show ?thesis using m \<open>r \<le> a\<close> by (simp add: rotate_le min_absorb1)
qed

lemma MoveReadPtr_forward:
  assumes inv: "rb_inv b" and k: "k \<le> available b"
  shows "WebRtc_MoveReadPtr (Some b) (s32 (int k)) = (int k, Some (moved b (int k)))"
proof -
  have "is_s32 (int k)"
    using k available_le [OF inv] rb_invD(3) [OF inv] by (simp add: is_s32_def)
  moreover have "clipped b (int k) = int k" using k by (simp add: clipped_def)
  ultimately show ?thesis using MoveReadPtr_eq [OF inv, of "int k"] by (simp add: s32_id)
qed

lemma read_regions:
  fixes b :: ring_buffer and n :: nat
  assumes inv: "rb_inv b"
  defines "k \<equiv> min n (available b)" and "mg \<equiv> element_count b - read_pos b"
  shows "GetBufferReadRegions b n =
    (if k > mg
     then \<lparr>read_elements = k, data_ptr_1 = read_pos b * element_size b,
           data_ptr_bytes_1 = mg * element_size b, data_ptr_2 = Some 0,
           data_ptr_bytes_2 = (k - mg) * element_size b\<rparr>
     else \<lparr>read_elements = k, data_ptr_1 = read_pos b * element_size b,
           data_ptr_bytes_1 = k * element_size b, data_ptr_2 = None, data_ptr_bytes_2 = 0\<rparr>)"
proof -
  have kk: "(if available b < n then available b else n) = k" by (simp add: k_def)
  have kc: "k \<le> element_count b" using available_le [OF inv] by (simp add: k_def)
  have "sz_sub (element_count b) (read_pos b) = mg"
    using count_lt_size_t [OF inv] rb_invD(6) [OF inv] by (simp add: sz_sub_id mg_def)
  moreover have "sz_mul (read_pos b) (element_size b) = read_pos b * element_size b"
      "sz_mul k (element_size b) = k * element_size b"
      "sz_mul mg (element_size b) = mg * element_size b"
      "sz_mul (k - mg) (element_size b) = (k - mg) * element_size b"
    using rb_invD(6) [OF inv] kc by (simp_all add: sz_mul_size [OF inv] mg_def)
  moreover have "sz_sub k mg = k - mg" if "mg < k"
    using that kc count_lt_size_t [OF inv] by (simp add: sz_sub_id)
  ultimately show ?thesis
    using inv by (simp add: GetBufferReadRegions_def Let_def kk)
qed

lemma read_step_wrap:
  assumes inv: "rb_inv b" and k: "k = min n (available b)" and blk: "k * element_size b \<le> length blk"
    and wrap: "k > element_count b - read_pos b"
  shows "\<exists>blk'. WebRtc_ReadBuffer (Some b) dp (Some blk) n =
      Some (k, if dp then Some Data_ptr else None, Some blk', Some (moved b (int k))) \<and>
    length blk' = length blk \<and>
    take (k * element_size b) blk' = take (k * element_size b) (contents b)"
proof -
  let ?z = "element_size b" and ?d = "data b" and ?a = "read_pos b * element_size b"
  define mg where "mg = element_count b - read_pos b"
  let ?m = "mg * ?z" and ?r = "(k - mg) * ?z"
  note I = rb_invD [OF inv]
  have ka: "k \<le> available b" "k \<le> element_count b"
    using available_le [OF inv] by (simp_all add: k)
  have mk: "mg < k" using wrap by (simp add: mg_def)
  have "mg + read_pos b = element_count b" using I(6) by (simp add: mg_def)
  then have mz: "?m + ?a = length ?d" using I(5) by (metis add_mult_distrib)
  have kz: "k * ?z = ?m + ?r"
    using mk by (metis add_mult_distrib le_add_diff_inverse less_imp_le)
  have "k * ?z \<le> element_count b * ?z" using ka(2) by (rule mult_le_mono1)
  then have ra: "?r \<le> ?a" using mz kz I(5) by linarith
  have pos: "0 < ?r" "0 < k" using mk I(2) by simp_all
  define b1 where "b1 = drop ?a ?d @ drop ?m blk"
  define b2 where "b2 = drop ?a ?d @ take ?r ?d @ drop (k * ?z) blk"
  have rd: "?r \<le> length ?d" using mz ra by linarith
  have l: "length (drop ?a ?d) = ?m" "length (take ?r ?d) = ?r"
    using mz rd by (simp_all only: length_drop length_take min_absorb2)
  have m1: "memcpy blk 0 ?d ?a ?m = Some b1"
    using mz kz blk l(1) by (simp add: memcpy_def b1_def)
  have m2: "memcpy b1 ?m ?d 0 ?r = Some b2"
    using kz blk l rd by (simp add: memcpy_def b1_def b2_def add.commute)
  have "take (k * ?z) (contents b) = take (k * ?z) (rotate ?a ?d)"
    using ka(1) by (simp add: contents_def ring_order_def min_absorb1)
  also have "\<dots> = drop ?a ?d @ take ?r ?d"
    unfolding kz using mz ra by (rule take_rotate_wrapped)
  also have "\<dots> = take (k * ?z) b2" using l by (simp add: b2_def kz)
  finally have "take (k * ?z) b2 = take (k * ?z) (contents b)" ..
  moreover have "length b2 = length blk" using l kz blk by (simp add: b2_def)
  moreover have "WebRtc_ReadBuffer (Some b) dp (Some blk) n =
      Some (k, if dp then Some Data_ptr else None, Some b2, Some (moved b (int k)))"
    using mk pos MoveReadPtr_forward [OF inv ka(1)]
    by (simp add: WebRtc_ReadBuffer_def read_regions [OF inv] k [symmetric] mg_def [symmetric] m1 m2)
  ultimately show ?thesis by blast
qed

lemma read_step_straight:
  assumes inv: "rb_inv b" and k: "k = min n (available b)" and blk: "k * element_size b \<le> length blk"
    and fits: "k \<le> element_count b - read_pos b"
  shows "\<exists>ptr blk'. WebRtc_ReadBuffer (Some b) dp (Some blk) n =
      Some (k, ptr, Some blk', Some (moved b (int k))) \<and>
    (ptr = None \<longleftrightarrow> \<not> dp) \<and> (ptr = Some Null_ptr \<longleftrightarrow> dp \<and> k = 0) \<and> length blk' = length blk \<and>
    seen b blk' ptr (k * element_size b) = take (k * element_size b) (contents b)"
proof -
  let ?z = "element_size b" and ?d = "data b" and ?a = "read_pos b * element_size b"
  note I = rb_invD [OF inv]
  have ka: "k \<le> available b" by (simp add: k)
  have "(read_pos b + k) * ?z \<le> element_count b * ?z"
    using fits I(6) by (intro mult_le_mono1) linarith
  then have le: "?a + k * ?z \<le> length ?d" using I(5) by (simp add: add_mult_distrib)
  have c: "take (k * ?z) (contents b) = take (k * ?z) (drop ?a ?d)"
    using ka take_rotate_straight [OF le] by (simp add: contents_def ring_order_def min_absorb1)
  have m: "memcpy blk 0 ?d ?a (k * ?z) = Some (take (k * ?z) (drop ?a ?d) @ drop (k * ?z) blk)"
    using blk le by (simp add: memcpy_def)
  have reg: "GetBufferReadRegions b n =
      \<lparr>read_elements = k, data_ptr_1 = ?a, data_ptr_bytes_1 = k * ?z, data_ptr_2 = None,
       data_ptr_bytes_2 = 0\<rparr>"
    using fits by (simp add: read_regions [OF inv] k [symmetric])
  show ?thesis
    using blk le c MoveReadPtr_forward [OF inv ka]
    by (cases dp) (simp_all add: WebRtc_ReadBuffer_def reg m seen_def)
qed

lemma read_step:
  assumes inv: "rb_inv b" and blk: "min n (available b) * element_size b \<le> length blk"
  shows "\<exists>ptr blk'. WebRtc_ReadBuffer (Some b) dp (Some blk) n =
      Some (min n (available b), ptr, Some blk', Some (moved b (int (min n (available b))))) \<and>
    (ptr = None \<longleftrightarrow> \<not> dp) \<and> (ptr = Some Null_ptr \<longleftrightarrow> dp \<and> min n (available b) = 0) \<and>
    length blk' = length blk \<and>
    seen b blk' ptr (min n (available b) * element_size b) =
      take (min n (available b) * element_size b) (contents b)"
proof (cases "min n (available b) \<le> element_count b - read_pos b")
  case True
  then show ?thesis using read_step_straight [OF inv refl blk] by blast
next
  case False
  then show ?thesis
    using read_step_wrap [OF inv refl blk, of dp] rb_invD(6) [OF inv]
    by (cases dp) (fastforce simp: seen_def)+
qed


section \<open>The ring buffer as a byte queue\<close>

definition rb_room :: "ring_buffer \<Rightarrow> nat" where
  "rb_room b = WebRtc_available_write (Some b)"

definition rb_put :: "ring_buffer \<Rightarrow> byte list \<Rightarrow> nat \<Rightarrow> (nat \<times> ring_buffer) option" where
  "rb_put b xs n = do {
     (k, b') \<leftarrow> WebRtc_WriteBuffer (Some b) (Some xs) n;
     b'' \<leftarrow> b';
     Some (k, b'')
   }"

text \<open>A copying read into a block of \<open>n\<close> elements.\<close>

definition rb_get :: "ring_buffer \<Rightarrow> nat \<Rightarrow> (byte list \<times> ring_buffer) option" where
  "rb_get b n = do {
     (k, ptr, blk, b') \<leftarrow>
       WebRtc_ReadBuffer (Some b) False (Some (replicate (n * element_size b) 0)) n;
     blk' \<leftarrow> blk;
     b'' \<leftarrow> b';
     Some (take (k * element_size b) blk', b'')
   }"

lemma rb_put_ok:
  assumes inv: "rb_inv b" and xs: "n * element_size b \<le> length xs"
  shows "\<exists>b'. rb_put b xs n = Some (min n (rb_room b), b') \<and> rb_inv b' \<and>
    element_count b' = element_count b \<and> element_size b' = element_size b \<and>
    contents b' = contents b @ take (min n (rb_room b) * element_size b) xs"
proof -
  let ?k = "min n (element_count b - available b)"
  have "?k * element_size b \<le> n * element_size b" by (intro mult_le_mono1) simp
  then have le: "?k * element_size b \<le> length xs" using xs by linarith
  obtain b' where "WebRtc_WriteBuffer (Some b) (Some xs) n = Some (?k, Some b')"
      "appended b ?k xs b'"
    using write_step [OF inv le] by blast
  then show ?thesis
    using appended_contents [OF inv _ le] inv by (simp add: rb_put_def rb_room_def appended_def)
qed

lemma rb_get_ok:
  assumes inv: "rb_inv b"
  shows "\<exists>b'. rb_get b n = Some (take (n * element_size b) (contents b), b') \<and> rb_inv b' \<and>
    element_count b' = element_count b \<and> element_size b' = element_size b \<and> contents b' = drop (n * element_size b) (contents b)"
proof -
  let ?k = "min n (available b)" and ?z = "element_size b"
  have "?k * ?z \<le> length (replicate (n * ?z) (0::byte))" by (simp add: min_def)
  from read_step [OF inv this, of False] obtain blk' where
    "WebRtc_ReadBuffer (Some b) False (Some (replicate (n * ?z) 0)) n =
       Some (?k, None, Some blk', Some (moved b (int ?k)))"
    "take (?k * ?z) blk' = take (?k * ?z) (contents b)"
    by (auto simp: seen_def)
  moreover have "take (?k * ?z) (contents b) = take (n * ?z) (contents b)"
    "drop (?k * ?z) (contents b) = drop (n * ?z) (contents b)"
    using length_contents [OF inv] by (auto simp: min_def)
  moreover have "rb_inv (moved b (int ?k))" by (rule moved_inv(1) [OF inv]) auto
  ultimately show ?thesis
    using contents_moved_forward [OF inv, of ?k] by (simp add: rb_get_def)
qed

interpretation rb: stream_buffer rb_inv contents element_size rb_room rb_put rb_get
  by unfold_locales (metis rb_put_ok, metis rb_get_ok)

text \<open>Buffers of \<open>n\<close> elements of \<open>z\<close> bytes are bounded queues.\<close>

definition rb_sized :: "nat \<Rightarrow> nat \<Rightarrow> ring_buffer \<Rightarrow> bool" where
  "rb_sized n z b \<longleftrightarrow> rb_inv b \<and> element_count b = n \<and> element_size b = z"

interpretation rbq: bounded_buffer "rb_sized c z" contents element_size rb_room rb_put rb_get c z for c z
proof
  show "\<exists>q'. rb_put q xs n = Some (min n (rb_room q), q') \<and> rb_sized c z q' \<and> element_size q' = element_size q \<and>
      contents q' = contents q @ take (min n (rb_room q) * element_size q) xs" if "rb_sized c z q" "n * element_size q \<le> length xs" for q n xs
    using that rb_put_ok unfolding rb_sized_def by fastforce
  show "\<exists>q'. rb_get q n = Some (take (n * element_size q) (contents q), q') \<and> rb_sized c z q' \<and> element_size q' = element_size q \<and>
      contents q' = drop (n * element_size q) (contents q)" if "rb_sized c z q" for q n
    using that rb_get_ok unfolding rb_sized_def by fastforce
  show "element_size q = z" if "rb_sized c z q" for q using that by (simp add: rb_sized_def)
  show "rb_room q = c - length (contents q) div z" if "rb_sized c z q" for q
    using that rb_invD(2) [of q] by (auto simp: rb_sized_def rb_room_def length_contents)
qed

section \<open>Creation\<close>

lemma CreateBuffer_ok:
  assumes malloc: "\<And>k blk. malloc k = Some blk \<Longrightarrow> length blk = k" and r: "n < size_range" "sz < size_range"
    and n: "0 < n" "0 < sz" and "malloc sizeof_RingBuffer = Some hblk" "malloc (n * sz mod size_range) = Some blk"
  shows "\<exists>b. WebRtc_CreateBuffer malloc n sz = Some (Some b) \<and> contents b = [] \<and> set (data b) \<subseteq> {0} \<and>
    element_count b = n \<and> element_size b = sz \<and> length (data b) = n * sz mod size_range \<and>
    (rb_inv b \<longleftrightarrow> 2 * n < 2147483648 \<and> n * sz < size_range) \<and>
    (size_range \<le> n * sz \<longrightarrow> length (data b) < n * sz \<and> WebRtc_available_write (Some b) = n \<and>
      (\<forall>s k. k \<le> n \<and> length (data b) < k * sz \<and> k * sz < size_range \<longrightarrow> WebRtc_WriteBuffer (Some b) (Some s) k = None))"
proof -
  let ?l = "n * sz mod size_range"
  let ?b = "\<lparr>read_pos = 0, write_pos = 0, element_count = n, element_size = sz,
             rw_wrap = SAME_WRAP, data = replicate ?l 0\<rparr>"
  have p: "0 < size_range" using r by simp
  have "length blk = ?l" using malloc assms(7) by blast
  then have "WebRtc_CreateBuffer malloc n sz = Some (Some ?b)"
    using assms by (simp add: WebRtc_CreateBuffer_def WebRtc_InitBuffer_def sz_mul_def memset_def)
  moreover have "contents ?b = []" by (simp add: contents_def available_def)
  moreover have "rb_inv ?b \<longleftrightarrow> 2 * n < 2147483648 \<and> n * sz < size_range" using n by (auto simp: rb_inv_def)
  moreover have "?l < size_range" using p by simp
  moreover have w: "WebRtc_available_write (Some ?b) = n"
    using r by (simp add: WebRtc_available_write_def WebRtc_available_read_def sz_sub_id)
  moreover have "WebRtc_WriteBuffer (Some ?b) (Some s) k = None" if "k \<le> n" "?l < k * sz" "k * sz < size_range" for s k
  proof -
    have "sz_sub n 0 = n" "sz_sub k k = 0" "sz_mul 0 sz = 0" "sz_mul k sz = k * sz"
      using r that by (simp_all add: sz_sub_id sz_mul_id p)
    then show ?thesis using w that by (simp add: WebRtc_WriteBuffer_def memcpy_def)
  qed
  ultimately show ?thesis by (intro exI [of _ ?b]) force
qed

section \<open>Properties\<close>

text \<open>C5: over any sequence of writes and copying reads on a well-formed ring buffer no memory
  access leaves its block, and the bytes read, followed by the bytes still queued, are the bytes
  queued at the start followed by the bytes the writes accepted: nothing is lost, duplicated or
  reordered.\<close>

theorem ring_buffer_stream:
  assumes "rb_inv b" and "list_all (op_ok (element_size b)) ops"
  shows "\<exists>acc out b'. run_ops element_size rb_put rb_get b ops = Some (acc, out, b') \<and>
    rb_inv b' \<and> contents b @ acc = out @ contents b'"
  using assms by (rule rb.run_conserves)

theorem ring_buffer_stream_witness:
  "let b = \<lparr>read_pos = 2, write_pos = 2, element_count = 3, element_size = 2, rw_wrap = SAME_WRAP,
            data = replicate 6 0\<rparr>;
       ops = [Put [1, 2, 3, 4] 2, Get 1, Put [5, 6, 7, 8] 2, Get 3]
   in rb_inv b \<and> list_all (op_ok (element_size b)) ops \<and>
      (\<exists>acc out b'. run_ops element_size rb_put rb_get b ops = Some (acc, out, b') \<and>
         rb_inv b' \<and> contents b @ acc = out @ contents b')"
proof -
  define b :: ring_buffer where "b = \<lparr>read_pos = 2, write_pos = 2, element_count = 3,
    element_size = 2, rw_wrap = SAME_WRAP, data = replicate 6 0\<rparr>"
  have "rb_inv b"
    using size_range_gt [of 6] by (simp add: b_def rb_inv_def)
  moreover have "list_all (op_ok (element_size b)) [Put [1, 2, 3, 4] 2, Get 1, Put [5, 6, 7, 8] 2, Get 3]"
    by (simp add: b_def)
  ultimately show ?thesis
    using ring_buffer_stream [of b] unfolding Let_def b_def [symmetric] by blast
qed

text \<open>\<open>WebRtc_WriteBuffer\<close> on a well-formed buffer and a source that holds what is taken
  from it stays in bounds, writes as many elements as fit, appends exactly their bytes to the
  unread contents and keeps the invariant.\<close>

theorem WebRtc_WriteBuffer_correct:
  assumes "rb_inv b" and "min n (WebRtc_available_write (Some b)) * element_size b \<le> length s"
  shows "\<exists>b'. WebRtc_WriteBuffer (Some b) (Some s) n =
      Some (min n (WebRtc_available_write (Some b)), Some b') \<and> rb_inv b' \<and>
    contents b' = contents b @ take (min n (WebRtc_available_write (Some b)) * element_size b) s \<and>
    WebRtc_available_read (Some b') =
      WebRtc_available_read (Some b) + min n (WebRtc_available_write (Some b))"
proof -
  let ?k = "min n (element_count b - available b)"
  have s: "?k * element_size b \<le> length s" using assms by simp
  obtain b' where "WebRtc_WriteBuffer (Some b) (Some s) n = Some (?k, Some b')" "appended b ?k s b'"
    using write_step [OF assms(1) s] by blast
  then show ?thesis
    using appended_contents [OF assms(1) _ s] assms(1) by (simp add: appended_def)
qed

text \<open>C28: \<open>WebRtc_ReadBuffer\<close> on a well-formed buffer, with a caller's block large enough, stays in
  bounds; through the returned pointer (its own block, or the caller's after a wrap) or in the
  caller's block the caller finds exactly the first \<open>min n available\<close> unread elements, which are
  consumed. A \<open>NULL\<close> pointer is returned exactly when nothing could be read.\<close>

theorem WebRtc_ReadBuffer_correct:
  assumes "rb_inv b" and "min n (WebRtc_available_read (Some b)) * element_size b \<le> length blk"
  shows "\<exists>ptr blk' b'. WebRtc_ReadBuffer (Some b) dp (Some blk) n =
      Some (min n (WebRtc_available_read (Some b)), ptr, Some blk', Some b') \<and>
    rb_inv b' \<and> length blk' = length blk \<and> (ptr = None \<longleftrightarrow> \<not> dp) \<and>
    (ptr = Some Null_ptr \<longleftrightarrow> dp \<and> min n (WebRtc_available_read (Some b)) = 0) \<and>
    seen b blk' ptr (min n (WebRtc_available_read (Some b)) * element_size b) =
      take (n * element_size b) (contents b) \<and>
    contents b' = drop (n * element_size b) (contents b)"
proof -
  let ?k = "min n (available b)" and ?z = "element_size b"
  have blk: "?k * ?z \<le> length blk" using assms by simp
  have "take (?k * ?z) (contents b) = take (n * ?z) (contents b)"
    "drop (?k * ?z) (contents b) = drop (n * ?z) (contents b)"
    using length_contents [OF assms(1)] by (auto simp: min_def)
  moreover have "rb_inv (moved b (int ?k))" by (rule moved_inv(1) [OF assms(1)]) auto
  ultimately show ?thesis
    using read_step [OF assms(1) blk, of dp] contents_moved_forward [OF assms(1), of ?k] assms(1)
    by fastforce
qed

theorem WebRtc_ReadBuffer_correct_witness:
  "let b = \<lparr>read_pos = 2, write_pos = 1, element_count = 3, element_size = 1, rw_wrap = DIFF_WRAP,
            data = [7, 8, 9]\<rparr>
   in rb_inv b \<and> min 2 (WebRtc_available_read (Some b)) * element_size b \<le> length [0, 0::byte] \<and>
      (\<exists>ptr blk' b'. WebRtc_ReadBuffer (Some b) True (Some [0, 0]) 2 =
          Some (min 2 (WebRtc_available_read (Some b)), ptr, Some blk', Some b') \<and>
        rb_inv b' \<and> length blk' = length [0, 0::byte] \<and> (ptr = None \<longleftrightarrow> \<not> True) \<and>
        (ptr = Some Null_ptr \<longleftrightarrow> True \<and> min 2 (WebRtc_available_read (Some b)) = 0) \<and>
        seen b blk' ptr (min 2 (WebRtc_available_read (Some b)) * element_size b) =
          take (2 * element_size b) (contents b) \<and>
        contents b' = drop (2 * element_size b) (contents b))"
proof -
  define b :: ring_buffer where "b = \<lparr>read_pos = 2, write_pos = 1, element_count = 3,
    element_size = 1, rw_wrap = DIFF_WRAP, data = [7, 8, 9]\<rparr>"
  have inv: "rb_inv b"
    using size_range_gt [of 3] by (simp add: b_def rb_inv_def)
  moreover have "min 2 (WebRtc_available_read (Some b)) * element_size b \<le> length [0, 0::byte]"
    unfolding available_read [OF inv] by (simp add: b_def available_def)
  ultimately show ?thesis
    using WebRtc_ReadBuffer_correct [of b 2 "[0, 0]" True] unfolding Let_def b_def [symmetric] by blast
qed

text \<open>C29: \<open>WebRtc_MoveReadPtr\<close> clips its argument to the readable and the free elements and
  returns the clipped value; a move forward flushes that many elements, a move backward puts the
  most recently read elements of the free area in front of the contents again, and moving forward
  and back restores the contents.\<close>

theorem WebRtc_MoveReadPtr_correct:
  assumes inv: "rb_inv b" and n: "is_s32 n"
  defines "m \<equiv> max (min n (int (WebRtc_available_read (Some b))))
                  (- int (WebRtc_available_write (Some b)))"
  shows "\<exists>b'. WebRtc_MoveReadPtr (Some b) n = (m, Some b') \<and> rb_inv b' \<and>
    contents b' =
      (if 0 \<le> m then drop (nat m * element_size b) (contents b)
       else drop (length (free_area b) - nat (- m) * element_size b) (free_area b) @ contents b) \<and>
    (\<exists>b''. WebRtc_MoveReadPtr (Some b') (- m) = (- m, Some b'') \<and> contents b'' = contents b)"
proof -
  let ?b' = "moved b m"
  have m: "m = clipped b n" using inv by (simp add: m_def clipped_def)
  note bnd = clipped_bounds [OF inv, of n, folded m]
  have inv': "rb_inv ?b'" and av: "available ?b' = nat (int (available b) - m)"
    using moved_inv [OF inv bnd] .
  have "is_s32 (- m)"
    using bnd available_le [OF inv] rb_invD(3) [OF inv] by (simp add: is_s32_def)
  moreover have c: "clipped ?b' (- m) = - m"
    using bnd av available_le [OF inv] by (simp add: clipped_def)
  ultimately have undo: "WebRtc_MoveReadPtr (Some ?b') (- m) = (- m, Some (moved ?b' (- m)))"
    using MoveReadPtr_eq [OF inv'] by simp
  have "contents ?b' = (if 0 \<le> m then drop (nat m * element_size b) (contents b)
      else drop (length (free_area b) - nat (- m) * element_size b) (free_area b) @ contents b)"
    using contents_moved_forward [OF inv, of "nat m"] contents_moved_back [OF inv, of "nat (- m)"] bnd
    by auto
  moreover have "contents (moved ?b' (- m)) = contents b"
  proof -
    have "ring_order (moved ?b' (- m)) = ring_order b"
      using bnd available_le [OF inv] by (intro ring_order_undo [OF inv inv']) linarith+
    moreover have "available (moved ?b' (- m)) = available b"
      using moved_inv(2) [OF inv', of "- m"] bnd av available_le [OF inv] by simp
    ultimately show ?thesis by (simp add: contents_def)
  qed
  ultimately show ?thesis
    using MoveReadPtr_eq [OF inv n] m inv' undo by auto
qed

theorem WebRtc_MoveReadPtr_correct_witness:
  "let b = \<lparr>read_pos = 1, write_pos = 3, element_count = 4, element_size = 1, rw_wrap = SAME_WRAP,
            data = [6, 7, 8, 9]\<rparr>;
       m = max (min (- 9) (int (WebRtc_available_read (Some b))))
               (- int (WebRtc_available_write (Some b)))
   in rb_inv b \<and> is_s32 (- 9) \<and>
      (\<exists>b'. WebRtc_MoveReadPtr (Some b) (- 9) = (m, Some b') \<and> rb_inv b' \<and>
        contents b' =
          (if 0 \<le> m then drop (nat m * element_size b) (contents b)
           else drop (length (free_area b) - nat (- m) * element_size b) (free_area b) @ contents b) \<and>
        (\<exists>b2. WebRtc_MoveReadPtr (Some b') (- m) = (- m, Some b2) \<and> contents b2 = contents b))"
proof -
  define b :: ring_buffer where "b = \<lparr>read_pos = 1, write_pos = 3, element_count = 4,
    element_size = 1, rw_wrap = SAME_WRAP, data = [6, 7, 8, 9]\<rparr>"
  have "rb_inv b" using size_range_gt [of 4] by (simp add: b_def rb_inv_def)
  moreover have "is_s32 (- 9)" by (simp add: is_s32_def)
  ultimately show ?thesis
    using WebRtc_MoveReadPtr_correct [of b "- 9"] unfolding Let_def b_def [symmetric] by blast
qed

text \<open>C30: \<open>WebRtc_CreateBuffer\<close> for every count and size of the type \<^verbatim>\<open>size_t\<close>.  It answers \<^verbatim>\<open>NULL\<close> for a zero count or size and when
  an allocation fails, and otherwise an empty, zeroed buffer that says it has the requested shape.  It is well-formed exactly if twice the
  count fits in an \<^verbatim>\<open>int\<close> and the product of count and size in a \<^verbatim>\<open>size_t\<close>.  The code checks neither: if the product overflows the block is
  shorter than the elements, all of which \<open>WebRtc_available_write\<close> reports as free, and a write of elements whose bytes exceed
  the block runs out of it.\<close>

theorem WebRtc_CreateBuffer_correct:
  assumes "\<And>k blk. malloc k = Some blk \<Longrightarrow> length blk = k" "n < size_range" "sz < size_range"
  shows "if n = 0 \<or> sz = 0 \<or> malloc sizeof_RingBuffer = None \<or> malloc (n * sz mod size_range) = None
    then WebRtc_CreateBuffer malloc n sz = Some None
    else \<exists>b. WebRtc_CreateBuffer malloc n sz = Some (Some b) \<and> contents b = [] \<and> set (data b) \<subseteq> {0} \<and>
      element_count b = n \<and> element_size b = sz \<and> length (data b) = n * sz mod size_range \<and>
      (rb_inv b \<longleftrightarrow> 2 * n < 2147483648 \<and> n * sz < size_range) \<and>
      (size_range \<le> n * sz \<longrightarrow> length (data b) < n * sz \<and> WebRtc_available_write (Some b) = n \<and>
        (\<forall>s k. k \<le> n \<and> length (data b) < k * sz \<and> k * sz < size_range \<longrightarrow> WebRtc_WriteBuffer (Some b) (Some s) k = None))"
  using CreateBuffer_ok [OF assms] by (auto simp: WebRtc_CreateBuffer_def sz_mul_def split: option.splits)

theorem WebRtc_CreateBuffer_correct_witness:
  "let malloc = (\<lambda>k. if k \<le> 100 then Some (replicate k (1::byte)) else None)
   in (\<forall>k blk. malloc k = Some blk \<longrightarrow> length blk = k) \<and>
      (\<exists>b. WebRtc_CreateBuffer malloc 4 2 = Some (Some b) \<and> rb_inv b \<and> contents b = [] \<and>
        element_count b = 4 \<and> element_size b = 2 \<and> set (data b) \<subseteq> {0}) \<and>
      (\<exists>b. WebRtc_CreateBuffer malloc 4294967296 4294967296 = Some (Some b) \<and> \<not> rb_inv b \<and>
        WebRtc_available_write (Some b) = 4294967296 \<and> WebRtc_WriteBuffer (Some b) (Some []) 1 = None)"
proof -
  define malloc where "malloc = (\<lambda>k. if k \<le> 100 then Some (replicate k (1::byte)) else None)"
  have m: "\<And>k blk. malloc k = Some blk \<Longrightarrow> length blk = k"
    by (auto simp: malloc_def split: if_splits)
  have s: "(4::nat) < size_range" "(2::nat) < size_range" "(4294967296::nat) < size_range"
    and o: "(4294967296::nat) * 4294967296 mod size_range = 0" "(4::nat) * 2 mod size_range = 8"
      "(4294967296::nat) * 4294967296 = size_range"
    by (simp_all add: size_range_def)
  have "malloc sizeof_RingBuffer \<noteq> None" "malloc 8 \<noteq> None" "malloc 0 \<noteq> None"
    by (simp_all add: malloc_def sizeof_RingBuffer_def)
  note w = this
  obtain b where "WebRtc_CreateBuffer malloc 4 2 = Some (Some b)" "rb_inv b" "contents b = []"
      "element_count b = 4" "element_size b = 2" "set (data b) \<subseteq> {0}"
    using WebRtc_CreateBuffer_correct [of malloc, OF m s(1,2)] w o size_range_gt [of 8] by auto
  moreover obtain b' where b': "WebRtc_CreateBuffer malloc 4294967296 4294967296 = Some (Some b')" "\<not> rb_inv b'"
      "WebRtc_available_write (Some b') = 4294967296" "length (data b') = 0"
      "\<And>s k. k \<le> 4294967296 \<Longrightarrow> length (data b') < k * 4294967296 \<Longrightarrow> k * 4294967296 < size_range \<Longrightarrow> WebRtc_WriteBuffer (Some b') (Some s) k = None"
    using WebRtc_CreateBuffer_correct [of malloc, OF m s(3,3)] w o s(3) by auto
  moreover have "WebRtc_WriteBuffer (Some b') (Some []) 1 = None" by (rule b'(5)) (simp_all add: b'(4) s(3) del: length_0_conv)
  ultimately show ?thesis using m unfolding Let_def malloc_def [symmetric] by blast
qed

end
