(* ===== verification/Bit_Buffer.thy ===== *)
theory Bit_Buffer
  imports C_Prelude
begin

text \<open>
  The bit reader and writer of \<^verbatim>\<open>rtc_base/bit_buffer.cc\<close> (\<open>rtc::BitBuffer\<close> and
  \<open>rtc::BitBufferWriter\<close>), with the exponential Golomb and the non-symmetric codes built on them.

  An operation is a function from the buffer to an \<open>option\<close>: \<open>None\<close> is undefined behaviour (an
  access outside the block, a shift by the width of the type or more).  Inside it, a reading
  operation that returns \<open>false\<close> gives \<open>None\<close>, one that returns \<open>true\<close> gives the value stored
  through its out-pointer.  The argument \<open>val\<close> of an operation that checks its out-pointer tells
  whether the pointer is non-null.
\<close>

section \<open>State\<close>

record bit_buffer =
  bytes :: "byte list"
  byte_count :: nat
  byte_offset :: nat
  bit_offset :: nat

definition BitBuffer :: "byte list \<Rightarrow> bit_buffer" where
  "BitBuffer bs = \<lparr>bytes = bs, byte_count = length bs, byte_offset = 0, bit_offset = 0\<rparr>"

definition byte_at :: "byte list \<Rightarrow> nat \<Rightarrow> byte option" where
  "byte_at bs i = (if i < length bs then Some (bs ! i) else None)"

definition store_at :: "byte list \<Rightarrow> nat \<Rightarrow> byte \<Rightarrow> byte list option" where
  "store_at bs i v = (if i < length bs then Some (bs[i := v]) else None)"

section \<open>Bit helpers\<close>

text \<open>The C expressions are computed in \<open>int\<close> (32 bits) and converted to \<^verbatim>\<open>uint8_t\<close>.\<close>

definition LowestBits :: "byte \<Rightarrow> nat \<Rightarrow> byte" where
  "LowestBits b n = ucast ((ucast b :: 32 word) AND (push_bit n 1 - 1))"

definition HighestBits :: "byte \<Rightarrow> nat \<Rightarrow> byte" where
  "HighestBits b n =
     (let shift = 8 - n; msk = (ucast (push_bit shift 255 :: 32 word) :: byte)
      in drop_bit shift (b AND msk))"

definition HighestByte :: "64 word \<Rightarrow> byte" where
  "HighestByte val = ucast (drop_bit 56 val)"

definition WritePartialByte :: "byte \<Rightarrow> nat \<Rightarrow> byte \<Rightarrow> nat \<Rightarrow> byte" where
  "WritePartialByte source n target off =
     (let msk = drop_bit off (ucast (push_bit (8 - n) 255 :: 32 word) :: byte)
      in (target AND NOT msk) OR drop_bit off source)"

lemma unat_drop_bit_1: "unat (drop_bit 1 (v::'a::len word)) = unat v div 2"
  unfolding unat_drop_bit_eq by (simp add: drop_bit_eq_div)

lemma drop_bit_1_less: "(v::'a::len word) \<noteq> 0 \<Longrightarrow> unat (drop_bit 1 v) < unat v"
  using div_less_dividend [of 2 "unat v"] by (simp only: unat_drop_bit_1 unat_gt_0) simp

function CountBits :: "64 word \<Rightarrow> nat" where
  "CountBits val = (if val \<noteq> 0 then Suc (CountBits (drop_bit 1 val)) else 0)"
  by pat_completeness auto
termination
  by (relation "measure unat") (auto simp: drop_bit_1_less simp del: One_nat_def)

declare CountBits.simps [simp del]

section \<open>Position\<close>

definition RemainingBitCount :: "bit_buffer \<Rightarrow> nat" where
  "RemainingBitCount bb =
     sz_sub (sz_mul (sz_sub (byte_count bb) (byte_offset bb)) 8) (bit_offset bb)"

definition ConsumeBits :: "bit_buffer \<Rightarrow> nat \<Rightarrow> bool \<times> bit_buffer" where
  "ConsumeBits bb n =
     (if n > RemainingBitCount bb then (False, bb)
      else (True, bb\<lparr>byte_offset := byte_offset bb + (bit_offset bb + n) div 8,
                     bit_offset := (bit_offset bb + n) mod 8\<rparr>))"

definition ConsumeBytes :: "bit_buffer \<Rightarrow> nat \<Rightarrow> bool \<times> bit_buffer" where
  "ConsumeBytes bb n = ConsumeBits bb (sz_mul n 8)"

definition GetCurrentOffset :: "bit_buffer \<Rightarrow> nat \<times> nat" where
  "GetCurrentOffset bb = (byte_offset bb, bit_offset bb)"

definition Seek :: "bit_buffer \<Rightarrow> nat \<Rightarrow> nat \<Rightarrow> bool \<times> bit_buffer" where
  "Seek bb byte_off bit_off =
     (if byte_off > byte_count bb \<or> bit_off > 7 \<or> (byte_off = byte_count bb \<and> bit_off > 0)
      then (False, bb)
      else (True, bb\<lparr>byte_offset := byte_off, bit_offset := bit_off\<rparr>))"

section \<open>Reading\<close>

text \<open>The loop that shifts whole bytes in: position, bits still wanted, bits so far.\<close>

fun peek_bytes :: "byte list \<Rightarrow> nat \<Rightarrow> nat \<Rightarrow> 32 word \<Rightarrow> (nat \<times> nat \<times> 32 word) option" where
  "peek_bytes bs i n bits =
     (if n \<ge> 8 then do {
        b \<leftarrow> byte_at bs i;
        peek_bytes bs (Suc i) (n - 8) (push_bit 8 bits OR ucast b)
      } else Some (i, n, bits))"

declare peek_bytes.simps [simp del]

definition PeekBits :: "bit_buffer \<Rightarrow> bool \<Rightarrow> nat \<Rightarrow> 32 word option option" where
  "PeekBits bb val n =
     (if \<not> val \<or> n > RemainingBitCount bb \<or> n > 32 then Some None
      else do {
        b \<leftarrow> byte_at (bytes bb) (byte_offset bb);
        let remaining = 8 - bit_offset bb;
        let bits = (ucast (LowestBits b remaining) :: 32 word);
        (if n < remaining
         then Some (Some (ucast (HighestBits (ucast bits) (bit_offset bb + n))))
         else do {
           (i, n', bits') \<leftarrow> peek_bytes (bytes bb) (Suc (byte_offset bb)) (n - remaining) bits;
           (if n' > 0 then do {
              b' \<leftarrow> byte_at (bytes bb) i;
              Some (Some (push_bit n' bits' OR ucast (HighestBits b' n')))
            } else Some (Some bits'))
         })
      })"

definition ReadBits :: "bit_buffer \<Rightarrow> bool \<Rightarrow> nat \<Rightarrow> (32 word option \<times> bit_buffer) option" where
  "ReadBits bb val n = do {
     r \<leftarrow> PeekBits bb val n;
     (case r of
        None \<Rightarrow> Some (None, bb)
      | Some v \<Rightarrow>
          (case ConsumeBits bb n of
             (False, bb') \<Rightarrow> Some (None, bb')
           | (True, bb') \<Rightarrow> Some (Some v, bb')))
   }"

definition ReadUInt8 :: "bit_buffer \<Rightarrow> (byte option \<times> bit_buffer) option" where
  "ReadUInt8 bb = map_option (\<lambda>(r, bb'). (map_option ucast r, bb')) (ReadBits bb True 8)"

definition ReadUInt16 :: "bit_buffer \<Rightarrow> (16 word option \<times> bit_buffer) option" where
  "ReadUInt16 bb = map_option (\<lambda>(r, bb'). (map_option ucast r, bb')) (ReadBits bb True 16)"

definition ReadUInt32 :: "bit_buffer \<Rightarrow> bool \<Rightarrow> (32 word option \<times> bit_buffer) option" where
  "ReadUInt32 bb val = ReadBits bb val 32"

text \<open>\<open>uint32_t{1} << n\<close> is defined for \<open>n < 32\<close> only.\<close>

definition shl_1_u32 :: "nat \<Rightarrow> 32 word option" where
  "shl_1_u32 n = (if n < 32 then Some (push_bit n 1) else None)"

definition ReadNonSymmetric :: "bit_buffer \<Rightarrow> 32 word \<Rightarrow> (32 word option \<times> bit_buffer) option" where
  "ReadNonSymmetric bb num_values =
     (if num_values = 1 then Some (Some 0, bb)
      else do {
        let count_bits = CountBits (ucast num_values);
        one \<leftarrow> shl_1_u32 count_bits;
        let num_min_bits_values = one - num_values;
        (r, bb1) \<leftarrow> ReadBits bb True (sz_sub count_bits 1);
        (case r of
           None \<Rightarrow> Some (None, bb1)
         | Some v \<Rightarrow>
             (if v < num_min_bits_values then Some (Some v, bb1)
              else do {
                (e, bb2) \<leftarrow> ReadBits bb1 True 1;
                (case e of
                   None \<Rightarrow> Some (None, bb2)
                 | Some extra_bit \<Rightarrow>
                     Some (Some (push_bit 1 v + extra_bit - num_min_bits_values), bb2))
              }))
      })"

text \<open>
  The loop that counts leading zero bits: it ends because a successful peek has read the current
  byte, and consuming a bit moves on in the block.
\<close>

function skip_zeros :: "bit_buffer \<Rightarrow> nat \<Rightarrow> (bit_buffer \<times> nat) option" where
  "skip_zeros bb zero_bit_count =
     (case PeekBits bb True 1 of
        None \<Rightarrow> None
      | Some None \<Rightarrow> Some (bb, zero_bit_count)
      | Some (Some peeked_bit) \<Rightarrow>
          (if peeked_bit = 0 then skip_zeros (snd (ConsumeBits bb 1)) (Suc zero_bit_count)
           else Some (bb, zero_bit_count)))"
  by pat_completeness auto

lemma PeekBits_Some_SomeD:
  "PeekBits bb True n = Some (Some v) \<Longrightarrow>
   n \<le> RemainingBitCount bb \<and> byte_offset bb < length (bytes bb)"
  by (auto simp: PeekBits_def byte_at_def split: if_splits)

termination skip_zeros
proof (relation "measures [\<lambda>(bb, _). length (bytes bb) - byte_offset bb, \<lambda>(bb, _). 8 - bit_offset bb]")
  show "wf (measures [\<lambda>(bb::bit_buffer, _::nat). length (bytes bb) - byte_offset bb, \<lambda>(bb, _). 8 - bit_offset bb])"
    by (rule wf_measures)
  fix bb z x peeked_bit
  assume "PeekBits bb True 1 = Some x" "x = Some peeked_bit"
  then show "((snd (ConsumeBits bb 1), Suc z), bb, z)
    \<in> measures [\<lambda>(bb, _). length (bytes bb) - byte_offset bb, \<lambda>(bb, _). 8 - bit_offset bb]"
    using PeekBits_Some_SomeD [of bb 1 peeked_bit]
    by (cases "bit_offset bb < 7") (auto simp: ConsumeBits_def not_le)
qed

declare skip_zeros.simps [simp del]

text \<open>\<open>RTC_CHECK(Seek(...))\<close>: the process aborts when the seek fails.\<close>

definition check_Seek :: "bit_buffer \<Rightarrow> nat \<Rightarrow> nat \<Rightarrow> bit_buffer option" where
  "check_Seek bb byte_off bit_off =
     (case Seek bb byte_off bit_off of (True, bb') \<Rightarrow> Some bb' | (False, _) \<Rightarrow> None)"

definition ReadExponentialGolomb ::
    "bit_buffer \<Rightarrow> bool \<Rightarrow> (32 word option \<times> bit_buffer) option" where
  "ReadExponentialGolomb bb val =
     (if \<not> val then Some (None, bb)
      else do {
        (bb1, zero_bit_count) \<leftarrow> skip_zeros bb 0;
        let value_bit_count = zero_bit_count + 1;
        (if value_bit_count > 32
         then do { bb' \<leftarrow> check_Seek bb1 (byte_offset bb) (bit_offset bb); Some (None, bb') }
         else do {
           (r, bb2) \<leftarrow> ReadBits bb1 True value_bit_count;
           (case r of
              None \<Rightarrow> do { bb' \<leftarrow> check_Seek bb2 (byte_offset bb) (bit_offset bb); Some (None, bb') }
            | Some v \<Rightarrow> Some (Some (v - 1), bb2))
         })
      })"

definition ReadSignedExponentialGolomb :: "bit_buffer \<Rightarrow> (int option \<times> bit_buffer) option" where
  "ReadSignedExponentialGolomb bb = do {
     (r, bb1) \<leftarrow> ReadExponentialGolomb bb True;
     Some (map_option
             (\<lambda>u. if u AND 1 = 0 then - sint (u div 2) else sint ((u + 1) div 2)) r, bb1)
   }"

section \<open>Writing\<close>

fun write_bytes :: "byte list \<Rightarrow> nat \<Rightarrow> nat \<Rightarrow> 64 word \<Rightarrow> (byte list \<times> nat \<times> nat \<times> 64 word) option" where
  "write_bytes bs i n val =
     (if n \<ge> 8 then do {
        bs' \<leftarrow> store_at bs i (HighestByte val);
        write_bytes bs' (Suc i) (n - 8) (push_bit 8 val)
      } else Some (bs, i, n, val))"

declare write_bytes.simps [simp del]

definition WriteBits :: "bit_buffer \<Rightarrow> 64 word \<Rightarrow> nat \<Rightarrow> (bool \<times> bit_buffer) option" where
  "WriteBits bb val n =
     (if n > RemainingBitCount bb then Some (False, bb)
      else if sz_sub 64 n \<ge> 64 then None
      else do {
        let val1 = push_bit (64 - n) val;
        let remaining = 8 - bit_offset bb;
        let first = min n remaining;
        b \<leftarrow> byte_at (bytes bb) (byte_offset bb);
        bs1 \<leftarrow> store_at (bytes bb) (byte_offset bb)
                 (WritePartialByte (HighestByte val1) first b (bit_offset bb));
        (if n \<le> remaining then Some (ConsumeBits (bb\<lparr>bytes := bs1\<rparr>) n)
         else do {
           (bs2, i, n2, val2) \<leftarrow>
             write_bytes bs1 (Suc (byte_offset bb)) (n - first) (push_bit first val1);
           bs3 \<leftarrow> (if n2 > 0 then do {
                     b' \<leftarrow> byte_at bs2 i;
                     store_at bs2 i (WritePartialByte (HighestByte val2) n2 b' 0)
                   } else Some bs2);
           Some (ConsumeBits (bb\<lparr>bytes := bs3\<rparr>) n)
         })
      })"

definition WriteUInt8 :: "bit_buffer \<Rightarrow> byte \<Rightarrow> (bool \<times> bit_buffer) option" where
  "WriteUInt8 bb val = WriteBits bb (ucast val) 8"

definition WriteUInt16 :: "bit_buffer \<Rightarrow> 16 word \<Rightarrow> (bool \<times> bit_buffer) option" where
  "WriteUInt16 bb val = WriteBits bb (ucast val) 16"

definition WriteUInt32 :: "bit_buffer \<Rightarrow> 32 word \<Rightarrow> (bool \<times> bit_buffer) option" where
  "WriteUInt32 bb val = WriteBits bb (ucast val) 32"

definition WriteNonSymmetric :: "bit_buffer \<Rightarrow> 32 word \<Rightarrow> 32 word \<Rightarrow> (bool \<times> bit_buffer) option" where
  "WriteNonSymmetric bb val num_values =
     (if num_values = 1 then Some (True, bb)
      else do {
        let count_bits = CountBits (ucast num_values);
        one \<leftarrow> shl_1_u32 count_bits;
        let num_min_bits_values = one - num_values;
        (if val < num_min_bits_values then WriteBits bb (ucast val) (sz_sub count_bits 1)
         else WriteBits bb (ucast (val + num_min_bits_values)) count_bits)
      })"

definition SizeNonSymmetricBits :: "32 word \<Rightarrow> 32 word \<Rightarrow> nat option" where
  "SizeNonSymmetricBits val num_values = do {
     let count_bits = CountBits (ucast num_values);
     one \<leftarrow> shl_1_u32 count_bits;
     let num_min_bits_values = one - num_values;
     Some (if val < num_min_bits_values then sz_sub count_bits 1 else count_bits)
   }"

definition WriteExponentialGolomb :: "bit_buffer \<Rightarrow> 32 word \<Rightarrow> (bool \<times> bit_buffer) option" where
  "WriteExponentialGolomb bb val =
     (if val = 4294967295 then Some (False, bb)
      else let val_to_encode = (ucast val :: 64 word) + 1
           in WriteBits bb val_to_encode (sz_sub (CountBits val_to_encode * 2) 1))"

definition WriteSignedExponentialGolomb :: "bit_buffer \<Rightarrow> int \<Rightarrow> (bool \<times> bit_buffer) option" where
  "WriteSignedExponentialGolomb bb val =
     (if val = 0 then WriteExponentialGolomb bb 0
      else if val > 0 then
        (let signed_val = (word_of_int val :: 32 word)
         in WriteExponentialGolomb bb (signed_val * 2 - 1))
      else if val = -2147483648 then Some (False, bb)
      else (let signed_val = (word_of_int (- val) :: 32 word)
            in WriteExponentialGolomb bb (signed_val * 2)))"

section \<open>Helpers, bit by bit\<close>

named_theorems bit_helpers

lemma bit_255:
  "bit (255 :: 'a::ring_bit_operations) k \<longleftrightarrow> possible_bit TYPE('a) k \<and> k < 8"
proof -
  have "bit (255 :: 'a) k = bit (mask 8 :: 'a) k" by (simp add: mask_eq_exp_minus_1)
  then show ?thesis by (simp only: bit_mask_iff)
qed

lemma bit_LowestBits [bit_helpers]:
  "n \<le> 8 \<Longrightarrow> bit (LowestBits b n) k \<longleftrightarrow> k < n \<and> bit b k"
proof -
  have "push_bit n 1 - 1 = (mask n :: 32 word)" by (simp add: mask_eq_exp_minus_1)
  moreover assume "n \<le> 8"
  ultimately show ?thesis
    by (auto simp: LowestBits_def bit_simps dest: bit_imp_le_length)
qed

lemma bit_HighestBits [bit_helpers]:
  "n \<le> 8 \<Longrightarrow> bit (HighestBits b n) k \<longleftrightarrow> k < n \<and> bit b (k + (8 - n))"
  by (auto simp: HighestBits_def Let_def bit_simps bit_255 ac_simps dest: bit_imp_le_length)

lemma bit_HighestByte [bit_helpers]:
  "bit (HighestByte v) k \<longleftrightarrow> k < 8 \<and> bit v (k + 56)"
  by (auto simp: HighestByte_def bit_simps ac_simps)

lemma bit_WritePartialByte [bit_helpers]:
  assumes "0 < n" "n + off \<le> 8" "k < 8"
  shows "bit (WritePartialByte src n target off) k \<longleftrightarrow>
     (if 8 - off - n \<le> k \<and> k < 8 - off then bit src (k + off)
      else bit target k \<or> bit src (k + off))"
  using assms
  by (auto simp: WritePartialByte_def Let_def bit_simps bit_255 ac_simps dest: bit_imp_le_length)

section \<open>The block as a sequence of bits\<close>

definition bit_at :: "byte list \<Rightarrow> nat \<Rightarrow> bool" where
  "bit_at bs i = bit (bs ! (i div 8)) (7 - i mod 8)"

definition bb_inv :: "bit_buffer \<Rightarrow> bool" where
  "bb_inv bb \<longleftrightarrow> byte_count bb = length (bytes bb) \<and> length (bytes bb) < 4294967296 \<and>
     bit_offset bb < 8 \<and> byte_offset bb * 8 + bit_offset bb \<le> length (bytes bb) * 8"

definition bb_pos :: "bit_buffer \<Rightarrow> nat" where
  "bb_pos bb = byte_offset bb * 8 + bit_offset bb"

text \<open>\<open>v\<close> is the number whose binary digits are the \<open>n\<close> bits from \<open>p\<close>, the first the highest.\<close>

definition is_bits :: "byte list \<Rightarrow> nat \<Rightarrow> nat \<Rightarrow> 'a::len word \<Rightarrow> bool" where
  "is_bits bs p n v \<longleftrightarrow> (\<forall>k. bit v k \<longleftrightarrow> k < n \<and> bit_at bs (p + (n - 1 - k)))"

lemma bit_at_byte: "j < 8 \<Longrightarrow> bit_at bs (q * 8 + j) \<longleftrightarrow> bit (bs ! q) (7 - j)"
  by (simp add: bit_at_def)

lemma byte_at_less: "i < length bs \<Longrightarrow> byte_at bs i = Some (bs ! i)"
  by (simp add: byte_at_def)

lemma store_at_less: "i < length bs \<Longrightarrow> store_at bs i v = Some (bs[i := v])"
  by (simp add: store_at_def)

lemma RemainingBitCount_eq:
  "bb_inv bb \<Longrightarrow> RemainingBitCount bb = length (bytes bb) * 8 - bb_pos bb"
proof -
  assume inv: "bb_inv bb"
  let ?n = "(length (bytes bb) - byte_offset bb) * 8"
  have le: "?n < size_range" using inv by (intro size_range_gt40) (auto simp: bb_inv_def)
  have "length (bytes bb) < size_range" using inv by (intro size_range_gt40) (simp add: bb_inv_def)
  moreover have "bit_offset bb \<le> ?n" using inv by (auto simp: bb_inv_def)
  ultimately have "RemainingBitCount bb = ?n - bit_offset bb"
    using inv le by (simp add: RemainingBitCount_def bb_inv_def sz_sub_id sz_mul_id)
  then show ?thesis using inv by (simp add: bb_pos_def diff_mult_distrib)
qed

section \<open>Reading\<close>

lemma is_bits_snoc:
  fixes v :: "32 word"
  assumes v: "is_bits bs p m v" and p: "p + m = i * 8" and n: "n \<le> 8" "m + n \<le> 32"
  shows "is_bits bs p (m + n) (push_bit n v OR ucast (HighestBits (bs ! i) n))"
  unfolding is_bits_def
proof
  fix k
  let ?w = "push_bit n v OR ucast (HighestBits (bs ! i) n)"
  have w: "bit ?w k \<longleftrightarrow> (n \<le> k \<and> k < 32 \<and> bit v (k - n)) \<or> (k < n \<and> bit (bs ! i) (k + (8 - n)))"
    using n by (auto simp: bit_simps bit_helpers)
  show "bit ?w k \<longleftrightarrow> k < m + n \<and> bit_at bs (p + (m + n - 1 - k))"
  proof (cases "k < n")
    case True
    have "p + (m + n - 1 - k) = i * 8 + (n - 1 - k)" using True p by linarith
    moreover have "7 - (n - 1 - k) = k + (8 - n)" using True n by linarith
    ultimately have "bit_at bs (p + (m + n - 1 - k)) \<longleftrightarrow> bit (bs ! i) (k + (8 - n))"
      using n bit_at_byte [of "n - 1 - k" bs i] by (simp only:) linarith
    then show ?thesis using True w by simp
  next
    case False
    then have "m + n - 1 - k = m - 1 - (k - n)" by linarith
    then have "bit v (k - n) \<longleftrightarrow> k - n < m \<and> bit_at bs (p + (m + n - 1 - k))"
      using v by (simp only: is_bits_def)
    then show ?thesis using False w n by auto
  qed
qed

lemma HighestBits_8 [simp]: "HighestBits b 8 = b"
  by (rule bit_word_eqI) (simp add: bit_helpers)

lemma peek_bytes_correct:
  fixes v :: "32 word"
  assumes "is_bits bs p m v" "p + m = i * 8" "m + n \<le> 32" "i * 8 + n \<le> length bs * 8"
  shows "\<exists>v'. peek_bytes bs i n v = Some (i + n div 8, n mod 8, v') \<and>
    is_bits bs p (m + (n - n mod 8)) v'"
  using assms
proof (induction bs i n v arbitrary: m rule: peek_bytes.induct)
  case (1 bs i n bits)
  show ?case
  proof (cases "8 \<le> n")
    case False
    then show ?thesis using "1.prems" by (simp add: peek_bytes.simps)
  next
    case True
    have lt: "i < length bs" using True "1.prems" by linarith
    let ?bits = "push_bit 8 bits OR ucast (bs ! i)"
    have "is_bits bs p (m + 8) ?bits"
      using is_bits_snoc [of bs p m bits i 8] True "1.prems" by simp
    then obtain v' where v': "peek_bytes bs (Suc i) (n - 8) ?bits =
        Some (Suc i + (n - 8) div 8, (n - 8) mod 8, v')"
      "is_bits bs p (m + 8 + (n - 8 - (n - 8) mod 8)) v'"
      using "1.IH" [OF True byte_at_less [OF lt], of "m + 8"] True "1.prems" by auto
    have nm: "(n - 8) mod 8 = n mod 8" and "Suc ((n - 8) div 8) = n div 8"
      using True by (simp_all add: le_mod_geq le_div_geq)
    moreover have "m + 8 + (n - 8 - n mod 8) = m + (n - n mod 8)"
      using True mod_less_eq_dividend [of "n - 8" 8] unfolding nm by linarith
    ultimately show ?thesis
      using v' True lt by (simp add: peek_bytes.simps [of bs i n] byte_at_less)
  qed
qed

lemma is_bits_LowestBits:
  "off < 8 \<Longrightarrow> is_bits bs (i * 8 + off) (8 - off) (ucast (LowestBits (bs ! i) (8 - off)) :: 32 word)"
  unfolding is_bits_def
proof
  fix k
  assume off: "off < 8"
  show "bit (ucast (LowestBits (bs ! i) (8 - off)) :: 32 word) k \<longleftrightarrow>
    k < 8 - off \<and> bit_at bs (i * 8 + off + (8 - off - 1 - k))"
  proof (cases "k < 8 - off")
    case True
    then have "i * 8 + off + (8 - off - 1 - k) = i * 8 + (7 - k)" by linarith
    moreover have "7 - (7 - k) = k" using True by linarith
    ultimately show ?thesis using True off bit_at_byte [of "7 - k" bs i]
      by (auto simp: bit_simps bit_helpers)
  qed (auto simp: bit_simps bit_helpers)
qed

lemma is_bits_HighestBits:
  assumes v: "is_bits bs p (8 - off) (ucast b :: 32 word)" and n: "n < 8 - off"
  shows "is_bits bs p n (ucast (HighestBits b (off + n)) :: 32 word)"
proof -
  have b: "bit b k \<longleftrightarrow> k < 8 - off \<and> bit_at bs (p + (8 - off - 1 - k))" for k
  proof -
    have "bit (ucast b :: 32 word) k = bit b k" by (auto simp: bit_simps dest: bit_imp_le_length)
    then show ?thesis using v by (simp add: is_bits_def)
  qed
  have "8 - off - 1 - (k + (8 - (off + n))) = n - 1 - k" if "k < n" for k using that n by linarith
  then show ?thesis using n
    by (auto simp: is_bits_def bit_simps bit_helpers b)
qed

lemma read_bound:
  "p + x = y * 8 \<Longrightarrow> x + r = n \<Longrightarrow> 0 < r \<Longrightarrow> p + n \<le> l * 8 \<Longrightarrow> y < (l::nat)"
  by linarith

lemma PeekBits_correct_lemma:
  assumes inv: "bb_inv bb" and n: "0 < n" "n \<le> 32" "bb_pos bb + n \<le> length (bytes bb) * 8"
  shows "\<exists>v. PeekBits bb True n = Some (Some v) \<and> is_bits (bytes bb) (bb_pos bb) n v"
proof -
  let ?bs = "bytes bb" and ?i = "byte_offset bb" and ?off = "bit_offset bb"
  let ?b = "LowestBits (?bs ! ?i) (8 - ?off)"
  have off: "?off < 8" and lt: "?i < length ?bs"
    using inv n by (auto simp: bb_inv_def bb_pos_def)
  have rem: "\<not> n > RemainingBitCount bb" using inv n by (simp add: RemainingBitCount_eq)
  have b: "is_bits ?bs (bb_pos bb) (8 - ?off) (ucast ?b :: 32 word)"
    using is_bits_LowestBits [OF off] by (simp add: bb_pos_def)
  have bb: "(ucast (ucast ?b :: 32 word) :: byte) = ?b" by (rule bit_word_eqI) (simp add: bit_simps)
  show ?thesis
  proof (cases "n < 8 - ?off")
    case True
    then show ?thesis using is_bits_HighestBits [OF b True] lt rem n
      by (simp add: PeekBits_def byte_at_less Let_def bb)
  next
    case False
    let ?n = "n - (8 - ?off)"
    obtain v' where pk: "peek_bytes ?bs (Suc ?i) ?n (ucast ?b) = Some (Suc ?i + ?n div 8, ?n mod 8, v')"
      and v': "is_bits ?bs (bb_pos bb) (8 - ?off + (?n - ?n mod 8)) v'"
      using peek_bytes_correct [OF b, of "Suc ?i" ?n] off n False by (fastforce simp: bb_pos_def)
    have eq: "PeekBits bb True n = (if ?n mod 8 > 0 then do {
         b' \<leftarrow> byte_at ?bs (Suc ?i + ?n div 8);
         Some (Some (push_bit (?n mod 8) v' OR ucast (HighestBits b' (?n mod 8))))
       } else Some (Some v'))"
      using False lt rem n pk by (simp add: PeekBits_def byte_at_less Let_def)
    have tot: "8 - ?off + (?n - ?n mod 8) + ?n mod 8 = n"
      using False mod_less_eq_dividend [of ?n 8] by linarith
    show ?thesis
    proof (cases "?n mod 8 > 0")
      case True
      have pos: "bb_pos bb + (8 - ?off + (?n - ?n mod 8)) = (Suc ?i + ?n div 8) * 8"
        using off minus_mod_eq_div_mult [of ?n 8] by (simp add: bb_pos_def)
      have "Suc ?i + ?n div 8 < length ?bs"
        by (rule read_bound [OF pos tot True n(3)])
      moreover have "is_bits ?bs (bb_pos bb) n
          (push_bit (?n mod 8) v' OR ucast (HighestBits (?bs ! (Suc ?i + ?n div 8)) (?n mod 8)))"
        using is_bits_snoc [OF v' pos, of "?n mod 8"] n(2)
        unfolding tot by (simp add: less_imp_le)
      ultimately show ?thesis using True unfolding eq by (simp add: byte_at_less)
    next
      case False
      then have z: "?n mod 8 = 0" by simp
      have "8 - ?off + (?n - ?n mod 8) = n" using tot unfolding z by (simp only: add_0_right)
      then show ?thesis using v' False unfolding eq by simp
    qed
  qed
qed

section \<open>Writing\<close>

text \<open>
  \<open>bs'\<close> is \<open>bs\<close> with the first \<open>m\<close> of the \<open>N\<close> low bits of \<open>v\<close> written from bit \<open>p\<close> on, the
  highest first, and every other bit unchanged.
\<close>

definition bits_written ::
    "byte list \<Rightarrow> nat \<Rightarrow> nat \<Rightarrow> nat \<Rightarrow> 64 word \<Rightarrow> byte list \<Rightarrow> bool" where
  "bits_written bs p N m v bs' \<longleftrightarrow> length bs' = length bs \<and>
     (\<forall>j < length bs * 8. bit_at bs' j \<longleftrightarrow>
        (if p \<le> j \<and> j < p + m then bit v (N - 1 - (j - p)) else bit_at bs j))"

text \<open>The high bits of \<open>val\<close> are the \<open>n\<close> low bits of \<open>v\<close>; the others are zero.\<close>

definition top_bits :: "64 word \<Rightarrow> nat \<Rightarrow> 64 word \<Rightarrow> bool" where
  "top_bits val n v \<longleftrightarrow> (\<forall>k < 64. bit val k \<longleftrightarrow> 64 - n \<le> k \<and> bit v (k - (64 - n)))"

lemma bits_written_0: "bits_written bs p N 0 v bs"
  by (auto simp: bits_written_def)

lemma top_bits_init: "0 < n \<Longrightarrow> n \<le> 64 \<Longrightarrow> top_bits (push_bit (64 - n) v) n v"
  by (auto simp: top_bits_def bit_simps)

lemma top_bits_push:
  "top_bits val n v \<Longrightarrow> m \<le> n \<Longrightarrow> n \<le> 64 \<Longrightarrow> top_bits (push_bit m val) (n - m) v"
proof -
  assume val: "top_bits val n v" and mn: "m \<le> n" "n \<le> 64"
  show ?thesis
    unfolding top_bits_def
  proof (intro allI impI)
    fix k :: nat
    assume k: "k < 64"
    have "m \<le> k \<and> 64 - n \<le> k - m \<longleftrightarrow> 64 - (n - m) \<le> k" using mn by linarith
    moreover have "m \<le> k \<Longrightarrow> k - m - (64 - n) = k - (64 - (n - m))" using mn by linarith
    ultimately show "bit (push_bit m val) k \<longleftrightarrow> 64 - (n - m) \<le> k \<and> bit v (k - (64 - (n - m)))"
      using val k by (auto simp: bit_simps top_bits_def)
  qed
qed

lemma bit_at_store:
  "i < length bs \<Longrightarrow> r < 8 \<Longrightarrow>
   bit_at (bs[i := b]) (q * 8 + r) \<longleftrightarrow> (if q = i then bit b (7 - r) else bit_at bs (q * 8 + r))"
  by (auto simp: bit_at_byte nth_list_update)

lemma bit_partial:
  assumes top: "top_bits val (N - m) v" and n: "0 < n" "n + off \<le> 8" "m + n \<le> N" "N \<le> 64"
    and full: "n + off = 8 \<or> m + n = N" and r: "r < 8"
  shows "bit (WritePartialByte (HighestByte val) n t off) (7 - r) \<longleftrightarrow>
    (if off \<le> r \<and> r < off + n then bit v (N - 1 - (m + (r - off))) else bit t (7 - r))"
proof -
  have range: "8 - off - n \<le> 7 - r \<and> 7 - r < 8 - off \<longleftrightarrow> off \<le> r \<and> r < off + n"
    using n r by linarith
  have src: "bit (HighestByte val) (7 - r + off) \<longleftrightarrow>
      off \<le> r \<and> 64 - (N - m) \<le> 63 - (r - off) \<and> bit v (63 - (r - off) - (64 - (N - m)))"
  proof (cases "off \<le> r")
    case True
    then have "7 - r + off + 56 = 63 - (r - off)" "7 - r + off < 8" using r by linarith+
    then show ?thesis using True top by (simp add: bit_helpers top_bits_def)
  next
    case False
    then have "\<not> 7 - r + off < 8" using r by linarith
    then show ?thesis using False by (simp add: bit_helpers)
  qed
  show ?thesis
  proof (cases "off \<le> r \<and> r < off + n")
    case True
    then have "64 - (N - m) \<le> 63 - (r - off)"
      and "63 - (r - off) - (64 - (N - m)) = N - 1 - (m + (r - off))" using n by linarith+
    then show ?thesis using True range src n r by (simp add: bit_WritePartialByte)
  next
    case False
    then have "\<not> (off \<le> r \<and> 64 - (N - m) \<le> 63 - (r - off))" using n full r by linarith
    then show ?thesis using False range src n r by (auto simp: bit_WritePartialByte)
  qed
qed

lemma bits_written_step:
  assumes w: "bits_written bs p N m v bs1" and p: "p + m = i * 8 + off" and i: "i < length bs"
    and top: "top_bits val (N - m) v" and n: "0 < n" "n + off \<le> 8" "m + n \<le> N" "N \<le> 64"
    and full: "n + off = 8 \<or> m + n = N"
  shows "bits_written bs p N (m + n) v
    (bs1[i := WritePartialByte (HighestByte val) n (bs1 ! i) off])"
proof -
  let ?b = "WritePartialByte (HighestByte val) n (bs1 ! i) off"
  have len: "length bs1 = length bs" using w by (simp add: bits_written_def)
  have "bit_at (bs1[i := ?b]) j \<longleftrightarrow>
    (if p \<le> j \<and> j < p + (m + n) then bit v (N - 1 - (j - p)) else bit_at bs j)"
    if j: "j < length bs * 8" for j
  proof -
    obtain q r where qr: "j = q * 8 + r" "r < 8"
      by (metis div_mult_mod_eq mod_less_divisor zero_less_numeral)
    have old: "bit_at bs1 j \<longleftrightarrow>
        (if p \<le> j \<and> j < p + m then bit v (N - 1 - (j - p)) else bit_at bs j)"
      using w j by (simp add: bits_written_def)
    have new: "bit_at (bs1[i := ?b]) j \<longleftrightarrow> (if q = i then bit ?b (7 - r) else bit_at bs1 j)"
      using bit_at_store [of i bs1 r ?b q] i len qr by simp
    show ?thesis
    proof (cases "q = i \<and> off \<le> r \<and> r < off + n")
      case True
      have "m + (r - off) = j - p" "p \<le> j \<and> j < p + (m + n)" using True p qr by linarith+
      then show ?thesis using True new bit_partial [OF top n full qr(2)] by simp
    next
      case False
      have "bit_at bs1 j \<longleftrightarrow> bit_at (bs1[i := ?b]) j"
        using False new bit_partial [OF top n full qr(2), of "bs1 ! i"]
          bit_at_byte [OF qr(2), of bs1 q] qr(1)
        by (cases "q = i") (simp_all only: simp_thms if_False if_True)
      moreover have "p \<le> j \<and> j < p + (m + n) \<longleftrightarrow> p \<le> j \<and> j < p + m"
        using False p n qr by (cases "q = i") linarith+
      ultimately show ?thesis using old by simp
    qed
  qed
  then show ?thesis using len by (simp add: bits_written_def)
qed

lemma WritePartialByte_8 [simp]: "WritePartialByte s 8 t 0 = s"
  by (rule bit_word_eqI) (auto simp: bit_helpers)

lemma write_bytes_correct:
  assumes "bits_written bs p N m v bs1" "p + m = i * 8" "top_bits val (N - m) v"
    "m + n = N" "N \<le> 64" "p + N \<le> length bs * 8"
  shows "\<exists>bs' val'. write_bytes bs1 i n val = Some (bs', i + n div 8, n mod 8, val') \<and>
    bits_written bs p N (N - n mod 8) v bs' \<and> top_bits val' (n mod 8) v"
  using assms
proof (induction bs1 i n val arbitrary: m rule: write_bytes.induct)
  case (1 bs1 i n val)
  have len: "length bs1 = length bs" using "1.prems" by (simp add: bits_written_def)
  have nm: "N - m = n" "N - n = m" "N - (m + 8) = n - 8" using "1.prems"(4) by simp_all
  show ?case
  proof (cases "8 \<le> n")
    case False
    then show ?thesis using "1.prems" nm by (simp add: write_bytes.simps)
  next
    case True
    have lt: "i < length bs" using True "1.prems" by linarith
    let ?bs = "bs1[i := HighestByte val]"
    have "bits_written bs p N (m + 8) v ?bs"
      using bits_written_step [OF "1.prems"(1), of i 0 val 8] "1.prems" True lt by simp
    moreover have "top_bits (push_bit 8 val) (N - (m + 8)) v"
      using top_bits_push [OF "1.prems"(3), of 8] "1.prems"(4,5) True nm by simp
    moreover have "p + (m + 8) = Suc i * 8" "m + 8 + (n - 8) = N" using "1.prems" True by simp_all
    moreover have "store_at bs1 i (HighestByte val) = Some ?bs" using lt len by (simp add: store_at_less)
    ultimately obtain bs' val' where IH: "write_bytes ?bs (Suc i) (n - 8) (push_bit 8 val) =
          Some (bs', Suc i + (n - 8) div 8, (n - 8) mod 8, val')"
        "bits_written bs p N (N - (n - 8) mod 8) v bs'" "top_bits val' ((n - 8) mod 8) v"
      using "1.IH" [OF True, of ?bs "m + 8"] "1.prems"(5,6) by blast
    have "(n - 8) mod 8 = n mod 8" and "Suc ((n - 8) div 8) = n div 8"
      using True by (simp_all add: le_mod_geq le_div_geq)
    then show ?thesis
      using IH True lt len by (simp add: write_bytes.simps [of bs1 i n] store_at_less)
  qed
qed

section \<open>Positions\<close>

definition bb_at :: "bit_buffer \<Rightarrow> nat \<Rightarrow> bit_buffer" where
  "bb_at bb p = bb\<lparr>byte_offset := p div 8, bit_offset := p mod 8\<rparr>"

lemma bb_at_simps [simp]:
  "bytes (bb_at bb p) = bytes bb" "bb_pos (bb_at bb p) = p" "bb_at (bb_at bb p) q = bb_at bb q"
  "byte_count (bb_at bb p) = byte_count bb" "byte_offset (bb_at bb p) = p div 8"
  "bit_offset (bb_at bb p) = p mod 8"
  by (simp_all add: bb_at_def bb_pos_def)

lemma bb_inv_at [simp]: "bb_inv bb \<Longrightarrow> bb_inv (bb_at bb p) \<longleftrightarrow> p \<le> length (bytes bb) * 8"
  by (auto simp: bb_inv_def)

lemma bb_inv_bytes: "bb_inv bb \<Longrightarrow> length bs = length (bytes bb) \<Longrightarrow> bb_inv (bb\<lparr>bytes := bs\<rparr>)"
  by (simp add: bb_inv_def)

lemma bb_at_pos: "bb_inv bb \<Longrightarrow> bb_at bb (bb_pos bb) = bb"
  by (simp add: bb_at_def bb_pos_def bb_inv_def)

lemma bb_pos_bytes [simp]: "bb_pos (bb\<lparr>bytes := bs\<rparr>) = bb_pos bb"
  by (simp add: bb_pos_def)

lemma bb_pos_le: "bb_inv bb \<Longrightarrow> bb_pos bb \<le> length (bytes bb) * 8"
  by (simp add: bb_inv_def bb_pos_def)

lemma ConsumeBits_ok:
  assumes "bb_inv bb" "bb_pos bb + n \<le> length (bytes bb) * 8"
  shows "ConsumeBits bb n = (True, bb_at bb (bb_pos bb + n))"
proof -
  have "(bb_pos bb + n) div 8 = byte_offset bb + (bit_offset bb + n) div 8"
    and "(bb_pos bb + n) mod 8 = (bit_offset bb + n) mod 8"
    by (simp_all add: bb_pos_def add.assoc)
  then show ?thesis using assms by (simp add: ConsumeBits_def bb_at_def RemainingBitCount_eq)
qed

lemma ConsumeBits_short:
  "bb_inv bb \<Longrightarrow> bb_pos bb + n > length (bytes bb) * 8 \<Longrightarrow> ConsumeBits bb n = (False, bb)"
  by (simp add: ConsumeBits_def RemainingBitCount_eq less_diff_conv2 bb_pos_le)

lemma PeekBits_short:
  "bb_inv bb \<Longrightarrow> bb_pos bb + n > length (bytes bb) * 8 \<Longrightarrow> PeekBits bb val n = Some None"
  by (simp add: PeekBits_def RemainingBitCount_eq less_diff_conv2 bb_pos_le)

lemma ReadBits_short:
  "bb_inv bb \<Longrightarrow> bb_pos bb + n > length (bytes bb) * 8 \<Longrightarrow> ReadBits bb val n = Some (None, bb)"
  by (simp add: ReadBits_def PeekBits_short)

lemma ReadBits_ok:
  assumes "bb_inv bb" "0 < n" "n \<le> 32" "bb_pos bb + n \<le> length (bytes bb) * 8"
  shows "\<exists>v. ReadBits bb True n = Some (Some v, bb_at bb (bb_pos bb + n)) \<and>
    is_bits (bytes bb) (bb_pos bb) n v"
  using PeekBits_correct_lemma [OF assms] ConsumeBits_ok [OF assms(1,4)]
  by (auto simp: ReadBits_def)

lemma Seek_at:
  "bb_inv bb \<Longrightarrow> p \<le> length (bytes bb) * 8 \<Longrightarrow> Seek bb (p div 8) (p mod 8) = (True, bb_at bb p)"
proof -
  assume inv: "bb_inv bb" and p: "p \<le> length (bytes bb) * 8"
  have "p = p div 8 * 8 + p mod 8" by simp
  then have "\<not> p div 8 > length (bytes bb)" "p div 8 = length (bytes bb) \<Longrightarrow> p mod 8 = 0"
    using p by linarith+
  moreover have "p mod 8 \<le> 7" using mod_less_divisor [of 8 p] by linarith
  ultimately show ?thesis using inv by (auto simp: Seek_def bb_at_def bb_inv_def)
qed

lemma Seek_back:
  assumes "bb_inv bb" "bb_inv bb'" "length (bytes bb') = length (bytes bb)"
  shows "Seek bb' (byte_offset bb) (bit_offset bb) = (True, bb_at bb' (bb_pos bb))"
proof -
  have "bb_pos bb div 8 = byte_offset bb" "bb_pos bb mod 8 = bit_offset bb"
    using assms(1) by (simp_all add: bb_pos_def bb_inv_def)
  then show ?thesis using Seek_at [OF assms(2), of "bb_pos bb"] bb_pos_le [OF assms(1)] assms(3) by simp
qed

lemma WriteBits_short:
  "bb_inv bb \<Longrightarrow> bb_pos bb + n > length (bytes bb) * 8 \<Longrightarrow> WriteBits bb v n = Some (False, bb)"
  by (simp add: WriteBits_def RemainingBitCount_eq less_diff_conv2 bb_pos_le)

lemma write_pos:
  "p = i * 8 + off \<Longrightarrow> off < 8 \<Longrightarrow> 8 - off \<le> n \<Longrightarrow> k = n - (8 - off) \<Longrightarrow> k - r = d * 8 \<Longrightarrow> r \<le> k \<Longrightarrow>
   p + (n - r) = (Suc i + d) * (8::nat)"
proof -
  assume p: "p = i * 8 + off" "off < 8" and k: "8 - off \<le> n" "k = n - (8 - off)" "k - r = d * 8" "r \<le> k"
  then have "n = k + (8 - off)" "k = d * 8 + r" by linarith+
  then have "n - r = d * 8 + (8 - off)" by simp
  then show ?thesis using p by simp
qed

lemma WriteBits_ok:
  assumes inv: "bb_inv bb" and n: "0 < n" "n \<le> 64" "bb_pos bb + n \<le> length (bytes bb) * 8"
  shows "\<exists>bs'. WriteBits bb v n = Some (True, bb_at (bb\<lparr>bytes := bs'\<rparr>) (bb_pos bb + n)) \<and>
    bits_written (bytes bb) (bb_pos bb) n n v bs'"
proof -
  let ?bs = "bytes bb" and ?i = "byte_offset bb" and ?off = "bit_offset bb" and ?p = "bb_pos bb"
  let ?val = "push_bit (64 - n) v" and ?first = "min n (8 - bit_offset bb)"
  let ?bs1 = "?bs[?i := WritePartialByte (HighestByte ?val) ?first (?bs ! ?i) ?off]"
  have off: "?off < 8" and lt: "?i < length ?bs"
    using inv n by (auto simp: bb_inv_def bb_pos_def)
  have rem: "\<not> n > RemainingBitCount bb" using inv n by (simp add: RemainingBitCount_eq)
  have sh: "\<not> 64 \<le> sz_sub 64 n" using n size_range_gt [of 64] by (simp add: sz_sub_id)
  have top: "top_bits ?val (n - 0) v" using top_bits_init n by simp
  have w1: "bits_written ?bs ?p n (0 + ?first) v ?bs1"
    using bits_written_step [OF bits_written_0 _ lt top, of ?p ?off ?first] off n
    by (auto simp: bb_pos_def min_def)
  have fin: "ConsumeBits (bb\<lparr>bytes := bs'\<rparr>) n = (True, bb_at (bb\<lparr>bytes := bs'\<rparr>) (?p + n))"
    if "bits_written ?bs ?p n n v bs'" for bs'
    using ConsumeBits_ok [of "bb\<lparr>bytes := bs'\<rparr>" n] bb_inv_bytes [OF inv, of bs'] that n
    by (simp add: bits_written_def)
  show ?thesis
  proof (cases "n \<le> 8 - ?off")
    case True
    then have "bits_written ?bs ?p n n v ?bs1" using w1 by simp
    then show ?thesis using fin True lt rem sh
      by (auto simp: WriteBits_def Let_def byte_at_less store_at_less)
  next
    case False
    let ?n = "n - (8 - ?off)"
    have f: "?first = 8 - ?off" using False by simp
    have "top_bits (push_bit ?first ?val) (n - ?first) v"
      using top_bits_push [of ?val n v ?first] top n by simp
    then obtain bs2 val2 where wb: "write_bytes ?bs1 (Suc ?i) ?n (push_bit ?first ?val) =
          Some (bs2, Suc ?i + ?n div 8, ?n mod 8, val2)"
        and w2: "bits_written ?bs ?p n (n - ?n mod 8) v bs2" and t2: "top_bits val2 (?n mod 8) v"
      using write_bytes_correct [of ?bs ?p n ?first v ?bs1 "Suc ?i" "push_bit ?first ?val" ?n]
        w1 n off False unfolding f by (auto simp: bb_pos_def)
    have len2: "length bs2 = length ?bs" using w2 by (simp add: bits_written_def)
    let ?j = "Suc ?i + ?n div 8"
    have eq: "WriteBits bb v n = do {
        bs3 \<leftarrow> (if ?n mod 8 > 0 then do {
                  b' \<leftarrow> byte_at bs2 ?j;
                  store_at bs2 ?j (WritePartialByte (HighestByte val2) (?n mod 8) b' 0)
                } else Some bs2);
        Some (ConsumeBits (bb\<lparr>bytes := bs3\<rparr>) n) }"
      using False lt rem sh wb unfolding f
      by (simp add: WriteBits_def Let_def byte_at_less store_at_less)
    show ?thesis
    proof (cases "?n mod 8 > 0")
      case False
      then have z: "?n mod 8 = 0" by simp
      have "bits_written ?bs ?p n n v bs2" using w2 unfolding z by simp
      then show ?thesis using fin unfolding eq z by auto
    next
      case True
      have le: "?n mod 8 \<le> ?n" by (rule mod_less_eq_dividend)
      then have tot: "n - ?n mod 8 + ?n mod 8 = n" "n - (n - ?n mod 8) = ?n mod 8" using False by linarith+
      have "?n - ?n mod 8 = ?n div 8 * 8" by (rule minus_mod_eq_div_mult)
      then have pos: "?p + (n - ?n mod 8) = ?j * 8"
        using write_pos [OF refl off _ refl _ le, of "?n div 8" ?i] False by (simp only: bb_pos_def)
      have j: "?j < length ?bs" by (rule read_bound [OF pos tot(1) True n(3)])
      let ?bs3 = "bs2[?j := WritePartialByte (HighestByte val2) (?n mod 8) (bs2 ! ?j) 0]"
      have "?p + (n - ?n mod 8) = ?j * 8 + 0" "top_bits val2 (n - (n - ?n mod 8)) v" "?n mod 8 + 0 \<le> 8"
        using pos t2 unfolding tot by (simp_all only: add_0_right) (simp add: less_imp_le)
      then have "bits_written ?bs ?p n (n - ?n mod 8 + ?n mod 8) v ?bs3"
        using bits_written_step [OF w2 _ j _ True] tot(1) n(2) by (metis order_refl)
      then have "bits_written ?bs ?p n n v ?bs3" unfolding tot .
      then show ?thesis using fin [of ?bs3] True j len2 unfolding eq
        by (simp add: byte_at_less store_at_less) blast
    qed
  qed
qed

end
