(* ===== verification/Bit_Codes.thy ===== *)
theory Bit_Codes
  imports Bit_Buffer
begin

text \<open>
  Round trips of the codes of \<^verbatim>\<open>rtc_base/bit_buffer.cc\<close>: a value written by one of the writer's
  operations is read back by the matching reader operation.  The locale \<open>bit_code\<close> is the contract
  of one code, a bit string for each value; it is interpreted on the fixed-width, the exponential
  Golomb, the signed exponential Golomb and the non-symmetric operations, and on sequences that mix
  them.
\<close>

section \<open>Bit strings in the block\<close>

definition has_bits :: "byte list \<Rightarrow> nat \<Rightarrow> bool list \<Rightarrow> bool" where
  "has_bits bs p xs \<longleftrightarrow> p + length xs \<le> length bs * 8 \<and> (\<forall>k < length xs. bit_at bs (p + k) = xs ! k)"

definition put_bits :: "byte list \<Rightarrow> nat \<Rightarrow> bool list \<Rightarrow> byte list \<Rightarrow> bool" where
  "put_bits bs p xs bs' \<longleftrightarrow> length bs' = length bs \<and>
     (\<forall>j < length bs * 8. bit_at bs' j \<longleftrightarrow>
        (if p \<le> j \<and> j < p + length xs then xs ! (j - p) else bit_at bs j))"

text \<open>The \<open>n\<close> low bits of a word, the highest first.\<close>

definition word_bits :: "nat \<Rightarrow> 'a::len word \<Rightarrow> bool list" where
  "word_bits n v = map (\<lambda>k. bit v (n - 1 - k)) [0..<n]"

section \<open>The contract of a code\<close>

locale bit_code =
  fixes enc :: "'v \<Rightarrow> bool list"
    and valid :: "'v \<Rightarrow> bool"
    and shape :: "'v \<Rightarrow> 's"
    and wr :: "bit_buffer \<Rightarrow> 'v \<Rightarrow> (bool \<times> bit_buffer) option"
    and rd :: "bit_buffer \<Rightarrow> 's \<Rightarrow> ('v option \<times> bit_buffer) option"
  assumes wr_ok: "bb_inv bb \<Longrightarrow> valid x \<Longrightarrow> bb_pos bb + length (enc x) \<le> length (bytes bb) * 8 \<Longrightarrow>
      \<exists>bs'. wr bb x = Some (True, bb_at (bb\<lparr>bytes := bs'\<rparr>) (bb_pos bb + length (enc x))) \<and>
        put_bits (bytes bb) (bb_pos bb) (enc x) bs'"
    and wr_short: "bb_inv bb \<Longrightarrow> valid x \<Longrightarrow> bb_pos bb + length (enc x) > length (bytes bb) * 8 \<Longrightarrow>
      wr bb x = Some (False, bb)"
    and rd_ok: "bb_inv bb \<Longrightarrow> valid x \<Longrightarrow> has_bits (bytes bb) (bb_pos bb) (enc x) \<Longrightarrow>
      rd bb (shape x) = Some (Some x, bb_at bb (bb_pos bb + length (enc x)))"

fun write_seq :: "(bit_buffer \<Rightarrow> 'v \<Rightarrow> (bool \<times> bit_buffer) option) \<Rightarrow> bit_buffer \<Rightarrow> 'v list \<Rightarrow>
    (bool \<times> bit_buffer) option" where
  "write_seq wr bb [] = Some (True, bb)"
| "write_seq wr bb (x # xs) = do {
     (ok, bb1) \<leftarrow> wr bb x;
     (if ok then write_seq wr bb1 xs else Some (False, bb1))
   }"

fun read_seq :: "(bit_buffer \<Rightarrow> 's \<Rightarrow> ('v option \<times> bit_buffer) option) \<Rightarrow> bit_buffer \<Rightarrow> 's list \<Rightarrow>
    ('v list option \<times> bit_buffer) option" where
  "read_seq rd bb [] = Some (Some [], bb)"
| "read_seq rd bb (s # ss) = do {
     (r, bb1) \<leftarrow> rd bb s;
     (case r of
        None \<Rightarrow> Some (None, bb1)
      | Some x \<Rightarrow> do {
          (rs, bb2) \<leftarrow> read_seq rd bb1 ss;
          Some (map_option ((#) x) rs, bb2)
        })
   }"

section \<open>Bit string lemmas\<close>

lemma bb_at_bytes [simp]: "(bb_at bb p)\<lparr>bytes := bs\<rparr> = bb_at (bb\<lparr>bytes := bs\<rparr>) p"
  by (simp add: bb_at_def)

lemma length_word_bits [simp]: "length (word_bits n v) = n"
  by (simp add: word_bits_def)

lemma nth_word_bits [simp]: "k < n \<Longrightarrow> word_bits n v ! k = bit v (n - 1 - k)"
  by (simp add: word_bits_def)

lemma put_bits_word_bits: "put_bits bs p (word_bits n v) bs' \<longleftrightarrow> bits_written bs p n n v bs'"
  by (auto simp: put_bits_def bits_written_def)

lemma put_bits_has_bits:
  "put_bits bs p xs bs' \<Longrightarrow> p + length xs \<le> length bs * 8 \<Longrightarrow> has_bits bs' p xs"
  by (auto simp: put_bits_def has_bits_def)

lemma put_bits_before:
  assumes "put_bits bs p xs bs'" "has_bits bs q ys" "q + length ys \<le> p"
  shows "has_bits bs' q ys"
  using assms by (auto simp: put_bits_def has_bits_def)

lemma has_bits_append:
  "has_bits bs p (xs @ ys) \<longleftrightarrow> has_bits bs p xs \<and> has_bits bs (p + length xs) ys"
proof -
  have "(\<forall>k < length xs + length ys. bit_at bs (p + k) = (xs @ ys) ! k) \<longleftrightarrow>
      (\<forall>k < length xs. bit_at bs (p + k) = xs ! k) \<and>
      (\<forall>k < length ys. bit_at bs (p + length xs + k) = ys ! k)" (is "?l \<longleftrightarrow> ?a \<and> ?b")
  proof
    assume l: ?l
    show "?a \<and> ?b"
    proof (intro conjI allI impI)
      fix k assume "k < length xs"
      then show "bit_at bs (p + k) = xs ! k" using l [rule_format, of k] by (simp add: nth_append)
    next
      fix k assume "k < length ys"
      then show "bit_at bs (p + length xs + k) = ys ! k"
        using l [rule_format, of "length xs + k"] by (simp add: nth_append add.assoc)
    qed
  next
    assume r: "?a \<and> ?b"
    show ?l
    proof (intro allI impI)
      fix k assume "k < length xs + length ys"
      then show "bit_at bs (p + k) = (xs @ ys) ! k"
        using r [THEN conjunct1, rule_format, of k] r [THEN conjunct2, rule_format, of "k - length xs"]
        by (cases "k < length xs") (auto simp: nth_append add.assoc)
    qed
  qed
  then show ?thesis by (auto simp: has_bits_def)
qed

lemma is_bits_unique:
  assumes "is_bits bs p n v" "has_bits bs p (word_bits n w)" "n \<le> LENGTH('a)"
  shows "v = take_bit n (w :: 'a::len word)"
proof (rule bit_word_eqI)
  fix k assume "k < LENGTH('a)"
  have "bit v k \<longleftrightarrow> k < n \<and> bit_at bs (p + (n - 1 - k))" using assms(1) by (simp add: is_bits_def)
  also have "\<dots> \<longleftrightarrow> k < n \<and> bit w k"
  proof (rule conj_cong [OF refl])
    assume k: "k < n"
    then have "n - 1 - k < n" "n - 1 - (n - 1 - k) = k" by linarith+
    then show "bit_at bs (p + (n - 1 - k)) = bit w k"
      using assms(2) unfolding has_bits_def length_word_bits by (metis nth_word_bits)
  qed
  also have "\<dots> \<longleftrightarrow> bit (take_bit n w) k" by (simp add: bit_take_bit_iff)
  finally show "bit v k = bit (take_bit n w) k" .
qed

lemma ReadBits_has_bits:
  assumes "bb_inv bb" "0 < n" "n \<le> 32" "has_bits (bytes bb) (bb_pos bb) (word_bits n w)"
  shows "ReadBits bb True n = Some (Some (take_bit n w), bb_at bb (bb_pos bb + n))"
proof -
  have "bb_pos bb + n \<le> length (bytes bb) * 8" using assms(4) by (simp add: has_bits_def)
  from ReadBits_ok [OF assms(1-3) this] show ?thesis
    using is_bits_unique [OF _ assms(4)] assms(3) by fastforce
qed

lemma WriteBits_put_bits:
  assumes "bb_inv bb" "0 < n" "n \<le> 64" "bb_pos bb + n \<le> length (bytes bb) * 8"
  shows "\<exists>bs'. WriteBits bb v n = Some (True, bb_at (bb\<lparr>bytes := bs'\<rparr>) (bb_pos bb + n)) \<and>
    put_bits (bytes bb) (bb_pos bb) (word_bits n v) bs'"
  using WriteBits_ok [OF assms] by (simp add: put_bits_word_bits)

section \<open>Sequences of values\<close>

context bit_code
begin

definition encs :: "'v list \<Rightarrow> bool list" where
  "encs xs = concat (map enc xs)"

lemma encs_simps [simp]: "encs [] = []" "encs (x # xs) = enc x @ encs xs"
  by (simp_all add: encs_def)

lemma write_seq_ok:
  assumes "bb_inv bb" "list_all valid xs" "bb_pos bb + length (encs xs) \<le> length (bytes bb) * 8"
    "has_bits (bytes bb) q ys" "q + length ys = bb_pos bb"
  shows "\<exists>bs'. write_seq wr bb xs = Some (True, bb_at (bb\<lparr>bytes := bs'\<rparr>) (bb_pos bb + length (encs xs))) \<and>
    has_bits bs' q (ys @ encs xs) \<and> length bs' = length (bytes bb)"
  using assms
proof (induction xs arbitrary: bb ys)
  case Nil
  then show ?case
    using bb_at_pos [of bb] by (intro exI [of _ "bytes bb"]) (simp add: has_bits_def)
next
  case (Cons x xs)
  obtain bs1 where w: "wr bb x = Some (True, bb_at (bb\<lparr>bytes := bs1\<rparr>) (bb_pos bb + length (enc x)))"
    and put: "put_bits (bytes bb) (bb_pos bb) (enc x) bs1"
    using wr_ok [of bb x] Cons.prems by auto
  let ?bb = "bb_at (bb\<lparr>bytes := bs1\<rparr>) (bb_pos bb + length (enc x))"
  have len: "length bs1 = length (bytes bb)" using put by (simp add: put_bits_def)
  then have inv: "bb_inv ?bb" using bb_inv_bytes [of bb bs1] Cons.prems by simp
  have "has_bits bs1 (bb_pos bb) (enc x)" using put_bits_has_bits [OF put] Cons.prems by simp
  moreover have "has_bits bs1 q ys" using put_bits_before [OF put] Cons.prems by simp
  ultimately have "has_bits (bytes ?bb) q (ys @ enc x)" using Cons.prems by (simp add: has_bits_append)
  then obtain bs' where "write_seq wr ?bb xs =
        Some (True, bb_at (?bb\<lparr>bytes := bs'\<rparr>) (bb_pos ?bb + length (encs xs)))"
      "has_bits bs' q ((ys @ enc x) @ encs xs)" "length bs' = length bs1"
    using Cons.IH [OF inv, of "ys @ enc x"] Cons.prems len by auto
  then show ?case using w len by (intro exI [of _ bs']) (simp add: add.assoc)
qed

lemma read_seq_ok:
  assumes "bb_inv bb" "list_all valid xs" "has_bits (bytes bb) (bb_pos bb) (encs xs)"
  shows "read_seq rd bb (map shape xs) = Some (Some xs, bb_at bb (bb_pos bb + length (encs xs)))"
  using assms
proof (induction xs arbitrary: bb)
  case Nil
  then show ?case by (simp add: bb_at_pos)
next
  case (Cons x xs)
  let ?bb = "bb_at bb (bb_pos bb + length (enc x))"
  have x: "has_bits (bytes bb) (bb_pos bb) (enc x)"
    and xs: "has_bits (bytes ?bb) (bb_pos ?bb) (encs xs)"
    using Cons.prems(3) by (simp_all add: has_bits_append)
  have "bb_inv ?bb" using Cons.prems(1) x by (simp add: has_bits_def)
  then show ?case using rd_ok [OF Cons.prems(1) _ x] Cons.IH [OF _ _ xs] Cons.prems(2)
    by (simp add: add.assoc)
qed

lemma seq_roundtrip:
  assumes "bb_inv bb" "list_all valid xs" "bb_pos bb + length (encs xs) \<le> length (bytes bb) * 8"
  shows "\<exists>bb1 bb2. write_seq wr bb xs = Some (True, bb1) \<and>
    Seek bb1 (byte_offset bb) (bit_offset bb) = (True, bb2) \<and>
    read_seq rd bb2 (map shape xs) = Some (Some xs, bb1)"
proof -
  let ?n = "bb_pos bb + length (encs xs)"
  obtain bs' where w: "write_seq wr bb xs = Some (True, bb_at (bb\<lparr>bytes := bs'\<rparr>) ?n)"
    and bits: "has_bits bs' (bb_pos bb) (encs xs)" and len: "length bs' = length (bytes bb)"
    using write_seq_ok [OF assms, of "bb_pos bb" "[]"] bb_pos_le [OF assms(1)]
    by (auto simp: has_bits_def)
  have inv: "bb_inv (bb\<lparr>bytes := bs'\<rparr>)" using bb_inv_bytes [OF assms(1) len] .
  let ?bb1 = "bb_at (bb\<lparr>bytes := bs'\<rparr>) ?n" and ?bb2 = "bb_at (bb\<lparr>bytes := bs'\<rparr>) (bb_pos bb)"
  have inv1: "bb_inv ?bb1" "bb_inv ?bb2"
    using inv assms(3) len bb_pos_le [OF assms(1)] by simp_all
  have "Seek ?bb1 (byte_offset bb) (bit_offset bb) = (True, ?bb2)"
    using Seek_back [OF assms(1) inv1(1)] len by simp
  moreover have "read_seq rd ?bb2 (map shape xs) = Some (Some xs, ?bb1)"
    using read_seq_ok [OF inv1(2) assms(2)] bits by simp
  ultimately show ?thesis using w by blast
qed

end

section \<open>Counting bits\<close>

lemma CountBits_0 [simp]: "CountBits 0 = 0"
  by (simp add: CountBits.simps)

lemma CountBits_pos: "v \<noteq> 0 \<Longrightarrow> 0 < CountBits v"
  by (subst CountBits.simps) simp

lemma CountBits_bounds: "v \<noteq> 0 \<Longrightarrow> 2 ^ (CountBits v - 1) \<le> unat v \<and> unat v < 2 ^ CountBits v"
proof (induction v rule: CountBits.induct)
  case (1 v)
  have u: "unat (drop_bit 1 v) = unat v div 2" by (rule unat_drop_bit_1)
  have c: "CountBits v = Suc (CountBits (drop_bit 1 v))" using "1.prems" by (simp add: CountBits.simps)
  show ?case
  proof (cases "drop_bit 1 v = 0")
    case True
    then have "unat v div 2 = 0" using u by simp
    then have "unat v < 2" by simp
    moreover have "0 < unat v" using "1.prems" by (simp add: unat_gt_0)
    ultimately show ?thesis using c unfolding True by simp
  next
    case False
    then have IH: "2 ^ (CountBits (drop_bit 1 v) - 1) \<le> unat v div 2"
        "unat v div 2 < 2 ^ CountBits (drop_bit 1 v)"
      using "1.IH" [OF "1.prems"] u by simp_all
    have "CountBits (drop_bit 1 v) > 0" using False by (rule CountBits_pos)
    then obtain d where d: "CountBits (drop_bit 1 v) = Suc d" by (cases "CountBits (drop_bit 1 v)") auto
    show ?thesis using IH unfolding c d by simp linarith
  qed
qed

lemma CountBits_le: "unat v < 2 ^ n \<Longrightarrow> CountBits v \<le> n"
proof (cases "v = 0")
  case False
  assume "unat v < 2 ^ n"
  then have "(2::nat) ^ (CountBits v - 1) < 2 ^ n"
    using CountBits_bounds [OF False] by (meson le_less_trans)
  then have "CountBits v - 1 < n" by (simp add: power_strict_increasing_iff)
  then show ?thesis using CountBits_pos [OF False] by linarith
qed simp

section \<open>Fixed width\<close>

definition field_write :: "bit_buffer \<Rightarrow> nat \<times> 32 word \<Rightarrow> (bool \<times> bit_buffer) option" where
  "field_write bb f = WriteBits bb (ucast (snd f)) (fst f)"

definition field_read :: "bit_buffer \<Rightarrow> nat \<Rightarrow> ((nat \<times> 32 word) option \<times> bit_buffer) option" where
  "field_read bb n = map_option (\<lambda>(r, bb'). (map_option (Pair n) r, bb')) (ReadBits bb True n)"

definition field_valid :: "nat \<times> 32 word \<Rightarrow> bool" where
  "field_valid f \<longleftrightarrow> 0 < fst f \<and> fst f \<le> 32 \<and> unat (snd f) < 2 ^ fst f"

lemma word_bits_ucast: "n \<le> 32 \<Longrightarrow> word_bits n (ucast (v :: 32 word) :: 64 word) = word_bits n v"
  by (auto simp: word_bits_def bit_simps)

lemma take_bit_small: "unat v < 2 ^ n \<Longrightarrow> take_bit n v = (v :: 'a::len word)"
  by (metis take_bit_nat_eq_self unsigned_take_bit_eq word_unat_eq_iff)

interpretation bits_field: bit_code "\<lambda>f. word_bits (fst f) (snd f)" field_valid fst field_write field_read
proof
  fix bb and x :: "nat \<times> 32 word"
  assume "bb_inv bb" "field_valid x"
    "bb_pos bb + length (word_bits (fst x) (snd x)) \<le> length (bytes bb) * 8"
  then show "\<exists>bs'. field_write bb x =
      Some (True, bb_at (bb\<lparr>bytes := bs'\<rparr>) (bb_pos bb + length (word_bits (fst x) (snd x)))) \<and>
      put_bits (bytes bb) (bb_pos bb) (word_bits (fst x) (snd x)) bs'"
    using WriteBits_put_bits [of bb "fst x" "ucast (snd x)"]
    by (simp add: field_write_def field_valid_def word_bits_ucast)
next
  fix bb and x :: "nat \<times> 32 word"
  assume "bb_inv bb" "field_valid x"
    "length (bytes bb) * 8 < bb_pos bb + length (word_bits (fst x) (snd x))"
  then show "field_write bb x = Some (False, bb)"
    by (simp add: field_write_def WriteBits_short)
next
  fix bb and x :: "nat \<times> 32 word"
  assume "bb_inv bb" "field_valid x" "has_bits (bytes bb) (bb_pos bb) (word_bits (fst x) (snd x))"
  then show "field_read bb (fst x) =
      Some (Some x, bb_at bb (bb_pos bb + length (word_bits (fst x) (snd x))))"
    using ReadBits_has_bits [of bb "fst x" "snd x"]
    by (simp add: field_read_def field_valid_def take_bit_small)
qed

section \<open>Exponential Golomb code\<close>

definition golomb_bits :: "32 word \<Rightarrow> bool list" where
  "golomb_bits v =
     (let e = (ucast v :: 64 word) + 1 in replicate (CountBits e - 1) False @ word_bits (CountBits e) e)"

definition golomb_valid :: "32 word \<Rightarrow> bool" where
  "golomb_valid v \<longleftrightarrow> v \<noteq> 4294967295"

lemma unat_ucast_64: "unat (ucast (v :: 32 word) :: 64 word) = unat v"
proof -
  have "unat v < 2 ^ 32" using unsigned_less [of v] by simp
  also have "(2::nat) ^ 32 < 2 ^ 64" by (rule power_strict_increasing) simp_all
  finally show ?thesis by (simp add: unsigned_ucast_eq take_bit_nat_eq_self)
qed

lemma unat_golomb: "golomb_valid v \<Longrightarrow> unat ((ucast v :: 64 word) + 1) = unat v + 1 \<and> unat v + 1 < 2 ^ 32"
proof -
  assume v: "golomb_valid v"
  have "unat v < 2 ^ 32" using unsigned_less [of v] by simp
  moreover have "unat v \<noteq> 4294967295"
  proof
    assume "unat v = 4294967295"
    then have "unat v = unat (4294967295 :: 32 word)" by simp
    then show False using v by (simp add: golomb_valid_def word_unat_eq_iff)
  qed
  ultimately have b: "unat v + 1 < 2 ^ 32" by simp
  have u: "unat (ucast v :: 64 word) = unat v" by (rule unat_ucast_64)
  have "unat ((ucast v :: 64 word) + 1) = (unat (ucast v :: 64 word) + 1) mod 2 ^ 64"
    by (simp add: unat_word_ariths)
  then show ?thesis using b u by simp
qed

lemma golomb_count:
  assumes "golomb_valid v"
  defines "e \<equiv> (ucast v :: 64 word) + 1"
  shows "0 < CountBits e" "CountBits e \<le> 32" "unat e = unat v + 1" "e \<noteq> 0"
proof -
  show e: "unat e = unat v + 1" using unat_golomb [OF assms(1)] by (simp add: e_def)
  then show "e \<noteq> 0" by force
  then show "0 < CountBits e" by (rule CountBits_pos)
  show "CountBits e \<le> 32" using CountBits_le [of e 32] e unat_golomb [OF assms(1)] by simp
qed

lemma bit_ge_CountBits: "CountBits e \<le> k \<Longrightarrow> \<not> bit e k"
proof (cases "e = 0")
  case False
  assume "CountBits e \<le> k"
  have "take_bit (CountBits e) e = e" using CountBits_bounds [OF False] by (simp add: take_bit_small)
  then show ?thesis using \<open>CountBits e \<le> k\<close> by (metis bit_take_bit_iff not_le)
qed simp

lemma bit_CountBits: "e \<noteq> 0 \<Longrightarrow> bit e (CountBits e - 1)"
proof (rule ccontr)
  assume e: "e \<noteq> 0" and n: "\<not> bit e (CountBits e - 1)"
  have "take_bit (CountBits e - 1) e = e"
  proof (rule bit_word_eqI)
    fix k
    show "bit (take_bit (CountBits e - 1) e) k = bit e k"
      using n bit_ge_CountBits [of e k] CountBits_pos [OF e]
      by (cases "k = CountBits e - 1"; cases "CountBits e \<le> k") (auto simp: bit_take_bit_iff)
  qed
  then have "unat e = take_bit (CountBits e - 1) (unat e)" by (metis unsigned_take_bit_eq)
  then have "unat e < 2 ^ (CountBits e - 1)" by (metis take_bit_nat_less_exp)
  then show False using CountBits_bounds [OF e] by simp
qed

text \<open>Writing \<open>2 c - 1\<close> bits of a \<open>c\<close>-bit number is writing \<open>c - 1\<close> zeros and the number.\<close>

lemma word_bits_golomb:
  assumes "e \<noteq> 0"
  shows "word_bits (CountBits e * 2 - 1) e = replicate (CountBits e - 1) False @ word_bits (CountBits e) e"
proof (rule nth_equalityI)
  have c: "0 < CountBits e" using assms by (rule CountBits_pos)
  then show "length (word_bits (CountBits e * 2 - 1) e) =
      length (replicate (CountBits e - 1) False @ word_bits (CountBits e) e)" by simp
  fix k assume "k < length (word_bits (CountBits e * 2 - 1) e)"
  then have k: "k < CountBits e * 2 - 1" by simp
  show "word_bits (CountBits e * 2 - 1) e ! k =
      (replicate (CountBits e - 1) False @ word_bits (CountBits e) e) ! k"
  proof (cases "k < CountBits e - 1")
    case True
    then have "CountBits e \<le> CountBits e * 2 - 1 - 1 - k" by linarith
    then show ?thesis using True k bit_ge_CountBits by (simp add: nth_append)
  next
    case False
    then have "CountBits e * 2 - 1 - 1 - k = CountBits e - 1 - (k - (CountBits e - 1))"
      and "k - (CountBits e - 1) < CountBits e" using k by linarith+
    then show ?thesis using False k by (simp only: nth_append nth_word_bits length_replicate if_False)
  qed
qed

lemma word_bits_unat:
  assumes "unat v = unat w"
  shows "word_bits n v = word_bits n w"
proof -
  have "bit v k = bit w k" for k using arg_cong [OF assms, of "\<lambda>x. bit x k"] by (simp add: bit_unsigned_iff)
  then show ?thesis by (simp add: word_bits_def)
qed

lemma PeekBits_1:
  assumes "bb_inv bb" "bb_pos bb < length (bytes bb) * 8"
  shows "\<exists>v. PeekBits bb True 1 = Some (Some v) \<and> (v = 0 \<longleftrightarrow> \<not> bit_at (bytes bb) (bb_pos bb))"
proof -
  obtain v where "PeekBits bb True 1 = Some (Some v)" and v: "is_bits (bytes bb) (bb_pos bb) 1 v"
    using PeekBits_correct_lemma [OF assms(1), of 1] assms(2) by auto
  moreover have "v = 0 \<longleftrightarrow> \<not> bit_at (bytes bb) (bb_pos bb)"
    using v bit_eq_iff [of v 0] by (auto simp: is_bits_def)
  ultimately show ?thesis by blast
qed

lemma skip_zeros_run:
  assumes "bb_inv bb" "has_bits (bytes bb) (bb_pos bb) (replicate z False @ [True])"
  shows "skip_zeros bb k = Some (bb_at bb (bb_pos bb + z), k + z)"
  using assms
proof (induction z arbitrary: bb k)
  case 0
  then have "bb_pos bb < length (bytes bb) * 8" "bit_at (bytes bb) (bb_pos bb)"
    by (simp_all add: has_bits_def)
  with PeekBits_1 [OF "0.prems"(1)] obtain v where "PeekBits bb True 1 = Some (Some v)" "v \<noteq> 0" by auto
  then show ?case using bb_at_pos [OF "0.prems"(1)] by (simp add: skip_zeros.simps [of bb])
next
  case (Suc z)
  let ?bb = "bb_at bb (bb_pos bb + 1)"
  have h: "has_bits (bytes bb) (bb_pos bb) ([False] @ replicate z False @ [True])"
    using Suc.prems(2) by simp
  then have lt: "bb_pos bb + 1 \<le> length (bytes bb) * 8" and nb: "\<not> bit_at (bytes bb) (bb_pos bb)"
    unfolding has_bits_append by (simp_all add: has_bits_def)
  have rest: "has_bits (bytes ?bb) (bb_pos ?bb) (replicate z False @ [True])"
    using h unfolding has_bits_append [of _ _ "[False]"] by simp
  obtain v where v: "PeekBits bb True 1 = Some (Some v)" "v = 0"
    using PeekBits_1 [OF Suc.prems(1)] lt nb by auto
  have "bb_inv ?bb" using Suc.prems(1) lt by simp
  then show ?case
    using Suc.IH [OF _ rest, of "Suc k"] v ConsumeBits_ok [OF Suc.prems(1) lt]
    by (simp add: skip_zeros.simps [of bb])
qed

lemma skip_zeros_total:
  "bb_inv bb \<Longrightarrow> \<exists>p z. skip_zeros bb k = Some (bb_at bb p, z) \<and> bb_pos bb \<le> p \<and> p \<le> length (bytes bb) * 8"
proof (induction bb k rule: skip_zeros.induct)
  case (1 bb k)
  show ?case
  proof (cases "bb_pos bb < length (bytes bb) * 8")
    case False
    then have "PeekBits bb True 1 = Some None" using PeekBits_short "1.prems" by simp
    then have "skip_zeros bb k = Some (bb_at bb (bb_pos bb), k)"
      by (simp add: skip_zeros.simps bb_at_pos "1.prems")
    then show ?thesis using bb_pos_le "1.prems" by blast
  next
    case True
    then obtain v where v: "PeekBits bb True 1 = Some (Some v)" using PeekBits_1 "1.prems" by blast
    have c: "ConsumeBits bb 1 = (True, bb_at bb (bb_pos bb + 1))"
      using ConsumeBits_ok [OF "1.prems", of 1] True by simp
    show ?thesis
    proof (cases "v = 0")
      case False
      then have "skip_zeros bb k = Some (bb_at bb (bb_pos bb), k)"
        using v by (simp add: skip_zeros.simps bb_at_pos "1.prems")
      then show ?thesis using bb_pos_le "1.prems" by blast
    next
      case z: True
      have "skip_zeros bb k = skip_zeros (bb_at bb (bb_pos bb + 1)) (Suc k)"
        using v c z by (subst skip_zeros.simps) simp
      moreover have "bb_inv (snd (ConsumeBits bb 1))" using c "1.prems" True by simp
      ultimately show ?thesis using "1.IH" [OF v refl z] c by (auto dest: Suc_leD)
    qed
  qed
qed

lemma golomb_split: "e \<noteq> 0 \<Longrightarrow> \<exists>ys. word_bits (CountBits e) e = True # ys"
  using bit_CountBits [of e] CountBits_pos [of e]
  by (auto simp: word_bits_def upt_rec [of 0 "CountBits e"])

lemma length_golomb_bits:
  "golomb_valid v \<Longrightarrow> length (golomb_bits v) = CountBits ((ucast v :: 64 word) + 1) * 2 - 1"
  using golomb_count(1) [of v] by (simp add: golomb_bits_def Let_def)

lemma WriteExponentialGolomb_eq:
  assumes "golomb_valid v"
  defines "e \<equiv> (ucast v :: 64 word) + 1"
  shows "WriteExponentialGolomb bb v = WriteBits bb e (length (golomb_bits v))"
    and "0 < length (golomb_bits v)" and "length (golomb_bits v) \<le> 64"
    and "golomb_bits v = word_bits (length (golomb_bits v)) e"
proof -
  have c: "0 < CountBits e" "CountBits e \<le> 32" "e \<noteq> 0" using golomb_count [OF assms(1)] by (simp_all add: e_def)
  have l: "length (golomb_bits v) = CountBits e * 2 - 1" using length_golomb_bits [OF assms(1)] by (simp add: e_def)
  show "0 < length (golomb_bits v)" "length (golomb_bits v) \<le> 64" using l c by simp_all
  have "sz_sub (CountBits e * 2) 1 = CountBits e * 2 - 1"
    using c size_range_gt [of "CountBits e * 2"] by (simp add: sz_sub_id)
  then show "WriteExponentialGolomb bb v = WriteBits bb e (length (golomb_bits v))"
    using l assms(1) by (simp add: WriteExponentialGolomb_def golomb_valid_def Let_def e_def)
  show "golomb_bits v = word_bits (length (golomb_bits v)) e"
    using word_bits_golomb [OF c(3)] l by (simp add: golomb_bits_def e_def Let_def)
qed

lemma ReadExponentialGolomb_ok:
  assumes "bb_inv bb" "golomb_valid v" "has_bits (bytes bb) (bb_pos bb) (golomb_bits v)"
  shows "ReadExponentialGolomb bb True = Some (Some v, bb_at bb (bb_pos bb + length (golomb_bits v)))"
proof -
  let ?e = "(ucast v :: 64 word) + 1" and ?p = "bb_pos bb"
  let ?c = "CountBits ?e"
  have c: "0 < ?c" "?c \<le> 32" "unat ?e = unat v + 1" "?e \<noteq> 0" using golomb_count [OF assms(2)] by simp_all
  have h: "has_bits (bytes bb) ?p (replicate (?c - 1) False @ word_bits ?c ?e)"
    using assms(3) by (simp add: golomb_bits_def Let_def)
  then have val: "has_bits (bytes bb) (?p + (?c - 1)) (word_bits ?c ?e)" by (simp add: has_bits_append)
  obtain ys where ys: "word_bits ?c ?e = [True] @ ys" using golomb_split [OF c(4)] by auto
  have "has_bits (bytes bb) ?p ((replicate (?c - 1) False @ [True]) @ ys)" using h unfolding ys by simp
  then have "has_bits (bytes bb) ?p (replicate (?c - 1) False @ [True])"
    by (simp only: has_bits_append [where xs = "replicate (?c - 1) False @ [True]"])
  then have sk: "skip_zeros bb 0 = Some (bb_at bb (?p + (?c - 1)), ?c - 1)"
    using skip_zeros_run [OF assms(1), of "?c - 1" 0] by simp
  let ?bb = "bb_at bb (?p + (?c - 1))"
  have inv: "bb_inv ?bb" using assms(1) val by (simp add: has_bits_def)
  have u1: "unat (v + 1) = unat v + 1" using unat_golomb [OF assms(2)] by (simp add: unat_word_ariths)
  have "word_bits ?c ?e = word_bits ?c (v + 1)"
    by (rule word_bits_unat) (simp only: u1 c(3))
  then have rd: "ReadBits ?bb True ?c = Some (Some (take_bit ?c (v + 1)), bb_at bb (?p + (?c - 1) + ?c))"
    using ReadBits_has_bits [OF inv c(1,2), of "v + 1"] val by simp
  have "take_bit ?c (v + 1) = v + 1"
    using CountBits_bounds [OF c(4)] c(3) u1 by (intro take_bit_small) simp
  moreover have "?p + (?c - 1) + ?c = ?p + length (golomb_bits v)"
    using length_golomb_bits [OF assms(2)] c(1) by simp
  moreover have "?c - 1 + 1 = ?c" using c(1) by simp
  moreover have "\<not> ?c > 32" using c(2) by simp
  ultimately show ?thesis using rd
    by (simp only: ReadExponentialGolomb_def sk Let_def bind.simps split_conv if_False not_True_eq_False) simp
qed

lemma WriteExponentialGolomb_ok:
  assumes "bb_inv bb" "golomb_valid v" "bb_pos bb + length (golomb_bits v) \<le> length (bytes bb) * 8"
  shows "\<exists>bs'. WriteExponentialGolomb bb v =
      Some (True, bb_at (bb\<lparr>bytes := bs'\<rparr>) (bb_pos bb + length (golomb_bits v))) \<and>
      put_bits (bytes bb) (bb_pos bb) (golomb_bits v) bs'"
  using WriteBits_put_bits [OF assms(1) WriteExponentialGolomb_eq(2,3) [OF assms(2)] assms(3),
      of "ucast v + 1"] WriteExponentialGolomb_eq(1,4) [OF assms(2)] by metis

interpretation exp_golomb: bit_code golomb_bits golomb_valid "\<lambda>_. True"
  WriteExponentialGolomb ReadExponentialGolomb
proof (standard, goal_cases)
  case (1 bb x)
  then show ?case by (rule WriteExponentialGolomb_ok)
next
  case (2 bb x)
  then show ?case by (simp add: WriteExponentialGolomb_eq(1) WriteBits_short)
next
  case (3 bb x)
  then show ?case by (rule ReadExponentialGolomb_ok)
qed

section \<open>Signed exponential Golomb code\<close>

definition signed_to_unsigned :: "int \<Rightarrow> 32 word" where
  "signed_to_unsigned x =
     (if x = 0 then 0 else if x > 0 then word_of_int x * 2 - 1 else word_of_int (- x) * 2)"

definition unsigned_to_signed :: "32 word \<Rightarrow> int" where
  "unsigned_to_signed u = (if u AND 1 = 0 then - sint (u div 2) else sint ((u + 1) div 2))"

definition signed_valid :: "int \<Rightarrow> bool" where
  "signed_valid x \<longleftrightarrow> -2147483648 < x \<and> x < 2147483648"

lemma uint_double: "0 \<le> y \<Longrightarrow> y < 2147483648 \<Longrightarrow> uint (word_of_int y * 2 :: 32 word) = 2 * y"
  by (simp add: uint_word_ariths take_bit_eq_mod unsigned_of_int)

lemma uint_signed_to_unsigned:
  assumes "signed_valid x"
  shows "uint (signed_to_unsigned x) = (if x > 0 then 2 * x - 1 else - 2 * x)"
proof -
  consider "x = 0" | "x > 0" | "x < 0" by linarith
  then show ?thesis
  proof cases
    case 2
    have "uint (word_of_int x * 2 - 1 :: 32 word) = (2 * x - 1) mod 2 ^ 32"
      using uint_double [of x] 2 assms by (simp add: uint_word_ariths signed_valid_def)
    then show ?thesis using 2 assms by (simp add: signed_to_unsigned_def signed_valid_def)
  next
    case 3
    then show ?thesis using uint_double [of "- x"] assms by (simp add: signed_to_unsigned_def signed_valid_def)
  qed (simp add: signed_to_unsigned_def)
qed

lemma sint_small: "uint (w :: 32 word) < 2147483648 \<Longrightarrow> sint w = uint w"
  unfolding sint_uint
  by (rule signed_take_bit_int_eq_self) (simp_all add: order_trans [OF _ unsigned_greater_eq])

lemma even_word_uint: "u AND 1 = (0 :: 32 word) \<longleftrightarrow> even (uint u)"
proof -
  have "u AND 1 = 0 \<longleftrightarrow> even u" by (simp add: and_one_eq even_iff_mod_2_eq_zero)
  moreover have "bit (uint u) 0 = bit u 0" by (simp add: bit_unsigned_iff)
  ultimately show ?thesis unfolding bit_0 by simp
qed

lemma unsigned_to_signed_inverse: "signed_valid x \<Longrightarrow> unsigned_to_signed (signed_to_unsigned x) = x"
proof -
  assume v: "signed_valid x"
  let ?u = "signed_to_unsigned x"
  have u: "uint ?u = (if x > 0 then 2 * x - 1 else - 2 * x)" using v by (rule uint_signed_to_unsigned)
  show ?thesis
  proof (cases "x > 0")
    case True
    have o: "odd (uint ?u)" using u True by simp
    have "uint (?u + 1) = 2 * x" using u v True by (simp add: uint_word_ariths signed_valid_def)
    then have "uint ((?u + 1) div 2) = x" by (simp add: uint_div)
    then show ?thesis using o v sint_small [of "(?u + 1) div 2"]
      by (simp add: unsigned_to_signed_def even_word_uint signed_valid_def)
  next
    case False
    have e: "even (uint ?u)" using u False by simp
    have "uint (?u div 2) = - x" using u False by (simp add: uint_div)
    then show ?thesis using e v False sint_small [of "?u div 2"]
      by (simp add: unsigned_to_signed_def even_word_uint signed_valid_def)
  qed
qed

lemma golomb_valid_signed: "signed_valid x \<Longrightarrow> golomb_valid (signed_to_unsigned x)"
proof -
  assume v: "signed_valid x"
  have "uint (signed_to_unsigned x) \<noteq> 4294967295"
    using uint_signed_to_unsigned [OF v] v by (auto simp: signed_valid_def)
  then show ?thesis by (auto simp: golomb_valid_def)
qed

lemma WriteSignedExponentialGolomb_eq:
  "signed_valid x \<Longrightarrow> WriteSignedExponentialGolomb bb x = WriteExponentialGolomb bb (signed_to_unsigned x)"
  by (auto simp: WriteSignedExponentialGolomb_def signed_to_unsigned_def signed_valid_def Let_def)

lemma ReadSignedExponentialGolomb_eq:
  "ReadSignedExponentialGolomb bb =
   map_option (\<lambda>(r, bb'). (map_option unsigned_to_signed r, bb')) (ReadExponentialGolomb bb True)"
  by (cases "ReadExponentialGolomb bb True")
    (auto simp: ReadSignedExponentialGolomb_def unsigned_to_signed_def fun_eq_iff intro!: option.map_cong)

interpretation signed_golomb: bit_code "\<lambda>x. golomb_bits (signed_to_unsigned x)" signed_valid "\<lambda>_. ()"
  WriteSignedExponentialGolomb "\<lambda>bb _. ReadSignedExponentialGolomb bb"
proof (standard, goal_cases)
  case (1 bb x)
  then show ?case using exp_golomb.wr_ok [OF _ golomb_valid_signed] by (simp add: WriteSignedExponentialGolomb_eq)
next
  case (2 bb x)
  then show ?case using exp_golomb.wr_short [OF _ golomb_valid_signed] by (simp add: WriteSignedExponentialGolomb_eq)
next
  case (3 bb x)
  then show ?case using exp_golomb.rd_ok [OF _ golomb_valid_signed]
    by (simp add: ReadSignedExponentialGolomb_eq unsigned_to_signed_inverse)
qed

section \<open>Non-symmetric code\<close>

definition ns_min :: "32 word \<Rightarrow> 32 word" where
  "ns_min N = push_bit (CountBits (ucast N)) 1 - N"

definition ns_bits :: "32 word \<times> 32 word \<Rightarrow> bool list" where
  "ns_bits f = (case f of (v, N) \<Rightarrow>
     if N = 1 then []
     else if v < ns_min N then word_bits (CountBits (ucast N) - 1) v
     else word_bits (CountBits (ucast N)) (v + ns_min N))"

definition ns_valid :: "32 word \<times> 32 word \<Rightarrow> bool" where
  "ns_valid f \<longleftrightarrow> fst f < snd f \<and> snd f < 2147483648"

definition ns_write :: "bit_buffer \<Rightarrow> 32 word \<times> 32 word \<Rightarrow> (bool \<times> bit_buffer) option" where
  "ns_write bb f = WriteNonSymmetric bb (fst f) (snd f)"

definition ns_read :: "bit_buffer \<Rightarrow> 32 word \<Rightarrow> ((32 word \<times> 32 word) option \<times> bit_buffer) option" where
  "ns_read bb N = map_option (\<lambda>(r, bb'). (map_option (\<lambda>v. (v, N)) r, bb')) (ReadNonSymmetric bb N)"

lemma ns_count:
  assumes N: "1 < (N :: 32 word)" "N < 2147483648"
  defines "w \<equiv> CountBits (ucast N)"
  shows "2 \<le> w" "w \<le> 31" "2 ^ (w - 1) \<le> unat N" "unat N < 2 ^ w" "unat (ns_min N) = 2 ^ w - unat N"
    "sz_sub w 1 = w - 1" "shl_1_u32 w = Some (push_bit w 1)"
proof -
  have u: "1 < unat N" "unat N < 2 ^ 31" using N by (simp_all add: word_less_nat_alt)
  have uc: "unat (ucast N :: 64 word) = unat N" by (rule unat_ucast_64)
  have nz: "(ucast N :: 64 word) \<noteq> 0" using u uc by (metis not_less_zero unsigned_0)
  show b: "2 ^ (w - 1) \<le> unat N" "unat N < 2 ^ w"
    using CountBits_bounds [OF nz] by (simp_all add: uc w_def)
  show w31: "w \<le> 31" unfolding w_def by (rule CountBits_le) (use u in \<open>simp add: uc\<close>)
  show w2: "2 \<le> w"
  proof (rule ccontr)
    assume "\<not> 2 \<le> w"
    then have "w = 0 \<or> w = 1" by linarith
    then show False using b u by auto
  qed
  show "sz_sub w 1 = w - 1" using w2 w31 size_range_gt [of w] by (simp add: sz_sub_id)
  show "shl_1_u32 w = Some (push_bit w 1)" using w31 by (simp add: shl_1_u32_def)
  have "(2::nat) ^ w < 2 ^ 32" using w31 by (intro power_strict_increasing) simp_all
  moreover have "(push_bit w 1 :: 32 word) = of_nat (2 ^ w)" by (simp add: push_bit_eq_mult)
  ultimately have p: "unat (push_bit w 1 :: 32 word) = 2 ^ w"
    using w31 by (simp only: unsigned_of_nat) (simp add: take_bit_nat_eq_self)
  then show "unat (ns_min N) = 2 ^ w - unat N"
    using b(2) unfolding ns_min_def w_def [symmetric] by (simp add: unat_sub word_le_nat_alt)
qed

lemma ns_fits:
  assumes "ns_valid (v, N)" "N \<noteq> 1"
  defines "w \<equiv> CountBits (ucast N)"
  shows "1 < N" "N < 2147483648"
    and "v < ns_min N \<Longrightarrow> unat v < 2 ^ (w - 1)"
    and "unat (v + ns_min N) = unat v + unat (ns_min N)" "unat (v + ns_min N) < 2 ^ w"
proof -
  have "0 < N" "N < 2147483648" using assms(1) by (auto simp: ns_valid_def word_less_nat_alt)
  then show N: "1 < N" "N < 2147483648" using assms(2) by (auto simp: word_less_nat_alt word_unat_eq_iff)
  note c = ns_count [OF N, folded w_def]
  have p: "(2::nat) ^ w = 2 * 2 ^ (w - 1)" using c(1) by (cases w) simp_all
  show "v < ns_min N \<Longrightarrow> unat v < 2 ^ (w - 1)"
    using c(3,4,5) p by (simp add: word_less_nat_alt)
  have "unat v < unat N" using assms(1) by (simp add: ns_valid_def word_less_nat_alt)
  then have lt: "unat v + unat (ns_min N) < 2 ^ w" using c(4,5) by simp
  also have "(2::nat) ^ w \<le> 2 ^ 31" using c(2) by (rule power_increasing) simp
  finally show "unat (v + ns_min N) = unat v + unat (ns_min N)"
    by (simp add: unat_word_ariths)
  then show "unat (v + ns_min N) < 2 ^ w" using lt by simp
qed

lemma WriteNonSymmetric_eq:
  assumes "1 < N" "N < 2147483648"
  shows "WriteNonSymmetric bb v N =
    (if v < ns_min N then WriteBits bb (ucast v) (CountBits (ucast N) - 1)
     else WriteBits bb (ucast (v + ns_min N)) (CountBits (ucast N)))"
proof -
  have "N \<noteq> 1" using assms(1) by force
  then show ?thesis unfolding WriteNonSymmetric_def Let_def ns_count(7) [OF assms] ns_count(6) [OF assms]
    by (simp only: if_False bind.simps ns_min_def)
qed

lemma ReadNonSymmetric_eq:
  assumes "1 < N" "N < 2147483648"
  shows "ReadNonSymmetric bb N = do {
    (r, bb1) \<leftarrow> ReadBits bb True (CountBits (ucast N) - 1);
    (case r of
       None \<Rightarrow> Some (None, bb1)
     | Some v \<Rightarrow>
         (if v < ns_min N then Some (Some v, bb1)
          else do {
            (e, bb2) \<leftarrow> ReadBits bb1 True 1;
            (case e of
               None \<Rightarrow> Some (None, bb2)
             | Some extra_bit \<Rightarrow> Some (Some (push_bit 1 v + extra_bit - ns_min N), bb2))
          }))
  }"
proof -
  have "N \<noteq> 1" using assms(1) by force
  then show ?thesis unfolding ReadNonSymmetric_def Let_def ns_count(7) [OF assms] ns_count(6) [OF assms]
    by (simp only: if_False bind.simps ns_min_def)
qed

lemma ns_WriteBits:
  assumes "ns_valid (v, N)" "N \<noteq> 1"
  shows "\<exists>x :: 64 word. WriteNonSymmetric bb v N = WriteBits bb x (length (ns_bits (v, N))) \<and>
    word_bits (length (ns_bits (v, N))) x = ns_bits (v, N) \<and>
    0 < length (ns_bits (v, N)) \<and> length (ns_bits (v, N)) \<le> 31"
proof -
  note N = ns_fits(1,2) [OF assms]
  note c = ns_count [OF N]
  show ?thesis
  proof (cases "v < ns_min N")
    case True
    then show ?thesis using assms(2) c
      by (intro exI [of _ "ucast v"])
        (simp add: WriteNonSymmetric_eq [OF N] ns_bits_def word_bits_ucast)
  next
    case False
    then show ?thesis using assms(2) c
      by (intro exI [of _ "ucast (v + ns_min N)"])
        (simp add: WriteNonSymmetric_eq [OF N] ns_bits_def word_bits_ucast)
  qed
qed

lemma word_bits_Suc: "0 < n \<Longrightarrow> word_bits n x = word_bits (n - 1) (drop_bit 1 x) @ word_bits 1 x"
proof (rule nth_equalityI)
  fix k assume "0 < n" "k < length (word_bits n x)"
  then have k: "k < n" by simp
  show "word_bits n x ! k = (word_bits (n - 1) (drop_bit 1 x) @ word_bits 1 x) ! k"
  proof (cases "k < n - 1")
    case True
    then have "1 + (n - 1 - 1 - k) = n - 1 - k" by linarith
    then show ?thesis using True k by (simp add: nth_append bit_drop_bit_eq)
  next
    case False
    then have "k = n - 1" using k by linarith
    then show ?thesis using k by (simp add: nth_append)
  qed
qed simp

lemma ReadNonSymmetric_ok:
  assumes inv: "bb_inv bb" and v: "ns_valid (v, N)" and h: "has_bits (bytes bb) (bb_pos bb) (ns_bits (v, N))"
  shows "ReadNonSymmetric bb N = Some (Some v, bb_at bb (bb_pos bb + length (ns_bits (v, N))))"
proof (cases "N = 1")
  case True
  moreover from this v have "v = 0" by (simp add: ns_valid_def word_less_1)
  ultimately show ?thesis using bb_at_pos [OF inv] by (simp add: ReadNonSymmetric_def ns_bits_def)
next
  case N1: False
  let ?w = "CountBits (ucast N)"
  note f = ns_fits [OF v N1]
  note c = ns_count [OF f(1,2)]
  have w: "0 < ?w - 1" "?w - 1 \<le> 32" "0 < ?w" using c by simp_all
  show ?thesis
  proof (cases "v < ns_min N")
    case True
    then have "ReadBits bb True (?w - 1) = Some (Some v, bb_at bb (bb_pos bb + (?w - 1)))"
      using ReadBits_has_bits [OF inv w(1,2), of v] h N1 f(3) by (simp add: ns_bits_def take_bit_small)
    then show ?thesis using True N1 c
      by (simp add: ReadNonSymmetric_eq [OF f(1,2)] ns_bits_def)
  next
    case False
    let ?x = "v + ns_min N" and ?bb = "bb_at bb (bb_pos bb + (?w - 1))"
    have bits: "has_bits (bytes bb) (bb_pos bb) (word_bits (?w - 1) (drop_bit 1 ?x))"
        "has_bits (bytes bb) (bb_pos bb + (?w - 1)) (word_bits 1 ?x)"
      using h False N1 word_bits_Suc [OF w(3), of ?x] by (simp_all add: ns_bits_def has_bits_append)
    have half: "unat (drop_bit 1 ?x) = unat ?x div 2" by (rule unat_drop_bit_1)
    moreover have "2 * 2 ^ (?w - 1) = (2::nat) ^ ?w" using w(3) by (metis Suc_diff_1 power_Suc)
    ultimately have "take_bit (?w - 1) (drop_bit 1 ?x) = drop_bit 1 ?x"
      using f(5) by (intro take_bit_small) simp
    then have r1: "ReadBits bb True (?w - 1) = Some (Some (drop_bit 1 ?x), ?bb)"
      using ReadBits_has_bits [OF inv w(1,2) bits(1)] by simp
    have "\<not> drop_bit 1 ?x < ns_min N"
      using False f(4) half by (simp add: word_less_nat_alt not_less)
    moreover have "bb_inv ?bb" using inv bits(2) by (simp add: has_bits_def)
    then have "ReadBits ?bb True 1 = Some (Some (take_bit 1 ?x), bb_at bb (bb_pos bb + ?w))"
      using ReadBits_has_bits [of ?bb 1 ?x] bits(2) w by simp
    moreover have "push_bit 1 (drop_bit 1 ?x) + take_bit 1 ?x = ?x" by (rule bits_ident)
    ultimately show ?thesis using False N1 c r1
      by (simp add: ReadNonSymmetric_eq [OF f(1,2)] ns_bits_def)
  qed
qed

interpretation non_symmetric: bit_code ns_bits ns_valid snd ns_write ns_read
proof (standard, goal_cases)
  case (1 bb x)
  show ?case
  proof (cases "snd x = 1")
    case True
    then have "ns_write bb x = Some (True, bb)" "ns_bits x = []"
      by (cases x; simp add: ns_write_def WriteNonSymmetric_def ns_bits_def)+
    then show ?thesis using bb_at_pos [OF 1(1)]
      by (intro exI [of _ "bytes bb"]) (auto simp: put_bits_def)
  next
    case False
    obtain v N where x: "x = (v, N)" by (cases x)
    obtain y :: "64 word" where "ns_write bb x = WriteBits bb y (length (ns_bits x))"
        "word_bits (length (ns_bits x)) y = ns_bits x" "0 < length (ns_bits x)" "length (ns_bits x) \<le> 31"
      using ns_WriteBits [of v N bb] 1(2) False unfolding x by (auto simp: ns_write_def)
    then show ?thesis using WriteBits_put_bits [OF 1(1), of "length (ns_bits x)" y] 1(3) by simp
  qed
next
  case (2 bb x)
  obtain v N where x: "x = (v, N)" by (cases x)
  have "N \<noteq> 1" using 2 bb_pos_le [OF 2(1)] unfolding x by (auto simp: ns_bits_def)
  then show ?case using ns_WriteBits [of v N bb] WriteBits_short [OF 2(1,3)] 2(2) unfolding x
    by (auto simp: ns_write_def)
next
  case (3 bb x)
  then show ?case using ReadNonSymmetric_ok [of bb "fst x" "snd x"] by (simp add: ns_read_def)
qed

section \<open>Mixed sequences\<close>

text \<open>One field of a bit stream, and what its reader has to know of it.\<close>

datatype bit_field =
    F_bits nat "32 word"
  | F_golomb "32 word"
  | F_signed int
  | F_nonsym "32 word" "32 word"

datatype field_shape = S_bits nat | S_golomb | S_signed | S_nonsym "32 word"

fun shape_of :: "bit_field \<Rightarrow> field_shape" where
  "shape_of (F_bits n v) = S_bits n"
| "shape_of (F_golomb v) = S_golomb"
| "shape_of (F_signed x) = S_signed"
| "shape_of (F_nonsym v N) = S_nonsym N"

fun write_field :: "bit_buffer \<Rightarrow> bit_field \<Rightarrow> (bool \<times> bit_buffer) option" where
  "write_field bb (F_bits n v) = WriteBits bb (ucast v) n"
| "write_field bb (F_golomb v) = WriteExponentialGolomb bb v"
| "write_field bb (F_signed x) = WriteSignedExponentialGolomb bb x"
| "write_field bb (F_nonsym v N) = WriteNonSymmetric bb v N"

fun read_field :: "bit_buffer \<Rightarrow> field_shape \<Rightarrow> (bit_field option \<times> bit_buffer) option" where
  "read_field bb (S_bits n) = map_option (map_prod (map_option (F_bits n)) id) (ReadBits bb True n)"
| "read_field bb S_golomb = map_option (map_prod (map_option F_golomb) id) (ReadExponentialGolomb bb True)"
| "read_field bb S_signed = map_option (map_prod (map_option F_signed) id) (ReadSignedExponentialGolomb bb)"
| "read_field bb (S_nonsym N) =
     map_option (map_prod (map_option (\<lambda>v. F_nonsym v N)) id) (ReadNonSymmetric bb N)"

fun field_bits :: "bit_field \<Rightarrow> bool list" where
  "field_bits (F_bits n v) = word_bits n v"
| "field_bits (F_golomb v) = golomb_bits v"
| "field_bits (F_signed x) = golomb_bits (signed_to_unsigned x)"
| "field_bits (F_nonsym v N) = ns_bits (v, N)"

fun field_ok :: "bit_field \<Rightarrow> bool" where
  "field_ok (F_bits n v) \<longleftrightarrow> field_valid (n, v)"
| "field_ok (F_golomb v) \<longleftrightarrow> golomb_valid v"
| "field_ok (F_signed x) \<longleftrightarrow> signed_valid x"
| "field_ok (F_nonsym v N) \<longleftrightarrow> ns_valid (v, N)"

interpretation mixed: bit_code field_bits field_ok shape_of write_field read_field
proof (standard, goal_cases)
  case (1 bb x)
  then show ?case
    using bits_field.wr_ok [of bb] exp_golomb.wr_ok [of bb] signed_golomb.wr_ok [of bb]
      non_symmetric.wr_ok [of bb]
    by (cases x) (force simp: field_write_def ns_write_def)+
next
  case (2 bb x)
  then show ?case
    using bits_field.wr_short [of bb] exp_golomb.wr_short [of bb] signed_golomb.wr_short [of bb]
      non_symmetric.wr_short [of bb]
    by (cases x) (force simp: field_write_def ns_write_def)+
next
  case (3 bb x)
  then show ?case
    using bits_field.rd_ok [of bb] exp_golomb.rd_ok [of bb] signed_golomb.rd_ok [of bb]
      non_symmetric.rd_ok [of bb]
    by (cases x) (force simp: field_read_def ns_read_def)+
qed

lemma mixed_encs: "mixed.encs fs = concat (map field_bits fs)"
  by (simp add: mixed.encs_def)

lemma CountBits_unfold: "CountBits v = (if v = 0 then 0 else Suc (CountBits (drop_bit 1 v)))"
  by (simp add: CountBits.simps)

section \<open>Safety\<close>

lemma ReadExponentialGolomb_total:
  assumes inv: "bb_inv bb"
  shows "\<exists>r p. ReadExponentialGolomb bb val = Some (r, bb_at bb p) \<and> p \<le> length (bytes bb) * 8 \<and>
    (r = None \<longrightarrow> p = bb_pos bb)"
proof (cases val)
  case False
  then show ?thesis using bb_at_pos [OF inv] bb_pos_le [OF inv]
    by (auto simp: ReadExponentialGolomb_def intro!: exI [of _ "bb_pos bb"])
next
  case True
  obtain p z where sk: "skip_zeros bb 0 = Some (bb_at bb p, z)" and p: "p \<le> length (bytes bb) * 8"
    using skip_zeros_total [OF inv] by blast
  have invp: "bb_inv (bb_at bb p)" using inv p by simp
  have restore: "check_Seek (bb_at bb p) (byte_offset bb) (bit_offset bb) = Some (bb_at bb (bb_pos bb))"
    using Seek_back [OF inv invp] by (simp add: check_Seek_def)
  show ?thesis
  proof (cases "z + 1 \<le> 32 \<and> p + (z + 1) \<le> length (bytes bb) * 8")
    case ok: True
    then show ?thesis using ReadBits_ok [OF invp, of "z + 1"] True sk
      by (auto simp: ReadExponentialGolomb_def)
  next
    case bad: False
    then have "ReadExponentialGolomb bb val = Some (None, bb_at bb (bb_pos bb))"
      using ReadBits_short [OF invp, of "z + 1"] True sk restore
      by (auto simp: ReadExponentialGolomb_def not_le)
    then show ?thesis using bb_pos_le [OF inv] by blast
  qed
qed

lemma ReadBits_total:
  assumes inv: "bb_inv bb" and n: "0 < n"
  shows "\<exists>r p. ReadBits bb val n = Some (r, bb_at bb p) \<and> p \<le> length (bytes bb) * 8"
proof (cases "val \<and> n \<le> 32 \<and> bb_pos bb + n \<le> length (bytes bb) * 8")
  case True
  then show ?thesis using ReadBits_ok [OF inv n] by auto
next
  case False
  then consider "bb_pos bb + n > length (bytes bb) * 8" | "\<not> val \<or> n > 32" by linarith
  then have "ReadBits bb val n = Some (None, bb)"
    by cases (use ReadBits_short [OF inv, of n] in \<open>auto simp: ReadBits_def PeekBits_def\<close>)
  then have "ReadBits bb val n = Some (None, bb_at bb (bb_pos bb))" using bb_at_pos [OF inv] by simp
  then show ?thesis using bb_pos_le [OF inv] by blast
qed


lemma WriteBits_total:
  assumes inv: "bb_inv bb" and n: "0 < n" "n \<le> 64"
  shows "\<exists>ok bb'. WriteBits bb v n = Some (ok, bb') \<and> bb_inv bb' \<and> length (bytes bb') = length (bytes bb)"
proof (cases "bb_pos bb + n \<le> length (bytes bb) * 8")
  case True
  then obtain bs' where "WriteBits bb v n = Some (True, bb_at (bb\<lparr>bytes := bs'\<rparr>) (bb_pos bb + n))"
    and "length bs' = length (bytes bb)"
    using WriteBits_ok [OF inv n] by (auto simp: bits_written_def)
  then show ?thesis using bb_inv_bytes [OF inv, of bs'] True by auto
next
  case False
  then show ?thesis using WriteBits_short [OF inv] inv by (auto simp: not_le)
qed

lemma ReadNonSymmetric_total:
  assumes inv: "bb_inv bb" and N: "0 < N" "N < 2147483648"
  shows "\<exists>r p. ReadNonSymmetric bb N = Some (r, bb_at bb p) \<and> p \<le> length (bytes bb) * 8"
proof (cases "N = 1")
  case True
  have "ReadNonSymmetric bb N = Some (Some 0, bb_at bb (bb_pos bb))"
    using True bb_at_pos [OF inv] by (simp add: ReadNonSymmetric_def)
  then show ?thesis using bb_pos_le [OF inv] by blast
next
  case False
  have N1: "1 < N" using N False by (auto simp: word_less_nat_alt word_unat_eq_iff)
  obtain r p where r: "ReadBits bb True (CountBits (ucast N) - 1) = Some (r, bb_at bb p)"
      "p \<le> length (bytes bb) * 8"
    using ReadBits_total [OF inv, of "CountBits (ucast N) - 1" True] ns_count(1) [OF N1 N(2)] by auto
  have "bb_inv (bb_at bb p)" using inv r(2) by simp
  then obtain e q where "ReadBits (bb_at bb p) True 1 = Some (e, bb_at bb q)" "q \<le> length (bytes bb) * 8"
    using ReadBits_total [of "bb_at bb p" 1 True] by auto
  then show ?thesis using r
    by (auto simp: ReadNonSymmetric_eq [OF N1 N(2)] split: option.splits)
qed

text \<open>A call of the interface, with its arguments.\<close>

datatype bit_op =
    O_ReadUInt8 | O_ReadUInt16 | O_ReadUInt32
  | O_PeekBits nat | O_ReadBits nat | O_ReadNonSymmetric "32 word"
  | O_ReadExponentialGolomb | O_ReadSignedExponentialGolomb
  | O_ConsumeBits nat | O_ConsumeBytes nat | O_Seek nat nat
  | O_WriteUInt8 byte | O_WriteUInt16 "16 word" | O_WriteUInt32 "32 word"
  | O_WriteBits "64 word" nat | O_WriteNonSymmetric "32 word" "32 word"
  | O_WriteExponentialGolomb "32 word" | O_WriteSignedExponentialGolomb int

fun bit_op_run :: "bit_op \<Rightarrow> bit_buffer \<Rightarrow> bit_buffer option" where
  "bit_op_run O_ReadUInt8 bb = map_option snd (ReadUInt8 bb)"
| "bit_op_run O_ReadUInt16 bb = map_option snd (ReadUInt16 bb)"
| "bit_op_run O_ReadUInt32 bb = map_option snd (ReadUInt32 bb True)"
| "bit_op_run (O_PeekBits n) bb = map_option (\<lambda>_. bb) (PeekBits bb True n)"
| "bit_op_run (O_ReadBits n) bb = map_option snd (ReadBits bb True n)"
| "bit_op_run (O_ReadNonSymmetric N) bb = map_option snd (ReadNonSymmetric bb N)"
| "bit_op_run O_ReadExponentialGolomb bb = map_option snd (ReadExponentialGolomb bb True)"
| "bit_op_run O_ReadSignedExponentialGolomb bb = map_option snd (ReadSignedExponentialGolomb bb)"
| "bit_op_run (O_ConsumeBits n) bb = Some (snd (ConsumeBits bb n))"
| "bit_op_run (O_ConsumeBytes n) bb = Some (snd (ConsumeBytes bb n))"
| "bit_op_run (O_Seek i j) bb = Some (snd (Seek bb i j))"
| "bit_op_run (O_WriteUInt8 v) bb = map_option snd (WriteUInt8 bb v)"
| "bit_op_run (O_WriteUInt16 v) bb = map_option snd (WriteUInt16 bb v)"
| "bit_op_run (O_WriteUInt32 v) bb = map_option snd (WriteUInt32 bb v)"
| "bit_op_run (O_WriteBits v n) bb = map_option snd (WriteBits bb v n)"
| "bit_op_run (O_WriteNonSymmetric v N) bb = map_option snd (WriteNonSymmetric bb v N)"
| "bit_op_run (O_WriteExponentialGolomb v) bb = map_option snd (WriteExponentialGolomb bb v)"
| "bit_op_run (O_WriteSignedExponentialGolomb x) bb = map_option snd (WriteSignedExponentialGolomb bb x)"

text \<open>What a caller has to respect: widths in range, a non-empty range of values below \<open>2^31\<close>.\<close>

fun bit_op_ok :: "bit_op \<Rightarrow> bool" where
  "bit_op_ok (O_PeekBits n) \<longleftrightarrow> 0 < n"
| "bit_op_ok (O_ReadBits n) \<longleftrightarrow> 0 < n"
| "bit_op_ok (O_ReadNonSymmetric N) \<longleftrightarrow> 0 < N \<and> N < 2147483648"
| "bit_op_ok (O_WriteBits v n) \<longleftrightarrow> 0 < n \<and> n \<le> 64"
| "bit_op_ok (O_WriteNonSymmetric v N) \<longleftrightarrow> v < N \<and> N < 2147483648"
| "bit_op_ok (O_WriteSignedExponentialGolomb x) \<longleftrightarrow> -2147483648 \<le> x \<and> x < 2147483648"
| "bit_op_ok _ \<longleftrightarrow> True"

fun bit_ops_run :: "bit_op list \<Rightarrow> bit_buffer \<Rightarrow> bit_buffer option" where
  "bit_ops_run [] bb = Some bb"
| "bit_ops_run (x # xs) bb = do { bb' \<leftarrow> bit_op_run x bb; bit_ops_run xs bb' }"

definition safe_result :: "bit_buffer \<Rightarrow> bit_buffer option \<Rightarrow> bool" where
  "safe_result bb r \<longleftrightarrow> (\<exists>bb'. r = Some bb' \<and> bb_inv bb' \<and> length (bytes bb') = length (bytes bb))"

lemma safe_at: "bb_inv bb \<Longrightarrow> p \<le> length (bytes bb) * 8 \<Longrightarrow> safe_result bb (Some (bb_at bb p))"
  by (simp add: safe_result_def)

lemma safe_ReadBits: "bb_inv bb \<Longrightarrow> 0 < n \<Longrightarrow> safe_result bb (map_option snd (ReadBits bb True n))"
  using ReadBits_total [of bb n True] safe_at by auto

lemma safe_WriteBits:
  "bb_inv bb \<Longrightarrow> 0 < n \<Longrightarrow> n \<le> 64 \<Longrightarrow> safe_result bb (map_option snd (WriteBits bb v n))"
  using WriteBits_total [of bb n v] by (auto simp: safe_result_def)

lemma safe_Golomb: "bb_inv bb \<Longrightarrow> safe_result bb (map_option snd (ReadExponentialGolomb bb val))"
  using ReadExponentialGolomb_total [of bb val] safe_at by auto

lemma safe_WriteGolomb: "bb_inv bb \<Longrightarrow> safe_result bb (map_option snd (WriteExponentialGolomb bb v))"
proof (cases "golomb_valid v")
  case True
  assume "bb_inv bb"
  then show ?thesis using safe_WriteBits WriteExponentialGolomb_eq(1-3) [OF True] by simp
next
  case False
  assume "bb_inv bb"
  then show ?thesis using False by (simp add: golomb_valid_def WriteExponentialGolomb_def safe_result_def)
qed

lemma safe_Consume: "bb_inv bb \<Longrightarrow> safe_result bb (Some (snd (ConsumeBits bb n)))"
  using ConsumeBits_ok [of bb n] ConsumeBits_short [of bb n] safe_at [of bb "bb_pos bb + n"]
  by (cases "bb_pos bb + n \<le> length (bytes bb) * 8") (auto simp: safe_result_def not_le)

lemma safe_Seek: "bb_inv bb \<Longrightarrow> safe_result bb (Some (snd (Seek bb i j)))"
  by (auto simp: safe_result_def Seek_def bb_inv_def not_less)

lemma bit_op_safe:
  assumes inv: "bb_inv bb" and ok: "bit_op_ok x"
  shows "safe_result bb (bit_op_run x bb)"
proof (cases x)
  case (O_PeekBits n)
  then have "0 < n" using ok by simp
  then have "PeekBits bb True n \<noteq> None"
    using ReadBits_total [OF inv, of n True] by (cases "PeekBits bb True n") (auto simp: ReadBits_def)
  then show ?thesis using O_PeekBits inv by (auto simp: safe_result_def)
next
  case (O_ReadNonSymmetric N)
  then show ?thesis using ReadNonSymmetric_total [OF inv, of N] safe_at [OF inv] ok by auto
next
  case (O_WriteNonSymmetric v N)
  then have v: "ns_valid (v, N)" using ok by (simp add: ns_valid_def)
  show ?thesis
  proof (cases "N = 1")
    case True
    then show ?thesis using O_WriteNonSymmetric inv by (simp add: WriteNonSymmetric_def safe_result_def)
  next
    case False
    then show ?thesis using ns_WriteBits [OF v False, of bb] safe_WriteBits [OF inv] O_WriteNonSymmetric by force
  qed
next
  case O_ReadSignedExponentialGolomb
  then show ?thesis using safe_Golomb [OF inv, of True]
    by (auto simp: ReadSignedExponentialGolomb_eq option.map_comp comp_def case_prod_beta)
next
  case (O_WriteSignedExponentialGolomb i)
  then show ?thesis using safe_WriteGolomb [OF inv] inv
    by (auto simp: WriteSignedExponentialGolomb_def Let_def safe_result_def)
next
  case O_ReadUInt8
  then show ?thesis using safe_ReadBits [OF inv, of 8]
    by (simp add: ReadUInt8_def option.map_comp comp_def case_prod_beta)
next
  case O_ReadUInt16
  then show ?thesis using safe_ReadBits [OF inv, of 16]
    by (simp add: ReadUInt16_def option.map_comp comp_def case_prod_beta)
qed (use inv ok in \<open>simp_all add: ReadUInt32_def safe_ReadBits safe_WriteBits safe_Golomb
    safe_WriteGolomb safe_Consume safe_Seek ConsumeBytes_def WriteUInt8_def WriteUInt16_def WriteUInt32_def\<close>)

section \<open>Properties\<close>

text \<open>The number a bit string denotes, the first bit the highest.\<close>

definition bits_value :: "bool list \<Rightarrow> nat" where
  "bits_value xs = foldl (\<lambda>a b. 2 * a + of_bool b) 0 xs"

lemma is_bits_value:
  "is_bits bs p n (v :: 'a::len word) \<Longrightarrow> unat v = bits_value (map (bit_at bs) [p..<p + n])"
proof (induction n arbitrary: v)
  case 0
  then have "v = 0" by (simp add: is_bits_def bit_eq_iff)
  then show ?case by (simp add: bits_value_def)
next
  case (Suc n)
  have b: "bit v k \<longleftrightarrow> k < Suc n \<and> bit_at bs (p + (n - k))" for k
    using Suc.prems by (simp add: is_bits_def)
  have "is_bits bs p n (drop_bit 1 v)"
    by (auto simp: is_bits_def bit_drop_bit_eq b)
  then have d: "unat v div 2 = bits_value (map (bit_at bs) [p..<p + n])"
    using Suc.IH unat_drop_bit_1 by metis
  have "bit (unat v) 0 = bit v 0" by (simp add: bit_unsigned_iff)
  then have m: "unat v mod 2 = of_bool (bit_at bs (p + n))"
    using b [of 0] by (simp add: bit_0 mod_2_eq_odd)
  have "unat v = 2 * (unat v div 2) + unat v mod 2" by (rule mult_div_mod_eq [symmetric])
  then show ?case unfolding d m by (simp add: bits_value_def)
qed

lemma remaining_le:
  "bb_inv bb \<Longrightarrow> n \<le> RemainingBitCount bb \<longleftrightarrow> bb_pos bb + n \<le> length (bytes bb) * 8"
  using bb_pos_le [of bb] by (simp add: RemainingBitCount_eq le_diff_conv2 add.commute)

lemma bits_written_RemainingBitCount:
  "bits_written bs p n n v bs' \<Longrightarrow> length bs' = length bs"
  by (simp add: bits_written_def)

lemma bit_ops_safe:
  "bb_inv bb \<Longrightarrow> list_all bit_op_ok xs \<Longrightarrow> safe_result bb (bit_ops_run xs bb)"
proof (induction xs arbitrary: bb)
  case (Cons x xs)
  obtain bb1 where "bit_op_run x bb = Some bb1" "bb_inv bb1" "length (bytes bb1) = length (bytes bb)"
    using bit_op_safe [OF Cons.prems(1), of x] Cons.prems(2) by (auto simp: safe_result_def)
  then show ?case using Cons.IH [of bb1] Cons.prems(2) by (auto simp: safe_result_def)
qed (simp add: safe_result_def)

definition sample_fields :: "bit_field list" where
  "sample_fields = [F_bits 3 5, F_golomb 5, F_signed (-2), F_nonsym 3 5, F_bits 32 4294967295]"

definition sample_buffer :: bit_buffer where
  "sample_buffer = BitBuffer [0, 255, 170, 85, 1, 2, 3, 4]"

lemma sample_buffer_inv: "bb_inv sample_buffer"
  by (simp add: sample_buffer_def BitBuffer_def bb_inv_def)

lemma sample_buffer_remaining: "RemainingBitCount sample_buffer = 64"
  unfolding RemainingBitCount_eq [OF sample_buffer_inv]
  by (simp add: sample_buffer_def BitBuffer_def bb_pos_def)

lemma sample_fields_ok: "list_all field_ok sample_fields"
  by (simp add: sample_fields_def field_valid_def golomb_valid_def signed_valid_def ns_valid_def)

lemma sample_fields_length: "length (concat (map field_bits sample_fields)) = 48"
  by (simp add: sample_fields_def golomb_bits_def ns_bits_def ns_min_def signed_to_unsigned_def Let_def CountBits_unfold)

text \<open>C6: A sequence of fields written with WriteBits, WriteExponentialGolomb,
  WriteSignedExponentialGolomb and WriteNonSymmetric, in any order and from any bit position, is
  written whole when its bits fit; after seeking back to the start the matching reads return
  exactly those fields, and leave the buffer where the writes left it.
\<close>

theorem bit_stream_roundtrip:
  assumes "bb_inv bb" "list_all field_ok fs" "length (concat (map field_bits fs)) \<le> RemainingBitCount bb"
  shows "\<exists>bb1 bb2. write_seq write_field bb fs = Some (True, bb1) \<and>
    Seek bb1 (fst (GetCurrentOffset bb)) (snd (GetCurrentOffset bb)) = (True, bb2) \<and>
    read_seq read_field bb2 (map shape_of fs) = Some (Some fs, bb1)"
  using mixed.seq_roundtrip [OF assms(1,2)] assms(3)
  by (simp add: mixed_encs remaining_le [OF assms(1)] GetCurrentOffset_def)

theorem bit_stream_roundtrip_witness:
  "\<exists>bb1 bb2. write_seq write_field sample_buffer sample_fields = Some (True, bb1) \<and>
    Seek bb1 (fst (GetCurrentOffset sample_buffer)) (snd (GetCurrentOffset sample_buffer)) = (True, bb2) \<and>
    read_seq read_field bb2 (map shape_of sample_fields) = Some (Some sample_fields, bb1)"
  by (rule bit_stream_roundtrip [OF sample_buffer_inv sample_fields_ok])
    (simp only: sample_fields_length sample_buffer_remaining)

text \<open>PeekBits of \<open>n\<close> bits (1 to 32, all of them left) succeeds without touching memory outside
  the block, and its value is the number whose binary digits are the next \<open>n\<close> bits, the first the
  highest, across any byte boundaries.
\<close>

theorem PeekBits_correct:
  assumes "bb_inv bb" "0 < n" "n \<le> 32" "n \<le> RemainingBitCount bb"
  shows "\<exists>v. PeekBits bb True n = Some (Some v) \<and>
    unat v = bits_value (map (bit_at (bytes bb)) [bb_pos bb..<bb_pos bb + n])"
  using PeekBits_correct_lemma [OF assms(1-3)] is_bits_value assms(4) remaining_le [OF assms(1)] by blast

text \<open>C31: WriteBits of \<open>n\<close> bits (1 to 64) replaces exactly the next \<open>n\<close> bits of the block by the low
  \<open>n\<close> bits of the value, the highest first, keeps every other bit of the block, and advances by
  \<open>n\<close>; when fewer than \<open>n\<close> bits are left it returns false and changes nothing.
\<close>

theorem WriteBits_correct:
  assumes "bb_inv bb" "0 < n" "n \<le> 64"
  shows "if n \<le> RemainingBitCount bb
    then \<exists>bs'. WriteBits bb v n = Some (True, bb_at (bb\<lparr>bytes := bs'\<rparr>) (bb_pos bb + n)) \<and>
      length bs' = length (bytes bb) \<and>
      (\<forall>j < length (bytes bb) * 8. bit_at bs' j =
        (if bb_pos bb \<le> j \<and> j < bb_pos bb + n then bit v (n - 1 - (j - bb_pos bb)) else bit_at (bytes bb) j))
    else WriteBits bb v n = Some (False, bb)"
proof (cases "n \<le> RemainingBitCount bb")
  case True
  then show ?thesis using WriteBits_ok [OF assms, of v] remaining_le [OF assms(1)]
    by (simp only: if_True bits_written_def)
next
  case False
  then show ?thesis using WriteBits_short [OF assms(1)] remaining_le [OF assms(1)] by (simp add: not_le)
qed

theorem WriteBits_correct_witness:
  "\<exists>bs'. WriteBits sample_buffer 1234567 40 = Some (True, bb_at (sample_buffer\<lparr>bytes := bs'\<rparr>) (bb_pos sample_buffer + 40)) \<and>
    length bs' = length (bytes sample_buffer)"
  using WriteBits_correct [OF sample_buffer_inv, of 40 1234567] by (auto simp: sample_buffer_remaining)

text \<open>C23: Any sequence of calls on a fresh buffer, with arguments within the documented ranges, runs
  without an access outside the block, an undefined shift or a failed check, and keeps the position
  inside the block.
\<close>

theorem bit_buffer_safe:
  assumes "length bs < 4294967296" "list_all bit_op_ok ops"
  shows "\<exists>bb'. bit_ops_run ops (BitBuffer bs) = Some bb' \<and> bb_inv bb' \<and>
    length (bytes bb') = length bs"
  using bit_ops_safe [of "BitBuffer bs" ops] assms
  by (simp add: BitBuffer_def bb_inv_def safe_result_def)

theorem bit_buffer_safe_witness:
  "\<exists>bb'. bit_ops_run [O_WriteBits 77 9, O_Seek 0 3, O_ReadExponentialGolomb, O_ReadNonSymmetric 6,
      O_ReadBits 40, O_ConsumeBytes 5] (BitBuffer [0, 0, 1]) = Some bb' \<and> bb_inv bb' \<and>
    length (bytes bb') = length [0 :: byte, 0, 1]"
  by (rule bit_buffer_safe) simp_all

text \<open>C32: ReadExponentialGolomb always returns, never changes the block, and when it fails (no code
  word before the end, or one that does not fit 32 bits) puts the buffer back where it was.
\<close>

theorem ReadExponentialGolomb_restores:
  assumes "bb_inv bb"
  shows "\<exists>r bb'. ReadExponentialGolomb bb val = Some (r, bb') \<and> bytes bb' = bytes bb \<and> bb_inv bb' \<and>
    (r = None \<longrightarrow> bb' = bb)"
  using ReadExponentialGolomb_total [OF assms, of val] bb_at_pos [OF assms] assms
  by (metis bb_at_simps(1) bb_inv_at)

theorem ReadExponentialGolomb_restores_witness:
  "\<exists>r bb'. ReadExponentialGolomb sample_buffer True = Some (r, bb') \<and>
    bytes bb' = bytes sample_buffer \<and> bb_inv bb' \<and> (r = None \<longrightarrow> bb' = sample_buffer)"
  by (rule ReadExponentialGolomb_restores [OF sample_buffer_inv])

lemma CountBits_1: "CountBits 1 = 1"
  by (simp add: CountBits_unfold)

lemma SizeNonSymmetricBits_length:
  assumes v: "ns_valid (v, N)"
  shows "SizeNonSymmetricBits v N = Some (length (ns_bits (v, N)))"
proof (cases "N = 1")
  case True
  moreover from this v have "v = 0" by (simp add: ns_valid_def word_less_1)
  moreover have "sz_sub 1 1 = 0" using size_range_gt [of 1] by (simp add: sz_sub_id)
  ultimately show ?thesis by (simp add: SizeNonSymmetricBits_def ns_bits_def CountBits_1 shl_1_u32_def Let_def)
next
  case False
  note c = ns_count [OF ns_fits(1,2) [OF v False]]
  show ?thesis unfolding SizeNonSymmetricBits_def Let_def c(6,7)
    using False by (simp add: ns_bits_def ns_min_def push_bit_eq_mult)
qed

text \<open>SizeNonSymmetricBits is the number of bits WriteNonSymmetric takes: the write succeeds exactly
  when that many bits are left, and then advances by it.
\<close>

theorem SizeNonSymmetricBits_correct:
  assumes "bb_inv bb" "v < N" "N < 2147483648"
  shows "\<exists>k. SizeNonSymmetricBits v N = Some k \<and>
    (if k \<le> RemainingBitCount bb
     then \<exists>bs'. WriteNonSymmetric bb v N = Some (True, bb_at (bb\<lparr>bytes := bs'\<rparr>) (bb_pos bb + k))
     else WriteNonSymmetric bb v N = Some (False, bb))"
proof -
  have v: "ns_valid (v, N)" using assms by (simp add: ns_valid_def)
  show ?thesis
    using SizeNonSymmetricBits_length [OF v] non_symmetric.wr_ok [OF assms(1) v]
      non_symmetric.wr_short [OF assms(1) v]
    by (auto simp: ns_write_def remaining_le [OF assms(1)] not_le)
qed

text \<open>For \<open>num_values = 2^31\<close>, which the assertions of ReadNonSymmetric and WriteNonSymmetric allow,
  both shift a 32-bit 1 by 32, which is undefined.
\<close>

theorem NonSymmetric_2_31_undefined:
  "ReadNonSymmetric bb 2147483648 = None \<and> WriteNonSymmetric bb v 2147483648 = None"
proof -
  have "CountBits (ucast (2147483648 :: 32 word)) = 32"
    by (simp add: CountBits_unfold)
  then show ?thesis by (simp add: ReadNonSymmetric_def WriteNonSymmetric_def shl_1_u32_def Let_def)
qed

end
