(* ===== verification/Spl_Arith.thy ===== *)
theory Spl_Arith
  imports C_Prelude
begin

text \<open>
  The scalar arithmetic of the signal processing library (\<^verbatim>\<open>common_audio/signal_processing\<close>):
  leading zeros and normalisation shifts (\<^verbatim>\<open>include/spl_inl.h\<close>, \<^verbatim>\<open>spl_inl.c\<close>), saturating addition
  and subtraction, the divisions of \<^verbatim>\<open>division_operations.c\<close> and the integer square root of
  \<^verbatim>\<open>third_party/spl_sqrt_floor\<close>.  Each routine is shown equal to the mathematical function it
  implements.
\<close>

section \<open>Leading zeros\<close>

definition kWebRtcSpl_CountLeadingZeros32_Table :: "int list" where
  "kWebRtcSpl_CountLeadingZeros32_Table =
    [32, 8,  17, -1, -1, 14, -1, -1, -1, 20, -1, -1, -1, 28, -1, 18,
     -1, -1, -1, -1, -1, -1, -1, -1, -1, -1, -1, -1, 0,  26, 25, 24,
     4,  11, 23, 31, 3,  7,  10, 16, 22, 30, -1, -1, 2,  6,  13, 9,
     -1, 15, -1, 21, -1, 29, 19, -1, -1, -1, -1, -1, 1,  27, 5,  12]"

definition WebRtcSpl_CountLeadingZeros32_NotBuiltin :: "32 word \<Rightarrow> int" where
  "WebRtcSpl_CountLeadingZeros32_NotBuiltin n0 =
     (let n1 = n0 OR drop_bit 1 n0;
          n2 = n1 OR drop_bit 2 n1;
          n3 = n2 OR drop_bit 4 n2;
          n4 = n3 OR drop_bit 8 n3;
          n5 = n4 OR drop_bit 16 n4
      in kWebRtcSpl_CountLeadingZeros32_Table ! unat (drop_bit 26 (n5 * 0x8c0b2891)))"

definition WebRtcSpl_CountLeadingZeros64_NotBuiltin :: "64 word \<Rightarrow> int" where
  "WebRtcSpl_CountLeadingZeros64_NotBuiltin n =
     (let leading_zeros = (if drop_bit 32 n = 0 then 32 else 0)
      in int leading_zeros +
         WebRtcSpl_CountLeadingZeros32_NotBuiltin (ucast (drop_bit (32 - leading_zeros) n)))"

text \<open>The number of binary digits; \<^verbatim>\<open>__builtin_clz\<close> is the width less that, for a non-zero argument.\<close>

fun bit_length :: "nat \<Rightarrow> nat" where
  "bit_length n = (if n = 0 then 0 else Suc (bit_length (n div 2)))"

declare bit_length.simps [simp del]

definition builtin_clz :: "nat \<Rightarrow> nat \<Rightarrow> int" where
  "builtin_clz w n = int w - int (bit_length n)"

definition WebRtcSpl_CountLeadingZeros32 :: "int \<Rightarrow> int" where
  "WebRtcSpl_CountLeadingZeros32 n = (if n = 0 then 32 else builtin_clz 32 (nat n))"

definition WebRtcSpl_CountLeadingZeros64 :: "int \<Rightarrow> int" where
  "WebRtcSpl_CountLeadingZeros64 n = (if n = 0 then 64 else builtin_clz 64 (nat n))"

definition WebRtcSpl_GetSizeInBits :: "int \<Rightarrow> int" where
  "WebRtcSpl_GetSizeInBits n = s16 (32 - WebRtcSpl_CountLeadingZeros32 n)"

definition WebRtcSpl_NormW32 :: "int \<Rightarrow> int" where
  "WebRtcSpl_NormW32 a =
     (if a = 0 then 0
      else s16 (WebRtcSpl_CountLeadingZeros32 (u32 (if a < 0 then NOT a else a)) - 1))"

definition WebRtcSpl_NormU32 :: "int \<Rightarrow> int" where
  "WebRtcSpl_NormU32 a = (if a = 0 then 0 else s16 (WebRtcSpl_CountLeadingZeros32 a))"

definition WebRtcSpl_NormW16 :: "int \<Rightarrow> int" where
  "WebRtcSpl_NormW16 a =
     (if a = 0 then 0
      else s16 (WebRtcSpl_CountLeadingZeros32 (u32 (if a < 0 then NOT a else a)) - 17))"

section \<open>Saturation\<close>

definition WebRtcSpl_SatW32ToW16 :: "int \<Rightarrow> int" where
  "WebRtcSpl_SatW32ToW16 value32 =
     (if value32 > 32767 then 32767 else if value32 < -32768 then -32768 else s16 value32)"

definition WebRtcSpl_AddSatW32 :: "int \<Rightarrow> int \<Rightarrow> int" where
  "WebRtcSpl_AddSatW32 a b =
     (let sum = s32 (u32 (u32 a + u32 b))
      in if ((a < 0) = (b < 0)) \<and> (a < 0) \<noteq> (sum < 0)
         then (if sum < 0 then 2147483647 else -2147483648)
         else sum)"

definition WebRtcSpl_SubSatW32 :: "int \<Rightarrow> int \<Rightarrow> int" where
  "WebRtcSpl_SubSatW32 a b =
     (let diff = s32 (u32 (u32 a - u32 b))
      in if ((a < 0) \<noteq> (b < 0)) \<and> (a < 0) \<noteq> (diff < 0)
         then (if diff < 0 then 2147483647 else -2147483648)
         else diff)"

definition WebRtcSpl_AddSatW16 :: "int \<Rightarrow> int \<Rightarrow> int" where
  "WebRtcSpl_AddSatW16 a b = WebRtcSpl_SatW32ToW16 (s32 (a + b))"

definition WebRtcSpl_SubSatW16 :: "int \<Rightarrow> int \<Rightarrow> int" where
  "WebRtcSpl_SubSatW16 var1 var2 = WebRtcSpl_SatW32ToW16 (s32 (var1 - var2))"

definition WebRtc_MulAccumW16 :: "int \<Rightarrow> int \<Rightarrow> int \<Rightarrow> int" where
  "WebRtc_MulAccumW16 a b c = s32 (a * b + c)"

section \<open>Division\<close>

definition WebRtcSpl_DivU32U16 :: "int \<Rightarrow> int \<Rightarrow> int" where
  "WebRtcSpl_DivU32U16 num den = (if den \<noteq> 0 then num div den else 0xFFFFFFFF)"

definition WebRtcSpl_DivW32W16 :: "int \<Rightarrow> int \<Rightarrow> int" where
  "WebRtcSpl_DivW32W16 num den = (if den \<noteq> 0 then s32 (cdiv num den) else 0x7FFFFFFF)"

definition WebRtcSpl_DivW32W16ResW16 :: "int \<Rightarrow> int \<Rightarrow> int" where
  "WebRtcSpl_DivW32W16ResW16 num den = (if den \<noteq> 0 then s16 (cdiv num den) else 0x7FFF)"

text \<open>The bit-serial division loop: \<open>k\<close> rounds on the quotient and the remainder.\<close>

primrec div_loop :: "nat \<Rightarrow> int \<Rightarrow> int \<times> int \<Rightarrow> int \<times> int" where
  "div_loop 0 L_den st = st"
| "div_loop (Suc k) L_den st =
     (let q = s32 (fst st * 2); L_num = s32 (snd st * 2)
      in div_loop k L_den
           (if L_num \<ge> L_den then (s32 (q + 1), s32 (L_num - L_den)) else (q, L_num)))"

definition WebRtcSpl_DivResultInQ31 :: "int \<Rightarrow> int \<Rightarrow> int" where
  "WebRtcSpl_DivResultInQ31 num den =
     (if num = 0 then 0
      else
        let L_num = (if num < 0 then s32 (- num) else num);
            L_den = (if den < 0 then s32 (- den) else den);
            change_sign = (if num < 0 then 1 else 0) + (if den < 0 then 1 else (0::nat));
            q = fst (div_loop 31 L_den (0, L_num))
        in if change_sign = 1 then s32 (- q) else q)"

section \<open>Square root\<close>

definition WEBRTC_SPL_SQRT_ITER :: "nat \<Rightarrow> int \<times> int \<Rightarrow> int \<times> int" where
  "WEBRTC_SPL_SQRT_ITER N st =
     (let (val, root) = st;
          try1 = s32 (root + 2 ^ N);
          t = s32 (try1 * 2 ^ N)
      in if val \<ge> t then (s32 (val - t), root OR 2 * 2 ^ N) else (val, root))"

definition WebRtcSpl_SqrtFloor :: "int \<Rightarrow> int" where
  "WebRtcSpl_SqrtFloor val =
     (let (_, root) = fold WEBRTC_SPL_SQRT_ITER
            [15, 14, 13, 12, 11, 10, 9, 8, 7, 6, 5, 4, 3, 2, 1, 0] (val, 0)
      in asr root 1)"

section \<open>Leading zeros are counted\<close>

lemma bit_length_0 [simp]: "bit_length 0 = 0"
  by (simp add: bit_length.simps)

lemma bit_length_bounds: "n \<noteq> 0 \<Longrightarrow> 2 ^ (bit_length n - 1) \<le> n \<and> n < 2 ^ bit_length n \<and> 0 < bit_length n"
proof (induction n rule: bit_length.induct)
  case (1 n)
  have b: "bit_length n = Suc (bit_length (n div 2))" using "1.prems" by (simp add: bit_length.simps)
  show ?case
  proof (cases "n div 2 = 0")
    case True
    then have "n < 2" by (simp add: div_eq_0_iff)
    then show ?thesis using "1.prems" unfolding b True by simp
  next
    case False
    obtain d where d: "bit_length (n div 2) = Suc d"
      using "1.IH" [OF "1.prems" False] by (cases "bit_length (n div 2)") auto
    show ?thesis using "1.IH" [OF "1.prems" False] unfolding b d by simp linarith
  qed
qed

lemma bit_length_le: "n < 2 ^ k \<Longrightarrow> bit_length n \<le> k"
proof (cases "n = 0")
  case False
  assume "n < 2 ^ k"
  then have "(2::nat) ^ (bit_length n - 1) < 2 ^ k" using bit_length_bounds [OF False] by linarith
  then have "bit_length n - 1 < k" by (simp add: power_strict_increasing_iff)
  then show ?thesis using bit_length_bounds [OF False] by linarith
qed simp

text \<open>One smearing step doubles the reach of the set bits.\<close>

lemma smear_step:
  assumes "\<And>j. bit x j \<longleftrightarrow> (\<exists>d<m. bit (n :: 32 word) (j + d))"
  shows "bit (x OR drop_bit m x) j \<longleftrightarrow> (\<exists>d<2 * m. bit n (j + d))"
proof -
  have "(\<exists>d<2 * m. bit n (j + d)) \<longleftrightarrow> (\<exists>d<m. bit n (j + d)) \<or> (\<exists>d<m. bit n (m + j + d))" (is "?l \<longleftrightarrow> ?r")
  proof
    assume ?l
    then obtain d where "d < 2 * m" "bit n (j + d)" by blast
    then show ?r
      by (cases "d < m") (auto simp: ac_simps intro: exI [of _ d] exI [of _ "d - m"])
  next
    assume ?r
    then show ?l
    proof
      assume "\<exists>d<m. bit n (m + j + d)"
      then obtain d where "d < m" "bit n (m + j + d)" by blast
      then show ?l by (intro exI [of _ "m + d"]) (simp add: ac_simps)
    next
      assume "\<exists>d<m. bit n (j + d)"
      then obtain d where "d < m" "bit n (j + d)" by blast
      then show ?l by (intro exI [of _ d]) simp
    qed
  qed
  then show ?thesis by (simp add: bit_or_iff bit_drop_bit_eq assms)
qed

lemma smear_mask:
  assumes "\<And>j. bit (x :: 32 word) j \<longleftrightarrow> (\<exists>d<32. bit (n :: 32 word) (j + d))"
  shows "x = mask (bit_length (unat n))"
proof (rule bit_word_eqI)
  fix j assume j: "j < LENGTH(32)"
  let ?k = "bit_length (unat n)"
  have bu: "bit n i = bit (unat n) i" for i by (simp add: bit_unsigned_iff)
  show "bit x j \<longleftrightarrow> bit (mask ?k :: 32 word) j"
  proof (cases "n = 0")
    case True
    then show ?thesis using assms by simp
  next
    case False
    then have b: "2 ^ (?k - 1) \<le> unat n" "unat n < 2 ^ ?k" "0 < ?k"
      using bit_length_bounds [of "unat n"] by (simp_all add: unat_eq_zero)
    have k32: "?k \<le> 32" using unsigned_less [of n] by (intro bit_length_le) simp
    have hi: "\<not> bit (unat n) i" if "?k \<le> i" for i
    proof -
      have "unat n < 2 ^ i" using b(2) power_increasing [OF that, of "2::nat"] by linarith
      then show ?thesis by (simp add: bit_iff_odd)
    qed
    have top: "bit (unat n) (?k - 1)"
    proof -
      have "(2::nat) ^ ?k = 2 * 2 ^ (?k - 1)" using b(3) by (cases ?k) simp_all
      then have "unat n div 2 ^ (?k - 1) = 1" using b(1,2) by (intro div_nat_eqI) simp_all
      then show ?thesis by (simp add: bit_iff_odd)
    qed
    show ?thesis
    proof (cases "j < ?k")
      case True
      then have "bit x j" unfolding assms bu using top k32 by (intro exI [of _ "?k - 1 - j"]) simp
      then show ?thesis using True j by (simp add: bit_mask_iff)
    next
      case False
      then have "\<not> bit x j" unfolding assms bu using hi by auto
      then show ?thesis using False by (simp add: bit_mask_iff)
    qed
  qed
qed

lemma table_lookup:
  "k \<le> 32 \<Longrightarrow> kWebRtcSpl_CountLeadingZeros32_Table ! unat (drop_bit 26 (mask k * 0x8c0b2891 :: 32 word)) = 32 - int k"
proof -
  have "\<forall>k \<in> set [0..<33]. kWebRtcSpl_CountLeadingZeros32_Table !
      unat (drop_bit 26 (mask k * 0x8c0b2891 :: 32 word)) = 32 - int k"
    unfolding kWebRtcSpl_CountLeadingZeros32_Table_def by code_simp
  moreover assume "k \<le> 32"
  ultimately show ?thesis by (simp only: set_upt atLeastLessThan_iff) simp
qed


lemma CountLeadingZeros32_eq: "0 \<le> n \<Longrightarrow> WebRtcSpl_CountLeadingZeros32 n = 32 - int (bit_length (nat n))"
  by (simp add: WebRtcSpl_CountLeadingZeros32_def builtin_clz_def)

lemma CountLeadingZeros32_NotBuiltin_eq:
  "WebRtcSpl_CountLeadingZeros32_NotBuiltin n = 32 - int (bit_length (unat n))"
proof -
  define n1 where "n1 = n OR drop_bit 1 n"
  define n2 where "n2 = n1 OR drop_bit 2 n1"
  define n3 where "n3 = n2 OR drop_bit 4 n2"
  define n4 where "n4 = n3 OR drop_bit 8 n3"
  define n5 where "n5 = n4 OR drop_bit 16 n4"
  have "bit n j \<longleftrightarrow> (\<exists>d<1. bit n (j + d))" for j by simp
  from smear_step [OF this] have "bit n1 j \<longleftrightarrow> (\<exists>d<2. bit n (j + d))" for j unfolding n1_def by simp
  from smear_step [OF this] have "bit n2 j \<longleftrightarrow> (\<exists>d<4. bit n (j + d))" for j unfolding n2_def by simp
  from smear_step [OF this] have "bit n3 j \<longleftrightarrow> (\<exists>d<8. bit n (j + d))" for j unfolding n3_def by simp
  from smear_step [OF this] have "bit n4 j \<longleftrightarrow> (\<exists>d<16. bit n (j + d))" for j unfolding n4_def by simp
  from smear_step [OF this] have "bit n5 j \<longleftrightarrow> (\<exists>d<32. bit n (j + d))" for j unfolding n5_def by simp
  then have "n5 = mask (bit_length (unat n))" by (rule smear_mask)
  moreover have "bit_length (unat n) \<le> 32" using unsigned_less [of n] by (intro bit_length_le) simp
  ultimately show ?thesis
    using table_lookup [of "bit_length (unat n)"]
    by (simp only: WebRtcSpl_CountLeadingZeros32_NotBuiltin_def Let_def
        n1_def [symmetric] n2_def [symmetric] n3_def [symmetric] n4_def [symmetric] n5_def [symmetric])
qed

section \<open>Normalisation shifts\<close>

lemma bit_length_unique: "2 ^ k \<le> n \<Longrightarrow> n < 2 ^ Suc k \<Longrightarrow> bit_length n = Suc k"
proof -
  assume lo: "2 ^ k \<le> n" and hi: "n < 2 ^ Suc k"
  have nz: "n \<noteq> 0" using lo by (metis le_zero_eq power_not_zero zero_neq_numeral)
  have "bit_length n \<le> Suc k" using hi by (rule bit_length_le)
  moreover have "\<not> bit_length n \<le> k"
  proof
    assume "bit_length n \<le> k"
    then have "(2::nat) ^ bit_length n \<le> 2 ^ k" by (rule power_increasing) simp
    then show False using bit_length_bounds [OF nz] lo by linarith
  qed
  ultimately show ?thesis by simp
qed

lemma norm_pos:
  assumes "0 < a" "a < 2147483648"
  shows "\<exists>t \<le> 30. 32 - int (bit_length (nat a)) - 1 = int t \<and> 1073741824 \<le> a * 2 ^ t \<and> a * 2 ^ t < 2147483648"
proof -
  let ?k = "bit_length (nat a)"
  have b: "2 ^ (?k - 1) \<le> nat a" "nat a < 2 ^ ?k" "0 < ?k" using bit_length_bounds [of "nat a"] assms by simp_all
  have k31: "?k \<le> 31" using assms by (intro bit_length_le) (simp add: nat_less_iff)
  define t where "t = 31 - ?k"
  have ai: "2 ^ (?k - 1) \<le> a" "a < 2 ^ ?k"
    using b(1,2) assms by (simp_all add: le_nat_iff nat_less_iff)
  have "(2::int) ^ (?k - 1) * 2 ^ t \<le> a * 2 ^ t" "a * 2 ^ t < 2 ^ ?k * 2 ^ t"
    using ai by simp_all
  moreover have "(2::int) ^ (?k - 1) * 2 ^ t = 1073741824" "(2::int) ^ ?k * 2 ^ t = 2147483648"
    using b(3) k31 by (simp_all add: t_def flip: power_add)
  ultimately have "1073741824 \<le> a * 2 ^ t" "a * 2 ^ t < 2147483648" by linarith+
  moreover have "t \<le> 30" "32 - int ?k - 1 = int t" using b(3) k31 by (simp_all add: t_def)
  ultimately show ?thesis by blast
qed

lemma NormW32_pos:
  assumes "0 < a" "a < 2147483648"
  shows "\<exists>t \<le> 30. WebRtcSpl_NormW32 a = int t \<and> 1073741824 \<le> a * 2 ^ t \<and> a * 2 ^ t < 2147483648"
proof -
  obtain t where t: "t \<le> 30" "32 - int (bit_length (nat a)) - 1 = int t"
      "1073741824 \<le> a * 2 ^ t" "a * 2 ^ t < 2147483648"
    using norm_pos [OF assms] by blast
  have "u32 a = a" using assms by (intro u32_id) (simp add: is_u32_def)
  then have "WebRtcSpl_NormW32 a = s16 (int t)"
    using assms t(2) by (simp add: WebRtcSpl_NormW32_def CountLeadingZeros32_eq)
  moreover have "s16 (int t) = int t" using t(1) by (intro s16_id) (simp add: is_s16_def)
  ultimately show ?thesis using t by auto
qed

lemma NormW32_neg:
  assumes "a < 0" "-2147483648 \<le> a"
  shows "\<exists>t \<le> 31. WebRtcSpl_NormW32 a = int t \<and> -2147483648 \<le> a * 2 ^ t \<and> a * 2 ^ t < -1073741824"
proof (cases "a = -1")
  case True
  have "WebRtcSpl_NormW32 (-1) = 31"
    by (simp add: WebRtcSpl_NormW32_def WebRtcSpl_CountLeadingZeros32_def c_int_defs)
  then show ?thesis unfolding True by (intro exI [of _ 31]) simp
next
  case False
  let ?b = "- a - 1"
  have b: "0 < ?b" "?b < 2147483648" using assms False by simp_all
  obtain t where t: "t \<le> 30" "32 - int (bit_length (nat ?b)) - 1 = int t"
      "1073741824 \<le> ?b * 2 ^ t" "?b * 2 ^ t < 2147483648"
    using norm_pos [OF b] by blast
  have "NOT a = ?b" by (simp add: not_int_def)
  moreover have "u32 ?b = ?b" using b by (intro u32_id) (simp add: is_u32_def)
  moreover have "s16 (int t) = int t" using t(1) by (intro s16_id) (simp add: is_s16_def)
  ultimately have "WebRtcSpl_NormW32 a = int t"
    using assms t(2) CountLeadingZeros32_eq [of ?b] b by (simp add: WebRtcSpl_NormW32_def)
  moreover have e: "?b * 2 ^ t = - (a * 2 ^ t) - 2 ^ t" by (simp add: algebra_simps)
  have "a * 2 ^ t < -1073741824" using t(3) zero_less_power [of "2::int" t] unfolding e by linarith
  moreover have "-2147483648 \<le> a * 2 ^ t"
  proof -
    have "(2147483648 :: int) = 2 ^ (31 - t) * 2 ^ t" using t(1) by (simp flip: power_add)
    moreover from this have "?b * 2 ^ t < 2 ^ (31 - t) * 2 ^ t" using t(4) by simp
    then have "?b < 2 ^ (31 - t)" by simp
    then have "- a * 2 ^ t \<le> 2 ^ (31 - t) * 2 ^ t" by (intro mult_right_mono) simp_all
    ultimately show ?thesis by simp
  qed
  ultimately show ?thesis using t(1) by (intro exI [of _ t]) simp
qed


section \<open>Saturation\<close>

definition clamp :: "int \<Rightarrow> int \<Rightarrow> int \<Rightarrow> int" where
  "clamp lo hi x = max lo (min hi x)"

lemma SatW32ToW16_clamp: "WebRtcSpl_SatW32ToW16 x = clamp (-32768) 32767 x"
  by (simp add: WebRtcSpl_SatW32ToW16_def clamp_def s16_def)

lemma SatW32ToW16_bounds [simp]: "-32768 \<le> WebRtcSpl_SatW32ToW16 x" "WebRtcSpl_SatW32ToW16 x \<le> 32767"
  by (simp_all add: SatW32ToW16_clamp clamp_def)

lemma is_s16_SatW32ToW16 [simp]: "is_s16 (WebRtcSpl_SatW32ToW16 x)"
  by (simp add: is_s16_def)

lemma s32_u32: "s32 (u32 x) = s32 x" "u32 (u32 x) = u32 x"
  by (simp_all add: s32_def u32_def mod_simps)

lemma s32_u32_add: "s32 (u32 (u32 a + u32 b)) = s32 (a + b)"
  by (simp add: s32_def u32_def mod_simps)

lemma s32_u32_diff: "s32 (u32 (u32 a - u32 b)) = s32 (a - b)"
  by (simp add: s32_def u32_def mod_simps)

lemma s32_high: "2147483648 \<le> x \<Longrightarrow> x < 6442450944 \<Longrightarrow> s32 x = x - 4294967296"
proof -
  assume x: "2147483648 \<le> x" "x < 6442450944"
  have "(x + 2147483648) mod 4294967296 = (x - 2147483648 + 4294967296) mod 4294967296"
    by (rule arg_cong [of _ _ "\<lambda>y. y mod 4294967296"]) simp
  also have "\<dots> = x - 2147483648" using x by (simp only: mod_add_self2) simp
  finally show ?thesis by (simp add: s32_def)
qed

lemma s32_low: "-6442450944 \<le> x \<Longrightarrow> x < -2147483648 \<Longrightarrow> s32 x = x + 4294967296"
proof -
  assume x: "-6442450944 \<le> x" "x < -2147483648"
  have "(x + 2147483648) mod 4294967296 = (x + 2147483648 + 4294967296) mod 4294967296"
    by (rule mod_add_self2 [symmetric])
  also have "\<dots> = x + 6442450944" using x by simp
  finally show ?thesis by (simp add: s32_def)
qed

lemma AddSatW32_clamp:
  assumes "is_s32 a" "is_s32 b"
  shows "WebRtcSpl_AddSatW32 a b = clamp (-2147483648) 2147483647 (a + b)"
proof -
  consider "is_s32 (a + b)" | "2147483648 \<le> a + b" | "a + b < -2147483648"
    unfolding is_s32_def by linarith
  then show ?thesis
  proof cases
    case 1
    then show ?thesis using s32_id [OF 1] assms
      by (auto simp: WebRtcSpl_AddSatW32_def s32_u32_add Let_def clamp_def is_s32_def)
  next
    case 2
    then show ?thesis using assms s32_high [OF 2]
      by (auto simp: WebRtcSpl_AddSatW32_def s32_u32_add Let_def clamp_def is_s32_def)
  next
    case 3
    then show ?thesis using assms s32_low [of "a + b"]
      by (auto simp: WebRtcSpl_AddSatW32_def s32_u32_add Let_def clamp_def is_s32_def)
  qed
qed

lemma SubSatW32_clamp:
  assumes "is_s32 a" "is_s32 b"
  shows "WebRtcSpl_SubSatW32 a b = clamp (-2147483648) 2147483647 (a - b)"
proof -
  consider "is_s32 (a - b)" | "2147483648 \<le> a - b" | "a - b < -2147483648"
    unfolding is_s32_def by linarith
  then show ?thesis
  proof cases
    case 1
    then show ?thesis using s32_id [OF 1] assms
      by (auto simp: WebRtcSpl_SubSatW32_def s32_u32_diff Let_def clamp_def is_s32_def)
  next
    case 2
    then show ?thesis using assms s32_high [OF 2]
      by (auto simp: WebRtcSpl_SubSatW32_def s32_u32_diff Let_def clamp_def is_s32_def)
  next
    case 3
    then show ?thesis using assms s32_low [of "a - b"]
      by (auto simp: WebRtcSpl_SubSatW32_def s32_u32_diff Let_def clamp_def is_s32_def)
  qed
qed

section \<open>Division\<close>

text \<open>The loop keeps \<open>q * den + rem\<close> in step with the shifted numerator.\<close>

lemma div_loop_correct:
  assumes "0 < den" "den \<le> 1073741824" "0 \<le> r" "r < den" "0 \<le> q" "(q + 1) * 2 ^ k \<le> 2147483648"
  shows "div_loop k den (q, r) = ((q * den + r) * 2 ^ k div den, (q * den + r) * 2 ^ k mod den)"
  using assms(3-6)
proof (induction k arbitrary: q r)
  case 0
  then show ?case using assms(1) by simp
next
  case (Suc k)
  have p: "(1::int) \<le> 2 ^ k" by simp
  have "(q + 1) * 2 * 1 \<le> (q + 1) * 2 * 2 ^ k" using Suc.prems(3) p by (intro mult_left_mono) simp_all
  also have "\<dots> = (q + 1) * 2 ^ Suc k" by simp
  also have "\<dots> \<le> 2147483648" by (rule Suc.prems(4))
  finally have q2: "2 * q + 1 < 2147483648" by simp
  have s: "s32 (q * 2) = q * 2" "s32 (r * 2) = r * 2"
    using Suc.prems q2 assms(1,2) by (auto intro!: s32_id simp: is_s32_def)
  show ?case
  proof (cases "r * 2 \<ge> den")
    case True
    have s': "s32 (q * 2 + 1) = q * 2 + 1" "s32 (r * 2 - den) = r * 2 - den"
      using Suc.prems q2 assms(1,2) True by (auto intro!: s32_id simp: is_s32_def)
    have "div_loop (Suc k) den (q, r) = div_loop k den (q * 2 + 1, r * 2 - den)"
      using True s s' by (simp add: Let_def)
    also have "\<dots> = (((q * 2 + 1) * den + (r * 2 - den)) * 2 ^ k div den,
        ((q * 2 + 1) * den + (r * 2 - den)) * 2 ^ k mod den)"
      using Suc.prems True by (intro Suc.IH) (simp_all add: algebra_simps)
    also have "((q * 2 + 1) * den + (r * 2 - den)) * 2 ^ k = (q * den + r) * 2 ^ Suc k"
      by (simp add: algebra_simps)
    finally show ?thesis .
  next
    case False
    have "(q * 2 + 1) * 2 ^ k \<le> (q * 2 + 2) * 2 ^ k" by simp
    also have "\<dots> = (q + 1) * 2 ^ Suc k" by (simp add: algebra_simps)
    also have "\<dots> \<le> 2147483648" by (rule Suc.prems(4))
    finally have le: "(q * 2 + 1) * 2 ^ k \<le> 2147483648" .
    have "div_loop (Suc k) den (q, r) = div_loop k den (q * 2, r * 2)"
      using False s by (simp add: Let_def)
    also have "\<dots> = ((q * 2 * den + r * 2) * 2 ^ k div den, (q * 2 * den + r * 2) * 2 ^ k mod den)"
      using Suc.prems False le by (intro Suc.IH) simp_all
    also have "(q * 2 * den + r * 2) * 2 ^ k = (q * den + r) * 2 ^ Suc k"
      by (simp add: algebra_simps)
    finally show ?thesis .
  qed
qed

section \<open>Square root\<close>

lemma or_disjoint_power: "4 * 2 ^ N dvd (root::int) \<Longrightarrow> root OR 2 * 2 ^ N = root + 2 * 2 ^ N"
proof -
  assume "4 * 2 ^ N dvd root"
  then obtain c where c: "root = c * 2 ^ (N + 2)" by (auto simp: dvd_def ac_simps)
  have "\<not> bit root n \<or> \<not> bit (2 ^ Suc N :: int) n" for n
    unfolding c push_bit_eq_mult [symmetric] by (auto simp only: bit_push_bit_iff bit_exp_iff)
  then have "root + 2 ^ Suc N = root OR 2 ^ Suc N" by (rule disjunctive_add)
  then show ?thesis by simp
qed

definition sqrt_inv :: "int \<Rightarrow> nat \<Rightarrow> int \<times> int \<Rightarrow> bool" where
  "sqrt_inv v N st \<longleftrightarrow> (\<exists>r. st = (v - r * r, 2 * r) \<and> 0 \<le> r \<and> 2 ^ N dvd r \<and> r \<le> 65536 - 2 ^ N \<and>
     r * r \<le> v \<and> v < (r + 2 ^ N) * (r + 2 ^ N))"

lemma sqrt_try_bound: "N \<le> 15 \<Longrightarrow> r \<le> 65536 - 2 ^ Suc N \<Longrightarrow> (2 * r + 2 ^ N) * 2 ^ N < (2147483648::int)"
proof -
  assume N: "N \<le> 15" and r: "r \<le> 65536 - 2 ^ Suc N"
  have "(2 * r + 2 ^ N) * 2 ^ N \<le> (131072 - 3 * 2 ^ N) * (2::int) ^ N"
    using r by (intro mult_right_mono) simp_all
  also have "\<dots> < 2147483648"
  proof -
    have "\<forall>N \<in> set [0..<16]. (131072 - 3 * 2 ^ N) * (2::int) ^ N < 2147483648" by code_simp
    then show ?thesis using N by (simp only: set_upt atLeastLessThan_iff) simp
  qed
  finally show ?thesis .
qed

lemma SQRT_ITER_inv:
  assumes inv: "sqrt_inv v (Suc N) st" and N: "N \<le> 15" and v: "v < 2147483648"
  shows "sqrt_inv v N (WEBRTC_SPL_SQRT_ITER N st)"
proof -
  obtain r where st: "st = (v - r * r, 2 * r)" and r: "0 \<le> r" "2 ^ Suc N dvd r" "r \<le> 65536 - 2 ^ Suc N"
      "r * r \<le> v" "v < (r + 2 ^ Suc N) * (r + 2 ^ Suc N)"
    using inv unfolding sqrt_inv_def by blast
  let ?t = "(2 * r + 2 ^ N) * 2 ^ N"
  have p: "(0::int) < 2 ^ N" "(2::int) ^ N \<le> 32768"
    using power_increasing [OF N, of "2::int"] by simp_all
  have t: "?t < 2147483648" "0 \<le> ?t" using sqrt_try_bound [OF N r(3)] r(1) by simp_all
  have t1: "s32 (2 * r + 2 ^ N) = 2 * r + 2 ^ N"
    using r(1,3) p unfolding power_Suc by (intro s32_id) (unfold is_s32_def, linarith)
  have t2: "s32 ?t = ?t" using t by (intro s32_id) (simp add: is_s32_def)
  have sq: "(r + 2 ^ N) * (r + 2 ^ N) = r * r + ?t" by (simp add: algebra_simps)
  have dv: "2 ^ N dvd r" "4 * 2 ^ N dvd 2 * r" using r(2) by (auto intro: dvd_trans simp: dvd_def)
  have rr: "0 \<le> r * r" by simp
  show ?thesis
  proof (cases "v - r * r \<ge> ?t")
    case True
    have "s32 (v - r * r - ?t) = v - r * r - ?t" 
      using True v t rr r(4) by (intro s32_id) (unfold is_s32_def, linarith)
    then have "WEBRTC_SPL_SQRT_ITER N st = (v - (r + 2 ^ N) * (r + 2 ^ N), 2 * (r + 2 ^ N))"
      using True t1 t2 or_disjoint_power [OF dv(2)] sq
      by (simp add: WEBRTC_SPL_SQRT_ITER_def st Let_def)
    moreover have "(r + 2 ^ N) * (r + 2 ^ N) \<le> v" using True sq by linarith
    moreover have "2 ^ N dvd r + 2 ^ N" using dv(1) by simp
    moreover have "v < (r + 2 ^ N + 2 ^ N) * (r + 2 ^ N + 2 ^ N)" using r(5) by (simp add: algebra_simps)
    ultimately show ?thesis unfolding sqrt_inv_def
      using r(1,3) p by (intro exI [of _ "r + 2 ^ N"]) simp
  next
    case False
    then have "WEBRTC_SPL_SQRT_ITER N st = (v - r * r, 2 * r)"
      using t1 t2 by (simp add: WEBRTC_SPL_SQRT_ITER_def st Let_def)
    moreover have "r \<le> 65536 - 2 ^ N" using r(3) p(1) unfolding power_Suc by linarith
    moreover have "v < (r + 2 ^ N) * (r + 2 ^ N)" using False sq by linarith
    ultimately show ?thesis unfolding sqrt_inv_def using r(1,4) dv(1) by blast
  qed
qed

lemma sqrt_fold_inv:
  "N \<le> 16 \<Longrightarrow> v < 2147483648 \<Longrightarrow> sqrt_inv v N st \<Longrightarrow>
   sqrt_inv v 0 (fold WEBRTC_SPL_SQRT_ITER (rev [0..<N]) st)"
  by (induction N arbitrary: st) (simp_all add: SQRT_ITER_inv)

lemma SqrtFloor_bounds:
  assumes "0 \<le> v" "v < 2147483648"
  shows "0 \<le> WebRtcSpl_SqrtFloor v" "WebRtcSpl_SqrtFloor v * WebRtcSpl_SqrtFloor v \<le> v"
    "v < (WebRtcSpl_SqrtFloor v + 1) * (WebRtcSpl_SqrtFloor v + 1)"
proof -
  have "sqrt_inv v 16 (v, 0)" using assms by (auto simp: sqrt_inv_def intro!: exI [of _ 0])
  then have "sqrt_inv v 0 (fold WEBRTC_SPL_SQRT_ITER (rev [0..<16]) (v, 0))"
    using assms by (intro sqrt_fold_inv) simp_all
  moreover have "rev [0..<16] = [15, 14, 13, 12, 11, 10, 9, 8, 7, 6, 5, 4, 3, 2, 1, 0::nat]"
    by (simp add: upt_rec)
  ultimately obtain r where r: "fold WEBRTC_SPL_SQRT_ITER
        [15, 14, 13, 12, 11, 10, 9, 8, 7, 6, 5, 4, 3, 2, 1, 0] (v, 0) = (v - r * r, 2 * r)"
      "0 \<le> r" "r * r \<le> v" "v < (r + 1) * (r + 1)"
    unfolding sqrt_inv_def by auto
  have "WebRtcSpl_SqrtFloor v = r"
    unfolding WebRtcSpl_SqrtFloor_def r(1) by (simp add: asr_def)
  then show "0 \<le> WebRtcSpl_SqrtFloor v" "WebRtcSpl_SqrtFloor v * WebRtcSpl_SqrtFloor v \<le> v"
    "v < (WebRtcSpl_SqrtFloor v + 1) * (WebRtcSpl_SqrtFloor v + 1)" using r by simp_all
qed


section \<open>Properties\<close>

lemma DivResultInQ31_pos:
  assumes "0 < n" "n < d" "d \<le> 1073741824"
  shows "fst (div_loop 31 d (0, n)) = n * 2147483648 div d"
    "0 \<le> n * 2147483648 div d" "n * 2147483648 div d < 2147483648"
proof -
  show "fst (div_loop 31 d (0, n)) = n * 2147483648 div d"
    using div_loop_correct [of d n 0 31] assms by simp
  show "0 \<le> n * 2147483648 div d" using assms by (simp add: pos_imp_zdiv_nonneg_iff)
  show "n * 2147483648 div d < 2147483648"
  proof (rule ccontr)
    assume "\<not> n * 2147483648 div d < 2147483648"
    then have "2147483648 * d \<le> n * 2147483648 div d * d" using assms by (intro mult_right_mono) simp_all
    moreover have "n * 2147483648 div d * d + n * 2147483648 mod d = n * 2147483648" by simp
    moreover have "0 \<le> n * 2147483648 mod d" using assms by simp
    ultimately show False using assms by linarith
  qed
qed

lemma bit_length_div: "bit_length (n div 2 ^ k) = bit_length n - k"
proof (induction k arbitrary: n)
  case (Suc k)
  have "bit_length (n div 2 ^ Suc k) = bit_length (n div 2 div 2 ^ k)" by (simp add: div_mult2_eq)
  also have "\<dots> = bit_length n - Suc k" using Suc [of "n div 2"] bit_length.simps [of n] by simp
  finally show ?case .
qed simp

lemma unat_ucast_32: "unat m < 2 ^ 32 \<Longrightarrow> unat (ucast (m :: 64 word) :: 32 word) = unat m"
  by (simp add: unsigned_ucast_eq take_bit_nat_eq_self)

lemma CountLeadingZeros64_NotBuiltin_eq:
  "WebRtcSpl_CountLeadingZeros64_NotBuiltin m = 64 - int (bit_length (unat m))"
proof -
  let ?h = "drop_bit 32 m"
  have h: "unat ?h = unat m div 2 ^ 32" unfolding unat_drop_bit_eq by (simp add: drop_bit_eq_div)
  have "unat m < 2 ^ 64" using unsigned_less [of m] by simp
  then have "unat ?h < 2 ^ 32" unfolding h by (simp add: div_less_iff_less_mult)
  then have uh: "unat (ucast ?h :: 32 word) = unat m div 2 ^ 32" using unat_ucast_32 h by simp
  show ?thesis
  proof (cases "?h = 0")
    case True
    then have "unat m div 2 ^ 32 = 0" using h by simp
    then have "unat m < 2 ^ 32" by (simp add: div_eq_0_iff)
    then show ?thesis using True unat_ucast_32
      by (simp add: WebRtcSpl_CountLeadingZeros64_NotBuiltin_def CountLeadingZeros32_NotBuiltin_eq)
  next
    case False
    then have nz: "unat m div 2 ^ 32 \<noteq> 0" using h by (metis unsigned_eq_0_iff)
    then have "0 < bit_length (unat m div 2 ^ 32)" using bit_length_bounds by blast
    then have "32 < bit_length (unat m)" unfolding bit_length_div by simp
    moreover have "bit_length (unat m div 2 ^ 32) = bit_length (unat m) - 32" by (rule bit_length_div)
    ultimately show ?thesis using False uh
      by (simp add: WebRtcSpl_CountLeadingZeros64_NotBuiltin_def CountLeadingZeros32_NotBuiltin_eq Let_def)
  qed
qed

lemma SqrtFloor_neg:
  assumes "v < 0"
  shows "WebRtcSpl_SqrtFloor v = 0"
proof -
  have "WEBRTC_SPL_SQRT_ITER N (v, 0) = (v, 0)" if "N \<le> 15" for N
  proof -
    have p: "(2::int) ^ N \<le> 2 ^ 15" "(0::int) < 2 ^ N" using that by (simp_all only: power_increasing_iff) simp
    have "(2::int) ^ N * 2 ^ N \<le> 2 ^ 15 * 2 ^ 15" using p by (intro mult_mono) simp_all
    then have "s32 (2 ^ N) = 2 ^ N" "s32 (2 ^ N * 2 ^ N) = 2 ^ N * 2 ^ N"
      using p by (auto intro!: s32_id simp: is_s32_def order_trans [of _ 0])
    then show ?thesis using assms p by (simp add: WEBRTC_SPL_SQRT_ITER_def Let_def not_le less_trans [of v 0])
  qed
  then show ?thesis unfolding WebRtcSpl_SqrtFloor_def by (simp add: asr_def)
qed

text \<open>C33: The table-driven CountLeadingZeros32_NotBuiltin (five smearing steps, a multiplication that
  wraps, a 64-entry table) agrees on all \<open>2^32\<close> arguments with the builtin CountLeadingZeros32, and
  CountLeadingZeros64_NotBuiltin, built on it, with CountLeadingZeros64.\<close>

theorem CountLeadingZeros_NotBuiltin_correct:
  "WebRtcSpl_CountLeadingZeros32_NotBuiltin n = WebRtcSpl_CountLeadingZeros32 (uint n) \<and>
   WebRtcSpl_CountLeadingZeros64_NotBuiltin m = WebRtcSpl_CountLeadingZeros64 (uint m)"
proof -
  have "WebRtcSpl_CountLeadingZeros64 (uint m) = 64 - int (bit_length (unat m))"
  proof (cases "m = 0")
    case False
    then have "uint m \<noteq> 0" by (simp add: unsigned_eq_0_iff)
    then show ?thesis by (simp add: WebRtcSpl_CountLeadingZeros64_def builtin_clz_def)
  qed (simp add: WebRtcSpl_CountLeadingZeros64_def)
  moreover have "WebRtcSpl_CountLeadingZeros32 (uint n) = 32 - int (bit_length (unat n))"
    by (simp add: CountLeadingZeros32_eq)
  ultimately show ?thesis
    by (simp add: CountLeadingZeros32_NotBuiltin_eq CountLeadingZeros64_NotBuiltin_eq)
qed

text \<open>For every 32-bit value but 0, NormW32 is the number of left shifts that bring it to the
  full width and no further: the shifted value still fits, and is at least a quarter of the range
  away from 0.  Shifting by it therefore never overflows.\<close>

theorem NormW32_correct:
  assumes "is_s32 a" "a \<noteq> 0"
  shows "\<exists>t \<le> 31. WebRtcSpl_NormW32 a = int t \<and> is_s32 (a * 2 ^ t) \<and>
    (if a > 0 then 1073741824 \<le> a * 2 ^ t else a * 2 ^ t < -1073741824)"
proof (cases "a > 0")
  case True
  then obtain t where "t \<le> 30" "WebRtcSpl_NormW32 a = int t" "1073741824 \<le> a * 2 ^ t" "a * 2 ^ t < 2147483648"
    using NormW32_pos [of a] assms by (auto simp: is_s32_def)
  then show ?thesis using True by (intro exI [of _ t]) (simp add: is_s32_def)
next
  case False
  then obtain t where "t \<le> 31" "WebRtcSpl_NormW32 a = int t" "-2147483648 \<le> a * 2 ^ t" "a * 2 ^ t < -1073741824"
    using NormW32_neg [of a] assms by (auto simp: is_s32_def)
  then show ?thesis using False by (intro exI [of _ t]) (simp add: is_s32_def)
qed

text \<open>AddSatW32 and SubSatW32, computed with unsigned wrap-around and sign tests, are the exact
  sum and difference clamped to the 32-bit range, for all 32-bit arguments.\<close>

theorem AddSubSatW32_correct:
  assumes "is_s32 a" "is_s32 b"
  shows "WebRtcSpl_AddSatW32 a b = clamp (-2147483648) 2147483647 (a + b) \<and>
    WebRtcSpl_SubSatW32 a b = clamp (-2147483648) 2147483647 (a - b)"
  using AddSatW32_clamp [OF assms] SubSatW32_clamp [OF assms] by blast

text \<open>C34: SqrtFloor is the integer square root for every non-negative 32-bit value, with no
  intermediate overflow, and 0 for every negative one.\<close>

theorem SqrtFloor_correct:
  assumes "is_s32 v"
  shows "if v < 0 then WebRtcSpl_SqrtFloor v = 0
    else 0 \<le> WebRtcSpl_SqrtFloor v \<and> (WebRtcSpl_SqrtFloor v)\<^sup>2 \<le> v \<and> v < (WebRtcSpl_SqrtFloor v + 1)\<^sup>2"
  using SqrtFloor_neg [of v] SqrtFloor_bounds [of v] assms by (auto simp: is_s32_def power2_eq_square)

theorem SqrtFloor_correct_witness:
  "if (2147483647::int) < 0 then WebRtcSpl_SqrtFloor 2147483647 = 0
    else 0 \<le> WebRtcSpl_SqrtFloor 2147483647 \<and> (WebRtcSpl_SqrtFloor 2147483647)\<^sup>2 \<le> 2147483647 \<and>
      2147483647 < (WebRtcSpl_SqrtFloor 2147483647 + 1)\<^sup>2"
  by (rule SqrtFloor_correct) (simp add: is_s32_def)

text \<open>C35: DivResultInQ31 divides: for a numerator smaller in magnitude than the denominator, which
  is at most \<open>2^30\<close>, the result is the quotient in Q31 rounded towards zero, sign included, and no
  step of its bit-serial loop overflows.\<close>

theorem DivResultInQ31_correct:
  assumes "\<bar>num\<bar> < \<bar>den\<bar>" "\<bar>den\<bar> \<le> 1073741824"
  shows "WebRtcSpl_DivResultInQ31 num den = cdiv (num * 2147483648) den"
proof (cases "num = 0")
  case False
  let ?q = "\<bar>num\<bar> * 2147483648 div \<bar>den\<bar>"
  have q: "fst (div_loop 31 \<bar>den\<bar> (0, \<bar>num\<bar>)) = ?q" "0 \<le> ?q" "?q < 2147483648"
    using DivResultInQ31_pos [of "\<bar>num\<bar>" "\<bar>den\<bar>"] assms False by simp_all
  have "(if num < 0 then s32 (- num) else num) = \<bar>num\<bar>" "(if den < 0 then s32 (- den) else den) = \<bar>den\<bar>"
    using assms by (auto intro!: s32_id simp: is_s32_def)
  then have "WebRtcSpl_DivResultInQ31 num den = (if (num < 0) \<noteq> (den < 0) then s32 (- ?q) else ?q)"
    using False q(1) by (simp add: WebRtcSpl_DivResultInQ31_def Let_def)
  moreover have "s32 (- ?q) = - ?q" using q(2,3) by (intro s32_id) (simp add: is_s32_def)
  moreover have "den \<noteq> 0" using assms(1) by linarith
  then have "sgn (num * 2147483648) * sgn den = (if (num < 0) \<noteq> (den < 0) then -1 else 1)"
    using False by (auto simp: sgn_if zero_less_mult_iff)
  ultimately show ?thesis unfolding cdiv_def by (simp add: abs_mult)
qed (simp add: WebRtcSpl_DivResultInQ31_def cdiv_def)

theorem DivResultInQ31_correct_witness:
  "WebRtcSpl_DivResultInQ31 (-1) 3 = cdiv (-1 * 2147483648) 3"
  by (rule DivResultInQ31_correct) simp_all

text \<open>Beyond that range DivResultInQ31 goes wrong: \<open>2^30\<close> over \<open>2^31 - 1\<close> is a half, but the shifted
  numerator leaves the 32-bit range and the result is 0.\<close>

theorem DivResultInQ31_overflow:
  "WebRtcSpl_DivResultInQ31 1073741824 2147483647 = 0 \<and>
   cdiv (1073741824 * 2147483648) 2147483647 = 1073741824"
  by code_simp

end
