(* ===== verification/Spl_Vector.thy ===== *)
theory Spl_Vector
  imports Spl_Arith
begin

text \<open>
  The vector routines of the signal processing library: \<^verbatim>\<open>min_max_operations.c\<close>,
  \<^verbatim>\<open>vector_scaling_operations.c\<close>, \<^verbatim>\<open>copy_set_operations.c\<close>, \<^verbatim>\<open>get_scaling_square.c\<close>,
  \<^verbatim>\<open>energy.c\<close>, \<^verbatim>\<open>cross_correlation.c\<close> and \<^verbatim>\<open>auto_correlation.c\<close>.

  An input vector (a pointer with its length) is the list of its samples; a routine that indexes a
  vector with anything but its own loop counter reads through \<open>vec_at\<close>, which is \<open>None\<close> outside the
  vector.  Sums are kept in 32 bits by \<open>s32\<close> after every addition.
\<close>

section \<open>Minima and maxima\<close>

text \<open>The loops of this file: keep the best value so far, with its index where it is asked for.\<close>

fun scan_value :: "(int \<Rightarrow> int \<Rightarrow> bool) \<Rightarrow> int list \<Rightarrow> int \<Rightarrow> int" where
  "scan_value better [] best = best"
| "scan_value better (x # xs) best = scan_value better xs (if better x best then x else best)"

fun scan_index :: "(int \<Rightarrow> int \<Rightarrow> bool) \<Rightarrow> int list \<Rightarrow> nat \<Rightarrow> nat \<Rightarrow> int \<Rightarrow> nat" where
  "scan_index better [] i index best = index"
| "scan_index better (x # xs) i index best =
     (if better x best then scan_index better xs (Suc i) i x
      else scan_index better xs (Suc i) index best)"

definition WebRtcSpl_MaxAbsValueW16C :: "int list \<Rightarrow> int" where
  "WebRtcSpl_MaxAbsValueW16C vec =
     (let maximum = scan_value (>) (map abs vec) 0
      in s16 (if maximum > 32767 then 32767 else maximum))"

definition WebRtcSpl_MaxAbsValueW32C :: "int list \<Rightarrow> int" where
  "WebRtcSpl_MaxAbsValueW32C vec =
     (let maximum = scan_value (>) (map (\<lambda>x. u32 (s32 (abs x))) vec) 0
      in s32 (if maximum < 2147483647 then maximum else 2147483647))"

definition WebRtcSpl_MaxValueW16C :: "int list \<Rightarrow> int" where
  "WebRtcSpl_MaxValueW16C vec = scan_value (>) vec (-32768)"

definition WebRtcSpl_MaxValueW32C :: "int list \<Rightarrow> int" where
  "WebRtcSpl_MaxValueW32C vec = scan_value (>) vec (-2147483648)"

definition WebRtcSpl_MinValueW16C :: "int list \<Rightarrow> int" where
  "WebRtcSpl_MinValueW16C vec = scan_value (<) vec 32767"

definition WebRtcSpl_MinValueW32C :: "int list \<Rightarrow> int" where
  "WebRtcSpl_MinValueW32C vec = scan_value (<) vec 2147483647"

definition WebRtcSpl_MaxAbsIndexW16 :: "int list \<Rightarrow> nat" where
  "WebRtcSpl_MaxAbsIndexW16 vec = scan_index (>) (map abs vec) 0 0 0"

definition WebRtcSpl_MinMaxW16 :: "int list \<Rightarrow> int \<times> int" where
  "WebRtcSpl_MinMaxW16 vec =
     fold (\<lambda>x (minimum, maximum).
         (if x < minimum then x else minimum, if x > maximum then x else maximum))
       vec (32767, -32768)"

definition WebRtcSpl_MaxAbsElementW16 :: "int list \<Rightarrow> int" where
  "WebRtcSpl_MaxAbsElementW16 vec =
     (let (min_val, max_val) = WebRtcSpl_MinMaxW16 vec
      in if min_val = max_val \<or> min_val < - max_val then min_val else max_val)"

definition WebRtcSpl_MaxIndexW16 :: "int list \<Rightarrow> nat" where
  "WebRtcSpl_MaxIndexW16 vec = scan_index (>) vec 0 0 (-32768)"

definition WebRtcSpl_MaxIndexW32 :: "int list \<Rightarrow> nat" where
  "WebRtcSpl_MaxIndexW32 vec = scan_index (>) vec 0 0 (-2147483648)"

definition WebRtcSpl_MinIndexW16 :: "int list \<Rightarrow> nat" where
  "WebRtcSpl_MinIndexW16 vec = scan_index (<) vec 0 0 32767"

definition WebRtcSpl_MinIndexW32 :: "int list \<Rightarrow> nat" where
  "WebRtcSpl_MinIndexW32 vec = scan_index (<) vec 0 0 2147483647"

section \<open>Scaling\<close>

definition WebRtcSpl_VectorBitShiftW16 :: "int list \<Rightarrow> int \<Rightarrow> int list" where
  "WebRtcSpl_VectorBitShiftW16 inp right_shifts =
     (if right_shifts > 0 then map (\<lambda>x. s16 (asr x (nat right_shifts))) inp
      else map (\<lambda>x. s16 (s32 (x * 2 ^ nat (- right_shifts)))) inp)"

definition WebRtcSpl_VectorBitShiftW32 :: "int list \<Rightarrow> int \<Rightarrow> int list" where
  "WebRtcSpl_VectorBitShiftW32 in_vector right_shifts =
     (if right_shifts > 0 then map (\<lambda>x. asr x (nat right_shifts)) in_vector
      else map (\<lambda>x. s32 (x * 2 ^ nat (- right_shifts))) in_vector)"

definition WebRtcSpl_VectorBitShiftW32ToW16 :: "int list \<Rightarrow> int \<Rightarrow> int list" where
  "WebRtcSpl_VectorBitShiftW32ToW16 inp right_shifts =
     (if right_shifts \<ge> 0
      then map (\<lambda>x. WebRtcSpl_SatW32ToW16 (asr x (nat right_shifts))) inp
      else let left_shifts = - right_shifts
           in map (\<lambda>x. WebRtcSpl_SatW32ToW16 (s32 (x * 2 ^ nat left_shifts))) inp)"

definition WebRtcSpl_ScaleVector :: "int list \<Rightarrow> int \<Rightarrow> nat \<Rightarrow> int list" where
  "WebRtcSpl_ScaleVector in_vector gain right_shifts =
     map (\<lambda>x. s16 (asr (x * gain) right_shifts)) in_vector"

definition WebRtcSpl_ScaleVectorWithSat :: "int list \<Rightarrow> int \<Rightarrow> nat \<Rightarrow> int list" where
  "WebRtcSpl_ScaleVectorWithSat in_vector gain right_shifts =
     map (\<lambda>x. WebRtcSpl_SatW32ToW16 (asr (x * gain) right_shifts)) in_vector"

definition WebRtcSpl_ScaleAndAddVectors ::
    "int list \<Rightarrow> int \<Rightarrow> nat \<Rightarrow> int list \<Rightarrow> int \<Rightarrow> nat \<Rightarrow> int list" where
  "WebRtcSpl_ScaleAndAddVectors in1 gain1 shift1 in2 gain2 shift2 =
     map2 (\<lambda>x y. s16 (s16 (asr (gain1 * x) shift1) + s16 (asr (gain2 * y) shift2))) in1 in2"

text \<open>The vectors are \<open>None\<close> when their pointers are null; the result is the return value and the output.\<close>

definition WebRtcSpl_ScaleAndAddVectorsWithRoundC ::
    "int list option \<Rightarrow> int \<Rightarrow> int list option \<Rightarrow> int \<Rightarrow> int \<Rightarrow> int list option \<Rightarrow> int \<times> int list option" where
  "WebRtcSpl_ScaleAndAddVectorsWithRoundC in_vector1 in_vector1_scale in_vector2 in_vector2_scale
       right_shifts out_vector =
     (case (in_vector1, in_vector2, out_vector) of
        (Some v1, Some v2, Some out) \<Rightarrow>
          (if out = [] \<or> right_shifts < 0 then (-1, Some out)
           else
             let round_value = asr (s32 (2 ^ nat right_shifts)) 1
             in (0, Some (map2 (\<lambda>x y. s16 (asr (s32 (s32 (x * in_vector1_scale +
                      y * in_vector2_scale) + round_value)) (nat right_shifts))) v1 v2)))
      | _ \<Rightarrow> (-1, out_vector))"

section \<open>Copying\<close>

text \<open>\<open>vec_at\<close> and \<open>vec_put\<close> access a vector at an index; both are \<open>None\<close> outside it.\<close>

definition vec_at :: "'a list \<Rightarrow> int \<Rightarrow> 'a option" where
  "vec_at v i = (if 0 \<le> i \<and> i < int (length v) then Some (v ! nat i) else None)"

definition vec_put :: "'a list \<Rightarrow> int \<Rightarrow> 'a \<Rightarrow> 'a list option" where
  "vec_put v i x = (if 0 \<le> i \<and> i < int (length v) then Some (v[nat i := x]) else None)"

definition WebRtcSpl_MemSetW16 :: "int list \<Rightarrow> nat \<Rightarrow> int \<Rightarrow> nat \<Rightarrow> int list option" where
  "WebRtcSpl_MemSetW16 block ptr set_value len =
     fold (\<lambda>j st. do { b \<leftarrow> st; vec_put b (int (ptr + j)) set_value }) [0..<len] (Some block)"

definition WebRtcSpl_MemSetW32 :: "int list \<Rightarrow> nat \<Rightarrow> int \<Rightarrow> nat \<Rightarrow> int list option" where
  "WebRtcSpl_MemSetW32 block ptr set_value len =
     fold (\<lambda>j st. do { b \<leftarrow> st; vec_put b (int (ptr + j)) set_value }) [0..<len] (Some block)"

text \<open>\<open>dest\<close> and \<open>source\<close> are the positions of the two pointers in their blocks.\<close>

definition WebRtcSpl_MemCpyReversedOrder ::
    "int list \<Rightarrow> int \<Rightarrow> int list \<Rightarrow> int \<Rightarrow> nat \<Rightarrow> int list option" where
  "WebRtcSpl_MemCpyReversedOrder block dest src source len =
     fold (\<lambda>j st. do {
         b \<leftarrow> st;
         x \<leftarrow> vec_at src (source + int j);
         vec_put b (dest - int j) x
       }) [0..<len] (Some block)"

definition WebRtcSpl_CopyFromEndW16 :: "int list \<Rightarrow> nat \<Rightarrow> nat \<Rightarrow> int list \<Rightarrow> int list option" where
  "WebRtcSpl_CopyFromEndW16 vector_in len samples vector_out =
     memcpy vector_out 0 vector_in (sz_sub len samples) samples"

definition WebRtcSpl_ZerosArrayW16 :: "int list \<Rightarrow> nat \<Rightarrow> nat \<Rightarrow> int list option" where
  "WebRtcSpl_ZerosArrayW16 block ptr len = WebRtcSpl_MemSetW16 block ptr 0 len"

definition WebRtcSpl_ZerosArrayW32 :: "int list \<Rightarrow> nat \<Rightarrow> nat \<Rightarrow> int list option" where
  "WebRtcSpl_ZerosArrayW32 block ptr len = WebRtcSpl_MemSetW32 block ptr 0 len"

section \<open>Energy and correlation\<close>

definition WebRtcSpl_GetScalingSquare :: "int list \<Rightarrow> nat \<Rightarrow> int" where
  "WebRtcSpl_GetScalingSquare in_vector n_times =
     (let nbits = WebRtcSpl_GetSizeInBits (u32 (int n_times));
          smax = scan_value (>) (map (\<lambda>x. if x > 0 then x else s16 (- x)) in_vector) (-1);
          t = WebRtcSpl_NormW32 (s32 (smax * smax))
      in if smax = 0 then 0 else if t > nbits then 0 else s16 (nbits - t))"

text \<open>\<open>acc += e\<close> for every term, in \<^verbatim>\<open>int32_t\<close>.\<close>

definition acc32 :: "int \<Rightarrow> int list \<Rightarrow> int" where
  "acc32 = foldl (\<lambda>acc e. s32 (acc + e))"

definition WebRtcSpl_Energy :: "int list \<Rightarrow> int \<times> int" where
  "WebRtcSpl_Energy vec =
     (let scaling = WebRtcSpl_GetScalingSquare vec (length vec)
      in (acc32 0 (map (\<lambda>x. asr (x * x) (nat scaling)) vec), scaling))"

definition products_at :: "int list \<Rightarrow> int \<Rightarrow> int list \<Rightarrow> int \<Rightarrow> nat \<Rightarrow> nat \<Rightarrow> int list option" where
  "products_at v1 p1 v2 p2 dim right_shifts =
     those (map (\<lambda>j. do {
         x \<leftarrow> vec_at v1 (p1 + int j);
         y \<leftarrow> vec_at v2 (p2 + int j);
         Some (asr (x * y) right_shifts)
       }) [0..<dim])"

text \<open>\<open>base\<close> is the position of the pointer \<open>seq2\<close>, which moves by \<open>step_seq2\<close>.\<close>

definition WebRtcSpl_CrossCorrelationC ::
    "int list \<Rightarrow> int list \<Rightarrow> int \<Rightarrow> nat \<Rightarrow> nat \<Rightarrow> nat \<Rightarrow> int \<Rightarrow> int list option" where
  "WebRtcSpl_CrossCorrelationC seq1 seq2 base dim_seq dim_cross_correlation right_shifts step_seq2 =
     those (map (\<lambda>i. map_option (acc32 0)
         (products_at seq1 0 seq2 (base + int i * step_seq2) dim_seq right_shifts))
       [0..<dim_cross_correlation])"

text \<open>The two inner loops for one lag \<open>i\<close>: four products at a time, then the rest.\<close>

function corr_unrolled :: "int list \<Rightarrow> nat \<Rightarrow> nat \<Rightarrow> nat \<Rightarrow> int \<Rightarrow> (nat \<times> int) option" where
  "corr_unrolled v scaling i j acc =
     (if i + j + 3 < length v then do {
        es \<leftarrow> products_at v (int j) v (int (i + j)) 4 scaling;
        corr_unrolled v scaling i (j + 4) (acc32 acc es)
      } else Some (j, acc))"
  by pat_completeness auto
termination
  by (relation "measure (\<lambda>(v, _, i, j, _). length v - (i + j))") auto

declare corr_unrolled.simps [simp del]

definition corr_lag :: "int list \<Rightarrow> nat \<Rightarrow> nat \<Rightarrow> int option" where
  "corr_lag v scaling i = do {
     (j, acc) \<leftarrow> corr_unrolled v scaling i 0 0;
     es \<leftarrow> products_at v (int j) v (int (i + j)) (length v - i - j) scaling;
     Some (acc32 acc es)
   }"

definition WebRtcSpl_AutoCorrelation :: "int list \<Rightarrow> nat \<Rightarrow> (nat \<times> int list \<times> int) option" where
  "WebRtcSpl_AutoCorrelation in_vector ord =
     (let smax = WebRtcSpl_MaxAbsValueW16C in_vector;
          scaling =
            (if smax = 0 then 0
             else
               let nbits = WebRtcSpl_GetSizeInBits (u32 (int (length in_vector)));
                   t = WebRtcSpl_NormW32 (s32 (smax * smax))
               in if t > nbits then 0 else nbits - t)
      in map_option (\<lambda>result. (ord + 1, result, scaling))
           (those (map (corr_lag in_vector (nat scaling)) [0..<ord + 1])))"

section \<open>Scans\<close>

lemma scan_value_max: "scan_value (>) xs b = fold max xs b"
  by (induction xs arbitrary: b) (auto simp: max_def intro: arg_cong [of _ _ "fold max _"])

lemma scan_value_min: "scan_value (<) xs b = fold min xs b"
  by (induction xs arbitrary: b) (auto simp: min_def intro: arg_cong [of _ _ "fold min _"])

lemma scan_max_Max: "xs \<noteq> [] \<Longrightarrow> \<forall>x \<in> set xs. b \<le> x \<Longrightarrow> scan_value (>) xs b = Max (set xs)"
proof -
  assume ne: "xs \<noteq> []" and b: "\<forall>x \<in> set xs. b \<le> x"
  have "scan_value (>) xs b = Max (insert b (set xs))"
    by (simp add: scan_value_max flip: Max.set_eq_fold)
  also have "\<dots> = max b (Max (set xs))" using ne by simp
  also have "\<dots> = Max (set xs)" using ne b by (simp add: max_absorb2)
  finally show ?thesis .
qed

lemma scan_min_Min: "xs \<noteq> [] \<Longrightarrow> \<forall>x \<in> set xs. x \<le> b \<Longrightarrow> scan_value (<) xs b = Min (set xs)"
proof -
  assume ne: "xs \<noteq> []" and b: "\<forall>x \<in> set xs. x \<le> b"
  have "scan_value (<) xs b = Min (insert b (set xs))"
    by (simp add: scan_value_min flip: Min.set_eq_fold)
  also have "\<dots> = min b (Min (set xs))" using ne by simp
  also have "\<dots> = Min (set xs)" using ne b by (simp add: min_absorb2)
  finally show ?thesis .
qed

text \<open>The index of the first best element, for a comparison by a key.\<close>

definition first_best :: "(int \<Rightarrow> int) \<Rightarrow> int list \<Rightarrow> nat \<Rightarrow> bool" where
  "first_best key v i \<longleftrightarrow> i < length v \<and> (\<forall>x \<in> set v. key x \<le> key (v ! i)) \<and>
     (\<forall>j < i. key (v ! j) < key (v ! i))"

lemma scan_index_inv:
  assumes "\<And>x y. better x y \<longleftrightarrow> key x > key (y :: int)"
    and "first_best key ys idx" "key (ys ! idx) = key b"
  shows "first_best key (ys @ xs) (scan_index better xs (length ys) idx b)"
  using assms(2,3)
proof (induction xs arbitrary: ys idx b)
  case (Cons x xs)
  show ?case
  proof (cases "better x b")
    case True
    then have "key (ys ! idx) < key x" using assms(1) Cons.prems(2) by simp
    moreover have "\<forall>y \<in> set ys. key y \<le> key (ys ! idx)" using Cons.prems(1) by (simp add: first_best_def)
    ultimately have "\<forall>y \<in> set ys. key y < key x" by (meson le_less_trans)
    then have "first_best key (ys @ [x]) (length ys)"
      by (auto simp: first_best_def nth_append less_imp_le)
    then show ?thesis using True Cons.IH [of "ys @ [x]" "length ys" x] by simp
  next
    case False
    then have "first_best key (ys @ [x]) idx"
      using Cons.prems assms(1) by (auto simp: first_best_def nth_append)
    moreover have "idx < length ys" using Cons.prems(1) by (simp add: first_best_def)
    ultimately show ?thesis using False Cons.IH [of "ys @ [x]" idx b] Cons.prems(2)
      by (simp add: nth_append)
  qed
qed simp

lemma scan_index_first:
  assumes "\<And>x y. better x y \<longleftrightarrow> key x > key (y :: int)" "v \<noteq> []" "\<forall>x \<in> set v. key b \<le> key x"
  shows "first_best key v (scan_index better v 0 0 b)"
proof -
  obtain x xs where v: "v = x # xs" using assms(2) by (cases v) auto
  have fb: "first_best key [x] 0" by (simp add: first_best_def)
  show ?thesis
  proof (cases "better x b")
    case True
    then show ?thesis using scan_index_inv [OF assms(1) fb, of x xs] by (simp add: v)
  next
    case False
    then have "key b = key x" using assms(1,3) v by (simp add: order_antisym)
    then show ?thesis using False scan_index_inv [OF assms(1) fb, of b xs] by (simp add: v)
  qed
qed

lemma MinMaxW16_eq: "WebRtcSpl_MinMaxW16 vec = (scan_value (<) vec 32767, scan_value (>) vec (-32768))"
proof -
  have "fold (\<lambda>x (minimum, maximum). (if x < minimum then x else minimum, if x > maximum then x else maximum))
      vec (a, b) = (scan_value (<) vec a, scan_value (>) vec b)" for a b
    by (induction vec arbitrary: a b) simp_all
  then show ?thesis by (simp add: WebRtcSpl_MinMaxW16_def)
qed

section \<open>Sums in 32 bits\<close>

lemma acc32_simps [simp]: "acc32 a [] = a" "acc32 a (e # es) = acc32 (s32 (a + e)) es"
  by (simp_all add: acc32_def)

lemma acc32_append: "acc32 a (xs @ ys) = acc32 (acc32 a xs) ys"
  by (simp add: acc32_def)

lemma s32_add_s32: "s32 (s32 a + b) = s32 (a + b)"
proof -
  have "s32 (s32 a + b) = ((a + 2147483648) mod 4294967296 + b) mod 4294967296 - 2147483648"
    by (simp add: s32_def)
  also have "\<dots> = (a + 2147483648 + b) mod 4294967296 - 2147483648" by (simp only: mod_add_left_eq)
  also have "a + 2147483648 + b = a + b + 2147483648" by simp
  finally show ?thesis by (simp only: s32_def)
qed

lemma acc32_sum: "acc32 (s32 a) es = s32 (a + sum_list es)"
  by (induction es arbitrary: a) (simp_all add: s32_add_s32 add.assoc)

lemma acc32_0: "acc32 0 es = s32 (sum_list es)"
  using acc32_sum [of 0 es] by (simp add: s32_def)

lemma sum_list_abs_bound: "\<forall>e \<in> set es. \<bar>e\<bar> \<le> B \<Longrightarrow> \<bar>sum_list es\<bar> \<le> int (length es) * (B::int)"
proof (induction es)
  case (Cons e es)
  then show ?case using abs_triangle_ineq [of e "sum_list es"] by (simp add: algebra_simps)
qed simp

lemma acc32_exact:
  assumes "\<forall>e \<in> set es. \<bar>e\<bar> \<le> B" "int (length es) * B \<le> 2147483647"
  shows "acc32 0 es = sum_list es"
proof -
  have "\<bar>sum_list es\<bar> \<le> 2147483647" using sum_list_abs_bound [OF assms(1)] assms(2) by linarith
  then show ?thesis unfolding acc32_0 by (intro s32_id) (unfold is_s32_def, linarith)
qed

section \<open>Reads within the vector\<close>

lemma vec_at_nth: "i < length v \<Longrightarrow> vec_at v (int i) = Some (v ! i)"
  by (simp add: vec_at_def)

lemma those_Some: "those (map (\<lambda>x. Some (f x)) xs) = Some (map f xs)"
  by (induction xs) simp_all

lemma products_at_ok:
  assumes "a + n \<le> length v" "b + n \<le> length w"
  shows "products_at v (int a) w (int b) n s = Some (map (\<lambda>j. asr (v ! (a + j) * w ! (b + j)) s) [0..<n])"
proof -
  have "map (\<lambda>j. do { x \<leftarrow> vec_at v (int a + int j); y \<leftarrow> vec_at w (int b + int j); Some (asr (x * y) s) }) [0..<n]
      = map (\<lambda>j. Some (asr (v ! (a + j) * w ! (b + j)) s)) [0..<n]"
    using assms vec_at_nth [of "a + _" v] vec_at_nth [of "b + _" w]
    by (intro map_cong refl) (simp add: vec_at_def nat_add_distrib)
  then show ?thesis by (simp only: products_at_def those_Some)
qed

lemma upt_split: "[0..<k + m] = [0..<k] @ map ((+) k) [0..<m]"
  by (induction m) simp_all

lemma corr_unrolled_ok:
  "i + j \<le> length v \<Longrightarrow>
   \<exists>k. corr_unrolled v s i j acc = Some (j + k, acc32 acc (map (\<lambda>m. asr (v ! (j + m) * v ! (i + j + m)) s) [0..<k])) \<and>
     i + (j + k) \<le> length v"
proof (induction v s i j acc rule: corr_unrolled.induct)
  case (1 v s i j acc)
  show ?case
  proof (cases "i + j + 3 < length v")
    case False
    then show ?thesis using "1.prems" by (intro exI [of _ 0]) (simp add: corr_unrolled.simps)
  next
    case True
    let ?e = "\<lambda>m. asr (v ! (j + m) * v ! (i + j + m)) s"
    have p: "products_at v (int j) v (int (i + j)) 4 s = Some (map ?e [0..<4])"
      using True by (intro products_at_ok) simp_all
    obtain k where k: "corr_unrolled v s i (j + 4) (acc32 acc (map ?e [0..<4])) =
        Some (j + 4 + k, acc32 (acc32 acc (map ?e [0..<4]))
          (map (\<lambda>m. asr (v ! (j + 4 + m) * v ! (i + (j + 4) + m)) s) [0..<k]))"
        "i + (j + 4 + k) \<le> length v"
      using "1.IH" [OF True p] True by auto
    have "map ?e [0..<4 + k] = map ?e [0..<4] @ map (\<lambda>m. asr (v ! (j + 4 + m) * v ! (i + (j + 4) + m)) s) [0..<k]"
    proof -
      have "[0..<4 + k] = [0..<4] @ map ((+) 4) [0..<k]" by (rule upt_split)
      then show ?thesis by (simp add: comp_def add.assoc add.left_commute)
    qed
    then show ?thesis using k True p
      by (intro exI [of _ "4 + k"]) (simp add: corr_unrolled.simps [of v s i j] acc32_append add.assoc)
  qed
qed

lemma corr_lag_ok:
  assumes "i \<le> length v"
  shows "corr_lag v s i = Some (acc32 0 (map (\<lambda>j. asr (v ! j * v ! (i + j)) s) [0..<length v - i]))"
proof -
  let ?e = "\<lambda>j. asr (v ! j * v ! (i + j)) s"
  obtain k where k: "corr_unrolled v s i 0 0 = Some (k, acc32 0 (map ?e [0..<k]))" "i + k \<le> length v"
    using corr_unrolled_ok [of i 0 v s 0] assms by auto
  have p: "products_at v (int k) v (int (i + k)) (length v - i - k) s =
      Some (map (\<lambda>m. ?e (k + m)) [0..<length v - i - k])"
    using k(2) by (subst products_at_ok) (simp_all add: add.assoc)
  have "[0..<length v - i] = [0..<k] @ map ((+) k) [0..<length v - i - k]"
    using k(2) upt_split [of k "length v - i - k"] by simp
  then show ?thesis using k(1) p
    by (simp add: corr_lag_def acc32_append comp_def)
qed

section \<open>The scaling leaves room for the sum\<close>

lemma GetSizeInBits_eq: "n < 2147483648 \<Longrightarrow>
  WebRtcSpl_GetSizeInBits (u32 (int n)) = int (bit_length n) \<and> bit_length n \<le> 31"
proof -
  assume n: "n < 2147483648"
  then have "u32 (int n) = int n" by (intro u32_id) (simp add: is_u32_def)
  moreover have b: "bit_length n \<le> 31" using n by (intro bit_length_le) simp
  moreover have "s16 (int (bit_length n)) = int (bit_length n)" using b by (intro s16_id) (simp add: is_s16_def)
  ultimately show ?thesis by (simp add: WebRtcSpl_GetSizeInBits_def CountLeadingZeros32_eq)
qed

lemma asr_abs_bound:
  assumes "\<bar>e\<bar> \<le> 2 ^ (s + m)"
  shows "\<bar>asr e s\<bar> \<le> 2 ^ m"
proof -
  have "e div 2 ^ s \<le> 2 ^ (s + m) div 2 ^ s" using assms by (intro zdiv_mono1) simp_all
  moreover have "- (2 ^ (s + m)) div 2 ^ s \<le> e div 2 ^ s" using assms by (intro zdiv_mono1) simp_all
  moreover have "- (2 ^ (s + m)) div (2::int) ^ s = - (2 ^ m)" "2 ^ (s + m) div (2::int) ^ s = 2 ^ m"
    by (simp_all add: power_add dvd_neg_div)
  ultimately show ?thesis by (simp add: asr_def)
qed

lemma count_bound: "int n \<le> 2 ^ bit_length n - 1"
proof (cases "n = 0")
  case False
  then have "n < 2 ^ bit_length n" using bit_length_bounds by blast
  then have "int n < 2 ^ bit_length n" by (simp add: of_nat_less_iff [symmetric] del: of_nat_less_iff)
  then show ?thesis by simp
qed simp

text \<open>The shift of the three routines: what remains of the bits of the count and of the products.\<close>

lemma scaled_sum_exact:
  assumes n: "bit_length n \<le> 31" and t: "t \<le> 31"
    and es: "length es \<le> n" "\<forall>e \<in> set es. \<bar>e\<bar> \<le> 2 ^ (31 - t)"
    and s: "s = (if t > bit_length n then 0 else bit_length n - t)"
  shows "acc32 0 (map (\<lambda>e. asr e s) es) = sum_list (map (\<lambda>e. asr e s) es)"
proof (rule acc32_exact)
  let ?nb = "bit_length n"
  have le: "s + (31 - t - s) = 31 - t" using s n t by auto
  show "\<forall>e \<in> set (map (\<lambda>e. asr e s) es). \<bar>e\<bar> \<le> 2 ^ (31 - t - s)"
    using es(2) asr_abs_bound [of _ s "31 - t - s"] unfolding le by simp
  have "int (length (map (\<lambda>e. asr e s) es)) * 2 ^ (31 - t - s) \<le> (2 ^ ?nb - 1) * 2 ^ (31 - t - s)"
    using es(1) count_bound [of n] by (intro mult_right_mono) simp_all
  also have "\<dots> = 2 ^ (?nb + (31 - t - s)) - 2 ^ (31 - t - s)" by (simp add: power_add algebra_simps)
  also have "\<dots> \<le> 2 ^ 31 - 1"
  proof -
    have "?nb + (31 - t - s) \<le> 31" using s n t by auto
    then have "(2::int) ^ (?nb + (31 - t - s)) \<le> 2 ^ 31" by (intro power_increasing) simp_all
    moreover have "(1::int) \<le> 2 ^ (31 - t - s)" by simp
    ultimately show ?thesis by linarith
  qed
  finally show "int (length (map (\<lambda>e. asr e s) es)) * 2 ^ (31 - t - s) \<le> 2147483647" by simp
qed

lemma norm_square:
  assumes "0 < m" "m \<le> (32767::int)"
  shows "\<exists>t \<le> 30. WebRtcSpl_NormW32 (s32 (m * m)) = int t \<and> m * m \<le> 2 ^ (31 - t)"
proof -
  have b: "0 < m * m" "m * m \<le> 32767 * 32767" using assms by (simp, intro mult_mono) simp_all
  then have "s32 (m * m) = m * m" by (intro s32_id) (simp add: is_s32_def)
  moreover obtain t where t: "t \<le> 30" "WebRtcSpl_NormW32 (m * m) = int t" "m * m * 2 ^ t < 2147483648"
    using NormW32_pos [of "m * m"] b by auto
  have "(2147483648::int) = 2 ^ (31 - t) * 2 ^ t" using t(1) by (simp flip: power_add)
  then have "m * m * 2 ^ t < 2 ^ (31 - t) * 2 ^ t" using t(3) by simp
  then have "m * m < 2 ^ (31 - t)" by simp
  ultimately show ?thesis using t(1,2) by (intro exI [of _ t]) simp
qed

lemma square_le: "\<bar>x\<bar> \<le> m \<Longrightarrow> \<bar>y\<bar> \<le> m \<Longrightarrow> \<bar>x * y\<bar> \<le> m * (m::int)"
  unfolding abs_mult by (rule mult_mono) simp_all

lemma GetScalingSquare_eq:
  assumes len: "length v < 2147483648" and v: "\<forall>x \<in> set v. \<bar>x\<bar> \<le> 32767"
  shows "\<exists>t \<le> 31. \<exists>s. WebRtcSpl_GetScalingSquare v (length v) = int s \<and> (\<forall>x \<in> set v. x * x \<le> 2 ^ (31 - t)) \<and>
    (s = (if t > bit_length (length v) then 0 else bit_length (length v) - t) \<or> (s = 0 \<and> (\<forall>x \<in> set v. x = 0)))"
proof -
  let ?m = "scan_value (>) (map (\<lambda>x. if x > 0 then x else s16 (- x)) v) (-1)"
  have ab: "map (\<lambda>x. if x > 0 then x else s16 (- x)) v = map abs v"
    using v by (auto intro!: s16_id [THEN trans] simp: is_s16_def abs_if)
  have nb: "WebRtcSpl_GetSizeInBits (u32 (int (length v))) = int (bit_length (length v))" "bit_length (length v) \<le> 31"
    using GetSizeInBits_eq [OF len] by simp_all
  show ?thesis
  proof (cases "v = []")
    case True
    have "WebRtcSpl_GetScalingSquare [] 0 = 0" by code_simp
    then show ?thesis using True by (intro exI [of _ 0]) auto
  next
    case False
    have m: "?m = Max (abs ` set v)" unfolding ab using False by (subst scan_max_Max) (auto intro: order_trans [of _ 0])
    have le: "\<bar>x\<bar> \<le> ?m" if "x \<in> set v" for x using that unfolding m by simp
    have "?m \<in> abs ` set v" unfolding m using False by (intro Max_in) simp_all
    then have mb: "0 \<le> ?m" "?m \<le> 32767" using v by auto
    show ?thesis
    proof (cases "?m = 0")
      case True
      then have "WebRtcSpl_GetScalingSquare v (length v) = 0"
        by (simp add: WebRtcSpl_GetScalingSquare_def Let_def)
      moreover have "\<forall>x \<in> set v. x = 0" using le True by fastforce
      ultimately show ?thesis by (intro exI [of _ 0]) auto
    next
      case False
      then obtain t where t: "t \<le> 30" "WebRtcSpl_NormW32 (s32 (?m * ?m)) = int t" "?m * ?m \<le> 2 ^ (31 - t)"
        using norm_square [of ?m] mb by auto
      let ?s = "if t > bit_length (length v) then 0 else bit_length (length v) - t"
      have "int ?s \<le> 31" using nb(2) by auto
      then have "s16 (int ?s) = int ?s" by (intro s16_id) (simp add: is_s16_def)
      then have "WebRtcSpl_GetScalingSquare v (length v) = int ?s"
        using False t(2) nb(1) by (auto simp: WebRtcSpl_GetScalingSquare_def Let_def of_nat_diff)
      moreover have "\<forall>x \<in> set v. x * x \<le> 2 ^ (31 - t)"
        using square_le [OF le le] t(3) by (force simp: abs_mult)
      ultimately show ?thesis using t(1) by (intro exI [of _ t]) auto
    qed
  qed
qed

lemma Energy_exact:
  assumes len: "length v < 2147483648" and v: "\<forall>x \<in> set v. \<bar>x\<bar> \<le> 32767"
  shows "\<exists>s. WebRtcSpl_Energy v = (\<Sum>x\<leftarrow>v. x * x div 2 ^ s, int s)"
proof -
  obtain t s where t: "t \<le> 31" "WebRtcSpl_GetScalingSquare v (length v) = int s"
      "\<forall>x \<in> set v. x * x \<le> 2 ^ (31 - t)"
      "s = (if t > bit_length (length v) then 0 else bit_length (length v) - t) \<or> (s = 0 \<and> (\<forall>x \<in> set v. x = 0))"
    using GetScalingSquare_eq [OF assms] by blast
  have en: "WebRtcSpl_Energy v = (acc32 0 (map (\<lambda>e. asr e s) (map (\<lambda>x. x * x) v)), int s)"
    using t(2) by (simp add: WebRtcSpl_Energy_def Let_def comp_def)
  have "acc32 0 (map (\<lambda>e. asr e s) (map (\<lambda>x. x * x) v)) = sum_list (map (\<lambda>e. asr e s) (map (\<lambda>x. x * x) v))"
    using t(4)
  proof
    assume s: "s = (if t > bit_length (length v) then 0 else bit_length (length v) - t)"
    show ?thesis
      using GetSizeInBits_eq [OF len] t(1,3) by (intro scaled_sum_exact [OF _ _ _ _ s]) simp_all
  next
    assume "s = 0 \<and> (\<forall>x \<in> set v. x = 0)"
    then show ?thesis by (intro acc32_exact [of _ 0]) auto
  qed
  then show ?thesis using en by (auto simp: asr_def comp_def)
qed

lemma MaxAbsValueW16C_eq:
  assumes "v \<noteq> []" "\<forall>x \<in> set v. is_s16 x"
  shows "WebRtcSpl_MaxAbsValueW16C v = min 32767 (Max (abs ` set v))"
proof -
  have m: "scan_value (>) (map abs v) 0 = Max (abs ` set v)" using assms(1) by (subst scan_max_Max) simp_all
  have "Max (abs ` set v) \<in> abs ` set v" using assms(1) by (intro Max_in) simp_all
  then have "0 \<le> Max (abs ` set v)" by auto
  then have "s16 (min 32767 (Max (abs ` set v))) = min 32767 (Max (abs ` set v))"
    by (intro s16_id) (simp add: is_s16_def)
  moreover have "(if Max (abs ` set v) > 32767 then 32767 else Max (abs ` set v)) = min 32767 (Max (abs ` set v))"
    by simp
  ultimately show ?thesis by (simp only: WebRtcSpl_MaxAbsValueW16C_def m Let_def)
qed

lemma NormW32_32767: "WebRtcSpl_NormW32 (s32 (32767 * 32767)) = 1"
proof -
  have "s32 (32767 * 32767) = 1073676289" by (simp add: s32_def)
  moreover obtain t where t: "WebRtcSpl_NormW32 1073676289 = int t"
      "1073741824 \<le> 1073676289 * (2::int) ^ t" "1073676289 * (2::int) ^ t < 2147483648"
    using NormW32_pos [of 1073676289] by auto
  have "t \<noteq> 0" using t(2) by (cases t) simp_all
  moreover have "\<not> 2 \<le> t" using t(3) power_increasing [of 2 t "2::int"] by auto
  ultimately show ?thesis using t(1) by simp
qed

text \<open>The scaling of AutoCorrelation; \<open>-32768\<close>, whose magnitude is capped, still leaves room.\<close>

lemma auto_scaling:
  assumes len: "length v < 2147483648" and v: "\<forall>x \<in> set v. is_s16 x" and ne: "v \<noteq> []"
  defines "m \<equiv> WebRtcSpl_MaxAbsValueW16C v"
  assumes m: "m \<noteq> 0"
  shows "\<exists>t \<le> 31. WebRtcSpl_NormW32 (s32 (m * m)) = int t \<and> (\<forall>x \<in> set v. \<forall>y \<in> set v. \<bar>x * y\<bar> \<le> 2 ^ (31 - t))"
proof -
  have meq: "m = min 32767 (Max (abs ` set v))" unfolding m_def by (rule MaxAbsValueW16C_eq [OF ne v])
  have le: "\<bar>x\<bar> \<le> Max (abs ` set v)" if "x \<in> set v" for x using that by simp
  show ?thesis
  proof (cases "Max (abs ` set v) \<le> 32767")
    case True
    then have le': "\<bar>x\<bar> \<le> m" if "x \<in> set v" for x using le [OF that] meq by simp
    obtain x where "x \<in> set v" using ne by (cases v) auto
    then have "0 < m" using le' [of x] abs_ge_zero [of x] m by linarith
    moreover have "m \<le> 32767" using meq by simp
    ultimately obtain t where t: "t \<le> 30" "WebRtcSpl_NormW32 (s32 (m * m)) = int t" "m * m \<le> 2 ^ (31 - t)"
      using norm_square by blast
    have "\<bar>x * y\<bar> \<le> 2 ^ (31 - t)" if "x \<in> set v" "y \<in> set v" for x y
      using square_le [OF le' le', OF that] t(3) by linarith
    then show ?thesis using t(1,2) by (intro exI [of _ t]) simp
  next
    case False
    then have "m = 32767" using meq by simp
    then have "WebRtcSpl_NormW32 (s32 (m * m)) = int 1" using NormW32_32767 by simp
    moreover have "\<bar>x * y\<bar> \<le> 2 ^ (31 - 1)" if "x \<in> set v" "y \<in> set v" for x y
    proof -
      have "\<bar>x\<bar> \<le> 32768" "\<bar>y\<bar> \<le> 32768" using v that by (auto simp: is_s16_def)
      then have "\<bar>x * y\<bar> \<le> 32768 * 32768" by (rule square_le)
      then show ?thesis by simp
    qed
    ultimately show ?thesis by (intro exI [of _ 1]) simp
  qed
qed

lemma corr_lag_exact:
  assumes i: "i \<le> length v" and nb: "bit_length (length v) \<le> 31" and t: "t \<le> 31"
    and b: "\<forall>x \<in> set v. \<forall>y \<in> set v. \<bar>x * y\<bar> \<le> 2 ^ (31 - t)"
    and s: "s = (if t > bit_length (length v) then 0 else bit_length (length v) - t)"
  shows "corr_lag v s i = Some (\<Sum>j\<leftarrow>[0..<length v - i]. v ! j * v ! (i + j) div 2 ^ s)"
proof -
  let ?es = "map (\<lambda>j. v ! j * v ! (i + j)) [0..<length v - i]"
  have "\<forall>e \<in> set ?es. \<bar>e\<bar> \<le> 2 ^ (31 - t)" using b by auto
  then have "acc32 0 (map (\<lambda>e. asr e s) ?es) = sum_list (map (\<lambda>e. asr e s) ?es)"
    by (intro scaled_sum_exact [OF nb t _ _ s]) simp_all
  then show ?thesis using corr_lag_ok [OF i] by (simp add: comp_def asr_def)
qed

section \<open>Properties\<close>

text \<open>C36: AutoCorrelation, for 16-bit samples (the extreme value included) and fewer than \<open>2^31\<close> of
  them, picks a scaling under which none of its sums can overflow, reads only inside the vector, and
  its loop unrolled by four returns for every lag the sum of the scaled products.\<close>

theorem AutoCorrelation_correct:
  assumes "v \<noteq> []" "length v < 2147483648" "\<forall>x \<in> set v. is_s16 x" "ord \<le> length v"
  shows "\<exists>s. WebRtcSpl_AutoCorrelation v ord =
    Some (ord + 1, map (\<lambda>i. \<Sum>j\<leftarrow>[0..<length v - i]. v ! j * v ! (i + j) div 2 ^ s) [0..<ord + 1], int s)"
proof -
  let ?m = "WebRtcSpl_MaxAbsValueW16C v"
  have nb: "WebRtcSpl_GetSizeInBits (u32 (int (length v))) = int (bit_length (length v))"
      "bit_length (length v) \<le> 31"
    using GetSizeInBits_eq [OF assms(2)] by simp_all
  obtain t s where ts: "t \<le> 31" "\<forall>x \<in> set v. \<forall>y \<in> set v. \<bar>x * y\<bar> \<le> 2 ^ (31 - t)"
      "s = (if t > bit_length (length v) then 0 else bit_length (length v) - t)"
      "(if ?m = 0 then 0 else if WebRtcSpl_NormW32 (s32 (?m * ?m)) > int (bit_length (length v)) then 0
        else int (bit_length (length v)) - WebRtcSpl_NormW32 (s32 (?m * ?m))) = int s"
  proof (cases "?m = 0")
    case True
    then have "Max (abs ` set v) = 0" using MaxAbsValueW16C_eq [OF assms(1,3)] by (simp add: min_def split: if_splits)
    then have "\<bar>x\<bar> \<le> 0" if "x \<in> set v" for x using that Max_ge [of "abs ` set v" "\<bar>x\<bar>"] by simp
    then have "\<forall>x \<in> set v. \<forall>y \<in> set v. \<bar>x * y\<bar> \<le> 2 ^ (31 - 31)" by fastforce
    then show thesis using True nb(2) by (intro that [of 31 0]) auto
  next
    case False
    obtain t where "t \<le> 31" "WebRtcSpl_NormW32 (s32 (?m * ?m)) = int t"
        "\<forall>x \<in> set v. \<forall>y \<in> set v. \<bar>x * y\<bar> \<le> 2 ^ (31 - t)"
      using auto_scaling [OF assms(2,3,1) False] by blast
    then show thesis using that [of t] False by (auto simp: of_nat_diff)
  qed
  have "map (corr_lag v s) [0..<ord + 1] =
      map (\<lambda>i. Some (\<Sum>j\<leftarrow>[0..<length v - i]. v ! j * v ! (i + j) div 2 ^ s)) [0..<ord + 1]"
    using assms(4) by (intro map_cong refl corr_lag_exact [OF _ nb(2) ts(1-3)]) auto
  then have "those (map (corr_lag v s) [0..<ord + 1]) =
      Some (map (\<lambda>i. \<Sum>j\<leftarrow>[0..<length v - i]. v ! j * v ! (i + j) div 2 ^ s) [0..<ord + 1])"
    by (simp only: those_Some)
  then show ?thesis unfolding WebRtcSpl_AutoCorrelation_def Let_def nb(1) ts(4)
    by (intro exI [of _ s]) simp
qed

theorem AutoCorrelation_correct_witness:
  "\<exists>s. WebRtcSpl_AutoCorrelation [-32768, 5, -32768, 7, 9] 2 =
    Some (2 + 1, map (\<lambda>i. \<Sum>j\<leftarrow>[0..<length [-32768, 5, -32768, 7, 9::int] - i].
      [-32768, 5, -32768, 7, 9] ! j * [-32768, 5, -32768, 7, 9] ! (i + j) div 2 ^ s) [0..<2 + 1], int s)"
  by (rule AutoCorrelation_correct) (simp_all add: is_s16_def)

text \<open>C37: Energy, for samples other than \<open>-32768\<close> and fewer than \<open>2^31\<close> of them, is the sum of the
  squares each scaled down by the reported shift: the shift is large enough that no addition
  overflows.\<close>

theorem Energy_correct:
  assumes "length v < 2147483648" "\<forall>x \<in> set v. is_s16 x \<and> x \<noteq> -32768"
  shows "\<exists>s. WebRtcSpl_Energy v = (\<Sum>x\<leftarrow>v. x * x div 2 ^ s, int s)"
  using assms by (intro Energy_exact) (auto simp: is_s16_def)

theorem Energy_correct_witness:
  "\<exists>s. WebRtcSpl_Energy [32767, -32767, 3] = (\<Sum>x\<leftarrow>[32767, -32767, 3]. x * x div 2 ^ s, int s)"
  by (rule Energy_correct) (simp_all add: is_s16_def)

text \<open>With \<open>-32768\<close> among the samples GetScalingSquare goes wrong (the negated sample does not fit
  16 bits and is passed over), so that the energy of four such samples is computed without scaling
  and wraps to 0.\<close>

theorem Energy_wraps:
  "WebRtcSpl_Energy [-32768, -32768, -32768, -32768] = (0, 0) \<and>
   (\<Sum>x\<leftarrow>[-32768, -32768, -32768, -32768]. x * x) = (4294967296::int)"
  by code_simp

lemma MaxAbsElementW16_ok:
  assumes "v \<noteq> []" "\<forall>x \<in> set v. is_s16 x"
  shows "WebRtcSpl_MaxAbsElementW16 v \<in> set v \<and> (\<forall>x \<in> set v. \<bar>x\<bar> \<le> \<bar>WebRtcSpl_MaxAbsElementW16 v\<bar>)"
proof -
  have mm: "WebRtcSpl_MinMaxW16 v = (Min (set v), Max (set v))"
    using scan_max_Max [of v "-32768"] scan_min_Min [of v 32767] assms by (auto simp: MinMaxW16_eq is_s16_def)
  have "Min (set v) \<in> set v" "Max (set v) \<in> set v" using assms(1) by simp_all
  moreover have "Min (set v) \<le> x" "x \<le> Max (set v)" if "x \<in> set v" for x using that by simp_all
  moreover have "lo \<le> x \<Longrightarrow> x \<le> hi \<Longrightarrow> \<bar>x\<bar> \<le> \<bar>if lo = hi \<or> lo < - hi then lo else hi\<bar>" for lo hi x :: int
    by (auto simp: abs_if)
  ultimately show ?thesis unfolding WebRtcSpl_MaxAbsElementW16_def mm Let_def split_conv by simp
qed

lemma MaxAbsValueW32C_eq:
  assumes "w \<noteq> []" "\<forall>x \<in> set w. is_s32 x"
  shows "WebRtcSpl_MaxAbsValueW32C w = min 2147483647 (Max (abs ` set w))"
proof -
  have "u32 (s32 \<bar>x\<bar>) = \<bar>x\<bar>" if "is_s32 x" for x
  proof -
    have "u32 (s32 \<bar>x\<bar>) = u32 \<bar>x\<bar>" by (simp add: u32_def s32_def mod_simps)
    also have "is_u32 \<bar>x\<bar>" using that unfolding is_u32_def is_s32_def by linarith
    then have "u32 \<bar>x\<bar> = \<bar>x\<bar>" by (rule u32_id)
    finally show ?thesis .
  qed
  then have ab: "map (\<lambda>x. u32 (s32 \<bar>x\<bar>)) w = map abs w" using assms(2) by simp
  have m: "scan_value (>) (map abs w) 0 = Max (abs ` set w)" using assms(1) by (subst scan_max_Max) simp_all
  have "Max (abs ` set w) \<in> abs ` set w" using assms(1) by (intro Max_in) simp_all
  then have "0 \<le> Max (abs ` set w)" by auto
  then have "s32 (min 2147483647 (Max (abs ` set w))) = min 2147483647 (Max (abs ` set w))"
    by (intro s32_id) (simp add: is_s32_def)
  moreover have "(if Max (abs ` set w) < 2147483647 then Max (abs ` set w) else 2147483647) =
      min 2147483647 (Max (abs ` set w))" by simp
  ultimately show ?thesis by (simp only: WebRtcSpl_MaxAbsValueW32C_def ab m Let_def)
qed

text \<open>C38: The value scans return the extreme value of a non-empty vector of samples of their width,
  the absolute ones capped to the largest value of the type; MaxAbsElementW16 returns an element of
  largest magnitude.\<close>

theorem MinMax_values_correct:
  assumes "v \<noteq> []" "\<forall>x \<in> set v. is_s16 x" "w \<noteq> []" "\<forall>x \<in> set w. is_s32 x"
  shows "WebRtcSpl_MaxValueW16C v = Max (set v) \<and> WebRtcSpl_MinValueW16C v = Min (set v) \<and>
    WebRtcSpl_MinMaxW16 v = (Min (set v), Max (set v)) \<and>
    WebRtcSpl_MaxAbsValueW16C v = min 32767 (Max (abs ` set v)) \<and>
    WebRtcSpl_MaxAbsElementW16 v \<in> set v \<and> (\<forall>x \<in> set v. \<bar>x\<bar> \<le> \<bar>WebRtcSpl_MaxAbsElementW16 v\<bar>) \<and>
    WebRtcSpl_MaxValueW32C w = Max (set w) \<and> WebRtcSpl_MinValueW32C w = Min (set w) \<and>
    WebRtcSpl_MaxAbsValueW32C w = min 2147483647 (Max (abs ` set w))"
proof (intro conjI)
  show "WebRtcSpl_MaxValueW16C v = Max (set v)" "WebRtcSpl_MinValueW16C v = Min (set v)"
    "WebRtcSpl_MinMaxW16 v = (Min (set v), Max (set v))"
    using scan_max_Max [of v "-32768"] scan_min_Min [of v 32767] assms(1,2)
    by (simp_all add: WebRtcSpl_MaxValueW16C_def WebRtcSpl_MinValueW16C_def MinMaxW16_eq is_s16_def)
  show "WebRtcSpl_MaxValueW32C w = Max (set w)" "WebRtcSpl_MinValueW32C w = Min (set w)"
    using scan_max_Max [of w "-2147483648"] scan_min_Min [of w 2147483647] assms(3,4)
    by (simp_all add: WebRtcSpl_MaxValueW32C_def WebRtcSpl_MinValueW32C_def is_s32_def)
qed (use MaxAbsElementW16_ok [OF assms(1,2)] MaxAbsValueW16C_eq [OF assms(1,2)]
    MaxAbsValueW32C_eq [OF assms(3,4)] in simp_all)

theorem MinMax_values_correct_witness:
  "let v = [3, -7]; w = [-2147483648, 9] in
    WebRtcSpl_MaxValueW16C v = Max (set v) \<and> WebRtcSpl_MinValueW16C v = Min (set v) \<and>
    WebRtcSpl_MinMaxW16 v = (Min (set v), Max (set v)) \<and>
    WebRtcSpl_MaxAbsValueW16C v = min 32767 (Max (abs ` set v)) \<and>
    WebRtcSpl_MaxAbsElementW16 v \<in> set v \<and> (\<forall>x \<in> set v. \<bar>x\<bar> \<le> \<bar>WebRtcSpl_MaxAbsElementW16 v\<bar>) \<and>
    WebRtcSpl_MaxValueW32C w = Max (set w) \<and> WebRtcSpl_MinValueW32C w = Min (set w) \<and>
    WebRtcSpl_MaxAbsValueW32C w = min 2147483647 (Max (abs ` set w))"
  unfolding Let_def by (rule MinMax_values_correct) (simp_all add: is_s16_def is_s32_def)

text \<open>Each index scan returns the position of the first extreme element of a non-empty vector,
  even when every element equals the value the scan starts from.\<close>

theorem MinMax_index_correct:
  assumes "v \<noteq> []" "\<forall>x \<in> set v. is_s16 x" "w \<noteq> []" "\<forall>x \<in> set w. is_s32 x"
  shows "first_best id v (WebRtcSpl_MaxIndexW16 v) \<and> first_best uminus v (WebRtcSpl_MinIndexW16 v) \<and>
    first_best id w (WebRtcSpl_MaxIndexW32 w) \<and> first_best uminus w (WebRtcSpl_MinIndexW32 w) \<and>
    first_best id (map abs v) (WebRtcSpl_MaxAbsIndexW16 v)"
  unfolding WebRtcSpl_MaxIndexW16_def WebRtcSpl_MinIndexW16_def WebRtcSpl_MaxIndexW32_def
    WebRtcSpl_MinIndexW32_def WebRtcSpl_MaxAbsIndexW16_def
  using assms by (intro conjI scan_index_first) (auto simp: is_s16_def is_s32_def)

lemma vec_put_nat: "i < length v \<Longrightarrow> vec_put v (int i) x = Some (v[i := x])"
  by (simp add: vec_put_def)

lemma MemSet_ok:
  assumes "ptr + n \<le> length b"
  shows "fold (\<lambda>j st. do { b \<leftarrow> st; vec_put b (int (ptr + j)) x }) [0..<n] (Some b) = memset b ptr x n"
  using assms
proof (induction n)
  case 0
  then show ?case by (simp add: memset_def)
next
  case (Suc n)
  let ?c = "take ptr b @ replicate n x @ drop (ptr + n) b"
  have "drop (ptr + n) b = b ! (ptr + n) # drop (ptr + Suc n) b"
    using Suc.prems by (simp add: Cons_nth_drop_Suc)
  then have "?c[ptr + n := x] = take ptr b @ replicate n x @ x # drop (ptr + Suc n) b"
    using Suc.prems by (simp add: list_update_append)
  also have "\<dots> = take ptr b @ replicate (Suc n) x @ drop (ptr + Suc n) b"
    by (simp add: replicate_app_Cons_same)
  finally have "vec_put ?c (int (ptr + n)) x = memset b ptr x (Suc n)"
    using Suc.prems vec_put_nat [of "ptr + n" ?c x] by (simp add: memset_def)
  then show ?case using Suc by (simp add: memset_def)
qed

lemma MemCpyReversedOrder_ok:
  assumes "n \<le> Suc d" "d < length b" "s + n \<le> length src"
  shows "WebRtcSpl_MemCpyReversedOrder b (int d) src (int s) n =
    Some (take (Suc d - n) b @ rev (take n (drop s src)) @ drop (Suc d) b)"
  using assms
proof (induction n)
  case 0
  then show ?case by (simp add: WebRtcSpl_MemCpyReversedOrder_def)
next
  case (Suc n)
  let ?c = "take (Suc d - n) b @ rev (take n (drop s src)) @ drop (Suc d) b"
  have IH: "WebRtcSpl_MemCpyReversedOrder b (int d) src (int s) n = Some ?c" using Suc by simp
  have x: "vec_at src (int s + int n) = Some (src ! (s + n))"
    using Suc.prems vec_at_nth [of "s + n" src] by simp
  have le: "n \<le> d" "Suc d - n = Suc (d - n)" using Suc.prems by simp_all
  have pos: "int d - int n = int (d - n)" using le by simp
  have t: "take (Suc d - n) b = take (d - n) b @ [b ! (d - n)]"
    using Suc.prems le by (simp add: take_Suc_conv_app_nth)
  have "length ?c = length b" using Suc.prems by simp
  then have "vec_put ?c (int d - int n) (src ! (s + n)) = Some (?c[d - n := src ! (s + n)])"
    unfolding pos using Suc.prems vec_put_nat [of "d - n" ?c] by simp
  also have "?c[d - n := src ! (s + n)] =
      take (d - n) b @ src ! (s + n) # rev (take n (drop s src)) @ drop (Suc d) b"
    unfolding t using Suc.prems by (simp add: list_update_append)
  also have "\<dots> = take (Suc d - Suc n) b @ rev (take (Suc n) (drop s src)) @ drop (Suc d) b"
    using Suc.prems by (simp add: take_Suc_conv_app_nth)
  finally show ?case using IH x by (simp add: WebRtcSpl_MemCpyReversedOrder_def)
qed

text \<open>The copy and set routines, given room, change exactly their target: MemSetW16/W32 and the
  ZerosArray routines fill it, MemCpyReversedOrder fills it backwards from the destination with the
  source reversed, CopyFromEndW16 copies the last samples.\<close>

theorem copy_set_correct:
  assumes "ptr + n \<le> length b" "m \<le> Suc d" "d < length b" "s + m \<le> length src"
    "k \<le> length src" "k \<le> length b" "length src < 4294967296"
  shows "WebRtcSpl_MemSetW16 b ptr x n = Some (take ptr b @ replicate n x @ drop (ptr + n) b) \<and>
    WebRtcSpl_ZerosArrayW16 b ptr n = Some (take ptr b @ replicate n 0 @ drop (ptr + n) b) \<and>
    WebRtcSpl_MemSetW32 b ptr x n = WebRtcSpl_MemSetW16 b ptr x n \<and>
    WebRtcSpl_MemCpyReversedOrder b (int d) src (int s) m =
      Some (take (Suc d - m) b @ rev (take m (drop s src)) @ drop (Suc d) b) \<and>
    WebRtcSpl_CopyFromEndW16 src (length src) k b = Some (drop (length src - k) src @ drop k b)"
proof -
  have "sz_sub (length src) k = length src - k"
    using assms(5,7) size_range_gt [of "length src"] by (simp add: sz_sub_id)
  then have "WebRtcSpl_CopyFromEndW16 src (length src) k b = Some (drop (length src - k) src @ drop k b)"
    using assms(5,6) by (simp add: WebRtcSpl_CopyFromEndW16_def memcpy_def)
  then show ?thesis
    using MemSet_ok [OF assms(1)] MemCpyReversedOrder_ok [OF assms(2-4)] assms(1)
    by (simp add: WebRtcSpl_MemSetW16_def WebRtcSpl_MemSetW32_def WebRtcSpl_ZerosArrayW16_def memset_def)
qed

end
