(* ===== verification/Resample.thy ===== *)
theory Resample
  imports Spl_Vector
begin

text \<open>
  The fixed-point resamplers: the allpass-based steps by two of \<^verbatim>\<open>resample_by_2_internal.c\<close>, the
  fractional steps of \<^verbatim>\<open>resample_fractional.c\<close> and of \<^verbatim>\<open>resample.c\<close>, and for each step a function on
  lists of samples that it is proved to compute.

  The scratch block \<open>tmpmem\<close> of the resamplers is one list of 32-bit values that the steps update in
  place: input and output of a step are offsets into it, and may overlap.  A read or write outside
  a block is \<open>None\<close>.  Every assignment to an \<^verbatim>\<open>int32_t\<close> that can leave the type wraps through \<open>s32\<close>, as
  the functions marked with \<^verbatim>\<open>RTC_NO_SANITIZE\<close> rely on.
\<close>

section \<open>The allpass section\<close>

definition kResampleAllpass :: "int list list" where
  "kResampleAllpass = [[821, 6110, 12382], [3050, 9368, 15063]]"

text \<open>Scale down by 14 bits and truncate towards zero (the negative values by the added 1).\<close>

definition trunc14 :: "int \<Rightarrow> int" where
  "trunc14 d = (let diff = asr d 14 in if diff < 0 then s32 (diff + 1) else diff)"

text \<open>
  The loop body shared by all the filters: one input sample \<open>tmp0\<close> through the cascade whose state is
  at \<open>k\<close> to \<open>k + 3\<close>; its output is the new \<open>state[k + 3]\<close>.
\<close>

definition allpass :: "nat \<Rightarrow> nat \<Rightarrow> int \<Rightarrow> int list \<Rightarrow> int list" where
  "allpass row k tmp0 state =
     (let c = kResampleAllpass ! row;
          diff0 = asr (s32 (s32 (tmp0 - state ! (k + 1)) + 8192)) 14;
          tmp1 = s32 (state ! k + s32 (diff0 * c ! 0));
          diff1 = trunc14 (s32 (tmp1 - state ! (k + 2)));
          tmp0' = s32 (state ! (k + 1) + s32 (diff1 * c ! 1));
          diff2 = trunc14 (s32 (tmp0' - state ! (k + 3)));
          s3 = s32 (state ! (k + 2) + s32 (diff2 * c ! 2))
      in state[k := tmp0, k + 1 := tmp1, k + 2 := tmp0', k + 3 := s3])"

text \<open>
  One of the \<open>for\<close> loops over \<open>n\<close> samples: \<open>get_in i\<close> is the input of round \<open>i\<close> in the current memory,
  \<open>put_out i y\<close> puts away the output.
\<close>

primrec ap_loop ::
    "nat \<Rightarrow> nat \<Rightarrow> nat \<Rightarrow> (nat \<Rightarrow> 'm \<Rightarrow> int option) \<Rightarrow> (nat \<Rightarrow> int \<Rightarrow> 'm \<Rightarrow> 'm option) \<Rightarrow>
     'm \<times> int list \<Rightarrow> ('m \<times> int list) option" where
  "ap_loop 0 row k get_in put_out ms = Some ms"
| "ap_loop (Suc i) row k get_in put_out ms = do {
     (mem, st) \<leftarrow> ap_loop i row k get_in put_out ms;
     x \<leftarrow> get_in i mem;
     let st' = allpass row k x st;
     mem' \<leftarrow> put_out i (st' ! (k + 3)) mem;
     Some (mem', st')
   }"

definition rd :: "int list \<Rightarrow> nat \<Rightarrow> int option" where
  "rd mem i = vec_at mem (int i)"

definition wr :: "int list \<Rightarrow> nat \<Rightarrow> int \<Rightarrow> int list option" where
  "wr mem i x = vec_put mem (int i) x"

text \<open>A 16-bit sample shifted 15 positions to the left, with the rounding offset.\<close>

definition in15 :: "int \<Rightarrow> int" where
  "in15 x = s32 (s32 (x * 32768) + 16384)"

definition clip16 :: "int \<Rightarrow> int" where
  "clip16 x = (let x1 = (if x > 32767 then 32767 else x) in s16 (if x1 < -32768 then -32768 else x1))"

section \<open>Steps by two\<close>

function combine_loop :: "int list \<Rightarrow> nat \<Rightarrow> nat \<Rightarrow> nat \<Rightarrow> int list \<Rightarrow> int list option" where
  "combine_loop mem inp len i out =
     (if i < len then do {
        a \<leftarrow> rd mem (inp + 2 * i);
        b \<leftarrow> rd mem (inp + 2 * i + 1);
        c \<leftarrow> rd mem (inp + 2 * i + 2);
        d \<leftarrow> rd mem (inp + 2 * i + 3);
        out1 \<leftarrow> wr out i (clip16 (asr (s32 (a + b)) 15));
        out2 \<leftarrow> wr out1 (i + 1) (clip16 (asr (s32 (c + d)) 15));
        combine_loop mem inp len (i + 2) out2
      } else Some out)"
  by pat_completeness auto
termination
  by (relation "measure (\<lambda>(mem, inp, len, i, out). len - i)") auto

declare combine_loop.simps [simp del]

definition WebRtcSpl_DownBy2IntToShort ::
    "int list \<Rightarrow> nat \<Rightarrow> nat \<Rightarrow> int list \<Rightarrow> int list \<Rightarrow> (int list \<times> int list \<times> int list) option" where
  "WebRtcSpl_DownBy2IntToShort mem inp len0 out state = do {
     let len = len0 div 2;
     (mem1, st1) \<leftarrow> ap_loop len 1 0 (\<lambda>i m. rd m (inp + 2 * i))
                       (\<lambda>i y m. wr m (inp + 2 * i) (asr y 1)) (mem, state);
     (mem2, st2) \<leftarrow> ap_loop len 0 4 (\<lambda>i m. rd m (inp + 1 + 2 * i))
                       (\<lambda>i y m. wr m (inp + 1 + 2 * i) (asr y 1)) (mem1, st1);
     out' \<leftarrow> combine_loop mem2 inp len 0 out;
     Some (mem2, out', st2)
   }"

definition WebRtcSpl_DownBy2ShortToInt ::
    "int list \<Rightarrow> nat \<Rightarrow> int list \<Rightarrow> nat \<Rightarrow> int list \<Rightarrow> (int list \<times> int list) option" where
  "WebRtcSpl_DownBy2ShortToInt inp len0 mem out state = do {
     let len = len0 div 2;
     ms1 \<leftarrow> ap_loop len 1 0 (\<lambda>i m. map_option in15 (rd inp (2 * i)))
               (\<lambda>i y m. wr m (out + i) (asr y 1)) (mem, state);
     ap_loop len 0 4 (\<lambda>i m. map_option in15 (rd inp (1 + 2 * i)))
       (\<lambda>i y m. do { o1 \<leftarrow> rd m (out + i); wr m (out + i) (s32 (o1 + asr y 1)) }) ms1
   }"

definition WebRtcSpl_UpBy2ShortToInt ::
    "int list \<Rightarrow> nat \<Rightarrow> int list \<Rightarrow> nat \<Rightarrow> int list \<Rightarrow> (int list \<times> int list) option" where
  "WebRtcSpl_UpBy2ShortToInt inp len mem out state = do {
     ms1 \<leftarrow> ap_loop len 0 4 (\<lambda>i m. map_option in15 (rd inp i))
               (\<lambda>i y m. wr m (out + 2 * i) (asr y 15)) (mem, state);
     ap_loop len 1 0 (\<lambda>i m. map_option in15 (rd inp i))
       (\<lambda>i y m. wr m (out + 1 + 2 * i) (asr y 15)) ms1
   }"

definition WebRtcSpl_UpBy2IntToInt ::
    "int list \<Rightarrow> nat \<Rightarrow> nat \<Rightarrow> nat \<Rightarrow> int list \<Rightarrow> (int list \<times> int list) option" where
  "WebRtcSpl_UpBy2IntToInt mem inp len out state = do {
     ms1 \<leftarrow> ap_loop len 0 4 (\<lambda>i m. rd m (inp + i))
               (\<lambda>i y m. wr m (out + 2 * i) y) (mem, state);
     ap_loop len 1 0 (\<lambda>i m. rd m (inp + i)) (\<lambda>i y m. wr m (out + 1 + 2 * i) y) ms1
   }"

definition WebRtcSpl_UpBy2IntToShort ::
    "int list \<Rightarrow> nat \<Rightarrow> nat \<Rightarrow> int list \<Rightarrow> int list \<Rightarrow> (int list \<times> int list) option" where
  "WebRtcSpl_UpBy2IntToShort mem inp len out state = do {
     ms1 \<leftarrow> ap_loop len 0 4 (\<lambda>i o'. rd mem (inp + i))
               (\<lambda>i y o'. wr o' (2 * i) (clip16 (asr y 15))) (out, state);
     ap_loop len 1 0 (\<lambda>i o'. rd mem (inp + i))
       (\<lambda>i y o'. wr o' (1 + 2 * i) (clip16 (asr y 15))) ms1
   }"

text \<open>
  The first loop of the lowpass filters runs one odd sample behind: \<open>tmp0\<close> starts as \<open>state[12]\<close>, the
  last odd sample of the previous block, and the sample read at the end of a round is used in the
  next one.
\<close>

primrec delay_loop ::
    "nat \<Rightarrow> (nat \<Rightarrow> int list \<Rightarrow> int option) \<Rightarrow> (nat \<Rightarrow> int \<Rightarrow> int list \<Rightarrow> int list option) \<Rightarrow>
     int list \<times> int list \<times> int \<Rightarrow> (int list \<times> int list \<times> int) option" where
  "delay_loop 0 get_in put_out mst = Some mst"
| "delay_loop (Suc i) get_in put_out mst = do {
     (mem, st, tmp0) \<leftarrow> delay_loop i get_in put_out mst;
     let st' = allpass 1 0 tmp0 st;
     mem' \<leftarrow> put_out i (st' ! 3) mem;
     tmp0' \<leftarrow> get_in i mem';
     Some (mem', st', tmp0')
   }"

text \<open>The three further loops of the lowpass filters, for an input read by \<open>get_in\<close>.\<close>

definition lp_loops ::
    "(nat \<Rightarrow> int list \<Rightarrow> int option) \<Rightarrow> nat \<Rightarrow> int list \<Rightarrow> nat \<Rightarrow> int list \<Rightarrow> (int list \<times> int list) option" where
  "lp_loops get_in len mem out state = do {
     (mem1, st1, _) \<leftarrow> delay_loop len (\<lambda>i m. get_in (1 + 2 * i) m)
                          (\<lambda>i y m. wr m (out + 2 * i) (asr y 1)) (mem, state, state ! 12);
     ms2 \<leftarrow> ap_loop len 0 4 (\<lambda>i m. get_in (2 * i) m)
               (\<lambda>i y m. do { o1 \<leftarrow> rd m (out + 2 * i);
                             wr m (out + 2 * i) (asr (s32 (o1 + asr y 1)) 15) }) (mem1, st1);
     ms3 \<leftarrow> ap_loop len 1 8 (\<lambda>i m. get_in (2 * i) m)
               (\<lambda>i y m. wr m (out + 1 + 2 * i) (asr y 1)) ms2;
     ap_loop len 0 12 (\<lambda>i m. get_in (1 + 2 * i) m)
       (\<lambda>i y m. do { o1 \<leftarrow> rd m (out + 1 + 2 * i);
                     wr m (out + 1 + 2 * i) (asr (s32 (o1 + asr y 1)) 15) }) ms3
   }"

definition WebRtcSpl_LPBy2ShortToInt ::
    "int list \<Rightarrow> nat \<Rightarrow> int list \<Rightarrow> nat \<Rightarrow> int list \<Rightarrow> (int list \<times> int list) option" where
  "WebRtcSpl_LPBy2ShortToInt inp len0 mem out state =
     lp_loops (\<lambda>i m. map_option in15 (rd inp i)) (len0 div 2) mem out state"

definition WebRtcSpl_LPBy2IntToInt ::
    "int list \<Rightarrow> nat \<Rightarrow> nat \<Rightarrow> nat \<Rightarrow> int list \<Rightarrow> (int list \<times> int list) option" where
  "WebRtcSpl_LPBy2IntToInt mem inp len0 out state =
     lp_loops (\<lambda>i m. rd m (inp + i)) (len0 div 2) mem out state"

section \<open>Fractional steps\<close>

definition kCoefficients48To32 :: "int list list" where
  "kCoefficients48To32 =
    [[778, -2050, 1087, 23285, 12903, -3783, 441, 222],
     [222, 441, -3783, 12903, 23285, 1087, -2050, 778]]"

definition kCoefficients32To24 :: "int list list" where
  "kCoefficients32To24 =
    [[767, -2362, 2434, 24406, 10620, -3838, 721, 90],
     [386, -381, -2646, 19062, 19062, -2646, -381, 386],
     [90, 721, -3838, 10620, 24406, 2434, -2362, 767]]"

definition kCoefficients44To32 :: "int list list" where
  "kCoefficients44To32 =
    [[117, -669, 2245, -6183, 26267, 13529, -3245, 845, -138],
     [-101, 612, -2283, 8532, 29790, -5138, 1789, -524, 91],
     [50, -292, 1016, -3064, 32010, 3933, -1147, 315, -53],
     [-156, 974, -3863, 18603, 21691, -6246, 2353, -712, 126]]"

text \<open>\<open>tmp = 1 << 14; tmp += c[0] * In[0]; ...\<close> with the samples at the positions \<open>p j\<close>.\<close>

definition frac_dot :: "int list \<Rightarrow> int list \<Rightarrow> (nat \<Rightarrow> nat) \<Rightarrow> int option" where
  "frac_dot c mem p =
     fold (\<lambda>j st. do { tmp \<leftarrow> st; x \<leftarrow> rd mem (p j); Some (s32 (tmp + s32 (c ! j * x))) })
       [0..<length c] (Some 16384)"

text \<open>The loop bodies, with the current input and output pointers; then the loops.\<close>

definition round48To32 :: "int list \<Rightarrow> nat \<Rightarrow> nat \<Rightarrow> int list option" where
  "round48To32 mem ip op = do {
     t0 \<leftarrow> frac_dot (kCoefficients48To32 ! 0) mem (\<lambda>j. ip + j);
     mem1 \<leftarrow> wr mem op t0;
     t1 \<leftarrow> frac_dot (kCoefficients48To32 ! 1) mem1 (\<lambda>j. ip + 1 + j);
     wr mem1 (op + 1) t1
   }"

primrec WebRtcSpl_Resample48khzTo32khz :: "nat \<Rightarrow> int list \<Rightarrow> nat \<Rightarrow> nat \<Rightarrow> int list option" where
  "WebRtcSpl_Resample48khzTo32khz 0 mem inp out = Some mem"
| "WebRtcSpl_Resample48khzTo32khz (Suc m) mem inp out = do {
     mem0 \<leftarrow> WebRtcSpl_Resample48khzTo32khz m mem inp out;
     round48To32 mem0 (inp + 3 * m) (out + 2 * m)
   }"

definition round32To24 :: "int list \<Rightarrow> nat \<Rightarrow> nat \<Rightarrow> int list option" where
  "round32To24 mem ip op = do {
     t0 \<leftarrow> frac_dot (kCoefficients32To24 ! 0) mem (\<lambda>j. ip + j);
     mem1 \<leftarrow> wr mem op t0;
     t1 \<leftarrow> frac_dot (kCoefficients32To24 ! 1) mem1 (\<lambda>j. ip + 1 + j);
     mem2 \<leftarrow> wr mem1 (op + 1) t1;
     t2 \<leftarrow> frac_dot (kCoefficients32To24 ! 2) mem2 (\<lambda>j. ip + 2 + j);
     wr mem2 (op + 2) t2
   }"

primrec WebRtcSpl_Resample32khzTo24khz :: "nat \<Rightarrow> int list \<Rightarrow> nat \<Rightarrow> nat \<Rightarrow> int list option" where
  "WebRtcSpl_Resample32khzTo24khz 0 mem inp out = Some mem"
| "WebRtcSpl_Resample32khzTo24khz (Suc m) mem inp out = do {
     mem0 \<leftarrow> WebRtcSpl_Resample32khzTo24khz m mem inp out;
     round32To24 mem0 (inp + 4 * m) (out + 3 * m)
   }"

text \<open>\<open>in1\<close> is read forwards, \<open>in2\<close> backwards.\<close>

definition WebRtcSpl_ResampDotProduct ::
    "int list \<Rightarrow> nat \<Rightarrow> nat \<Rightarrow> int list \<Rightarrow> nat \<Rightarrow> nat \<Rightarrow> int list option" where
  "WebRtcSpl_ResampDotProduct mem in1 in2 coef out1 out2 = do {
     t1 \<leftarrow> frac_dot coef mem (\<lambda>j. in1 + j);
     t2 \<leftarrow> frac_dot coef mem (\<lambda>j. in2 - j);
     mem1 \<leftarrow> wr mem out1 t1;
     wr mem1 out2 t2
   }"

definition round44To32 :: "int list \<Rightarrow> nat \<Rightarrow> nat \<Rightarrow> int list option" where
  "round44To32 mem ip op = do {
     x \<leftarrow> rd mem (ip + 3);
     mem1 \<leftarrow> wr mem op (s32 (s32 (x * 32768) + 16384));
     t \<leftarrow> frac_dot (kCoefficients44To32 ! 3) mem1 (\<lambda>j. ip + 5 + j);
     mem2 \<leftarrow> wr mem1 (op + 4) t;
     mem3 \<leftarrow> WebRtcSpl_ResampDotProduct mem2 ip (ip + 17) (kCoefficients44To32 ! 0) (op + 1) (op + 7);
     mem4 \<leftarrow> WebRtcSpl_ResampDotProduct mem3 (ip + 2) (ip + 15) (kCoefficients44To32 ! 1) (op + 2) (op + 6);
     WebRtcSpl_ResampDotProduct mem4 (ip + 3) (ip + 14) (kCoefficients44To32 ! 2) (op + 3) (op + 5)
   }"

primrec WebRtcSpl_Resample44khzTo32khz :: "nat \<Rightarrow> int list \<Rightarrow> nat \<Rightarrow> nat \<Rightarrow> int list option" where
  "WebRtcSpl_Resample44khzTo32khz 0 mem inp out = Some mem"
| "WebRtcSpl_Resample44khzTo32khz (Suc m) mem inp out = do {
     mem0 \<leftarrow> WebRtcSpl_Resample44khzTo32khz m mem inp out;
     round44To32 mem0 (inp + 11 * m) (out + 8 * m)
   }"

section \<open>The steps of the 22 kHz resamplers\<close>

definition kCoefficients32To22 :: "int list list" where
  "kCoefficients32To22 =
    [[127, -712, 2359, -6333, 23456, 16775, -3695, 945, -154],
     [-39, 230, -830, 2785, 32366, -2324, 760, -218, 38],
     [117, -663, 2222, -6133, 26634, 13070, -3174, 831, -137],
     [-77, 457, -1677, 5958, 31175, -4136, 1405, -408, 71],
     [98, -560, 1900, -5406, 29240, 9423, -2480, 663, -110]]"

definition WebRtcSpl_DotProdIntToInt ::
    "int list \<Rightarrow> nat \<Rightarrow> nat \<Rightarrow> int list \<Rightarrow> nat \<Rightarrow> nat \<Rightarrow> int list option" where
  "WebRtcSpl_DotProdIntToInt mem in1 in2 coef out1 out2 = do {
     t1 \<leftarrow> frac_dot coef mem (\<lambda>j. in1 + j);
     t2 \<leftarrow> frac_dot coef mem (\<lambda>j. in2 - j);
     mem1 \<leftarrow> wr mem out1 t1;
     wr mem1 out2 t2
   }"

definition WebRtcSpl_DotProdIntToShort ::
    "int list \<Rightarrow> nat \<Rightarrow> nat \<Rightarrow> int list \<Rightarrow> int list \<Rightarrow> nat \<Rightarrow> nat \<Rightarrow> int list option" where
  "WebRtcSpl_DotProdIntToShort mem in1 in2 coef out out1 out2 = do {
     t1 \<leftarrow> frac_dot coef mem (\<lambda>j. in1 + j);
     t2 \<leftarrow> frac_dot coef mem (\<lambda>j. in2 - j);
     o1 \<leftarrow> wr out out1 (clip16 (asr t1 15));
     wr o1 out2 (clip16 (asr t2 15))
   }"

definition round32To22 :: "int list \<Rightarrow> nat \<Rightarrow> nat \<Rightarrow> int list option" where
  "round32To22 mem ip op = do {
     x \<leftarrow> rd mem (ip + 3);
     mem1 \<leftarrow> wr mem op (s32 (s32 (x * 32768) + 16384));
     mem2 \<leftarrow> WebRtcSpl_DotProdIntToInt mem1 ip (ip + 22) (kCoefficients32To22 ! 0) (op + 1) (op + 10);
     mem3 \<leftarrow> WebRtcSpl_DotProdIntToInt mem2 (ip + 2) (ip + 20) (kCoefficients32To22 ! 1) (op + 2) (op + 9);
     mem4 \<leftarrow> WebRtcSpl_DotProdIntToInt mem3 (ip + 3) (ip + 19) (kCoefficients32To22 ! 2) (op + 3) (op + 8);
     mem5 \<leftarrow> WebRtcSpl_DotProdIntToInt mem4 (ip + 5) (ip + 17) (kCoefficients32To22 ! 3) (op + 4) (op + 7);
     WebRtcSpl_DotProdIntToInt mem5 (ip + 6) (ip + 16) (kCoefficients32To22 ! 4) (op + 5) (op + 6)
   }"

primrec WebRtcSpl_32khzTo22khzIntToInt :: "nat \<Rightarrow> int list \<Rightarrow> nat \<Rightarrow> nat \<Rightarrow> int list option" where
  "WebRtcSpl_32khzTo22khzIntToInt 0 mem inp out = Some mem"
| "WebRtcSpl_32khzTo22khzIntToInt (Suc m) mem inp out = do {
     mem0 \<leftarrow> WebRtcSpl_32khzTo22khzIntToInt m mem inp out;
     round32To22 mem0 (inp + 16 * m) (out + 11 * m)
   }"

definition round32To22Short :: "int list \<Rightarrow> nat \<Rightarrow> nat \<Rightarrow> int list \<Rightarrow> int list option" where
  "round32To22Short mem ip op out = do {
     x \<leftarrow> rd mem (ip + 3);
     out1 \<leftarrow> wr out op (clip16 x);
     out2 \<leftarrow> WebRtcSpl_DotProdIntToShort mem ip (ip + 22) (kCoefficients32To22 ! 0) out1 (op + 1) (op + 10);
     out3 \<leftarrow> WebRtcSpl_DotProdIntToShort mem (ip + 2) (ip + 20) (kCoefficients32To22 ! 1) out2 (op + 2) (op + 9);
     out4 \<leftarrow> WebRtcSpl_DotProdIntToShort mem (ip + 3) (ip + 19) (kCoefficients32To22 ! 2) out3 (op + 3) (op + 8);
     out5 \<leftarrow> WebRtcSpl_DotProdIntToShort mem (ip + 5) (ip + 17) (kCoefficients32To22 ! 3) out4 (op + 4) (op + 7);
     WebRtcSpl_DotProdIntToShort mem (ip + 6) (ip + 16) (kCoefficients32To22 ! 4) out5 (op + 5) (op + 6)
   }"

primrec WebRtcSpl_32khzTo22khzIntToShort :: "nat \<Rightarrow> int list \<Rightarrow> nat \<Rightarrow> int list \<Rightarrow> int list option" where
  "WebRtcSpl_32khzTo22khzIntToShort 0 mem inp out = Some out"
| "WebRtcSpl_32khzTo22khzIntToShort (Suc m) mem inp out = do {
     out0 \<leftarrow> WebRtcSpl_32khzTo22khzIntToShort m mem inp out;
     round32To22Short mem (inp + 16 * m) (11 * m) out0
   }"

section \<open>Filters on lists\<close>

text \<open>The filter of a loop on the list of its inputs: final state and outputs.\<close>

definition ap_st :: "nat \<Rightarrow> nat \<Rightarrow> int list \<Rightarrow> int list \<Rightarrow> int list" where
  "ap_st row k st xs = foldl (\<lambda>s x. allpass row k x s) st xs"

primrec ap_outs :: "nat \<Rightarrow> nat \<Rightarrow> int list \<Rightarrow> int list \<Rightarrow> int list" where
  "ap_outs row k st [] = []"
| "ap_outs row k st (x # xs) =
     (let st' = allpass row k x st in st' ! (k + 3) # ap_outs row k st' xs)"

lemma ap_st_simps [simp]: "ap_st row k st [] = st" "ap_st row k st (x # xs) = ap_st row k (allpass row k x st) xs"
  by (simp_all add: ap_st_def)

lemma ap_st_append: "ap_st row k st (xs @ ys) = ap_st row k (ap_st row k st xs) ys"
  by (simp add: ap_st_def)

lemma length_allpass [simp]: "length (allpass row k x st) = length st"
  by (simp add: allpass_def Let_def)

lemma length_ap_st [simp]: "length (ap_st row k st xs) = length st"
  by (induction xs arbitrary: st) simp_all

lemma length_ap_outs [simp]: "length (ap_outs row k st xs) = length xs"
  by (induction xs arbitrary: st) (simp_all add: Let_def)

lemma ap_outs_append: "ap_outs row k st (xs @ ys) = ap_outs row k st xs @ ap_outs row k (ap_st row k st xs) ys"
  by (induction xs arbitrary: st) (simp_all add: Let_def)

lemma ap_outs_nth:
  "i < length xs \<Longrightarrow> ap_outs row k st xs ! i = allpass row k (xs ! i) (ap_st row k st (take i xs)) ! (k + 3)"
proof -
  assume i: "i < length xs"
  have "ap_outs row k st xs = ap_outs row k st (take i xs @ xs ! i # drop (Suc i) xs)"
    using i by (simp add: id_take_nth_drop [symmetric])
  then show ?thesis using i by (simp add: ap_outs_append nth_append Let_def)
qed

lemma ap_st_take_Suc:
  "i < length xs \<Longrightarrow> ap_st row k st (take (Suc i) xs) = allpass row k (xs ! i) (ap_st row k st (take i xs))"
  by (simp add: take_Suc_conv_app_nth ap_st_append)

section \<open>Memory after the stores of a loop\<close>

text \<open>\<open>mem'\<close> is \<open>mem\<close> with \<open>ys i\<close> at the position \<open>f i\<close> for the first \<open>n\<close> rounds.\<close>

definition written :: "int list \<Rightarrow> (nat \<Rightarrow> nat) \<Rightarrow> (nat \<Rightarrow> int) \<Rightarrow> nat \<Rightarrow> int list \<Rightarrow> bool" where
  "written mem f ys n mem' \<longleftrightarrow> length mem' = length mem \<and> (\<forall>i<n. mem' ! f i = ys i) \<and>
     (\<forall>j<length mem. (\<forall>i<n. j \<noteq> f i) \<longrightarrow> mem' ! j = mem ! j)"

lemma written_0: "written mem f ys 0 mem"
  by (simp add: written_def)

lemma written_Suc:
  assumes "written mem f ys i m" "inj f" "f i < length mem"
  shows "written mem f ys (Suc i) (m[f i := ys i])"
  using assms by (auto simp: written_def nth_list_update less_Suc_eq inj_eq)

lemma rd_less: "i < length mem \<Longrightarrow> rd mem i = Some (mem ! i)"
  by (simp add: rd_def vec_at_def)

lemma wr_less: "i < length mem \<Longrightarrow> wr mem i x = Some (mem[i := x])"
  by (simp add: wr_def vec_put_def)

lemma ap_loop_written:
  assumes xs: "length xs = n" and f: "inj f" "\<forall>i<n. f i < length mem"
    and get_in: "\<And>i m. i < n \<Longrightarrow> written mem f ys i m \<Longrightarrow> get_in i m = Some (xs ! i)"
    and put_out: "\<And>i m. i < n \<Longrightarrow> written mem f ys i m \<Longrightarrow>
      put_out i (ap_outs row k st xs ! i) m = Some (m[f i := ys i])"
  shows "\<exists>m. ap_loop n row k get_in put_out (mem, st) = Some (m, ap_st row k st xs) \<and> written mem f ys n m"
proof -
  have "\<exists>m. ap_loop i row k get_in put_out (mem, st) = Some (m, ap_st row k st (take i xs)) \<and> written mem f ys i m"
    if "i \<le> n" for i
    using that
  proof (induction i)
    case 0
    then show ?case by (simp add: written_0)
  next
    case (Suc i)
    then obtain m where IH: "ap_loop i row k get_in put_out (mem, st) = Some (m, ap_st row k st (take i xs))"
        "written mem f ys i m" by auto
    have i: "i < n" using Suc.prems by simp
    have out: "allpass row k (xs ! i) (ap_st row k st (take i xs)) ! (k + 3) = ap_outs row k st xs ! i"
      using i xs by (simp add: ap_outs_nth)
    have "ap_loop (Suc i) row k get_in put_out (mem, st) = Some (m[f i := ys i], ap_st row k st (take (Suc i) xs))"
      using IH(1) get_in [OF i IH(2)] put_out [OF i IH(2)] out i xs
      by (simp add: Let_def ap_st_take_Suc)
    then show ?case using written_Suc [OF IH(2) f(1)] f(2) i by blast
  qed
  from this [of n] show ?thesis using xs by simp
qed

text \<open>A stretch of memory as a list.\<close>

definition seg :: "int list \<Rightarrow> nat \<Rightarrow> nat \<Rightarrow> int list" where
  "seg mem off n = map (\<lambda>i. mem ! (off + i)) [0..<n]"

lemma length_seg [simp]: "length (seg mem off n) = n"
  by (simp add: seg_def)

lemma nth_seg [simp]: "i < n \<Longrightarrow> seg mem off n ! i = mem ! (off + i)"
  by (simp add: seg_def)

definition evens :: "int list \<Rightarrow> nat \<Rightarrow> int list" where
  "evens xs n = map (\<lambda>i. xs ! (2 * i)) [0..<n]"

definition odds :: "int list \<Rightarrow> nat \<Rightarrow> int list" where
  "odds xs n = map (\<lambda>i. xs ! (1 + 2 * i)) [0..<n]"

lemma evens_odds_simps [simp]:
  "length (evens xs n) = n" "length (odds xs n) = n"
  "i < n \<Longrightarrow> evens xs n ! i = xs ! (2 * i)" "i < n \<Longrightarrow> odds xs n ! i = xs ! (1 + 2 * i)"
  by (simp_all add: evens_def odds_def)

primrec interleave :: "int list \<Rightarrow> int list \<Rightarrow> int list" where
  "interleave [] ys = []"
| "interleave (x # xs) ys = x # hd ys # interleave xs (tl ys)"

lemma length_interleave [simp]: "length (interleave xs ys) = 2 * length xs"
  by (induction xs arbitrary: ys) simp_all

lemma nth_interleave:
  "i < length xs \<Longrightarrow> length xs \<le> length ys \<Longrightarrow> interleave xs ys ! (2 * i) = xs ! i"
  "i < length xs \<Longrightarrow> length xs \<le> length ys \<Longrightarrow> interleave xs ys ! (1 + 2 * i) = ys ! i"
proof (induction xs arbitrary: ys i)
  case (Cons x xs)
  { case 1 then show ?case using Cons.IH(1) [of "i - 1" "tl ys"] by (cases i; cases ys) auto }
  { case 2 then show ?case using Cons.IH(2) [of "i - 1" "tl ys"] by (cases i; cases ys) auto }
qed simp_all

lemma half_cases:
  assumes "j < 2 * (n::nat)"
  obtains i where "i < n" "j = 2 * i" | i where "i < n" "j = 1 + 2 * i"
  using assms by (metis add.commute even_two_times_div_two odd_two_times_div_two_succ mult_less_cancel1 less_trans
      lessI plus_1_eq_Suc dvd_def mult_2)

lemma list_eq_halves:
  assumes "length zs = 2 * n" "length as = n" "length bs = n"
    and "\<And>i. i < n \<Longrightarrow> zs ! (2 * i) = as ! i" "\<And>i. i < n \<Longrightarrow> zs ! (1 + 2 * i) = bs ! i"
  shows "zs = interleave as bs"
proof (rule nth_equalityI)
  show "length zs = length (interleave as bs)" using assms by simp
  fix j assume "j < length zs"
  then have "j < 2 * n" using assms by simp
  then show "zs ! j = interleave as bs ! j"
    using assms by (cases rule: half_cases) (simp_all add: nth_interleave del: One_nat_def)
qed

section \<open>The steps as functions on lists\<close>

text \<open>Interpolation: the two branches give the even and the odd output samples.\<close>

definition up2 :: "(int \<Rightarrow> int) \<Rightarrow> int list \<Rightarrow> int list \<Rightarrow> int list \<times> int list" where
  "up2 h xs st =
     (let st1 = ap_st 0 4 st xs
      in (interleave (map h (ap_outs 0 4 st xs)) (map h (ap_outs 1 0 st1 xs)), ap_st 1 0 st1 xs))"

text \<open>Decimation: the two branches filter the even and the odd input samples and are averaged.\<close>

definition down2 :: "int list \<Rightarrow> nat \<Rightarrow> int list \<Rightarrow> int list \<times> int list" where
  "down2 xs n st =
     (let st1 = ap_st 1 0 st (evens xs n)
      in (map2 (\<lambda>a b. s32 (asr a 1 + asr b 1)) (ap_outs 1 0 st (evens xs n)) (ap_outs 0 4 st1 (odds xs n)),
          ap_st 0 4 st1 (odds xs n)))"

definition delayed :: "int \<Rightarrow> int list \<Rightarrow> int list" where
  "delayed x xs = take (length xs) (x # xs)"

definition lp_avg :: "int \<Rightarrow> int \<Rightarrow> int" where
  "lp_avg a b = asr (s32 (asr a 1 + asr b 1)) 15"

definition lp2 :: "int list \<Rightarrow> nat \<Rightarrow> int list \<Rightarrow> int list \<times> int list" where
  "lp2 xs n st =
     (let e = evens xs n; d = odds xs n; dd = delayed (st ! 12) d;
          st1 = ap_st 1 0 st dd; st2 = ap_st 0 4 st1 e; st3 = ap_st 1 8 st2 e
      in (interleave (map2 lp_avg (ap_outs 1 0 st dd) (ap_outs 0 4 st1 e))
            (map2 lp_avg (ap_outs 1 8 st2 e) (ap_outs 0 12 st3 d)),
          ap_st 0 12 st3 d))"

lemma written_outside:
  "written mem f ys n m \<Longrightarrow> j < length mem \<Longrightarrow> \<forall>i<n. j \<noteq> f i \<Longrightarrow> m ! j = mem ! j"
  by (simp add: written_def)

lemma written_at: "written mem f ys n m \<Longrightarrow> i < n \<Longrightarrow> m ! f i = ys i"
  by (simp add: written_def)

lemma written_length: "written mem f ys n m \<Longrightarrow> length m = length mem"
  by (simp add: written_def)

lemma inj_stride: "inj (\<lambda>i. off + i)" "inj (\<lambda>i. off + 2 * i)" for off :: nat
  by (simp_all add: inj_def)

subsection \<open>Interpolation\<close>

text \<open>Both loops of an interpolator, for any way to fetch the input that the stores leave alone.\<close>

lemma up2_loops:
  fixes mem :: "int list"
  assumes len: "length xs = n" and room: "out + 2 * n \<le> length mem"
    and get_in: "\<And>i m. i < n \<Longrightarrow> length m = length mem \<Longrightarrow>
      (\<forall>j < length mem. (j < out \<or> out + 2 * n \<le> j) \<longrightarrow> m ! j = mem ! j) \<Longrightarrow> get_in i m = Some (xs ! i)"
  shows "\<exists>m. do { ms1 \<leftarrow> ap_loop n 0 4 get_in (\<lambda>i y m. wr m (out + 2 * i) (h y)) (mem, st);
        ap_loop n 1 0 get_in (\<lambda>i y m. wr m (out + 1 + 2 * i) (h y)) ms1 } = Some (m, snd (up2 h xs st)) \<and>
      length m = length mem \<and> seg m out (2 * n) = fst (up2 h xs st) \<and>
      (\<forall>j < length mem. (j < out \<or> out + 2 * n \<le> j) \<longrightarrow> m ! j = mem ! j)"
proof -
  let ?st1 = "ap_st 0 4 st xs"
  let ?y1 = "\<lambda>i. h (ap_outs 0 4 st xs ! i)" and ?y2 = "\<lambda>i. h (ap_outs 1 0 ?st1 xs ! i)"
  have f1: "get_in i m = Some (xs ! i)" if "i < n" "written mem (\<lambda>i. out + 2 * i) ?y1 i' m" "i' \<le> n" for i i' m
    using that room by (intro get_in) (auto simp: written_def)
  obtain m1 where m1: "ap_loop n 0 4 get_in (\<lambda>i y m. wr m (out + 2 * i) (h y)) (mem, st) = Some (m1, ?st1)"
      and w1: "written mem (\<lambda>i. out + 2 * i) ?y1 n m1"
    using ap_loop_written [OF len inj_stride(2) [of out], of mem ?y1 get_in "\<lambda>i y m. wr m (out + 2 * i) (h y)" 0 4 st]
      room f1 by (auto simp: wr_less written_length)
  have f2: "get_in i m = Some (xs ! i)" if "i < n" "written m1 (\<lambda>i. out + 1 + 2 * i) ?y2 i m" for i m
    using that w1 room by (intro get_in) (auto simp: written_def)
  obtain m2 where m2: "ap_loop n 1 0 get_in (\<lambda>i y m. wr m (out + 1 + 2 * i) (h y)) (m1, ?st1) =
        Some (m2, ap_st 1 0 ?st1 xs)" and w2: "written m1 (\<lambda>i. out + 1 + 2 * i) ?y2 n m2"
    using ap_loop_written [OF len inj_stride(2) [of "out + 1"], of m1 ?y2 get_in
        "\<lambda>i y m. wr m (out + 1 + 2 * i) (h y)" 1 0 ?st1] room f2 w1
    by (auto simp: wr_less written_length)
  have "seg m2 out (2 * n) = interleave (map h (ap_outs 0 4 st xs)) (map h (ap_outs 1 0 ?st1 xs))"
  proof (rule list_eq_halves)
    fix i assume i: "i < n"
    have "m2 ! (out + 2 * i) = m1 ! (out + 2 * i)"
      using i room w1 by (intro written_outside [OF w2]) (auto simp: written_length, presburger)
    then show "seg m2 out (2 * n) ! (2 * i) = map h (ap_outs 0 4 st xs) ! i"
      using i written_at [OF w1 i] len by simp
    show "seg m2 out (2 * n) ! (1 + 2 * i) = map h (ap_outs 1 0 ?st1 xs) ! i"
      using i written_at [OF w2 i] len by (simp add: add.assoc)
  qed (use len in simp_all)
  moreover have "length m2 = length mem" using w1 w2 by (simp add: written_length)
  moreover have "\<forall>j < length mem. (j < out \<or> out + 2 * n \<le> j) \<longrightarrow> m2 ! j = mem ! j"
    using w1 w2 by (auto simp: written_def)
  ultimately show ?thesis using m1 m2 by (auto simp: up2_def Let_def)
qed

text \<open>What a step leaves of the block: outside \<open>out\<close> to \<open>out + n\<close> nothing changes.\<close>

definition kept :: "int list \<Rightarrow> nat \<Rightarrow> nat \<Rightarrow> int list \<Rightarrow> bool" where
  "kept mem out n m \<longleftrightarrow> length m = length mem \<and>
     (\<forall>j < length mem. (j < out \<or> out + n \<le> j) \<longrightarrow> m ! j = mem ! j)"

lemma UpBy2ShortToInt_ok:
  assumes "n \<le> length inp" "out + 2 * n \<le> length mem"
  shows "\<exists>m. WebRtcSpl_UpBy2ShortToInt inp n mem out st =
      Some (m, snd (up2 (\<lambda>y. asr y 15) (map in15 (take n inp)) st)) \<and>
    seg m out (2 * n) = fst (up2 (\<lambda>y. asr y 15) (map in15 (take n inp)) st) \<and> kept mem out (2 * n) m"
  using up2_loops [of "map in15 (take n inp)" n out mem "\<lambda>i m. map_option in15 (rd inp i)" "\<lambda>y. asr y 15" st] assms
  by (auto simp: WebRtcSpl_UpBy2ShortToInt_def kept_def rd_less)

lemma UpBy2IntToInt_ok:
  assumes "out + 2 * n \<le> inp" "inp + n \<le> length mem"
  shows "\<exists>m. WebRtcSpl_UpBy2IntToInt mem inp n out st = Some (m, snd (up2 (\<lambda>y. y) (seg mem inp n) st)) \<and>
    seg m out (2 * n) = fst (up2 (\<lambda>y. y) (seg mem inp n) st) \<and> kept mem out (2 * n) m"
  using up2_loops [of "seg mem inp n" n out mem "\<lambda>i m. rd m (inp + i)" "\<lambda>y. y" st] assms
  by (auto simp: WebRtcSpl_UpBy2IntToInt_def kept_def rd_less)

lemma seg_append_drop: "kept out 0 n m \<Longrightarrow> n \<le> length out \<Longrightarrow> m = seg m 0 n @ drop n out"
  by (rule nth_equalityI) (auto simp: kept_def nth_append)

lemma UpBy2IntToShort_ok:
  assumes "2 * n \<le> length out" "inp + n \<le> length mem"
  shows "WebRtcSpl_UpBy2IntToShort mem inp n out st =
    Some (fst (up2 (\<lambda>y. clip16 (asr y 15)) (seg mem inp n) st) @ drop (2 * n) out,
          snd (up2 (\<lambda>y. clip16 (asr y 15)) (seg mem inp n) st))"
proof -
  obtain m where m: "WebRtcSpl_UpBy2IntToShort mem inp n out st =
        Some (m, snd (up2 (\<lambda>y. clip16 (asr y 15)) (seg mem inp n) st))"
      "kept out 0 (2 * n) m" "seg m 0 (2 * n) = fst (up2 (\<lambda>y. clip16 (asr y 15)) (seg mem inp n) st)"
    using up2_loops [of "seg mem inp n" n 0 out "\<lambda>i o'. rd mem (inp + i)" "\<lambda>y. clip16 (asr y 15)" st] assms
    by (auto simp: WebRtcSpl_UpBy2IntToShort_def rd_less kept_def)
  then show ?thesis using seg_append_drop [OF m(2) assms(1)] by simp
qed

subsection \<open>Decimation\<close>

lemma DownBy2ShortToInt_ok:
  assumes "2 * n \<le> length inp" "out + n \<le> length mem"
  shows "\<exists>m. WebRtcSpl_DownBy2ShortToInt inp (2 * n) mem out st = Some (m, snd (down2 (map in15 inp) n st)) \<and>
    seg m out n = fst (down2 (map in15 inp) n st) \<and> kept mem out n m"
proof -
  let ?e = "evens (map in15 inp) n" and ?d = "odds (map in15 inp) n"
  let ?st1 = "ap_st 1 0 st ?e" and ?f = "\<lambda>i. out + i"
  let ?y1 = "\<lambda>i. asr (ap_outs 1 0 st ?e ! i) 1"
  let ?y2 = "\<lambda>i. s32 (?y1 i + asr (ap_outs 0 4 ?st1 ?d ! i) 1)"
  have rd: "map_option in15 (rd inp (2 * i)) = Some (?e ! i)" "map_option in15 (rd inp (1 + 2 * i)) = Some (?d ! i)"
    if "i < n" for i using that assms(1) by (simp_all add: rd_less)
  obtain m1 where m1: "ap_loop n 1 0 (\<lambda>i m. map_option in15 (rd inp (2 * i)))
        (\<lambda>i y m. wr m (out + i) (asr y 1)) (mem, st) = Some (m1, ?st1)" and w1: "written mem ?f ?y1 n m1"
    using ap_loop_written [OF _ inj_stride(1) [of out], of ?e n mem ?y1 "\<lambda>i m. map_option in15 (rd inp (2 * i))"
        "\<lambda>i y m. wr m (out + i) (asr y 1)" 1 0 st] rd(1) assms(2)
    by (auto simp: wr_less written_length)
  have st2: "do { o1 \<leftarrow> rd m (out + i); wr m (out + i) (s32 (o1 + asr (ap_outs 0 4 ?st1 ?d ! i) 1)) } =
      Some (m[?f i := ?y2 i])" if "i < n" "written m1 ?f ?y2 i m" for i m
  proof -
    have "m ! (out + i) = m1 ! (out + i)"
      using that assms(2) written_length [OF w1] by (intro written_outside [OF that(2)]) auto
    then have "m ! (out + i) = ?y1 i" using written_at [OF w1 that(1)] by simp
    then show ?thesis using that assms(2) w1 by (simp add: rd_less wr_less written_length)
  qed
  obtain m2 where m2: "ap_loop n 0 4 (\<lambda>i m. map_option in15 (rd inp (1 + 2 * i)))
        (\<lambda>i y m. do { o1 \<leftarrow> rd m (out + i); wr m (out + i) (s32 (o1 + asr y 1)) }) (m1, ?st1) =
        Some (m2, ap_st 0 4 ?st1 ?d)" and w2: "written m1 ?f ?y2 n m2"
    using ap_loop_written [OF _ inj_stride(1) [of out], of ?d n m1 ?y2
        "\<lambda>i m. map_option in15 (rd inp (1 + 2 * i))"
        "\<lambda>i y m. do { o1 \<leftarrow> rd m (out + i); wr m (out + i) (s32 (o1 + asr y 1)) }" 0 4 ?st1]
      rd(2) st2 assms(2) written_length [OF w1] by auto
  have "seg m2 out n = fst (down2 (map in15 inp) n st)"
    using written_at [OF w2] by (intro nth_equalityI) (simp_all add: down2_def Let_def)
  moreover have "kept mem out n m2" using w1 w2 by (auto simp: written_def kept_def)
  ultimately show ?thesis using m1 m2 by (auto simp: WebRtcSpl_DownBy2ShortToInt_def down2_def Let_def)
qed

lemma combine_loop_ok:
  assumes "even len" "even i" "inp + 2 * len \<le> length mem" "len \<le> length out"
  shows "\<exists>out'. combine_loop mem inp len i out = Some out' \<and> length out' = length out \<and>
    (\<forall>j. i \<le> j \<and> j < len \<longrightarrow> out' ! j = clip16 (asr (s32 (mem ! (inp + 2 * j) + mem ! (inp + 2 * j + 1))) 15)) \<and>
    (\<forall>j. j < i \<or> len \<le> j \<longrightarrow> out' ! j = out ! j)"
  using assms
proof (induction mem inp len i out rule: combine_loop.induct)
  case (1 mem inp len i out)
  show ?case
  proof (cases "i < len")
    case False
    then show ?thesis by (subst combine_loop.simps) auto
  next
    case True
    let ?g = "\<lambda>j. clip16 (asr (s32 (mem ! (inp + 2 * j) + mem ! (inp + 2 * j + 1))) 15)"
    have i2: "i + 2 \<le> len" using True "1.prems"(1,2) by presburger
    have step: "combine_loop mem inp len i out = combine_loop mem inp len (i + 2) (out[i := ?g i, i + 1 := ?g (i + 1)])"
      using True i2 "1.prems"(3,4)
      by (subst combine_loop.simps) (simp add: rd_less wr_less add.assoc numeral_3_eq_3)
    have r: "rd mem (inp + 2 * i) = Some (mem ! (inp + 2 * i))" "rd mem (inp + 2 * i + 1) = Some (mem ! (inp + 2 * i + 1))"
      "rd mem (inp + 2 * i + 2) = Some (mem ! (inp + 2 * i + 2))" "rd mem (inp + 2 * i + 3) = Some (mem ! (inp + 2 * i + 3))"
      using i2 "1.prems"(3) by (simp_all add: rd_less)
    have IH: "\<exists>out'. combine_loop mem inp len (i + 2) (out[i := ?g i, i + 1 := ?g (i + 1)]) = Some out' \<and>
        length out' = length out \<and> (\<forall>j. i + 2 \<le> j \<and> j < len \<longrightarrow> out' ! j = ?g j) \<and>
        (\<forall>j. j < i + 2 \<or> len \<le> j \<longrightarrow> out' ! j = out[i := ?g i, i + 1 := ?g (i + 1)] ! j)"
      using "1.IH" [OF True r, of "out[i := ?g i]" "out[i := ?g i, i + 1 := ?g (i + 1)]"] i2 "1.prems"
      by (simp add: wr_less add.assoc numeral_3_eq_3)
    then obtain out' where o: "combine_loop mem inp len i out = Some out'" "length out' = length out"
        "\<forall>j. i + 2 \<le> j \<and> j < len \<longrightarrow> out' ! j = ?g j"
        "\<forall>j. j < i + 2 \<or> len \<le> j \<longrightarrow> out' ! j = out[i := ?g i, i + 1 := ?g (i + 1)] ! j" using step by auto
    have "out' ! j = ?g j" if "i \<le> j" "j < len" for j
    proof -
      consider "j = i" | "j = i + 1" | "i + 2 \<le> j" using \<open>i \<le> j\<close> by linarith
      then show ?thesis using o(3,4) i2 "1.prems"(4) that by cases auto
    qed
    then show ?thesis using o(1,2,4) i2 by auto
  qed
qed

lemma DownBy2IntToShort_ok:
  assumes "inp + 2 * n \<le> length mem" "even n" "n \<le> length out"
  shows "\<exists>m. WebRtcSpl_DownBy2IntToShort mem inp (2 * n) out st =
    Some (m, map (\<lambda>v. clip16 (asr v 15)) (fst (down2 (seg mem inp (2 * n)) n st)) @ drop n out,
          snd (down2 (seg mem inp (2 * n)) n st)) \<and>
    length m = length mem"
proof -
  let ?xs = "seg mem inp (2 * n)"
  let ?e = "evens ?xs n" and ?d = "odds ?xs n" and ?f1 = "\<lambda>i. inp + 2 * i" and ?f2 = "\<lambda>i. inp + 1 + 2 * i"
  let ?st1 = "ap_st 1 0 st ?e"
  let ?y1 = "\<lambda>i. asr (ap_outs 1 0 st ?e ! i) 1" and ?y2 = "\<lambda>i. asr (ap_outs 0 4 ?st1 ?d ! i) 1"
  have f1: "rd m (inp + 2 * i) = Some (?e ! i)" if "i < n" "written mem ?f1 ?y1 i m" for i m
    using that assms(1) written_outside [OF that(2), of "inp + 2 * i"] by (simp add: rd_less written_length)
  obtain m1 where m1: "ap_loop n 1 0 (\<lambda>i m. rd m (inp + 2 * i)) (\<lambda>i y m. wr m (inp + 2 * i) (asr y 1)) (mem, st) =
        Some (m1, ?st1)" and w1: "written mem ?f1 ?y1 n m1"
    using ap_loop_written [OF _ inj_stride(2) [of inp], of ?e n mem ?y1 "\<lambda>i m. rd m (inp + 2 * i)"
        "\<lambda>i y m. wr m (inp + 2 * i) (asr y 1)" 1 0 st] f1 assms(1)
    by (auto simp: wr_less written_length)
  have odd_kept: "m1 ! (inp + 1 + 2 * i) = mem ! (inp + 1 + 2 * i)" if "i < n" for i
    using that assms(1) by (intro written_outside [OF w1]) (auto, presburger)
  have f2: "rd m (inp + 1 + 2 * i) = Some (?d ! i)" if "i < n" "written m1 ?f2 ?y2 i m" for i m
    using that assms(1) written_outside [OF that(2), of "inp + 1 + 2 * i"] odd_kept [OF that(1)] written_length [OF w1]
    by (simp add: rd_less written_length)
  obtain m2 where m2: "ap_loop n 0 4 (\<lambda>i m. rd m (inp + 1 + 2 * i)) (\<lambda>i y m. wr m (inp + 1 + 2 * i) (asr y 1)) (m1, ?st1) =
        Some (m2, ap_st 0 4 ?st1 ?d)" and w2: "written m1 ?f2 ?y2 n m2"
    using ap_loop_written [OF _ inj_stride(2) [of "inp + 1"], of ?d n m1 ?y2 "\<lambda>i m. rd m (inp + 1 + 2 * i)"
        "\<lambda>i y m. wr m (inp + 1 + 2 * i) (asr y 1)" 0 4 ?st1] f2 assms(1) written_length [OF w1]
    by (auto simp: wr_less written_length)
  have len: "length m2 = length mem" using w1 w2 by (simp add: written_length)
  have v: "m2 ! (inp + 2 * j) = ?y1 j" "m2 ! (inp + 2 * j + 1) = ?y2 j" if "j < n" for j
  proof -
    have "m2 ! (inp + 2 * j) = m1 ! (inp + 2 * j)"
      using that assms(1) written_length [OF w1] by (intro written_outside [OF w2]) (auto, presburger)
    then show "m2 ! (inp + 2 * j) = ?y1 j" using written_at [OF w1 that] by simp
    show "m2 ! (inp + 2 * j + 1) = ?y2 j" using written_at [OF w2 that] by simp
  qed
  obtain out' where o: "combine_loop m2 inp n 0 out = Some out'" "kept out 0 n out'"
      "\<forall>j<n. out' ! j = clip16 (asr (s32 (m2 ! (inp + 2 * j) + m2 ! (inp + 2 * j + 1))) 15)"
    using combine_loop_ok [of n 0 inp m2 out] assms len by (auto simp: kept_def)
  have "seg out' 0 n = map (\<lambda>v. clip16 (asr v 15)) (fst (down2 ?xs n st))"
    using o(3) v by (intro nth_equalityI) (simp_all add: down2_def Let_def)
  then have "out' = map (\<lambda>v. clip16 (asr v 15)) (fst (down2 ?xs n st)) @ drop n out"
    using seg_append_drop [OF o(2) assms(3)] by simp
  then show ?thesis using m1 m2 o(1) len
    by (auto simp: WebRtcSpl_DownBy2IntToShort_def down2_def Let_def)
qed

subsection \<open>The lowpass filter\<close>

lemma nth_delayed: "i < length xs \<Longrightarrow> delayed x xs ! i = (x # xs) ! i"
  by (simp add: delayed_def)

lemma length_delayed [simp]: "length (delayed x xs) = length xs"
  by (simp add: delayed_def)

lemma delay_loop_written:
  assumes xs: "length xs = n" and f: "inj f" "\<forall>i<n. f i < length mem"
    and get_in: "\<And>i m. i < n \<Longrightarrow> written mem f ys (Suc i) m \<Longrightarrow> get_in i m = Some (xs ! i)"
    and put_out: "\<And>i m. i < n \<Longrightarrow> written mem f ys i m \<Longrightarrow>
      put_out i (ap_outs 1 0 st (delayed t xs) ! i) m = Some (m[f i := ys i])"
  shows "\<exists>m t'. delay_loop n get_in put_out (mem, st, t) = Some (m, ap_st 1 0 st (delayed t xs), t') \<and>
    written mem f ys n m"
proof -
  have "\<exists>m. delay_loop i get_in put_out (mem, st, t) =
      Some (m, ap_st 1 0 st (take i (delayed t xs)), (t # xs) ! i) \<and> written mem f ys i m"
    if "i \<le> n" for i
    using that
  proof (induction i)
    case 0
    then show ?case by (simp add: written_0)
  next
    case (Suc i)
    then obtain m where IH: "delay_loop i get_in put_out (mem, st, t) =
          Some (m, ap_st 1 0 st (take i (delayed t xs)), (t # xs) ! i)" "written mem f ys i m" by auto
    have i: "i < n" using Suc.prems by simp
    have d: "delayed t xs ! i = (t # xs) ! i" using i xs by (simp add: nth_delayed)
    have out: "allpass 1 0 ((t # xs) ! i) (ap_st 1 0 st (take i (delayed t xs))) ! 3 = ap_outs 1 0 st (delayed t xs) ! i"
      using i xs d by (simp add: ap_outs_nth)
    have w: "written mem f ys (Suc i) (m[f i := ys i])" using written_Suc [OF IH(2) f(1)] f(2) i by blast
    have "delay_loop (Suc i) get_in put_out (mem, st, t) =
        Some (m[f i := ys i], ap_st 1 0 st (take (Suc i) (delayed t xs)), (t # xs) ! Suc i)"
      using IH(1) get_in [OF i w] put_out [OF i IH(2)] out i xs d
      by (simp add: Let_def ap_st_take_Suc)
    then show ?case using w by blast
  qed
  from this [of n] show ?thesis using xs by auto
qed

text \<open>A put_out that averages with what an earlier loop left at the same place.\<close>

lemma avg_store:
  assumes "written m1 f ys i m" "inj f" "f i < length m1" "m1 ! f i = asr a 1" "ys i = lp_avg a y"
  shows "do { o1 \<leftarrow> rd m (f i); wr m (f i) (asr (s32 (o1 + asr y 1)) 15) } = Some (m[f i := ys i])"
proof -
  have "m ! f i = m1 ! f i" using assms(2,3) by (intro written_outside [OF assms(1)]) (auto simp: inj_eq)
  then show ?thesis using assms written_length [OF assms(1)] by (simp add: rd_less wr_less lp_avg_def)
qed

lemma lp_loops_ok:
  assumes len: "length xs = 2 * n" and room: "out + 2 * n \<le> length mem"
    and get_in: "\<And>i m. i < 2 * n \<Longrightarrow> kept mem out (2 * n) m \<Longrightarrow> get_in i m = Some (xs ! i)"
  shows "\<exists>m. lp_loops get_in n mem out st = Some (m, snd (lp2 xs n st)) \<and>
    seg m out (2 * n) = fst (lp2 xs n st) \<and> kept mem out (2 * n) m"
proof -
  let ?e = "evens xs n" and ?d = "odds xs n" and ?f1 = "\<lambda>i. out + 2 * i" and ?f2 = "\<lambda>i. out + 1 + 2 * i"
  let ?dd = "delayed (st ! 12) ?d"
  let ?st1 = "ap_st 1 0 st ?dd" let ?st2 = "ap_st 0 4 ?st1 ?e" let ?st3 = "ap_st 1 8 ?st2 ?e"
  let ?A = "ap_outs 1 0 st ?dd" and ?B = "ap_outs 0 4 ?st1 ?e" and ?C = "ap_outs 1 8 ?st2 ?e" and ?D = "ap_outs 0 12 ?st3 ?d"
  have fe: "get_in (2 * i) m = Some (?e ! i)" and fd: "get_in (1 + 2 * i) m = Some (?d ! i)"
    if "i < n" "kept mem out (2 * n) m" for i m using that by (simp_all add: get_in)
  have k: "kept mem out (2 * n) m" if "kept mem out (2 * n) m0" "written m0 f ys i m" "i \<le> n"
      "f = ?f1 \<or> f = ?f2" for m0 f ys i m
    using that by (auto simp: kept_def written_def)
  have k0: "kept mem out (2 * n) mem" by (simp add: kept_def)
  have lt: "\<forall>i<n. ?f1 i < length mem" "\<forall>i<n. ?f2 i < length mem" using room by auto
  obtain m1 t where m1: "delay_loop n (\<lambda>i m. get_in (1 + 2 * i) m) (\<lambda>i y m. wr m (out + 2 * i) (asr y 1)) (mem, st, st ! 12) =
        Some (m1, ?st1, t)" and w1: "written mem ?f1 (\<lambda>i. asr (?A ! i) 1) n m1"
    using delay_loop_written [OF _ inj_stride(2) lt(1), of ?d "\<lambda>i. asr (?A ! i) 1" "\<lambda>i m. get_in (1 + 2 * i) m"
        "\<lambda>i y m. wr m (out + 2 * i) (asr y 1)" st "st ! 12"] fd k [OF k0] lt(1)
    by (auto simp: wr_less written_length)
  have k1: "kept mem out (2 * n) m1" using k [OF k0 w1] by simp
  have l1: "length m1 = length mem" using k1 by (simp add: kept_def)
  let ?s2 = "\<lambda>i y m. do { o1 \<leftarrow> rd m (out + 2 * i); wr m (out + 2 * i) (asr (s32 (o1 + asr y 1)) 15) }"
  have s2: "?s2 i (?B ! i) m = Some (m[?f1 i := lp_avg (?A ! i) (?B ! i)])"
    if "i < n" "written m1 ?f1 (\<lambda>i. lp_avg (?A ! i) (?B ! i)) i m" for i m
    using avg_store [OF that(2) inj_stride(2)] that(1) lt(1) l1 written_at [OF w1 that(1)] by simp
  obtain m2 where m2: "ap_loop n 0 4 (\<lambda>i m. get_in (2 * i) m) ?s2 (m1, ?st1) = Some (m2, ?st2)"
      and w2: "written m1 ?f1 (\<lambda>i. lp_avg (?A ! i) (?B ! i)) n m2"
    using ap_loop_written [OF _ inj_stride(2), of ?e n out m1 "\<lambda>i. lp_avg (?A ! i) (?B ! i)" "\<lambda>i m. get_in (2 * i) m" ?s2 0 4 ?st1]
      s2 fe k [OF k1] lt(1) l1 by auto
  have k2: "kept mem out (2 * n) m2" using k [OF k1 w2] by simp
  have l2: "length m2 = length mem" using k2 by (simp add: kept_def)
  obtain m3 where m3: "ap_loop n 1 8 (\<lambda>i m. get_in (2 * i) m) (\<lambda>i y m. wr m (out + 1 + 2 * i) (asr y 1)) (m2, ?st2) =
        Some (m3, ?st3)" and w3: "written m2 ?f2 (\<lambda>i. asr (?C ! i) 1) n m3"
    using ap_loop_written [OF _ inj_stride(2), of ?e n "out + 1" m2 "\<lambda>i. asr (?C ! i) 1" "\<lambda>i m. get_in (2 * i) m"
        "\<lambda>i y m. wr m (out + 1 + 2 * i) (asr y 1)" 1 8 ?st2] fe k [OF k2] lt(2) l2
    by (auto simp: wr_less written_length)
  have k3: "kept mem out (2 * n) m3" using k [OF k2 w3] by simp
  have l3: "length m3 = length mem" using k3 by (simp add: kept_def)
  let ?s4 = "\<lambda>i y m. do { o1 \<leftarrow> rd m (out + 1 + 2 * i); wr m (out + 1 + 2 * i) (asr (s32 (o1 + asr y 1)) 15) }"
  have s4: "?s4 i (?D ! i) m = Some (m[?f2 i := lp_avg (?C ! i) (?D ! i)])"
    if "i < n" "written m3 ?f2 (\<lambda>i. lp_avg (?C ! i) (?D ! i)) i m" for i m
    using avg_store [OF that(2) inj_stride(2)] that(1) lt(2) l3 written_at [OF w3 that(1)] by simp
  obtain m4 where m4: "ap_loop n 0 12 (\<lambda>i m. get_in (1 + 2 * i) m) ?s4 (m3, ?st3) = Some (m4, ap_st 0 12 ?st3 ?d)"
      and w4: "written m3 ?f2 (\<lambda>i. lp_avg (?C ! i) (?D ! i)) n m4"
    using ap_loop_written [OF _ inj_stride(2), of ?d n "out + 1" m3 "\<lambda>i. lp_avg (?C ! i) (?D ! i)"
        "\<lambda>i m. get_in (1 + 2 * i) m" ?s4 0 12 ?st3] s4 fd k [OF k3] lt(2) l3 by auto
  have "seg m4 out (2 * n) = interleave (map2 lp_avg ?A ?B) (map2 lp_avg ?C ?D)"
  proof (rule list_eq_halves)
    fix i assume i: "i < n"
    have ne: "\<forall>j<n. out + 2 * i \<noteq> out + 1 + 2 * j" by presburger
    have "m4 ! (out + 2 * i) = m3 ! (out + 2 * i)" using i lt(1) l3 by (intro written_outside [OF w4] ne) simp
    moreover have "m3 ! (out + 2 * i) = m2 ! (out + 2 * i)" using i lt(1) l2 by (intro written_outside [OF w3] ne) simp
    ultimately show "seg m4 out (2 * n) ! (2 * i) = map2 lp_avg ?A ?B ! i"
      using i written_at [OF w2 i] by simp
    show "seg m4 out (2 * n) ! (1 + 2 * i) = map2 lp_avg ?C ?D ! i"
      using i written_at [OF w4 i] by (simp add: add.assoc)
  qed simp_all
  moreover have "kept mem out (2 * n) m4" using k [OF k3 w4] by simp
  moreover have "lp_loops get_in n mem out st = Some (m4, ap_st 0 12 ?st3 ?d)"
    using m1 m2 m3 m4 by (simp add: lp_loops_def)
  ultimately show ?thesis by (auto simp: lp2_def Let_def)
qed

lemma LPBy2ShortToInt_ok:
  assumes "2 * n \<le> length inp" "out + 2 * n \<le> length mem"
  shows "\<exists>m. WebRtcSpl_LPBy2ShortToInt inp (2 * n) mem out st = Some (m, snd (lp2 (map in15 (take (2 * n) inp)) n st)) \<and>
    seg m out (2 * n) = fst (lp2 (map in15 (take (2 * n) inp)) n st) \<and> kept mem out (2 * n) m"
  using lp_loops_ok [of "map in15 (take (2 * n) inp)" n out mem "\<lambda>i m. map_option in15 (rd inp i)" st] assms
  by (simp add: WebRtcSpl_LPBy2ShortToInt_def rd_less)

lemma LPBy2IntToInt_ok:
  assumes "out + 2 * n \<le> inp" "inp + 2 * n \<le> length mem"
  shows "\<exists>m. WebRtcSpl_LPBy2IntToInt mem inp (2 * n) out st = Some (m, snd (lp2 (seg mem inp (2 * n)) n st)) \<and>
    seg m out (2 * n) = fst (lp2 (seg mem inp (2 * n)) n st) \<and> kept mem out (2 * n) m"
  using lp_loops_ok [of "seg mem inp (2 * n)" n out mem "\<lambda>i m. rd m (inp + i)" st] assms
  by (simp add: WebRtcSpl_LPBy2IntToInt_def rd_less kept_def)

subsection \<open>Fractional steps\<close>

text \<open>The inner product of a coefficient row with samples, rounding offset included, in 32 bits.\<close>

definition dot :: "int list \<Rightarrow> (nat \<Rightarrow> int) \<Rightarrow> int" where
  "dot c x = acc32 16384 (map (\<lambda>j. s32 (c ! j * x j)) [0..<length c])"

lemma frac_dot_ok:
  assumes "\<And>j. j < length c \<Longrightarrow> p j < length mem"
  shows "frac_dot c mem p = Some (dot c (\<lambda>j. mem ! p j))"
proof -
  have "fold (\<lambda>j st. do { tmp \<leftarrow> st; x \<leftarrow> rd mem (p j); Some (s32 (tmp + s32 (c ! j * x))) }) [0..<n] (Some a) =
      Some (acc32 a (map (\<lambda>j. s32 (c ! j * mem ! p j)) [0..<n]))" if "n \<le> length c" for n a
    using that by (induction n) (simp_all add: rd_less assms acc32_append)
  then show ?thesis by (simp add: frac_dot_def dot_def)
qed

lemma dot_cong: "(\<And>j. j < length c \<Longrightarrow> x j = y j) \<Longrightarrow> dot c x = dot c y"
  unfolding dot_def by (intro arg_cong [of _ _ "acc32 16384"] map_cong) auto

lemma seg_Suc: "seg m off (Suc n) = seg m off n @ [m ! (off + n)]"
  by (simp add: seg_def)

lemma seg_add: "seg m off (n + k) = seg m off n @ seg m (off + n) k"
  by (induction k) (simp_all add: seg_Suc add.assoc seg_def)

text \<open>
  The input of a fractional step lies after its output and may overlap it: a round only overwrites
  samples that no later round reads.  \<open>from_on mem B m\<close>: from position \<open>B\<close> on, \<open>m\<close> still is \<open>mem\<close>.
\<close>

definition from_on :: "int list \<Rightarrow> nat \<Rightarrow> int list \<Rightarrow> bool" where
  "from_on mem B m \<longleftrightarrow> length m = length mem \<and> (\<forall>j\<ge>B. m ! j = mem ! j)"

lemma from_on_nth: "from_on mem B m \<Longrightarrow> B \<le> j \<Longrightarrow> m ! j = mem ! j"
  by (simp add: from_on_def)

lemma from_on_length: "from_on mem B m \<Longrightarrow> length m = length mem"
  by (simp add: from_on_def)

lemma from_on_upd: "from_on mem B m \<Longrightarrow> i < B \<Longrightarrow> from_on mem B (m[i := x])"
  by (simp add: from_on_def)

lemma from_on_mono: "from_on mem B m \<Longrightarrow> B \<le> C \<Longrightarrow> from_on mem C m"
  by (simp add: from_on_def)

lemma from_on_dot:
  assumes "from_on mem B m" "\<And>j. j < length c \<Longrightarrow> B \<le> p j \<and> p j < length mem"
  shows "frac_dot c m p = Some (dot c (\<lambda>j. mem ! p j))"
proof -
  have "frac_dot c m p = Some (dot c (\<lambda>j. m ! p j))"
    using assms by (intro frac_dot_ok) (simp add: from_on_def)
  also have "dot c (\<lambda>j. m ! p j) = dot c (\<lambda>j. mem ! p j)"
    using assms by (intro dot_cong) (simp add: from_on_nth)
  finally show ?thesis .
qed

text \<open>
  \<open>K\<close> rounds that take \<open>p\<close> input samples each; \<open>blk\<close> is the output of a round as a function of the
  input samples from its first one on.
\<close>

definition frac_blocks :: "nat \<Rightarrow> ((nat \<Rightarrow> int) \<Rightarrow> int list) \<Rightarrow> (nat \<Rightarrow> int) \<Rightarrow> nat \<Rightarrow> int list" where
  "frac_blocks p blk x K = concat (map (\<lambda>m. blk (\<lambda>i. x (p * m + i))) [0..<K])"

lemma frac_blocks_Suc: "frac_blocks p blk x (Suc K) = frac_blocks p blk x K @ blk (\<lambda>i. x (p * K + i))"
  by (simp add: frac_blocks_def)

lemma frac_blocks_0 [simp]: "frac_blocks p blk x 0 = []"
  by (simp add: frac_blocks_def)

lemma length_frac_blocks: "(\<And>z. length (blk z) = q) \<Longrightarrow> length (frac_blocks p blk x K) = q * K"
  by (induction K) (simp_all add: frac_blocks_Suc)

text \<open>
  The step \<open>F\<close> that iterates the round \<open>R\<close> in place, output at \<open>out\<close>: each round may rely on the memory
  from the first position it writes on.
\<close>

lemma frac_rounds:
  assumes zero: "F 0 = Some mem" and Suc: "\<And>m. F (Suc m) = Option.bind (F m) (R m)"
    and len: "\<And>z. length (blk z) = q"
    and round: "\<And>m m0. m < K \<Longrightarrow> from_on mem (out + q * m) m0 \<Longrightarrow>
      \<exists>m1. R m m0 = Some m1 \<and> from_on mem (out + q * m + q) m1 \<and> take (out + q * m) m1 = take (out + q * m) m0 \<and>
        seg m1 (out + q * m) q = blk (\<lambda>i. x (p * m + i))"
    and room: "out + q * K \<le> length mem"
  shows "\<exists>m. F K = Some m \<and> from_on mem (out + q * K) m \<and> seg m out (q * K) = frac_blocks p blk x K"
proof -
  have "\<exists>m. F k = Some m \<and> from_on mem (out + q * k) m \<and> seg m out (q * k) = frac_blocks p blk x k" if "k \<le> K" for k
    using that
  proof (induction k)
    case 0
    then show ?case by (simp add: zero from_on_def seg_def)
  next
    case (Suc k)
    then obtain m where m: "F k = Some m" "from_on mem (out + q * k) m" "seg m out (q * k) = frac_blocks p blk x k"
      by auto
    obtain m1 where m1: "R k m = Some m1" "from_on mem (out + q * k + q) m1"
        "take (out + q * k) m1 = take (out + q * k) m" "seg m1 (out + q * k) q = blk (\<lambda>i. x (p * k + i))"
      using round [of k m] m Suc.prems by auto
    have "out + q * k \<le> out + q * K" using Suc.prems by simp
    then have "out + q * k \<le> length mem" using room by linarith
    then have "m1 ! (out + i) = m ! (out + i)" if "i < q * k" for i
      using that arg_cong [OF m1(3), of "\<lambda>l. l ! (out + i)"] m(2) m1(2) by (simp add: from_on_def)
    then have "seg m1 out (q * k) = seg m out (q * k)" by (simp add: seg_def)
    then have "seg m1 out (q * Suc k) = frac_blocks p blk x (Suc k)"
      using m(3) m1(4) seg_add [of m1 out "q * k" q] by (simp add: frac_blocks_Suc add.commute)
    then show ?case using m m1 by (auto simp: assms(2) algebra_simps)
  qed
  from this [of K] show ?thesis by simp
qed

lemma length_coefs [simp]:
  "r < 2 \<Longrightarrow> length (kCoefficients48To32 ! r) = 8" "q < 3 \<Longrightarrow> length (kCoefficients32To24 ! q) = 8"
  "s < 4 \<Longrightarrow> length (kCoefficients44To32 ! s) = 9" 
  by (auto simp: kCoefficients48To32_def kCoefficients32To24_def kCoefficients44To32_def less_Suc_eq numeral_eq_Suc)

text \<open>Two output samples for every three input samples, three for every four.\<close>

definition blk23 :: "(nat \<Rightarrow> int) \<Rightarrow> int list" where
  "blk23 z = [dot (kCoefficients48To32 ! 0) z, dot (kCoefficients48To32 ! 1) (\<lambda>j. z (1 + j))]"

definition blk34 :: "(nat \<Rightarrow> int) \<Rightarrow> int list" where
  "blk34 z = [dot (kCoefficients32To24 ! 0) z, dot (kCoefficients32To24 ! 1) (\<lambda>j. z (1 + j)),
     dot (kCoefficients32To24 ! 2) (\<lambda>j. z (2 + j))]"

lemma length_blk [simp]: "length (blk23 z) = 2" "length (blk34 z) = 3"
  by (simp_all add: blk23_def blk34_def)

lemma upt_2: "[0..<2] = [0, 1::nat]" and upt_3: "[0..<3] = [0, 1, 2::nat]"
  by (simp_all add: upt_conv_Cons)

lemma round48To32_ok:
  assumes b: "from_on mem op m0" and room: "op < ip" "ip + 8 < length mem"
  shows "\<exists>m1. round48To32 m0 ip op = Some m1 \<and> from_on mem (op + 2) m1 \<and> take op m1 = take op m0 \<and>
    seg m1 op 2 = blk23 (\<lambda>i. mem ! (ip + i))"
proof -
  let ?d0 = "dot (kCoefficients48To32 ! 0) (\<lambda>j. mem ! (ip + j))"
  let ?d1 = "dot (kCoefficients48To32 ! 1) (\<lambda>j. mem ! (ip + 1 + j))"
  let ?m1 = "m0[op := ?d0]" let ?m2 = "?m1[op + 1 := ?d1]"
  have len: "length m0 = length mem" by (rule from_on_length [OF b])
  have b1: "from_on mem (op + 1) ?m1" by (rule from_on_upd [OF from_on_mono [OF b]]) simp_all
  have b2: "from_on mem (op + 2) ?m2" by (rule from_on_upd [OF from_on_mono [OF b1]]) simp_all
  have "frac_dot (kCoefficients48To32 ! 0) m0 (\<lambda>j. ip + j) = Some ?d0"
    using room by (intro from_on_dot [OF b]) simp
  moreover have "frac_dot (kCoefficients48To32 ! 1) ?m1 (\<lambda>j. ip + 1 + j) = Some ?d1"
    using room by (intro from_on_dot [OF b1]) simp
  moreover have "seg ?m2 op 2 = [?d0, ?d1]" using room len by (simp add: seg_def upt_2)
  ultimately show ?thesis using room len b2 by (simp add: round48To32_def wr_less blk23_def add.assoc)
qed

lemma round32To24_ok:
  assumes b: "from_on mem op m0" and room: "op \<le> ip" "ip + 9 < length mem"
  shows "\<exists>m1. round32To24 m0 ip op = Some m1 \<and> from_on mem (op + 3) m1 \<and> take op m1 = take op m0 \<and>
    seg m1 op 3 = blk34 (\<lambda>i. mem ! (ip + i))"
proof -
  let ?d0 = "dot (kCoefficients32To24 ! 0) (\<lambda>j. mem ! (ip + j))"
  let ?d1 = "dot (kCoefficients32To24 ! 1) (\<lambda>j. mem ! (ip + 1 + j))"
  let ?d2 = "dot (kCoefficients32To24 ! 2) (\<lambda>j. mem ! (ip + 2 + j))"
  let ?m1 = "m0[op := ?d0]" let ?m2 = "?m1[op + 1 := ?d1]" let ?m3 = "?m2[op + 2 := ?d2]"
  have len: "length m0 = length mem" by (rule from_on_length [OF b])
  have b1: "from_on mem (op + 1) ?m1" by (rule from_on_upd [OF from_on_mono [OF b]]) simp_all
  have b2: "from_on mem (op + 2) ?m2" by (rule from_on_upd [OF from_on_mono [OF b1]]) simp_all
  have b3: "from_on mem (op + 3) ?m3" by (rule from_on_upd [OF from_on_mono [OF b2]]) simp_all
  have "frac_dot (kCoefficients32To24 ! 0) m0 (\<lambda>j. ip + j) = Some ?d0"
    using room by (intro from_on_dot [OF b]) simp
  moreover have "frac_dot (kCoefficients32To24 ! 1) ?m1 (\<lambda>j. ip + 1 + j) = Some ?d1"
    using room by (intro from_on_dot [OF b1]) simp
  moreover have "frac_dot (kCoefficients32To24 ! 2) ?m2 (\<lambda>j. ip + 2 + j) = Some ?d2"
    using room by (intro from_on_dot [OF b2]) simp
  moreover have "seg ?m3 op 3 = [?d0, ?d1, ?d2]" using room len by (simp add: seg_def upt_3)
  ultimately show ?thesis using room len b3 by (simp add: round32To24_def wr_less blk34_def add.assoc)
qed

lemma Resample48khzTo32khz_ok:
  assumes "out < inp" "inp + 3 * K + 6 \<le> length mem"
  shows "\<exists>m. WebRtcSpl_Resample48khzTo32khz K mem inp out = Some m \<and> from_on mem (out + 2 * K) m \<and>
    seg m out (2 * K) = frac_blocks 3 blk23 (\<lambda>i. mem ! (inp + i)) K"
proof (rule frac_rounds [where R = "\<lambda>m mem0. round48To32 mem0 (inp + 3 * m) (out + 2 * m)"])
  fix m m0 assume "m < K" "from_on mem (out + 2 * m) m0"
  then show "\<exists>m1. round48To32 m0 (inp + 3 * m) (out + 2 * m) = Some m1 \<and> from_on mem (out + 2 * m + 2) m1 \<and>
      take (out + 2 * m) m1 = take (out + 2 * m) m0 \<and> seg m1 (out + 2 * m) 2 = blk23 (\<lambda>i. mem ! (inp + (3 * m + i)))"
    using round48To32_ok [of mem "out + 2 * m" m0 "inp + 3 * m"] assms by (simp add: add.assoc)
qed (use assms in simp_all)

lemma Resample32khzTo24khz_ok:
  assumes "out \<le> inp" "inp + 4 * K + 6 \<le> length mem"
  shows "\<exists>m. WebRtcSpl_Resample32khzTo24khz K mem inp out = Some m \<and> from_on mem (out + 3 * K) m \<and>
    seg m out (3 * K) = frac_blocks 4 blk34 (\<lambda>i. mem ! (inp + i)) K"
proof (rule frac_rounds [where R = "\<lambda>m mem0. round32To24 mem0 (inp + 4 * m) (out + 3 * m)"])
  fix m m0 assume "m < K" "from_on mem (out + 3 * m) m0"
  then show "\<exists>m1. round32To24 m0 (inp + 4 * m) (out + 3 * m) = Some m1 \<and> from_on mem (out + 3 * m + 3) m1 \<and>
      take (out + 3 * m) m1 = take (out + 3 * m) m0 \<and> seg m1 (out + 3 * m) 3 = blk34 (\<lambda>i. mem ! (inp + (4 * m + i)))"
    using round32To24_ok [of mem "out + 3 * m" m0 "inp + 4 * m"] assms by (simp add: add.assoc)
qed (use assms in simp_all)

subsection \<open>The symmetric fractional steps\<close>

text \<open>
  The steps 44 to 32 and 32 to 22 use each coefficient row twice: forwards from \<open>a\<close> on and
  backwards from \<open>b\<close> on.
\<close>

lemma length_coefs22 [simp]: "s < 5 \<Longrightarrow> length (kCoefficients32To22 ! s) = 9"
  by (auto simp: kCoefficients32To22_def less_Suc_eq numeral_eq_Suc)

lemma ResampDotProduct_ok:
  assumes "from_on mem B m" "length c = 9" "B \<le> a" "B + 8 \<le> b" "a + 8 < length mem" "b < length mem"
    and "o1 < length mem" "o2 < length mem"
  shows "WebRtcSpl_ResampDotProduct m a b c o1 o2 =
    Some (m[o1 := dot c (\<lambda>j. mem ! (a + j)), o2 := dot c (\<lambda>j. mem ! (b - j))])"
proof -
  have "frac_dot c m (\<lambda>j. a + j) = Some (dot c (\<lambda>j. mem ! (a + j)))"
    using assms by (intro from_on_dot [OF assms(1)]) simp
  moreover have "frac_dot c m (\<lambda>j. b - j) = Some (dot c (\<lambda>j. mem ! (b - j)))"
    using assms by (intro from_on_dot [OF assms(1)]) auto
  ultimately show ?thesis using assms by (simp add: WebRtcSpl_ResampDotProduct_def wr_less from_on_length)
qed

lemma DotProdIntToInt_eq: "WebRtcSpl_DotProdIntToInt = WebRtcSpl_ResampDotProduct"
  by (intro ext) (simp add: WebRtcSpl_DotProdIntToInt_def WebRtcSpl_ResampDotProduct_def)

definition blk811 :: "(nat \<Rightarrow> int) \<Rightarrow> int list" where
  "blk811 z = (let c = (\<lambda>r. dot (kCoefficients44To32 ! r)) in
     [s32 (s32 (z 3 * 32768) + 16384), c 0 z, c 1 (\<lambda>j. z (2 + j)), c 2 (\<lambda>j. z (3 + j)),
      c 3 (\<lambda>j. z (5 + j)), c 2 (\<lambda>j. z (14 - j)), c 1 (\<lambda>j. z (15 - j)), c 0 (\<lambda>j. z (17 - j))])"

definition blk1116 :: "(nat \<Rightarrow> int) \<Rightarrow> int list" where
  "blk1116 z = (let c = (\<lambda>r. dot (kCoefficients32To22 ! r)) in
     [s32 (s32 (z 3 * 32768) + 16384), c 0 z, c 1 (\<lambda>j. z (2 + j)), c 2 (\<lambda>j. z (3 + j)),
      c 3 (\<lambda>j. z (5 + j)), c 4 (\<lambda>j. z (6 + j)), c 4 (\<lambda>j. z (16 - j)), c 3 (\<lambda>j. z (17 - j)),
      c 2 (\<lambda>j. z (19 - j)), c 1 (\<lambda>j. z (20 - j)), c 0 (\<lambda>j. z (22 - j))])"

text \<open>The variant with 16-bit output: the first sample saturated, the others scaled down and saturated.\<close>

definition blk1116s :: "(nat \<Rightarrow> int) \<Rightarrow> int list" where
  "blk1116s z = clip16 (z 3) # map (\<lambda>y. clip16 (asr y 15)) (tl (blk1116 z))"

lemma length_blk811 [simp]: "length (blk811 z) = 8" "length (blk1116 z) = 11" "length (blk1116s z) = 11"
  by (simp_all add: blk811_def blk1116_def blk1116s_def Let_def)

lemma upt_8: "[0..<8] = [0, 1, 2, 3, 4, 5, 6, 7::nat]" and upt_11: "[0..<11] = [0, 1, 2, 3, 4, 5, 6, 7, 8, 9, 10::nat]"
  by (simp_all add: upt_conv_Cons)

text \<open>Reading backwards from \<open>ip + b\<close> stays in the round's window.\<close>

lemma dot_backwards:
  assumes "length c \<le> Suc b"
  shows "dot c (\<lambda>j. f (i + b - j)) = dot c (\<lambda>j. f (i + (b - j)))"
  using assms by (intro dot_cong) simp

lemma round44To32_ok:
  assumes b: "from_on mem op m0" and room: "op + 8 \<le> ip" "ip + 17 < length mem"
  shows "\<exists>m1. round44To32 m0 ip op = Some m1 \<and>
     from_on mem (op + 8) m1 \<and> take op m1 = take op m0 \<and> seg m1 op 8 = blk811 (\<lambda>i. mem ! (ip + i))"
proof -
  let ?c = "\<lambda>r. dot (kCoefficients44To32 ! r)" and ?z = "\<lambda>i. mem ! (ip + i)"
  let ?m1 = "m0[op := s32 (s32 (?z 3 * 32768) + 16384)]"
  let ?m2 = "?m1[op + 4 := ?c 3 (\<lambda>j. mem ! (ip + 5 + j))]"
  let ?m3 = "?m2[op + 1 := ?c 0 (\<lambda>j. mem ! (ip + j)), op + 7 := ?c 0 (\<lambda>j. mem ! (ip + 17 - j))]"
  let ?m4 = "?m3[op + 2 := ?c 1 (\<lambda>j. mem ! (ip + 2 + j)), op + 6 := ?c 1 (\<lambda>j. mem ! (ip + 15 - j))]"
  let ?m5 = "?m4[op + 3 := ?c 2 (\<lambda>j. mem ! (ip + 3 + j)), op + 5 := ?c 2 (\<lambda>j. mem ! (ip + 14 - j))]"
  have f0: "from_on mem (op + 8) m0" by (rule from_on_mono [OF b]) simp
  have f: "from_on mem (op + 8) ?m1" "from_on mem (op + 8) ?m2" "from_on mem (op + 8) ?m3"
    "from_on mem (op + 8) ?m4" "from_on mem (op + 8) ?m5"
    by (intro from_on_upd f0; simp)+
  have len: "length m0 = length mem" by (rule from_on_length [OF b])
  have "rd m0 (ip + 3) = Some (?z 3)" using room f0 len by (simp add: rd_less from_on_nth)
  moreover have "frac_dot (kCoefficients44To32 ! 3) ?m1 (\<lambda>j. ip + 5 + j) = Some (?c 3 (\<lambda>j. mem ! (ip + 5 + j)))"
    using room by (intro from_on_dot [OF f(1)]) simp
  moreover have "WebRtcSpl_ResampDotProduct ?m2 ip (ip + 17) (kCoefficients44To32 ! 0) (op + 1) (op + 7) = Some ?m3"
    using room by (intro ResampDotProduct_ok [OF f(2)]) simp_all
  moreover have "WebRtcSpl_ResampDotProduct ?m3 (ip + 2) (ip + 15) (kCoefficients44To32 ! 1) (op + 2) (op + 6) = Some ?m4"
    using room by (intro ResampDotProduct_ok [OF f(3)]) simp_all
  moreover have "WebRtcSpl_ResampDotProduct ?m4 (ip + 3) (ip + 14) (kCoefficients44To32 ! 2) (op + 3) (op + 5) = Some ?m5"
    using room by (intro ResampDotProduct_ok [OF f(4)]) simp_all
  moreover have "seg ?m5 op 8 = blk811 ?z"
    using room len by (simp add: seg_def upt_8 blk811_def Let_def dot_backwards add.assoc)
  ultimately show ?thesis using room len f(5) by (simp add: round44To32_def wr_less)
qed

lemma Resample44khzTo32khz_ok:
  assumes "out + 8 \<le> inp" "inp + 11 * K + 7 \<le> length mem"
  shows "\<exists>m. WebRtcSpl_Resample44khzTo32khz K mem inp out = Some m \<and> from_on mem (out + 8 * K) m \<and>
    seg m out (8 * K) = frac_blocks 11 blk811 (\<lambda>i. mem ! (inp + i)) K"
proof (rule frac_rounds [where R = "\<lambda>m mem0. round44To32 mem0 (inp + 11 * m) (out + 8 * m)"])
  fix m m0 assume "m < K" "from_on mem (out + 8 * m) m0"
  then show "\<exists>m1. round44To32 m0 (inp + 11 * m) (out + 8 * m) = Some m1 \<and> from_on mem (out + 8 * m + 8) m1 \<and>
      take (out + 8 * m) m1 = take (out + 8 * m) m0 \<and> seg m1 (out + 8 * m) 8 = blk811 (\<lambda>i. mem ! (inp + (11 * m + i)))"
    using round44To32_ok [of mem "out + 8 * m" m0 "inp + 11 * m"] assms by (simp add: add.assoc)
qed (use assms in simp_all)

text \<open>
  In the step 32 to 22 the input may start as little as 10 samples after the output, although a round
  writes 11: the first inner product reads the one sample in danger before it is overwritten, and no
  later one reads it.
\<close>

lemma round32To22_ok:
  assumes b: "from_on mem op m0" and room: "op + 10 \<le> ip" "ip + 22 < length mem"
  shows "\<exists>m1. round32To22 m0 ip op = Some m1 \<and>
     from_on mem (op + 11) m1 \<and> take op m1 = take op m0 \<and> seg m1 op 11 = blk1116 (\<lambda>i. mem ! (ip + i))"
proof -
  let ?c = "\<lambda>r. dot (kCoefficients32To22 ! r)" and ?z = "\<lambda>i. mem ! (ip + i)"
  let ?m1 = "m0[op := s32 (s32 (?z 3 * 32768) + 16384)]"
  let ?m2 = "?m1[op + 1 := ?c 0 (\<lambda>j. mem ! (ip + j)), op + 10 := ?c 0 (\<lambda>j. mem ! (ip + 22 - j))]"
  let ?m3 = "?m2[op + 2 := ?c 1 (\<lambda>j. mem ! (ip + 2 + j)), op + 9 := ?c 1 (\<lambda>j. mem ! (ip + 20 - j))]"
  let ?m4 = "?m3[op + 3 := ?c 2 (\<lambda>j. mem ! (ip + 3 + j)), op + 8 := ?c 2 (\<lambda>j. mem ! (ip + 19 - j))]"
  let ?m5 = "?m4[op + 4 := ?c 3 (\<lambda>j. mem ! (ip + 5 + j)), op + 7 := ?c 3 (\<lambda>j. mem ! (ip + 17 - j))]"
  let ?m6 = "?m5[op + 5 := ?c 4 (\<lambda>j. mem ! (ip + 6 + j)), op + 6 := ?c 4 (\<lambda>j. mem ! (ip + 16 - j))]"
  have f0: "from_on mem (op + 10) m0" "from_on mem (op + 11) m0" by (rule from_on_mono [OF b]; simp)+
  have f1: "from_on mem (op + 10) ?m1" by (intro from_on_upd f0; simp)
  have f: "from_on mem (op + 11) ?m2" "from_on mem (op + 11) ?m3" "from_on mem (op + 11) ?m4"
    "from_on mem (op + 11) ?m5" "from_on mem (op + 11) ?m6"
    by (intro from_on_upd f0; simp)+
  have len: "length m0 = length mem" by (rule from_on_length [OF b])
  have "rd m0 (ip + 3) = Some (?z 3)" using room f0 len by (simp add: rd_less from_on_nth)
  moreover have "WebRtcSpl_ResampDotProduct ?m1 ip (ip + 22) (kCoefficients32To22 ! 0) (op + 1) (op + 10) = Some ?m2"
    using room by (intro ResampDotProduct_ok [OF f1]) simp_all
  moreover have "WebRtcSpl_ResampDotProduct ?m2 (ip + 2) (ip + 20) (kCoefficients32To22 ! 1) (op + 2) (op + 9) = Some ?m3"
    using room by (intro ResampDotProduct_ok [OF f(1)]) simp_all
  moreover have "WebRtcSpl_ResampDotProduct ?m3 (ip + 3) (ip + 19) (kCoefficients32To22 ! 2) (op + 3) (op + 8) = Some ?m4"
    using room by (intro ResampDotProduct_ok [OF f(2)]) simp_all
  moreover have "WebRtcSpl_ResampDotProduct ?m4 (ip + 5) (ip + 17) (kCoefficients32To22 ! 3) (op + 4) (op + 7) = Some ?m5"
    using room by (intro ResampDotProduct_ok [OF f(3)]) simp_all
  moreover have "WebRtcSpl_ResampDotProduct ?m5 (ip + 6) (ip + 16) (kCoefficients32To22 ! 4) (op + 5) (op + 6) = Some ?m6"
    using room by (intro ResampDotProduct_ok [OF f(4)]) simp_all
  moreover have "seg ?m6 op 11 = blk1116 ?z"
    using room len by (simp add: seg_def upt_11 blk1116_def Let_def dot_backwards add.assoc)
  ultimately show ?thesis using room len f(5) by (simp add: round32To22_def DotProdIntToInt_eq wr_less)
qed

lemma Resample32khzTo22khzIntToInt_ok:
  assumes "out + 10 \<le> inp" "inp + 16 * K + 7 \<le> length mem"
  shows "\<exists>m. WebRtcSpl_32khzTo22khzIntToInt K mem inp out = Some m \<and> from_on mem (out + 11 * K) m \<and>
    seg m out (11 * K) = frac_blocks 16 blk1116 (\<lambda>i. mem ! (inp + i)) K"
proof (rule frac_rounds [where R = "\<lambda>m mem0. round32To22 mem0 (inp + 16 * m) (out + 11 * m)"])
  fix m m0 assume "m < K" "from_on mem (out + 11 * m) m0"
  then show "\<exists>m1. round32To22 m0 (inp + 16 * m) (out + 11 * m) = Some m1 \<and> from_on mem (out + 11 * m + 11) m1 \<and>
      take (out + 11 * m) m1 = take (out + 11 * m) m0 \<and> seg m1 (out + 11 * m) 11 = blk1116 (\<lambda>i. mem ! (inp + (16 * m + i)))"
    using round32To22_ok [of mem "out + 11 * m" m0 "inp + 16 * m"] assms by (simp add: add.assoc)
qed (use assms in simp_all)

text \<open>The variant with 16-bit output writes to a block of its own.\<close>

lemma DotProdIntToShort_ok:
  assumes "length c = 9" "8 \<le> b" "a + 8 < length mem" "b < length mem" "o1 < length out" "o2 < length out"
  shows "WebRtcSpl_DotProdIntToShort mem a b c out o1 o2 =
    Some (out[o1 := clip16 (asr (dot c (\<lambda>j. mem ! (a + j))) 15), o2 := clip16 (asr (dot c (\<lambda>j. mem ! (b - j))) 15)])"
proof -
  have "frac_dot c mem (\<lambda>j. a + j) = Some (dot c (\<lambda>j. mem ! (a + j)))" using assms by (intro frac_dot_ok) simp
  moreover have "frac_dot c mem (\<lambda>j. b - j) = Some (dot c (\<lambda>j. mem ! (b - j)))" using assms by (intro frac_dot_ok) simp
  ultimately show ?thesis using assms by (simp add: WebRtcSpl_DotProdIntToShort_def wr_less)
qed

lemma round32To22Short_ok:
  assumes b: "from_on out op o0" and room: "op + 11 \<le> length out" "ip + 22 < length mem"
  shows "\<exists>o1. round32To22Short mem ip op o0 = Some o1 \<and>
     from_on out (op + 11) o1 \<and> take op o1 = take op o0 \<and> seg o1 op 11 = blk1116s (\<lambda>i. mem ! (ip + i))"
proof -
  let ?c = "\<lambda>r x. clip16 (asr (dot (kCoefficients32To22 ! r) x) 15)"
  let ?o = "o0[op := clip16 (mem ! (ip + 3)),
    op + 1 := ?c 0 (\<lambda>j. mem ! (ip + j)), op + 10 := ?c 0 (\<lambda>j. mem ! (ip + 22 - j)),
    op + 2 := ?c 1 (\<lambda>j. mem ! (ip + 2 + j)), op + 9 := ?c 1 (\<lambda>j. mem ! (ip + 20 - j)),
    op + 3 := ?c 2 (\<lambda>j. mem ! (ip + 3 + j)), op + 8 := ?c 2 (\<lambda>j. mem ! (ip + 19 - j)),
    op + 4 := ?c 3 (\<lambda>j. mem ! (ip + 5 + j)), op + 7 := ?c 3 (\<lambda>j. mem ! (ip + 17 - j)),
    op + 5 := ?c 4 (\<lambda>j. mem ! (ip + 6 + j)), op + 6 := ?c 4 (\<lambda>j. mem ! (ip + 16 - j))]"
  have len: "length o0 = length out" by (rule from_on_length [OF b])
  have "from_on out (op + 11) o0" by (rule from_on_mono [OF b]) simp
  then have "from_on out (op + 11) ?o" by (intro from_on_upd; simp)
  moreover have "seg ?o op 11 = blk1116s (\<lambda>i. mem ! (ip + i))"
    using room len by (simp add: seg_def upt_11 blk1116s_def blk1116_def Let_def dot_backwards add.assoc)
  moreover have "round32To22Short mem ip op o0 = Some ?o"
    using room len by (simp add: round32To22Short_def rd_less wr_less DotProdIntToShort_ok)
  ultimately show ?thesis by simp
qed

lemma Resample32khzTo22khzIntToShort_ok:
  assumes "11 * K \<le> length out" "inp + 16 * K + 7 \<le> length mem"
  shows "WebRtcSpl_32khzTo22khzIntToShort K mem inp out =
    Some (frac_blocks 16 blk1116s (\<lambda>i. mem ! (inp + i)) K @ drop (11 * K) out)"
proof -
  have "\<exists>m. WebRtcSpl_32khzTo22khzIntToShort K mem inp out = Some m \<and> from_on out (0 + 11 * K) m \<and>
      seg m 0 (11 * K) = frac_blocks 16 blk1116s (\<lambda>i. mem ! (inp + i)) K"
  proof (rule frac_rounds [where R = "\<lambda>m out0. round32To22Short mem (inp + 16 * m) (11 * m) out0"])
    fix m o0 assume "m < K" "from_on out (0 + 11 * m) o0"
    then show "\<exists>m1. round32To22Short mem (inp + 16 * m) (11 * m) o0 = Some m1 \<and> from_on out (0 + 11 * m + 11) m1 \<and>
        take (0 + 11 * m) m1 = take (0 + 11 * m) o0 \<and> seg m1 (0 + 11 * m) 11 = blk1116s (\<lambda>i. mem ! (inp + (16 * m + i)))"
      using round32To22Short_ok [of out "11 * m" o0 "inp + 16 * m" mem] assms by (simp add: add.assoc)
  qed (use assms in simp_all)
  then obtain m where m: "WebRtcSpl_32khzTo22khzIntToShort K mem inp out = Some m" "from_on out (11 * K) m"
      "seg m 0 (11 * K) = frac_blocks 16 blk1116s (\<lambda>i. mem ! (inp + i)) K" by auto
  then have "kept out 0 (11 * K) m" by (simp add: kept_def from_on_def)
  from seg_append_drop [OF this assms(1)] m show ?thesis by simp
qed

end
