(* ===== verification/Resample_Stream.thy ===== *)
theory Resample_Stream
  imports Resample
begin

text \<open>
  The steps of theory \<open>Resample\<close> as block streams: locale \<open>block_stream\<close> is what a chain of steps and a
  caller that feeds frames rely on, and it is interpreted for every step.  Locale
  \<open>frame_resampler\<close> is the contract of a whole resampler, with the caller's loop over frames.
\<close>

section \<open>Block streams\<close>

text \<open>
  What a client of the steps relies on: a step processes a signal in blocks of a multiple of \<open>p\<close>
  samples, gives \<open>q\<close> samples for every \<open>p\<close>, and cutting the signal into blocks does not change the
  output, as long as the state is carried from block to block.
\<close>

locale block_stream =
  fixes p q :: nat and run :: "int list \<Rightarrow> 's \<Rightarrow> int list \<times> 's" and inv :: "'s \<Rightarrow> bool"
  assumes p_pos: "0 < p"
    and run_Nil: "inv s \<Longrightarrow> run [] s = ([], s)"
    and run_append: "inv s \<Longrightarrow> p dvd length xs \<Longrightarrow> p dvd length ys \<Longrightarrow>
      run (xs @ ys) s = (fst (run xs s) @ fst (run ys (snd (run xs s))), snd (run ys (snd (run xs s))))"
    and run_length: "inv s \<Longrightarrow> p dvd length xs \<Longrightarrow> length (fst (run xs s)) = length xs div p * q"
    and run_inv: "inv s \<Longrightarrow> p dvd length xs \<Longrightarrow> inv (snd (run xs s))"
begin

text \<open>Processing a list of blocks, one after the other.\<close>

primrec run_blocks :: "int list list \<Rightarrow> 's \<Rightarrow> int list \<times> 's" where
  "run_blocks [] s = ([], s)"
| "run_blocks (xs # xss) s =
     (let (ys, s') = run xs s; (zs, s'') = run_blocks xss s' in (ys @ zs, s''))"

lemma dvd_concat: "\<forall>xs \<in> set xss. p dvd length xs \<Longrightarrow> p dvd length (concat xss)"
  by (induction xss) auto

lemma run_blocks_concat:
  "inv s \<Longrightarrow> \<forall>xs \<in> set xss. p dvd length xs \<Longrightarrow> run_blocks xss s = run (concat xss) s"
  by (induction xss arbitrary: s) (simp_all add: run_Nil run_append run_inv dvd_concat split_beta Let_def)

end

text \<open>Two streams one after the other.\<close>

definition pipe ::
    "(int list \<Rightarrow> 's \<Rightarrow> int list \<times> 's) \<Rightarrow> (int list \<Rightarrow> 't \<Rightarrow> int list \<times> 't) \<Rightarrow> int list \<Rightarrow> 's \<times> 't \<Rightarrow> int list \<times> ('s \<times> 't)" where
  "pipe f g xs st =
     (let (ys, s') = f xs (fst st); (zs, t') = g ys (snd st) in (zs, (s', t')))"

lemma fst_pipe: "fst (pipe f g xs st) = fst (g (fst (f xs (fst st))) (snd st))"
  and snd_pipe: "snd (pipe f g xs st) = (snd (f xs (fst st)), snd (g (fst (f xs (fst st))) (snd st)))"
  by (simp_all add: pipe_def split_beta Let_def)

lemma pipe_stream:
  assumes f: "block_stream p q f I" and g: "block_stream p' q' g J"
    and N: "0 < N" "p dvd N" "p' dvd N div p * q"
  shows "block_stream N (N div p * q div p' * q') (pipe f g) (\<lambda>st. I (fst st) \<and> J (snd st))"
proof -
  have p: "0 < p" by (rule block_stream.p_pos [OF f])
  have len: "length (fst (f xs s)) = n * (N div p * q)" "p dvd length xs" "p' dvd length (fst (f xs s))"
    if "I s" "length xs = N * n" for xs s n
  proof -
    show d: "p dvd length xs" using that N by simp
    show l: "length (fst (f xs s)) = n * (N div p * q)"
      using block_stream.run_length [OF f that(1) d] that N(2) p by (auto simp: ac_simps elim!: dvdE)
    show "p' dvd length (fst (f xs s))" using l N(3) by simp
  qed
  show ?thesis
  proof (unfold_locales, goal_cases)
    case 1 then show ?case by (rule N(1))
  next
    case (2 s) then show ?case
      by (simp add: pipe_def block_stream.run_Nil [OF f] block_stream.run_Nil [OF g])
  next
    case (3 s xs ys)
    then obtain n m where nm: "length xs = N * n" "length ys = N * m" by (auto elim!: dvdE)
    have I': "I (snd (f xs (fst s)))"
      using 3 block_stream.run_inv [OF f _ len(2) [OF _ nm(1)], of "fst s" "fst s"] by simp
    have d: "p dvd length xs" "p dvd length ys" "p' dvd length (fst (f xs (fst s)))"
        "p' dvd length (fst (f ys (snd (f xs (fst s)))))"
      using 3 nm I' len(2,3) [of "fst s" xs n] len(2,3) [of "snd (f xs (fst s))" ys m] by simp_all
    show ?case
      using 3 I' d
      by (simp add: prod_eq_iff fst_pipe snd_pipe block_stream.run_append [OF f] block_stream.run_append [OF g])
  next
    case (4 s xs)
    then obtain n where n: "length xs = N * n" by (auto elim!: dvdE)
    have "length (fst (f xs (fst s))) div p' = n * (N div p * q div p')"
      using len [of "fst s" xs n] 4 n N(3) by (simp add: div_mult_swap)
    then show ?case
      using 4 n len [of "fst s" xs n] N(1) by (simp add: fst_pipe block_stream.run_length [OF g])
  next
    case (5 s xs)
    then obtain n where "length xs = N * n" by (auto elim!: dvdE)
    then show ?case
      using 5 len [of "fst s" xs n] by (simp add: snd_pipe block_stream.run_inv [OF f] block_stream.run_inv [OF g])
  qed
qed

section \<open>The sections of a state do not interfere\<close>

lemma allpass_other: "j < k \<or> k + 4 \<le> j \<Longrightarrow> allpass r k x st ! j = st ! j"
  by (auto simp: allpass_def Let_def)

lemma allpass_slice:
  assumes "\<forall>i<4. s ! (k + i) = t ! (k + i)" "length s = length t" "k + 4 \<le> length t" "i < 4"
  shows "allpass r k x s ! (k + i) = allpass r k x t ! (k + i)"
proof -
  have "s ! k = t ! k" "s ! (k + 1) = t ! (k + 1)" "s ! (k + 2) = t ! (k + 2)" "s ! (k + 3) = t ! (k + 3)"
    using assms(1)[rule_format, of 0] assms(1)[rule_format, of 1] assms(1)[rule_format, of 2]
      assms(1)[rule_format, of 3] by simp_all
  moreover have "i = 0 \<or> i = 1 \<or> i = 2 \<or> i = 3" using assms(4) by linarith
  ultimately show ?thesis using assms(2,3) by (auto simp: allpass_def Let_def)
qed

definition apart :: "nat \<Rightarrow> nat \<Rightarrow> int list \<Rightarrow> bool" where
  "apart k k' st \<longleftrightarrow> (k + 4 \<le> k' \<or> k' + 4 \<le> k) \<and> k + 4 \<le> length st \<and> k' + 4 \<le> length st"

lemma apart_sym: "apart k k' st \<Longrightarrow> apart k' k st"
  by (auto simp: apart_def)

lemma apart_allpass [simp]: "apart k k' (allpass r k'' x st) = apart k k' st"
  by (simp add: apart_def)

lemma allpass_independent:
  assumes "apart k k' st" "i < 4"
  shows "allpass r k x (allpass r' k' y st) ! (k + i) = allpass r k x st ! (k + i)"
proof (rule allpass_slice)
  show "\<forall>i<4. allpass r' k' y st ! (k + i) = st ! (k + i)"
    using assms by (auto simp: apart_def intro!: allpass_other)
qed (use assms in \<open>simp_all add: apart_def\<close>)

lemma allpass_commute:
  assumes "apart k k' st"
  shows "allpass r k x (allpass r' k' y st) = allpass r' k' y (allpass r k x st)"
proof (rule nth_equalityI)
  fix j assume "j < length (allpass r k x (allpass r' k' y st))"
  consider i where "i < 4" "j = k + i" | i where "i < 4" "j = k' + i" | "j < k \<or> k + 4 \<le> j" "j < k' \<or> k' + 4 \<le> j"
    by (metis add.commute less_diff_conv2 linorder_not_less ordered_cancel_comm_monoid_diff_class.add_diff_inverse)
  then show "allpass r k x (allpass r' k' y st) ! j = allpass r' k' y (allpass r k x st) ! j"
  proof cases
    case 1
    then have "allpass r' k' y (allpass r k x st) ! j = allpass r k x st ! j"
      using assms by (intro allpass_other) (auto simp: apart_def)
    then show ?thesis using 1 assms by (simp add: allpass_independent)
  next
    case 2
    then have "allpass r k x (allpass r' k' y st) ! j = allpass r' k' y st ! j"
      using assms by (intro allpass_other) (auto simp: apart_def)
    then show ?thesis using 2 allpass_independent [OF apart_sym [OF assms]] by simp
  next
    case 3
    then show ?thesis by (simp add: allpass_other)
  qed
qed simp

lemma ap_st_allpass: "apart k k' st \<Longrightarrow> ap_st r k (allpass r' k' y st) xs = allpass r' k' y (ap_st r k st xs)"
proof (induction xs arbitrary: st)
  case (Cons a xs)
  then show ?case using allpass_commute [of k k' st r a r' y] by simp
qed simp

lemma apart_ap_st [simp]: "apart k k' (ap_st r k'' st xs) = apart k k' st"
  by (simp add: apart_def)

lemma ap_st_commute: "apart k k' st \<Longrightarrow> ap_st r k (ap_st r' k' st ys) xs = ap_st r' k' (ap_st r k st xs) ys"
  by (induction ys arbitrary: st) (simp_all add: ap_st_allpass)

lemma ap_outs_allpass: "apart k k' st \<Longrightarrow> ap_outs r k (allpass r' k' y st) xs = ap_outs r k st xs"
proof (induction xs arbitrary: st)
  case (Cons a xs)
  then show ?case using allpass_commute [of k k' st r a r' y] allpass_independent [of k k' st 3 r a r' y]
    by (simp add: Let_def)
qed simp

lemma ap_outs_independent: "apart k k' st \<Longrightarrow> ap_outs r k (ap_st r' k' st ys) xs = ap_outs r k st xs"
  by (induction ys arbitrary: st) (simp_all add: ap_outs_allpass)

lemma ap_st_other: "j < k \<or> k + 4 \<le> j \<Longrightarrow> ap_st r k st xs ! j = st ! j"
  by (induction xs arbitrary: st) (simp_all add: allpass_other)

lemma ap_st_at: "k + 4 \<le> length st \<Longrightarrow> ap_st r k st xs ! k = last (st ! k # xs)"
  by (induction xs arbitrary: st) (simp_all add: allpass_def Let_def)

section \<open>The steps as block streams\<close>

lemma interleave_append: "length xs = length ys \<Longrightarrow> interleave (xs @ as) (ys @ bs) = interleave xs ys @ interleave as bs"
  by (induction xs ys rule: list_induct2) simp_all

lemma half_append:
  assumes "length xs = 2 * n"
  shows "evens (xs @ ys) (n + m) = evens xs n @ evens ys m" "odds (xs @ ys) (n + m) = odds xs n @ odds ys m"
  by (rule nth_equalityI; use assms in \<open>auto simp: nth_append not_less dest!: le_Suc_ex\<close>)+

interpretation up: block_stream 1 2 "\<lambda>xs. up2 h (map g xs)" "\<lambda>st. length st = 8" for h g
proof (unfold_locales, goal_cases)
  case (3 s xs ys)
  then have a: "apart 4 0 s" "apart 0 4 s" by (simp_all add: apart_def)
  show ?case
    by (simp add: up2_def Let_def ap_st_append ap_outs_append interleave_append ap_outs_independent
        ap_st_commute [of 4 0] a)
qed (simp_all add: up2_def Let_def)

lemma half_map: "n * 2 \<le> length xs \<Longrightarrow> evens (map g xs) n = map g (evens xs n)" "n * 2 \<le> length xs \<Longrightarrow> odds (map g xs) n = map g (odds xs n)"
  by (auto simp: evens_def odds_def)

lemma half_0 [simp]: "evens xs 0 = []" "odds xs 0 = []"
  by (simp_all add: evens_def odds_def)

lemma delayed_Nil [simp]: "delayed t [] = []"
  by (simp add: delayed_def)

lemma delayed_append: "delayed t (xs @ ys) = delayed t xs @ delayed (last (t # xs)) ys"
  by (induction xs arbitrary: t) (auto simp: delayed_def)

lemma evenE_length:
  assumes "2 dvd length xs"
  obtains n where "length xs = 2 * n"
  using assms by (auto elim: dvdE)

interpretation down: block_stream 2 1 "\<lambda>xs st. (map w (fst (down2 (map g xs) (length xs div 2) st)), snd (down2 (map g xs) (length xs div 2) st))"
  "\<lambda>st. length st = 8" for g w
proof (unfold_locales, goal_cases)
  case (3 s xs ys)
  then have a: "apart 4 0 s" "apart 0 4 s" by (simp_all add: apart_def)
  obtain n m where n: "length xs = 2 * n" "length ys = 2 * m" using 3 by (metis evenE_length)
  have h: "evens (map g (xs @ ys)) (n + m) = evens (map g xs) n @ evens (map g ys) m"
    "odds (map g (xs @ ys)) (n + m) = odds (map g xs) n @ odds (map g ys) m"
    using n by (simp_all add: half_append)
  show ?case using n h
    by (simp add: down2_def Let_def ap_st_append ap_outs_append ap_outs_independent ap_st_commute [of 0 4] a)
qed (simp_all add: down2_def Let_def)

lemma ap_outs_inner: "apart k k' st \<Longrightarrow> ap_outs r k (ap_st r k (ap_st r' k' st ys) xs) zs = ap_outs r k (ap_st r k st xs) zs"
  by (metis ap_st_commute ap_outs_independent apart_ap_st)

text \<open>The lowpass filter with the delayed odd samples \<open>dd\<close> as an argument of their own.\<close>

definition lp_core :: "int list \<Rightarrow> int list \<Rightarrow> int list \<Rightarrow> int list \<Rightarrow> int list \<times> int list" where
  "lp_core dd e d st =
     (let st1 = ap_st 1 0 st dd; st2 = ap_st 0 4 st1 e; st3 = ap_st 1 8 st2 e
      in (interleave (map2 lp_avg (ap_outs 1 0 st dd) (ap_outs 0 4 st1 e))
            (map2 lp_avg (ap_outs 1 8 st2 e) (ap_outs 0 12 st3 d)),
          ap_st 0 12 st3 d))"

lemma lp2_core: "lp2 xs n st = lp_core (delayed (st ! 12) (odds xs n)) (evens xs n) (odds xs n) st"
  by (simp add: lp2_def lp_core_def Let_def)

lemma lp_core_append:
  assumes "length s = 16" "length dd = length e" "length d = length e" "length dd' = length e'" "length d' = length e'"
  shows "lp_core (dd @ dd') (e @ e') (d @ d') s =
    (fst (lp_core dd e d s) @ fst (lp_core dd' e' d' (snd (lp_core dd e d s))),
     snd (lp_core dd' e' d' (snd (lp_core dd e d s))))"
proof -
  have a: "apart 0 4 s" "apart 0 8 s" "apart 0 12 s" "apart 4 0 s" "apart 4 8 s" "apart 4 12 s"
    "apart 8 0 s" "apart 8 4 s" "apart 8 12 s" "apart 12 0 s" "apart 12 4 s" "apart 12 8 s"
    using assms(1) by (simp_all add: apart_def)
  show ?thesis
    by (simp add: lp_core_def Let_def ap_st_append ap_outs_append interleave_append assms ap_outs_independent
        ap_outs_inner a ap_st_commute [of 0 4] ap_st_commute [of 0 8] ap_st_commute [of 0 12] ap_st_commute [of 4 8]
        ap_st_commute [of 4 12] ap_st_commute [of 8 12])
qed

interpretation lp: block_stream 2 2 "\<lambda>xs. lp2 (map g xs) (length xs div 2)" "\<lambda>st. length st = 16" for g
proof (unfold_locales, goal_cases)
  case (3 s xs ys)
  obtain n m where n: "length xs = 2 * n" "length ys = 2 * m" using 3 by (metis evenE_length)
  let ?X = "map g xs" and ?Y = "map g ys"
  have h: "evens (map g (xs @ ys)) (n + m) = evens ?X n @ evens ?Y m"
    "odds (map g (xs @ ys)) (n + m) = odds ?X n @ odds ?Y m"
    using n by (simp_all add: half_append)
  have "snd (lp2 ?X n s) ! 12 = last (s ! 12 # odds ?X n)"
    using 3 by (simp add: lp2_def Let_def ap_st_at ap_st_other)
  then have d: "delayed (s ! 12) (odds ?X n @ odds ?Y m) = delayed (s ! 12) (odds ?X n) @ delayed (snd (lp2 ?X n s) ! 12) (odds ?Y m)"
    by (simp only: delayed_append)
  have l: "length (xs @ ys) div 2 = n + m" "length xs div 2 = n" "length ys div 2 = m" using n by simp_all
  have "lp2 (map g (xs @ ys)) (n + m) s = (fst (lp2 ?X n s) @ fst (lp2 ?Y m (snd (lp2 ?X n s))), snd (lp2 ?Y m (snd (lp2 ?X n s))))"
    unfolding lp2_core [of "map g (xs @ ys)"] h d lp2_core [of ?Y] using 3(1)
    by (simp add: lp_core_append lp2_core [symmetric])
  then show ?case unfolding l .
qed (simp_all add: lp2_def Let_def)

text \<open>
  A fractional step carries the last eight samples of the previous block in front of its input; a
  round looks at most eight samples past its own.
\<close>

definition frac_run :: "nat \<Rightarrow> ((nat \<Rightarrow> int) \<Rightarrow> int list) \<Rightarrow> int list \<Rightarrow> int list \<Rightarrow> int list \<times> int list" where
  "frac_run p blk xs h = (frac_blocks p blk (\<lambda>i. (h @ xs) ! i) (length xs div p), drop (length xs) (h @ xs))"

lemma frac_blocks_cong:
  assumes "\<And>z z'. (\<And>i. i < p + 8 \<Longrightarrow> z i = z' i) \<Longrightarrow> blk z = blk z'" "\<And>i. i < p * K + 8 \<Longrightarrow> x i = y i"
  shows "frac_blocks p blk x K = frac_blocks p blk y K"
  using assms(2)
proof (induction K)
  case (Suc K)
  have "blk (\<lambda>i. x (p * K + i)) = blk (\<lambda>i. y (p * K + i))" using Suc.prems by (intro assms(1)) simp
  then show ?case using Suc by (simp add: frac_blocks_Suc)
qed simp

lemma frac_blocks_add: "frac_blocks p blk x (K + M) = frac_blocks p blk x K @ frac_blocks p blk (\<lambda>i. x (p * K + i)) M"
  by (induction M) (simp_all add: frac_blocks_Suc add.assoc distrib_left)

lemma frac_stream:
  assumes "0 < p" "\<And>z. length (blk z) = q" "\<And>z z'. (\<And>i. i < p + 8 \<Longrightarrow> z i = z' i) \<Longrightarrow> blk z = blk z'"
  shows "block_stream p q (frac_run p blk) (\<lambda>h. length h = 8)"
proof (unfold_locales, goal_cases)
  case (3 h xs ys)
  then obtain n m where n: "length xs = p * n" "length ys = p * m" by (auto elim!: dvdE)
  have len: "length (h @ xs) = p * n + 8" using 3 n by simp
  have l: "length (xs @ ys) div p = n + m" "length xs div p = n" "length ys div p = m"
    using n assms(1) by (simp_all flip: distrib_left)
  have l': "p * n div p = n" "p * m div p = m" using assms(1) by simp_all
  have "frac_blocks p blk (\<lambda>i. (h @ xs @ ys) ! i) n = frac_blocks p blk (\<lambda>i. (h @ xs) ! i) n"
    using len by (intro frac_blocks_cong assms(3)) (auto simp: nth_append)
  moreover have dr: "drop (p * n) (h @ xs) @ ys = drop (p * n) (h @ xs @ ys)"
    using len drop_append [of "p * n" "h @ xs" ys] by simp
  then have "frac_blocks p blk (\<lambda>i. (h @ xs @ ys) ! (p * n + i)) m =
      frac_blocks p blk (\<lambda>i. (drop (p * n) (h @ xs) @ ys) ! i) m"
    using len n 3(1) by (intro frac_blocks_cong assms(3)) (simp_all del: drop_append)
  moreover have "drop (p * n + p * m) (h @ xs @ ys) = drop (p * m) (drop (p * n) (h @ xs) @ ys)"
    unfolding dr by (simp add: add.commute del: drop_append)
  moreover have "length (xs @ ys) = p * n + p * m" using n by simp
  ultimately show ?case
    unfolding frac_run_def l frac_blocks_add fst_conv snd_conv n by (simp only: l')
qed (use assms(1,2) in \<open>simp_all add: frac_run_def length_frac_blocks\<close>)

lemma blk_local:
  "(\<And>i. i < 3 + 8 \<Longrightarrow> z i = z' i) \<Longrightarrow> blk23 z = blk23 z'"
  "(\<And>i. i < 4 + 8 \<Longrightarrow> z i = z' i) \<Longrightarrow> blk34 z = blk34 z'"
  "(\<And>i. i < 11 + 8 \<Longrightarrow> z i = z' i) \<Longrightarrow> blk811 z = blk811 z'"
  "(\<And>i. i < 16 + 8 \<Longrightarrow> z i = z' i) \<Longrightarrow> blk1116 z = blk1116 z'"
  by (auto simp: blk23_def blk34_def blk811_def blk1116_def Let_def intro!: dot_cong)

lemma blk1116s_local: "(\<And>i. i < 16 + 8 \<Longrightarrow> z i = z' i) \<Longrightarrow> blk1116s z = blk1116s z'"
  using blk_local(4) [of z z'] by (simp add: blk1116s_def)

interpretation frac23: block_stream 3 2 "frac_run 3 blk23" "\<lambda>h. length h = 8"
  by (rule frac_stream) (simp, simp, rule blk_local(1), simp)

interpretation frac34: block_stream 4 3 "frac_run 4 blk34" "\<lambda>h. length h = 8"
  by (rule frac_stream) (simp, simp, rule blk_local(2), simp)

interpretation frac811: block_stream 11 8 "frac_run 11 blk811" "\<lambda>h. length h = 8"
  by (rule frac_stream) (simp, simp, rule blk_local(3), simp)

interpretation frac1116: block_stream 16 11 "frac_run 16 blk1116" "\<lambda>h. length h = 8"
  by (rule frac_stream) (simp, simp, rule blk_local(4), simp)

interpretation frac1116s: block_stream 16 11 "frac_run 16 blk1116s" "\<lambda>h. length h = 8"
  by (rule frac_stream) (simp, simp, rule blk1116s_local, simp)

text \<open>
  How the chains hand the history of a fractional step over: eight old samples are copied in front
  of the \<open>n\<close> new ones at \<open>c + 8\<close>, and the last eight of them all are saved for the next block.
\<close>

lemma frac_stage:
  assumes "\<And>z z'. (\<And>i. i < p + 8 \<Longrightarrow> z i = z' i) \<Longrightarrow> blk z = blk z'"
    and "length h = 8" "c + 8 + n \<le> length m1" "n = p * K" "0 < p"
  obtains m2 where "memcpy m1 c h 0 8 = Some m2"
    "memcpy h 0 m2 (c + n) 8 = Some (snd (frac_run p blk (seg m1 (c + 8) n) h))"
    "length m2 = length m1" "frac_blocks p blk (\<lambda>i. m2 ! (c + i)) K = fst (frac_run p blk (seg m1 (c + 8) n) h)"
proof -
  let ?m2 = "take c m1 @ h @ drop (c + 8) m1"
  have len: "length ?m2 = length m1" using assms by simp
  have "drop c ?m2 = h @ drop (c + 8) m1" using assms by simp
  moreover have "take n (drop (c + 8) m1) = seg m1 (c + 8) n"
    using assms by (intro nth_equalityI) simp_all
  ultimately have t: "take (8 + n) (drop c ?m2) = h @ seg m1 (c + 8) n" using assms by simp
  have nth: "?m2 ! (c + i) = (h @ seg m1 (c + 8) n) ! i" if "i < p * K + 8" for i
  proof -
    have "(h @ seg m1 (c + 8) n) ! i = drop c ?m2 ! i" unfolding t [symmetric]
      by (rule nth_take) (use that assms(4) in simp)
    then show ?thesis using that len assms by (simp del: drop_append)
  qed
  have "take 8 (drop (c + n) ?m2) = drop n (take (8 + n) (drop c ?m2))"
    by (simp add: take_drop ac_simps del: drop_append take_append)
  then have "take 8 (drop (c + n) ?m2) = drop n (h @ seg m1 (c + 8) n)" unfolding t .
  then have "memcpy h 0 ?m2 (c + n) 8 = Some (snd (frac_run p blk (seg m1 (c + 8) n) h))"
    using assms(2,3) len by (simp add: memcpy_def frac_run_def del: drop_append take_append length_append)
  moreover have "memcpy m1 c h 0 8 = Some ?m2" using assms by (simp add: memcpy_def)
  moreover have "frac_blocks p blk (\<lambda>i. ?m2 ! (c + i)) K = fst (frac_run p blk (seg m1 (c + 8) n) h)"
    using assms(4,5) nth by (simp add: frac_run_def) (intro frac_blocks_cong assms(1); simp)
  ultimately show thesis using that len by blast
qed

section \<open>Frames through a resampler\<close>

text \<open>A caller's loop: frame after frame through the resampler \<open>f\<close>, into the output buffer \<open>out\<close>.\<close>

primrec resample_frames ::
    "(int list \<Rightarrow> int list \<Rightarrow> 'st \<Rightarrow> int list \<Rightarrow> (int list \<times> 'st \<times> int list) option) \<Rightarrow>
     int list list \<Rightarrow> int list \<Rightarrow> 'st \<Rightarrow> int list \<Rightarrow> (int list \<times> 'st) option" where
  "resample_frames f [] out st mem = Some ([], st)"
| "resample_frames f (xs # xss) out st mem = do {
     (ys, st', mem') \<leftarrow> f xs out st mem;
     (zs, st'') \<leftarrow> resample_frames f xss out st' mem';
     Some (ys @ zs, st'')
   }"

text \<open>
  The contract of a resampler for its callers: with buffers of the documented sizes it returns, and
  one frame is one block of the stream \<open>run\<close>, for the part \<open>abs\<close> of its state.
\<close>

locale frame_resampler = block_stream p q run inv
  for p q :: nat and run :: "int list \<Rightarrow> 's \<Rightarrow> int list \<times> 's" and inv :: "'s \<Rightarrow> bool" +
  fixes n_in n_out n_mem :: nat and wf :: "'st \<Rightarrow> bool" and abs :: "'st \<Rightarrow> 's"
    and f :: "int list \<Rightarrow> int list \<Rightarrow> 'st \<Rightarrow> int list \<Rightarrow> (int list \<times> 'st \<times> int list) option"
  assumes wf_inv: "wf st \<Longrightarrow> inv (abs st)" and p_dvd_n: "p dvd n_in"
    and frame: "length xs = n_in \<Longrightarrow> length out = n_out \<Longrightarrow> n_mem \<le> length mem \<Longrightarrow> wf st \<Longrightarrow>
      \<exists>st' mem'. f xs out st mem = Some (fst (run xs (abs st)), st', mem') \<and> abs st' = snd (run xs (abs st)) \<and>
        wf st' \<and> length mem' = length mem"
begin

lemma frames_ok:
  assumes "\<forall>xs \<in> set xss. length xs = n_in" "length out = n_out" "n_mem \<le> length mem" "wf st"
  shows "\<exists>st'. resample_frames f xss out st mem = Some (fst (run (concat xss) (abs st)), st') \<and>
    abs st' = snd (run (concat xss) (abs st)) \<and> wf st'"
  using assms
proof (induction xss arbitrary: st mem)
  case Nil
  then show ?case by (simp add: run_Nil wf_inv)
next
  case (Cons xs xss)
  obtain st1 mem1 where f: "f xs out st mem = Some (fst (run xs (abs st)), st1, mem1)"
      "abs st1 = snd (run xs (abs st))" "wf st1" "length mem1 = length mem"
    using frame [of xs out mem st] Cons.prems by auto
  obtain st2 where r: "resample_frames f xss out st1 mem1 = Some (fst (run (concat xss) (abs st1)), st2)"
      "abs st2 = snd (run (concat xss) (abs st1))" "wf st2"
    using Cons.IH [of mem1 st1] Cons.prems f by auto
  have "run (xs @ concat xss) (abs st) = (fst (run xs (abs st)) @ fst (run (concat xss) (abs st1)), snd (run (concat xss) (abs st1)))"
    using Cons.prems p_dvd_n by (simp add: f(2) run_append wf_inv dvd_concat)
  then show ?case using f r by simp
qed

end

end
