(* ===== verification/Resample_Chains.thy ===== *)
theory Resample_Chains
  imports Resample_Stream
begin

text \<open>
  The resamplers of \<^verbatim>\<open>resample_48khz.c\<close> and \<^verbatim>\<open>resample.c\<close>: chains of the steps of theory \<open>Resample\<close> over one
  scratch block.  The pointers \<^verbatim>\<open>in\<close> and \<^verbatim>\<open>out\<close> that the 22 kHz resamplers move ahead from sub-block to
  sub-block are the lists from the current position on.
\<close>

section \<open>The 48 kHz resamplers\<close>

record State48khzTo16khz =
  S_48_48 :: "int list"
  S_48_32 :: "int list"
  S_32_16 :: "int list"

record State16khzTo48khz =
  S_16_32 :: "int list"
  S_32_24 :: "int list"
  S_24_48 :: "int list"

record State48khzTo8khz =
  S_48_24 :: "int list"
  S_24_24 :: "int list"
  S_24_16 :: "int list"
  S_16_8 :: "int list"

record State8khzTo48khz =
  S_8_16 :: "int list"
  S_16_12 :: "int list"
  S_12_24 :: "int list"
  S8_24_48 :: "int list"

definition WebRtcSpl_Resample48khzTo16khz ::
    "int list \<Rightarrow> int list \<Rightarrow> State48khzTo16khz \<Rightarrow> int list \<Rightarrow> (int list \<times> State48khzTo16khz \<times> int list) option" where
  "WebRtcSpl_Resample48khzTo16khz inp out state tmpmem = do {
     (m1, s1) \<leftarrow> WebRtcSpl_LPBy2ShortToInt inp 480 tmpmem 16 (S_48_48 state);
     m2 \<leftarrow> memcpy m1 8 (S_48_32 state) 0 8;
     s2 \<leftarrow> memcpy (S_48_32 state) 0 m2 488 8;
     m3 \<leftarrow> WebRtcSpl_Resample48khzTo32khz 160 m2 8 0;
     (m4, out', s3) \<leftarrow> WebRtcSpl_DownBy2IntToShort m3 0 320 out (S_32_16 state);
     Some (out', \<lparr>S_48_48 = s1, S_48_32 = s2, S_32_16 = s3\<rparr>, m4)
   }"

definition WebRtcSpl_ResetResample48khzTo16khz :: "State48khzTo16khz \<Rightarrow> State48khzTo16khz option" where
  "WebRtcSpl_ResetResample48khzTo16khz state = do {
     s1 \<leftarrow> memset (S_48_48 state) 0 0 16;
     s2 \<leftarrow> memset (S_48_32 state) 0 0 8;
     s3 \<leftarrow> memset (S_32_16 state) 0 0 8;
     Some \<lparr>S_48_48 = s1, S_48_32 = s2, S_32_16 = s3\<rparr>
   }"

definition WebRtcSpl_Resample16khzTo48khz ::
    "int list \<Rightarrow> int list \<Rightarrow> State16khzTo48khz \<Rightarrow> int list \<Rightarrow> (int list \<times> State16khzTo48khz \<times> int list) option" where
  "WebRtcSpl_Resample16khzTo48khz inp out state tmpmem = do {
     (m1, s1) \<leftarrow> WebRtcSpl_UpBy2ShortToInt inp 160 tmpmem 16 (S_16_32 state);
     m2 \<leftarrow> memcpy m1 8 (S_32_24 state) 0 8;
     s2 \<leftarrow> memcpy (S_32_24 state) 0 m2 328 8;
     m3 \<leftarrow> WebRtcSpl_Resample32khzTo24khz 80 m2 8 0;
     (out', s3) \<leftarrow> WebRtcSpl_UpBy2IntToShort m3 0 240 out (S_24_48 state);
     Some (out', \<lparr>S_16_32 = s1, S_32_24 = s2, S_24_48 = s3\<rparr>, m3)
   }"

definition WebRtcSpl_ResetResample16khzTo48khz :: "State16khzTo48khz \<Rightarrow> State16khzTo48khz option" where
  "WebRtcSpl_ResetResample16khzTo48khz state = do {
     s1 \<leftarrow> memset (S_16_32 state) 0 0 8;
     s2 \<leftarrow> memset (S_32_24 state) 0 0 8;
     s3 \<leftarrow> memset (S_24_48 state) 0 0 8;
     Some \<lparr>S_16_32 = s1, S_32_24 = s2, S_24_48 = s3\<rparr>
   }"

definition WebRtcSpl_Resample48khzTo8khz ::
    "int list \<Rightarrow> int list \<Rightarrow> State48khzTo8khz \<Rightarrow> int list \<Rightarrow> (int list \<times> State48khzTo8khz \<times> int list) option" where
  "WebRtcSpl_Resample48khzTo8khz inp out state tmpmem = do {
     (m1, s1) \<leftarrow> WebRtcSpl_DownBy2ShortToInt inp 480 tmpmem 256 (S_48_24 state);
     (m2, s2) \<leftarrow> WebRtcSpl_LPBy2IntToInt m1 256 240 16 (S_24_24 state);
     m3 \<leftarrow> memcpy m2 8 (S_24_16 state) 0 8;
     s3 \<leftarrow> memcpy (S_24_16 state) 0 m3 248 8;
     m4 \<leftarrow> WebRtcSpl_Resample48khzTo32khz 80 m3 8 0;
     (m5, out', s4) \<leftarrow> WebRtcSpl_DownBy2IntToShort m4 0 160 out (S_16_8 state);
     Some (out', \<lparr>S_48_24 = s1, S_24_24 = s2, S_24_16 = s3, S_16_8 = s4\<rparr>, m5)
   }"

definition WebRtcSpl_ResetResample48khzTo8khz :: "State48khzTo8khz \<Rightarrow> State48khzTo8khz option" where
  "WebRtcSpl_ResetResample48khzTo8khz state = do {
     s1 \<leftarrow> memset (S_48_24 state) 0 0 8;
     s2 \<leftarrow> memset (S_24_24 state) 0 0 16;
     s3 \<leftarrow> memset (S_24_16 state) 0 0 8;
     s4 \<leftarrow> memset (S_16_8 state) 0 0 8;
     Some \<lparr>S_48_24 = s1, S_24_24 = s2, S_24_16 = s3, S_16_8 = s4\<rparr>
   }"

definition WebRtcSpl_Resample8khzTo48khz ::
    "int list \<Rightarrow> int list \<Rightarrow> State8khzTo48khz \<Rightarrow> int list \<Rightarrow> (int list \<times> State8khzTo48khz \<times> int list) option" where
  "WebRtcSpl_Resample8khzTo48khz inp out state tmpmem = do {
     (m1, s1) \<leftarrow> WebRtcSpl_UpBy2ShortToInt inp 80 tmpmem 264 (S_8_16 state);
     m2 \<leftarrow> memcpy m1 256 (S_16_12 state) 0 8;
     s2 \<leftarrow> memcpy (S_16_12 state) 0 m2 416 8;
     m3 \<leftarrow> WebRtcSpl_Resample32khzTo24khz 40 m2 256 240;
     (m4, s3) \<leftarrow> WebRtcSpl_UpBy2IntToInt m3 240 120 0 (S_12_24 state);
     (out', s4) \<leftarrow> WebRtcSpl_UpBy2IntToShort m4 0 240 out (S8_24_48 state);
     Some (out', \<lparr>S_8_16 = s1, S_16_12 = s2, S_12_24 = s3, S8_24_48 = s4\<rparr>, m4)
   }"

definition WebRtcSpl_ResetResample8khzTo48khz :: "State8khzTo48khz \<Rightarrow> State8khzTo48khz option" where
  "WebRtcSpl_ResetResample8khzTo48khz state = do {
     s1 \<leftarrow> memset (S_8_16 state) 0 0 8;
     s2 \<leftarrow> memset (S_16_12 state) 0 0 8;
     s3 \<leftarrow> memset (S_12_24 state) 0 0 8;
     s4 \<leftarrow> memset (S8_24_48 state) 0 0 8;
     Some \<lparr>S_8_16 = s1, S_16_12 = s2, S_12_24 = s3, S8_24_48 = s4\<rparr>
   }"

section \<open>The 22 kHz resamplers\<close>

definition SUB_BLOCKS_22_16 :: nat where "SUB_BLOCKS_22_16 = 5"
definition SUB_BLOCKS_16_22 :: nat where "SUB_BLOCKS_16_22 = 4"
definition SUB_BLOCKS_22_8 :: nat where "SUB_BLOCKS_22_8 = 2"
definition SUB_BLOCKS_8_22 :: nat where "SUB_BLOCKS_8_22 = 2"

record State22khzTo16khz =
  S22_44 :: "int list"
  S44_32 :: "int list"
  S32_16 :: "int list"

record State16khzTo22khz =
  S16_32 :: "int list"
  S32_22 :: "int list"

record State22khzTo8khz =
  S22_22 :: "int list"
  S22_16 :: "int list"
  S16_8 :: "int list"

record State8khzTo22khz =
  S8_16 :: "int list"
  S16_11 :: "int list"
  S11_22 :: "int list"

text \<open>\<open>for (k = 0; k < n; k++)\<close> with a body that can fail.\<close>

primrec for_blocks :: "nat \<Rightarrow> (nat \<Rightarrow> 's \<Rightarrow> 's option) \<Rightarrow> 's \<Rightarrow> 's option" where
  "for_blocks 0 body s = Some s"
| "for_blocks (Suc k) body s = do { s' \<leftarrow> for_blocks k body s; body k s' }"

definition block22To16 ::
    "int list \<Rightarrow> nat \<Rightarrow> int list \<times> State22khzTo16khz \<times> int list \<Rightarrow> (int list \<times> State22khzTo16khz \<times> int list) option" where
  "block22To16 inp k = (\<lambda>(out, state, tmpmem). do {
     let ip = k * (220 div SUB_BLOCKS_22_16);
     let op = k * (160 div SUB_BLOCKS_22_16);
     (m1, s1) \<leftarrow> WebRtcSpl_UpBy2ShortToInt (drop ip inp) (220 div SUB_BLOCKS_22_16) tmpmem 16 (S22_44 state);
     m2 \<leftarrow> memcpy m1 8 (S44_32 state) 0 8;
     s2 \<leftarrow> memcpy (S44_32 state) 0 m2 (440 div SUB_BLOCKS_22_16 + 8) 8;
     m3 \<leftarrow> WebRtcSpl_Resample44khzTo32khz (40 div SUB_BLOCKS_22_16) m2 8 0;
     (m4, out', s3) \<leftarrow> WebRtcSpl_DownBy2IntToShort m3 0 (320 div SUB_BLOCKS_22_16) (drop op out) (S32_16 state);
     Some (take op out @ out', \<lparr>S22_44 = s1, S44_32 = s2, S32_16 = s3\<rparr>, m4)
   })"

definition WebRtcSpl_Resample22khzTo16khz ::
    "int list \<Rightarrow> int list \<Rightarrow> State22khzTo16khz \<Rightarrow> int list \<Rightarrow> (int list \<times> State22khzTo16khz \<times> int list) option" where
  "WebRtcSpl_Resample22khzTo16khz inp out state tmpmem =
     for_blocks SUB_BLOCKS_22_16 (block22To16 inp) (out, state, tmpmem)"

definition WebRtcSpl_ResetResample22khzTo16khz :: "State22khzTo16khz \<Rightarrow> State22khzTo16khz option" where
  "WebRtcSpl_ResetResample22khzTo16khz state = do {
     s1 \<leftarrow> memset (S22_44 state) 0 0 8;
     s2 \<leftarrow> memset (S44_32 state) 0 0 8;
     s3 \<leftarrow> memset (S32_16 state) 0 0 8;
     Some \<lparr>S22_44 = s1, S44_32 = s2, S32_16 = s3\<rparr>
   }"

definition block16To22 ::
    "int list \<Rightarrow> nat \<Rightarrow> int list \<times> State16khzTo22khz \<times> int list \<Rightarrow> (int list \<times> State16khzTo22khz \<times> int list) option" where
  "block16To22 inp k = (\<lambda>(out, state, tmpmem). do {
     let ip = k * (160 div SUB_BLOCKS_16_22);
     let op = k * (220 div SUB_BLOCKS_16_22);
     (m1, s1) \<leftarrow> WebRtcSpl_UpBy2ShortToInt (drop ip inp) (160 div SUB_BLOCKS_16_22) tmpmem 8 (S16_32 state);
     m2 \<leftarrow> memcpy m1 0 (S32_22 state) 0 8;
     s2 \<leftarrow> memcpy (S32_22 state) 0 m2 (320 div SUB_BLOCKS_16_22) 8;
     out' \<leftarrow> WebRtcSpl_32khzTo22khzIntToShort (20 div SUB_BLOCKS_16_22) m2 0 (drop op out);
     Some (take op out @ out', \<lparr>S16_32 = s1, S32_22 = s2\<rparr>, m2)
   })"

definition WebRtcSpl_Resample16khzTo22khz ::
    "int list \<Rightarrow> int list \<Rightarrow> State16khzTo22khz \<Rightarrow> int list \<Rightarrow> (int list \<times> State16khzTo22khz \<times> int list) option" where
  "WebRtcSpl_Resample16khzTo22khz inp out state tmpmem =
     for_blocks SUB_BLOCKS_16_22 (block16To22 inp) (out, state, tmpmem)"

definition WebRtcSpl_ResetResample16khzTo22khz :: "State16khzTo22khz \<Rightarrow> State16khzTo22khz option" where
  "WebRtcSpl_ResetResample16khzTo22khz state = do {
     s1 \<leftarrow> memset (S16_32 state) 0 0 8;
     s2 \<leftarrow> memset (S32_22 state) 0 0 8;
     Some \<lparr>S16_32 = s1, S32_22 = s2\<rparr>
   }"

definition block22To8 ::
    "int list \<Rightarrow> nat \<Rightarrow> int list \<times> State22khzTo8khz \<times> int list \<Rightarrow> (int list \<times> State22khzTo8khz \<times> int list) option" where
  "block22To8 inp k = (\<lambda>(out, state, tmpmem). do {
     let ip = k * (220 div SUB_BLOCKS_22_8);
     let op = k * (80 div SUB_BLOCKS_22_8);
     (m1, s1) \<leftarrow> WebRtcSpl_LPBy2ShortToInt (drop ip inp) (220 div SUB_BLOCKS_22_8) tmpmem 16 (S22_22 state);
     m2 \<leftarrow> memcpy m1 8 (S22_16 state) 0 8;
     s2 \<leftarrow> memcpy (S22_16 state) 0 m2 (220 div SUB_BLOCKS_22_8 + 8) 8;
     m3 \<leftarrow> WebRtcSpl_Resample44khzTo32khz (20 div SUB_BLOCKS_22_8) m2 8 0;
     (m4, out', s3) \<leftarrow> WebRtcSpl_DownBy2IntToShort m3 0 (160 div SUB_BLOCKS_22_8) (drop op out) (S16_8 state);
     Some (take op out @ out', \<lparr>S22_22 = s1, S22_16 = s2, S16_8 = s3\<rparr>, m4)
   })"

definition WebRtcSpl_Resample22khzTo8khz ::
    "int list \<Rightarrow> int list \<Rightarrow> State22khzTo8khz \<Rightarrow> int list \<Rightarrow> (int list \<times> State22khzTo8khz \<times> int list) option" where
  "WebRtcSpl_Resample22khzTo8khz inp out state tmpmem =
     for_blocks SUB_BLOCKS_22_8 (block22To8 inp) (out, state, tmpmem)"

definition WebRtcSpl_ResetResample22khzTo8khz :: "State22khzTo8khz \<Rightarrow> State22khzTo8khz option" where
  "WebRtcSpl_ResetResample22khzTo8khz state = do {
     s1 \<leftarrow> memset (S22_22 state) 0 0 16;
     s2 \<leftarrow> memset (S22_16 state) 0 0 8;
     s3 \<leftarrow> memset (S16_8 state) 0 0 8;
     Some \<lparr>S22_22 = s1, S22_16 = s2, S16_8 = s3\<rparr>
   }"

definition block8To22 ::
    "int list \<Rightarrow> nat \<Rightarrow> int list \<times> State8khzTo22khz \<times> int list \<Rightarrow> (int list \<times> State8khzTo22khz \<times> int list) option" where
  "block8To22 inp k = (\<lambda>(out, state, tmpmem). do {
     let ip = k * (80 div SUB_BLOCKS_8_22);
     let op = k * (220 div SUB_BLOCKS_8_22);
     (m1, s1) \<leftarrow> WebRtcSpl_UpBy2ShortToInt (drop ip inp) (80 div SUB_BLOCKS_8_22) tmpmem 18 (S8_16 state);
     m2 \<leftarrow> memcpy m1 10 (S16_11 state) 0 8;
     s2 \<leftarrow> memcpy (S16_11 state) 0 m2 (160 div SUB_BLOCKS_8_22 + 10) 8;
     m3 \<leftarrow> WebRtcSpl_32khzTo22khzIntToInt (10 div SUB_BLOCKS_8_22) m2 10 0;
     (out', s3) \<leftarrow> WebRtcSpl_UpBy2IntToShort m3 0 (110 div SUB_BLOCKS_8_22) (drop op out) (S11_22 state);
     Some (take op out @ out', \<lparr>S8_16 = s1, S16_11 = s2, S11_22 = s3\<rparr>, m3)
   })"

definition WebRtcSpl_Resample8khzTo22khz ::
    "int list \<Rightarrow> int list \<Rightarrow> State8khzTo22khz \<Rightarrow> int list \<Rightarrow> (int list \<times> State8khzTo22khz \<times> int list) option" where
  "WebRtcSpl_Resample8khzTo22khz inp out state tmpmem =
     for_blocks SUB_BLOCKS_8_22 (block8To22 inp) (out, state, tmpmem)"

definition WebRtcSpl_ResetResample8khzTo22khz :: "State8khzTo22khz \<Rightarrow> State8khzTo22khz option" where
  "WebRtcSpl_ResetResample8khzTo22khz state = do {
     s1 \<leftarrow> memset (S8_16 state) 0 0 8;
     s2 \<leftarrow> memset (S16_11 state) 0 0 8;
     s3 \<leftarrow> memset (S11_22 state) 0 0 8;
     Some \<lparr>S8_16 = s1, S16_11 = s2, S11_22 = s3\<rparr>
   }"

section \<open>The chains as streams\<close>

text \<open>The steps at the two ends of a chain and in its middle.\<close>

definition up_in :: "int list \<Rightarrow> int list \<Rightarrow> int list \<times> int list" where
  "up_in xs = up2 (\<lambda>y. asr y 15) (map in15 xs)"

definition up_mid :: "int list \<Rightarrow> int list \<Rightarrow> int list \<times> int list" where
  "up_mid xs = up2 (\<lambda>y. y) xs"

definition up_out :: "int list \<Rightarrow> int list \<Rightarrow> int list \<times> int list" where
  "up_out xs = up2 (\<lambda>y. clip16 (asr y 15)) xs"

definition down_in :: "int list \<Rightarrow> int list \<Rightarrow> int list \<times> int list" where
  "down_in xs st = down2 (map in15 xs) (length xs div 2) st"

definition down_out :: "int list \<Rightarrow> int list \<Rightarrow> int list \<times> int list" where
  "down_out xs st = (map (\<lambda>v. clip16 (asr v 15)) (fst (down2 xs (length xs div 2) st)), snd (down2 xs (length xs div 2) st))"

definition lp_in :: "int list \<Rightarrow> int list \<Rightarrow> int list \<times> int list" where
  "lp_in xs = lp2 (map in15 xs) (length xs div 2)"

definition lp_mid :: "int list \<Rightarrow> int list \<Rightarrow> int list \<times> int list" where
  "lp_mid xs = lp2 xs (length xs div 2)"

interpretation up_in: block_stream 1 2 up_in "\<lambda>st. length st = 8"
  using up.block_stream_axioms [of "\<lambda>y. asr y 15" in15] by (simp add: up_in_def [abs_def])

interpretation up_mid: block_stream 1 2 up_mid "\<lambda>st. length st = 8"
  using up.block_stream_axioms [of "\<lambda>y. y" "\<lambda>x. x"] by (simp add: up_mid_def [abs_def])

interpretation up_out: block_stream 1 2 up_out "\<lambda>st. length st = 8"
  using up.block_stream_axioms [of "\<lambda>y. clip16 (asr y 15)" "\<lambda>x. x"] by (simp add: up_out_def [abs_def])

interpretation down_in: block_stream 2 1 down_in "\<lambda>st. length st = 8"
  using down.block_stream_axioms [of "\<lambda>y. y" in15] by (simp add: down_in_def [abs_def])

interpretation down_out: block_stream 2 1 down_out "\<lambda>st. length st = 8"
  using down.block_stream_axioms [of "\<lambda>v. clip16 (asr v 15)" "\<lambda>x. x"] by (simp add: down_out_def [abs_def])

interpretation lp_in: block_stream 2 2 lp_in "\<lambda>st. length st = 16"
  using lp.block_stream_axioms [of in15] by (simp add: lp_in_def [abs_def])

interpretation lp_mid: block_stream 2 2 lp_mid "\<lambda>st. length st = 16"
  using lp.block_stream_axioms [of "\<lambda>x. x"] by (simp add: lp_mid_def [abs_def])

text \<open>What each resampler computes: signals through a pipeline of steps, with no memory layout.\<close>

definition stream48To16 where "stream48To16 = pipe lp_in (pipe (frac_run 3 blk23) down_out)"
definition stream16To48 where "stream16To48 = pipe up_in (pipe (frac_run 4 blk34) up_out)"
definition stream48To8 where "stream48To8 = pipe down_in (pipe lp_mid (pipe (frac_run 3 blk23) down_out))"
definition stream8To48 where "stream8To48 = pipe up_in (pipe (frac_run 4 blk34) (pipe up_mid up_out))"
definition stream22To16 where "stream22To16 = pipe up_in (pipe (frac_run 11 blk811) down_out)"
definition stream16To22 where "stream16To22 = pipe up_in (frac_run 16 blk1116s)"
definition stream22To8 where "stream22To8 = pipe lp_in (pipe (frac_run 11 blk811) down_out)"
definition stream8To22 where "stream8To22 = pipe up_in (pipe (frac_run 16 blk1116) up_out)"

section \<open>The 48 kHz resamplers compute their streams\<close>

text \<open>A fractional step \<open>F\<close> within a chain, with its history handed over.\<close>

lemma frac_step:
  assumes local: "\<And>z z'. (\<And>i. i < p + 8 \<Longrightarrow> z i = z' i) \<Longrightarrow> blk z = blk z'" and p: "0 < p"
    and F: "\<And>m2. length m2 = length m1 \<Longrightarrow>
      \<exists>m3. F m2 = Some m3 \<and> length m3 = length m2 \<and> seg m3 o' (q * K) = frac_blocks p blk (\<lambda>i. m2 ! (c + i)) K"
    and h: "length h = 8" and room: "c + 8 + p * K \<le> length m1"
  obtains m2 m3 where "memcpy m1 c h 0 8 = Some m2"
    "memcpy h 0 m2 (c + p * K) 8 = Some (snd (frac_run p blk (seg m1 (c + 8) (p * K)) h))"
    "F m2 = Some m3" "length m3 = length m1"
    "seg m3 o' (q * K) = fst (frac_run p blk (seg m1 (c + 8) (p * K)) h)" "length m2 = length m1"
proof -
  obtain m2 where m2: "memcpy m1 c h 0 8 = Some m2"
      "memcpy h 0 m2 (c + p * K) 8 = Some (snd (frac_run p blk (seg m1 (c + 8) (p * K)) h))"
      "length m2 = length m1" "frac_blocks p blk (\<lambda>i. m2 ! (c + i)) K = fst (frac_run p blk (seg m1 (c + 8) (p * K)) h)"
    by (rule frac_stage [OF local h room refl p])
  obtain m3 where m3: "F m2 = Some m3" "length m3 = length m2" "seg m3 o' (q * K) = frac_blocks p blk (\<lambda>i. m2 ! (c + i)) K"
    using F [OF m2(3)] by blast
  show thesis using that [OF m2(1,2) m3(1)] m2(3,4) m3(2,3) by simp
qed

lemma forget_from_on:
  "\<exists>m. r = Some m \<and> from_on mem e m \<and> s m \<Longrightarrow> \<exists>m. r = Some m \<and> length m = length mem \<and> s m"
  by (auto simp: from_on_def)

lemma fractional_ok:
  "out < inp \<Longrightarrow> inp + 3 * K + 6 \<le> length mem \<Longrightarrow> \<exists>m. WebRtcSpl_Resample48khzTo32khz K mem inp out = Some m \<and>
    length m = length mem \<and> seg m out (2 * K) = frac_blocks 3 blk23 (\<lambda>i. mem ! (inp + i)) K"
  "out \<le> inp \<Longrightarrow> inp + 4 * K + 6 \<le> length mem \<Longrightarrow> \<exists>m. WebRtcSpl_Resample32khzTo24khz K mem inp out = Some m \<and>
    length m = length mem \<and> seg m out (3 * K) = frac_blocks 4 blk34 (\<lambda>i. mem ! (inp + i)) K"
  "out + 8 \<le> inp \<Longrightarrow> inp + 11 * K + 7 \<le> length mem \<Longrightarrow> \<exists>m. WebRtcSpl_Resample44khzTo32khz K mem inp out = Some m \<and>
    length m = length mem \<and> seg m out (8 * K) = frac_blocks 11 blk811 (\<lambda>i. mem ! (inp + i)) K"
  "out + 10 \<le> inp \<Longrightarrow> inp + 16 * K + 7 \<le> length mem \<Longrightarrow> \<exists>m. WebRtcSpl_32khzTo22khzIntToInt K mem inp out = Some m \<and>
    length m = length mem \<and> seg m out (11 * K) = frac_blocks 16 blk1116 (\<lambda>i. mem ! (inp + i)) K"
  by (erule (1) forget_from_on [OF Resample48khzTo32khz_ok], erule (1) forget_from_on [OF Resample32khzTo24khz_ok],
      erule (1) forget_from_on [OF Resample44khzTo32khz_ok], erule (1) forget_from_on [OF Resample32khzTo22khzIntToInt_ok])

lemmas frac23_step = frac_step [OF blk_local(1) _ fractional_ok(1)]
lemmas frac34_step = frac_step [OF blk_local(2) _ fractional_ok(2)]
lemmas frac811_step = frac_step [OF blk_local(3) _ fractional_ok(3)]
lemmas frac1116_step = frac_step [OF blk_local(4) _ fractional_ok(4)]

lemma DownBy2IntToShort_stream:
  assumes "inp + 2 * n \<le> length mem" "even n" "n \<le> length out"
  obtains m where "WebRtcSpl_DownBy2IntToShort mem inp (2 * n) out st =
    Some (m, fst (down_out (seg mem inp (2 * n)) st) @ drop n out, snd (down_out (seg mem inp (2 * n)) st))"
    "length m = length mem"
  using DownBy2IntToShort_ok [OF assms, of st] by (auto simp: down_out_def)

lemma UpBy2IntToShort_stream:
  assumes "2 * n \<le> length out" "inp + n \<le> length mem"
  shows "WebRtcSpl_UpBy2IntToShort mem inp n out st =
    Some (fst (up_out (seg mem inp n) st) @ drop (2 * n) out, snd (up_out (seg mem inp n) st))"
  using UpBy2IntToShort_ok [OF assms] by (simp add: up_out_def)

lemma UpBy2ShortToInt_stream:
  assumes "n \<le> length inp" "out + 2 * n \<le> length mem"
  obtains m where "WebRtcSpl_UpBy2ShortToInt inp n mem out st = Some (m, snd (up_in (take n inp) st))"
    "seg m out (2 * n) = fst (up_in (take n inp) st)" "length m = length mem"
  using UpBy2ShortToInt_ok [OF assms, of st] by (auto simp: up_in_def kept_def)

lemma UpBy2IntToInt_stream:
  assumes "out + 2 * n \<le> inp" "inp + n \<le> length mem"
  obtains m where "WebRtcSpl_UpBy2IntToInt mem inp n out st = Some (m, snd (up_mid (seg mem inp n) st))"
    "seg m out (2 * n) = fst (up_mid (seg mem inp n) st)" "length m = length mem"
  using UpBy2IntToInt_ok [OF assms, of st] by (auto simp: up_mid_def kept_def)

lemma LPBy2ShortToInt_stream:
  assumes "2 * n \<le> length inp" "out + 2 * n \<le> length mem"
  obtains m where "WebRtcSpl_LPBy2ShortToInt inp (2 * n) mem out st = Some (m, snd (lp_in (take (2 * n) inp) st))"
    "seg m out (2 * n) = fst (lp_in (take (2 * n) inp) st)" "length m = length mem"
  using LPBy2ShortToInt_ok [OF assms, of st] assms(1) by (auto simp: lp_in_def kept_def min_def)

lemma LPBy2IntToInt_stream:
  assumes "out + 2 * n \<le> inp" "inp + 2 * n \<le> length mem"
  obtains m where "WebRtcSpl_LPBy2IntToInt mem inp (2 * n) out st = Some (m, snd (lp_mid (seg mem inp (2 * n)) st))"
    "seg m out (2 * n) = fst (lp_mid (seg mem inp (2 * n)) st)" "length m = length mem"
  using LPBy2IntToInt_ok [OF assms, of st] by (auto simp: lp_mid_def kept_def)

lemma half_take: "evens (take (2 * n) xs) n = evens xs n" "odds (take (2 * n) xs) n = odds xs n"
  by (auto simp: evens_def odds_def)

lemma DownBy2ShortToInt_stream:
  assumes "2 * n \<le> length inp" "out + n \<le> length mem"
  obtains m where "WebRtcSpl_DownBy2ShortToInt inp (2 * n) mem out st = Some (m, snd (down_in (take (2 * n) inp) st))"
    "seg m out n = fst (down_in (take (2 * n) inp) st)" "length m = length mem"
proof -
  have "down2 (map in15 (take (2 * n) inp)) n st = down2 (map in15 inp) n st"
    by (simp only: take_map [symmetric] down2_def half_take)
  then show thesis
    using DownBy2ShortToInt_ok [of n inp out mem st] assms that by (auto simp: down_in_def kept_def min_def)
qed

definition wf48To16 :: "State48khzTo16khz \<Rightarrow> bool" where
  "wf48To16 st \<longleftrightarrow> length (S_48_48 st) = 16 \<and> length (S_48_32 st) = 8 \<and> length (S_32_16 st) = 8"

definition abs48To16 :: "State48khzTo16khz \<Rightarrow> int list \<times> int list \<times> int list" where
  "abs48To16 st = (S_48_48 st, S_48_32 st, S_32_16 st)"

lemma frame48To16:
  assumes "length inp = 480" "length out = 160" "496 \<le> length mem" "wf48To16 st"
  obtains m where "WebRtcSpl_Resample48khzTo16khz inp out st mem =
    (case stream48To16 inp (abs48To16 st) of (ys, a, b, c) \<Rightarrow> Some (ys, \<lparr>S_48_48 = a, S_48_32 = b, S_32_16 = c\<rparr>, m))"
    "length m = length mem"
proof -
  let ?ys = "fst (lp_in inp (S_48_48 st))" let ?zs = "fst (frac_run 3 blk23 ?ys (S_48_32 st))"
  obtain m1 where m1: "WebRtcSpl_LPBy2ShortToInt inp 480 mem 16 (S_48_48 st) = Some (m1, snd (lp_in inp (S_48_48 st)))"
      "seg m1 16 480 = ?ys" "length m1 = length mem"
    using LPBy2ShortToInt_stream [of 240 inp 16 mem "S_48_48 st"] assms by auto
  obtain m2 m3 where m2: "memcpy m1 8 (S_48_32 st) 0 8 = Some m2"
      "memcpy (S_48_32 st) 0 m2 488 8 = Some (snd (frac_run 3 blk23 ?ys (S_48_32 st)))"
      "WebRtcSpl_Resample48khzTo32khz 160 m2 8 0 = Some m3" "length m3 = length mem" "seg m3 0 320 = ?zs"
    by (rule frac23_step [of m1 0 8 160 "S_48_32 st"]) (use m1 assms in \<open>simp_all add: wf48To16_def\<close>)
  obtain m4 where "WebRtcSpl_DownBy2IntToShort m3 0 320 out (S_32_16 st) =
      Some (m4, fst (down_out ?zs (S_32_16 st)), snd (down_out ?zs (S_32_16 st)))" "length m4 = length mem"
    using DownBy2IntToShort_stream [of 0 160 m3 out "S_32_16 st"] m2 assms by auto
  then show thesis using m1 m2 that
    by (simp add: WebRtcSpl_Resample48khzTo16khz_def stream48To16_def abs48To16_def pipe_def split_beta Let_def)
qed

definition wf16To48 :: "State16khzTo48khz \<Rightarrow> bool" where
  "wf16To48 st \<longleftrightarrow> length (S_16_32 st) = 8 \<and> length (S_32_24 st) = 8 \<and> length (S_24_48 st) = 8"

definition abs16To48 :: "State16khzTo48khz \<Rightarrow> int list \<times> int list \<times> int list" where
  "abs16To48 st = (S_16_32 st, S_32_24 st, S_24_48 st)"

lemma frame16To48:
  assumes "length inp = 160" "length out = 480" "336 \<le> length mem" "wf16To48 st"
  obtains m where "WebRtcSpl_Resample16khzTo48khz inp out st mem =
    (case stream16To48 inp (abs16To48 st) of (ys, a, b, c) \<Rightarrow> Some (ys, \<lparr>S_16_32 = a, S_32_24 = b, S_24_48 = c\<rparr>, m))"
    "length m = length mem"
proof -
  let ?ys = "fst (up_in inp (S_16_32 st))" let ?zs = "fst (frac_run 4 blk34 ?ys (S_32_24 st))"
  obtain m1 where m1: "WebRtcSpl_UpBy2ShortToInt inp 160 mem 16 (S_16_32 st) = Some (m1, snd (up_in inp (S_16_32 st)))"
      "seg m1 16 320 = ?ys" "length m1 = length mem"
    using UpBy2ShortToInt_stream [of 160 inp 16 mem "S_16_32 st"] assms by auto
  obtain m2 m3 where m2: "memcpy m1 8 (S_32_24 st) 0 8 = Some m2"
      "memcpy (S_32_24 st) 0 m2 328 8 = Some (snd (frac_run 4 blk34 ?ys (S_32_24 st)))"
      "WebRtcSpl_Resample32khzTo24khz 80 m2 8 0 = Some m3" "length m3 = length mem" "seg m3 0 240 = ?zs"
    by (rule frac34_step [of m1 0 8 80 "S_32_24 st"]) (use m1 assms in \<open>simp_all add: wf16To48_def\<close>)
  have "WebRtcSpl_UpBy2IntToShort m3 0 240 out (S_24_48 st) =
      Some (fst (up_out ?zs (S_24_48 st)), snd (up_out ?zs (S_24_48 st)))"
    using UpBy2IntToShort_stream [of 240 out 0 m3 "S_24_48 st"] m2 assms by simp
  then show thesis using m1 m2 that
    by (simp add: WebRtcSpl_Resample16khzTo48khz_def stream16To48_def abs16To48_def pipe_def split_beta Let_def)
qed

definition wf48To8 :: "State48khzTo8khz \<Rightarrow> bool" where
  "wf48To8 st \<longleftrightarrow> length (S_48_24 st) = 8 \<and> length (S_24_24 st) = 16 \<and> length (S_24_16 st) = 8 \<and> length (S_16_8 st) = 8"

definition abs48To8 :: "State48khzTo8khz \<Rightarrow> int list \<times> int list \<times> int list \<times> int list" where
  "abs48To8 st = (S_48_24 st, S_24_24 st, S_24_16 st, S_16_8 st)"

lemma frame48To8_prefix:
  assumes "480 \<le> length inp" "80 \<le> length out" "496 \<le> length mem" "wf48To8 st"
  obtains m where "WebRtcSpl_Resample48khzTo8khz inp out st mem =
    (case stream48To8 (take 480 inp) (abs48To8 st) of (ys, a, b, c, d) \<Rightarrow>
       Some (ys @ drop 80 out, \<lparr>S_48_24 = a, S_24_24 = b, S_24_16 = c, S_16_8 = d\<rparr>, m))"
    "length m = length mem"
proof -
  let ?xs = "fst (down_in (take 480 inp) (S_48_24 st))" let ?ys = "fst (lp_mid ?xs (S_24_24 st))"
  let ?zs = "fst (frac_run 3 blk23 ?ys (S_24_16 st))"
  obtain m0 where m0: "WebRtcSpl_DownBy2ShortToInt inp 480 mem 256 (S_48_24 st) = Some (m0, snd (down_in (take 480 inp) (S_48_24 st)))"
      "seg m0 256 240 = ?xs" "length m0 = length mem"
    using DownBy2ShortToInt_stream [of 240 inp 256 mem "S_48_24 st"] assms by auto
  obtain m1 where m1: "WebRtcSpl_LPBy2IntToInt m0 256 240 16 (S_24_24 st) = Some (m1, snd (lp_mid ?xs (S_24_24 st)))"
      "seg m1 16 240 = ?ys" "length m1 = length mem"
    using LPBy2IntToInt_stream [of 16 120 256 m0 "S_24_24 st"] m0 assms by auto
  obtain m2 m3 where m2: "memcpy m1 8 (S_24_16 st) 0 8 = Some m2"
      "memcpy (S_24_16 st) 0 m2 248 8 = Some (snd (frac_run 3 blk23 ?ys (S_24_16 st)))"
      "WebRtcSpl_Resample48khzTo32khz 80 m2 8 0 = Some m3" "length m3 = length mem" "seg m3 0 160 = ?zs"
    by (rule frac23_step [of m1 0 8 80 "S_24_16 st"]) (use m1 assms in \<open>simp_all add: wf48To8_def\<close>)
  obtain m4 where "WebRtcSpl_DownBy2IntToShort m3 0 160 out (S_16_8 st) =
      Some (m4, fst (down_out ?zs (S_16_8 st)) @ drop 80 out, snd (down_out ?zs (S_16_8 st)))" "length m4 = length mem"
    using DownBy2IntToShort_stream [of 0 80 m3 out "S_16_8 st"] m2 assms by auto
  then show thesis using m0 m1 m2 that
    by (simp add: WebRtcSpl_Resample48khzTo8khz_def stream48To8_def abs48To8_def pipe_def split_beta Let_def)
qed

lemma frame48To8:
  assumes "length inp = 480" "length out = 80" "496 \<le> length mem" "wf48To8 st"
  obtains m where "WebRtcSpl_Resample48khzTo8khz inp out st mem =
    (case stream48To8 inp (abs48To8 st) of (ys, a, b, c, d) \<Rightarrow>
       Some (ys, \<lparr>S_48_24 = a, S_24_24 = b, S_24_16 = c, S_16_8 = d\<rparr>, m))"
    "length m = length mem"
  using frame48To8_prefix [of inp out mem st] assms by auto

definition wf8To48 :: "State8khzTo48khz \<Rightarrow> bool" where
  "wf8To48 st \<longleftrightarrow> length (S_8_16 st) = 8 \<and> length (S_16_12 st) = 8 \<and> length (S_12_24 st) = 8 \<and> length (S8_24_48 st) = 8"

definition abs8To48 :: "State8khzTo48khz \<Rightarrow> int list \<times> int list \<times> int list \<times> int list" where
  "abs8To48 st = (S_8_16 st, S_16_12 st, S_12_24 st, S8_24_48 st)"

lemma frame8To48:
  assumes "length inp = 80" "length out = 480" "424 \<le> length mem" "wf8To48 st"
  obtains m where "WebRtcSpl_Resample8khzTo48khz inp out st mem =
    (case stream8To48 inp (abs8To48 st) of (ys, a, b, c, d) \<Rightarrow>
       Some (ys, \<lparr>S_8_16 = a, S_16_12 = b, S_12_24 = c, S8_24_48 = d\<rparr>, m))"
    "length m = length mem"
proof -
  let ?xs = "fst (up_in inp (S_8_16 st))" let ?ys = "fst (frac_run 4 blk34 ?xs (S_16_12 st))"
  let ?zs = "fst (up_mid ?ys (S_12_24 st))"
  obtain m1 where m1: "WebRtcSpl_UpBy2ShortToInt inp 80 mem 264 (S_8_16 st) = Some (m1, snd (up_in inp (S_8_16 st)))"
      "seg m1 264 160 = ?xs" "length m1 = length mem"
    using UpBy2ShortToInt_stream [of 80 inp 264 mem "S_8_16 st"] assms by auto
  obtain m2 m3 where m2: "memcpy m1 256 (S_16_12 st) 0 8 = Some m2"
      "memcpy (S_16_12 st) 0 m2 416 8 = Some (snd (frac_run 4 blk34 ?xs (S_16_12 st)))"
      "WebRtcSpl_Resample32khzTo24khz 40 m2 256 240 = Some m3" "length m3 = length mem" "seg m3 240 120 = ?ys"
    by (rule frac34_step [of m1 240 256 40 "S_16_12 st"]) (use m1 assms in \<open>simp_all add: wf8To48_def\<close>)
  obtain m4 where m4: "WebRtcSpl_UpBy2IntToInt m3 240 120 0 (S_12_24 st) = Some (m4, snd (up_mid ?ys (S_12_24 st)))"
      "seg m4 0 240 = ?zs" "length m4 = length mem"
    using UpBy2IntToInt_stream [of 0 120 240 m3 "S_12_24 st"] m2 assms by auto
  have "WebRtcSpl_UpBy2IntToShort m4 0 240 out (S8_24_48 st) =
      Some (fst (up_out ?zs (S8_24_48 st)), snd (up_out ?zs (S8_24_48 st)))"
    using UpBy2IntToShort_stream [of 240 out 0 m4 "S8_24_48 st"] m4 assms by simp
  then show thesis using m1 m2 m4 that
    by (simp add: WebRtcSpl_Resample8khzTo48khz_def stream8To48_def abs8To48_def pipe_def split_beta Let_def)
qed

lemma stream_axioms48:
  "block_stream 6 2 stream48To16 (\<lambda>s. length (fst s) = 16 \<and> length (fst (snd s)) = 8 \<and> length (snd (snd s)) = 8)"
  "block_stream 2 6 stream16To48 (\<lambda>s. length (fst s) = 8 \<and> length (fst (snd s)) = 8 \<and> length (snd (snd s)) = 8)"
  "block_stream 12 2 stream48To8 (\<lambda>s. length (fst s) = 8 \<and> length (fst (snd s)) = 16 \<and>
     length (fst (snd (snd s))) = 8 \<and> length (snd (snd (snd s))) = 8)"
  "block_stream 2 12 stream8To48 (\<lambda>s. length (fst s) = 8 \<and> length (fst (snd s)) = 8 \<and>
     length (fst (snd (snd s))) = 8 \<and> length (snd (snd (snd s))) = 8)"
  using pipe_stream [OF lp_in.block_stream_axioms pipe_stream [OF frac23.block_stream_axioms down_out.block_stream_axioms, of 3], of 6]
    pipe_stream [OF up_in.block_stream_axioms pipe_stream [OF frac34.block_stream_axioms up_out.block_stream_axioms, of 4], of 2]
    pipe_stream [OF down_in.block_stream_axioms pipe_stream [OF lp_mid.block_stream_axioms
        pipe_stream [OF frac23.block_stream_axioms down_out.block_stream_axioms, of 3], of 6], of 12]
    pipe_stream [OF up_in.block_stream_axioms pipe_stream [OF frac34.block_stream_axioms
        pipe_stream [OF up_mid.block_stream_axioms up_out.block_stream_axioms, of 3], of 4], of 2]
  by (simp_all add: stream48To16_def stream16To48_def stream48To8_def stream8To48_def)

lemma frame_resamplerI:
  assumes bs: "block_stream p q run I" and n: "p dvd n_in" and wf: "\<And>st. W st \<longleftrightarrow> I (A st)"
    and frame: "\<And>xs out mem st. length xs = n_in \<Longrightarrow> length out = n_out \<Longrightarrow> n_mem \<le> length mem \<Longrightarrow> W st \<Longrightarrow>
      \<exists>st' mem'. f xs out st mem = Some (fst (run xs (A st)), st', mem') \<and> A st' = snd (run xs (A st)) \<and>
        length mem' = length mem"
  shows "frame_resampler p q run I n_in n_out n_mem W A f"
proof (intro frame_resampler.intro bs frame_resampler_axioms.intro n)
  fix xs out mem st assume a: "length (xs :: int list) = n_in" "length (out :: int list) = n_out" "n_mem \<le> length (mem :: int list)" "W st"
  then obtain st' mem' where r: "f xs out st mem = Some (fst (run xs (A st)), st', mem')"
      "A st' = snd (run xs (A st))" "length mem' = length mem"
    using frame by blast
  have "I (snd (run xs (A st)))" using a wf n by (intro block_stream.run_inv [OF bs]) auto
  then have "W st'" using r(2) wf by simp
  then show "\<exists>st' mem'. f xs out st mem = Some (fst (run xs (A st)), st', mem') \<and> A st' = snd (run xs (A st)) \<and>
      W st' \<and> length mem' = length mem" using r by blast
qed (simp add: wf)

interpretation r48To16: frame_resampler 6 2 stream48To16
  "\<lambda>s. length (fst s) = 16 \<and> length (fst (snd s)) = 8 \<and> length (snd (snd s)) = 8"
  480 160 496 wf48To16 abs48To16 WebRtcSpl_Resample48khzTo16khz
  by (rule frame_resamplerI [OF stream_axioms48(1)])
    (simp_all add: wf48To16_def abs48To16_def, erule (2) frame48To16, auto simp: wf48To16_def abs48To16_def split_beta)

interpretation r16To48: frame_resampler 2 6 stream16To48
  "\<lambda>s. length (fst s) = 8 \<and> length (fst (snd s)) = 8 \<and> length (snd (snd s)) = 8"
  160 480 336 wf16To48 abs16To48 WebRtcSpl_Resample16khzTo48khz
  by (rule frame_resamplerI [OF stream_axioms48(2)])
    (simp_all add: wf16To48_def abs16To48_def, erule (2) frame16To48, auto simp: wf16To48_def abs16To48_def split_beta)

interpretation r48To8: frame_resampler 12 2 stream48To8
  "\<lambda>s. length (fst s) = 8 \<and> length (fst (snd s)) = 16 \<and> length (fst (snd (snd s))) = 8 \<and> length (snd (snd (snd s))) = 8"
  480 80 496 wf48To8 abs48To8 WebRtcSpl_Resample48khzTo8khz
  by (rule frame_resamplerI [OF stream_axioms48(3)])
    (simp_all add: wf48To8_def abs48To8_def, erule (2) frame48To8, auto simp: wf48To8_def abs48To8_def split_beta)

interpretation r8To48: frame_resampler 2 12 stream8To48
  "\<lambda>s. length (fst s) = 8 \<and> length (fst (snd s)) = 8 \<and> length (fst (snd (snd s))) = 8 \<and> length (snd (snd (snd s))) = 8"
  80 480 424 wf8To48 abs8To48 WebRtcSpl_Resample8khzTo48khz
  by (rule frame_resamplerI [OF stream_axioms48(4)])
    (simp_all add: wf8To48_def abs8To48_def, erule (2) frame8To48, auto simp: wf8To48_def abs8To48_def split_beta)

section \<open>The 22 kHz resamplers compute their streams\<close>

text \<open>
  The loop over the sub-blocks of a frame: if the body puts the samples of sub-block \<open>k\<close> through the
  stream \<open>run\<close>, the loop puts the frame through it.
\<close>

lemma for_blocks_stream:
  assumes bs: "block_stream p q run I" and n: "p dvd n" "n div p * q = n'" and wf: "\<And>st. W st \<longleftrightarrow> I (A st)"
    and body: "\<And>k out st mem. k < B \<Longrightarrow> length out = B * n' \<Longrightarrow> n_mem \<le> length mem \<Longrightarrow> W st \<Longrightarrow>
      \<exists>st' mem'. body k (out, st, mem) =
          Some (take (k * n') out @ fst (run (take n (drop (k * n) inp)) (A st)) @ drop (n' + k * n') out, st', mem') \<and>
        A st' = snd (run (take n (drop (k * n) inp)) (A st)) \<and> length mem' = length mem"
    and len: "length inp = B * n" "length out = B * n'" "n_mem \<le> length mem" and st: "W st"
  shows "\<exists>st' mem'. for_blocks B body (out, st, mem) = Some (fst (run inp (A st)), st', mem') \<and>
    A st' = snd (run inp (A st)) \<and> length mem' = length mem"
proof -
  have "\<exists>st' mem'. for_blocks k body (out, st, mem) =
      Some (fst (run (take (k * n) inp) (A st)) @ drop (k * n') out, st', mem') \<and>
    A st' = snd (run (take (k * n) inp) (A st)) \<and> length mem' = length mem \<and> W st'" if "k \<le> B" for k
    using that
  proof (induction k)
    case 0
    then show ?case using st by (simp add: block_stream.run_Nil [OF bs] wf)
  next
    case (Suc k)
    let ?r = "run (take (k * n) inp) (A st)" and ?c = "take n (drop (k * n) inp)"
    obtain st1 m1 where IH: "for_blocks k body (out, st, mem) = Some (fst ?r @ drop (k * n') out, st1, m1)"
        "A st1 = snd ?r" "length m1 = length mem" "W st1" using Suc by auto
    have kB: "Suc k * n \<le> B * n" "Suc k * n' \<le> B * n'" using Suc.prems by (simp_all only: mult_le_mono1)
    have lk: "length (take (k * n) inp) = k * n" "length ?c = n" using kB len by auto
    have d: "p dvd length (take (k * n) inp)" "p dvd length ?c" unfolding lk using n by simp_all
    have lr: "length (fst ?r) = k * n'"
      using block_stream.run_length [OF bs _ d(1)] st wf n lk(1) by (auto simp: div_mult_swap)
    obtain st2 m2 where b: "body k (fst ?r @ drop (k * n') out, st1, m1) =
        Some (fst ?r @ fst (run ?c (A st1)) @ drop (n' + k * n') out, st2, m2)"
        "A st2 = snd (run ?c (A st1))" "length m2 = length m1"
      using body [of k "fst ?r @ drop (k * n') out" m1 st1] IH Suc.prems len lr kB by auto
    have "take (Suc k * n) inp = take (k * n) inp @ ?c"
      using take_add [of "k * n" n inp] by (simp add: add.commute)
    then have "run (take (Suc k * n) inp) (A st) = (fst ?r @ fst (run ?c (A st1)), snd (run ?c (A st1)))"
      using block_stream.run_append [OF bs _ d] st wf IH(2) by simp
    moreover have "W st2" using block_stream.run_inv [OF bs _ d(2)] IH(4) b(2) wf by auto
    ultimately show ?case using IH b by simp
  qed
  from this [of B] show ?thesis using len by auto
qed

definition wf22To16 :: "State22khzTo16khz \<Rightarrow> bool" where
  "wf22To16 st \<longleftrightarrow> length (S22_44 st) = 8 \<and> length (S44_32 st) = 8 \<and> length (S32_16 st) = 8"

definition abs22To16 :: "State22khzTo16khz \<Rightarrow> int list \<times> int list \<times> int list" where
  "abs22To16 st = (S22_44 st, S44_32 st, S32_16 st)"

lemma block22To16_ok:
  assumes "k < 5" "length inp = 220" "length out = 160" "104 \<le> length mem" "wf22To16 st"
  shows "\<exists>st' m. block22To16 inp k (out, st, mem) = Some (take (k * 32) out @
      fst (stream22To16 (take 44 (drop (k * 44) inp)) (abs22To16 st)) @ drop (32 + k * 32) out, st', m) \<and>
    abs22To16 st' = snd (stream22To16 (take 44 (drop (k * 44) inp)) (abs22To16 st)) \<and> length m = length mem"
proof -
  have r: "44 \<le> length (drop (k * 44) inp)" "32 \<le> length (drop (k * 32) out)" using assms(1-3) by simp_all
  let ?xs = "take 44 (drop (k * 44) inp)"
  let ?ys = "fst (up_in ?xs (S22_44 st))" let ?zs = "fst (frac_run 11 blk811 ?ys (S44_32 st))"
  obtain m1 where m1: "WebRtcSpl_UpBy2ShortToInt (drop (k * 44) inp) 44 mem 16 (S22_44 st) = Some (m1, snd (up_in ?xs (S22_44 st)))"
      "seg m1 16 88 = ?ys" "length m1 = length mem"
    using UpBy2ShortToInt_stream [of 44 "drop (k * 44) inp" 16 mem "S22_44 st"] r(1) assms(4) by auto
  obtain m2 m3 where m2: "memcpy m1 8 (S44_32 st) 0 8 = Some m2"
      "memcpy (S44_32 st) 0 m2 96 8 = Some (snd (frac_run 11 blk811 ?ys (S44_32 st)))"
      "WebRtcSpl_Resample44khzTo32khz 8 m2 8 0 = Some m3" "length m3 = length mem" "seg m3 0 64 = ?zs"
    by (rule frac811_step [of m1 0 8 8 "S44_32 st"]) (use m1 assms in \<open>simp_all add: wf22To16_def\<close>)
  obtain m4 where "WebRtcSpl_DownBy2IntToShort m3 0 64 (drop (k * 32) out) (S32_16 st) =
      Some (m4, fst (down_out ?zs (S32_16 st)) @ drop (32 + k * 32) out, snd (down_out ?zs (S32_16 st)))" "length m4 = length mem"
    using DownBy2IntToShort_stream [of 0 32 m3 "drop (k * 32) out" "S32_16 st"] m2 r(2) assms(4) by auto
  then show ?thesis using m1 m2
    by (simp add: block22To16_def SUB_BLOCKS_22_16_def stream22To16_def abs22To16_def pipe_def split_beta Let_def)
qed

definition wf16To22 :: "State16khzTo22khz \<Rightarrow> bool" where
  "wf16To22 st \<longleftrightarrow> length (S16_32 st) = 8 \<and> length (S32_22 st) = 8"

definition abs16To22 :: "State16khzTo22khz \<Rightarrow> int list \<times> int list" where
  "abs16To22 st = (S16_32 st, S32_22 st)"

lemma block16To22_ok:
  assumes "k < 4" "length inp = 160" "length out = 220" "88 \<le> length mem" "wf16To22 st"
  shows "\<exists>st' m. block16To22 inp k (out, st, mem) = Some (take (k * 55) out @
      fst (stream16To22 (take 40 (drop (k * 40) inp)) (abs16To22 st)) @ drop (55 + k * 55) out, st', m) \<and>
    abs16To22 st' = snd (stream16To22 (take 40 (drop (k * 40) inp)) (abs16To22 st)) \<and> length m = length mem"
proof -
  have r: "40 \<le> length (drop (k * 40) inp)" "55 \<le> length (drop (k * 55) out)" using assms(1-3) by simp_all
  let ?xs = "take 40 (drop (k * 40) inp)"
  let ?ys = "fst (up_in ?xs (S16_32 st))"
  obtain m1 where m1: "WebRtcSpl_UpBy2ShortToInt (drop (k * 40) inp) 40 mem 8 (S16_32 st) = Some (m1, snd (up_in ?xs (S16_32 st)))"
      "seg m1 8 80 = ?ys" "length m1 = length mem"
    using UpBy2ShortToInt_stream [of 40 "drop (k * 40) inp" 8 mem "S16_32 st"] r(1) assms(4) by auto
  obtain m2 where m2: "memcpy m1 0 (S32_22 st) 0 8 = Some m2"
      "memcpy (S32_22 st) 0 m2 80 8 = Some (snd (frac_run 16 blk1116s ?ys (S32_22 st)))" "length m2 = length mem"
      "frac_blocks 16 blk1116s (\<lambda>i. m2 ! i) 5 = fst (frac_run 16 blk1116s ?ys (S32_22 st))"
    by (rule frac_stage [of 16 blk1116s "S32_22 st" 0 80 m1 5, OF blk1116s_local])
      (use m1 assms in \<open>simp_all add: wf16To22_def\<close>)
  have "WebRtcSpl_32khzTo22khzIntToShort 5 m2 0 (drop (k * 55) out) =
      Some (fst (frac_run 16 blk1116s ?ys (S32_22 st)) @ drop (55 + k * 55) out)"
    using Resample32khzTo22khzIntToShort_ok [of 5 "drop (k * 55) out" 0 m2] m2 r(2) assms(4) by simp
  then show ?thesis using m1 m2
    by (simp add: block16To22_def SUB_BLOCKS_16_22_def stream16To22_def abs16To22_def pipe_def split_beta Let_def)
qed

definition wf22To8 :: "State22khzTo8khz \<Rightarrow> bool" where
  "wf22To8 st \<longleftrightarrow> length (S22_22 st) = 16 \<and> length (S22_16 st) = 8 \<and> length (S16_8 st) = 8"

definition abs22To8 :: "State22khzTo8khz \<Rightarrow> int list \<times> int list \<times> int list" where
  "abs22To8 st = (S22_22 st, S22_16 st, S16_8 st)"

lemma block22To8_ok:
  assumes "k < 2" "length inp = 220" "length out = 80" "126 \<le> length mem" "wf22To8 st"
  shows "\<exists>st' m. block22To8 inp k (out, st, mem) = Some (take (k * 40) out @
      fst (stream22To8 (take 110 (drop (k * 110) inp)) (abs22To8 st)) @ drop (40 + k * 40) out, st', m) \<and>
    abs22To8 st' = snd (stream22To8 (take 110 (drop (k * 110) inp)) (abs22To8 st)) \<and> length m = length mem"
proof -
  have r: "110 \<le> length (drop (k * 110) inp)" "40 \<le> length (drop (k * 40) out)" using assms(1-3) by simp_all
  let ?xs = "take 110 (drop (k * 110) inp)"
  let ?ys = "fst (lp_in ?xs (S22_22 st))" let ?zs = "fst (frac_run 11 blk811 ?ys (S22_16 st))"
  obtain m1 where m1: "WebRtcSpl_LPBy2ShortToInt (drop (k * 110) inp) 110 mem 16 (S22_22 st) = Some (m1, snd (lp_in ?xs (S22_22 st)))"
      "seg m1 16 110 = ?ys" "length m1 = length mem"
    using LPBy2ShortToInt_stream [of 55 "drop (k * 110) inp" 16 mem "S22_22 st"] r(1) assms(4) by auto
  obtain m2 m3 where m2: "memcpy m1 8 (S22_16 st) 0 8 = Some m2"
      "memcpy (S22_16 st) 0 m2 118 8 = Some (snd (frac_run 11 blk811 ?ys (S22_16 st)))"
      "WebRtcSpl_Resample44khzTo32khz 10 m2 8 0 = Some m3" "length m3 = length mem" "seg m3 0 80 = ?zs"
    by (rule frac811_step [of m1 0 8 10 "S22_16 st"]) (use m1 assms in \<open>simp_all add: wf22To8_def\<close>)
  obtain m4 where "WebRtcSpl_DownBy2IntToShort m3 0 80 (drop (k * 40) out) (S16_8 st) =
      Some (m4, fst (down_out ?zs (S16_8 st)) @ drop (40 + k * 40) out, snd (down_out ?zs (S16_8 st)))" "length m4 = length mem"
    using DownBy2IntToShort_stream [of 0 40 m3 "drop (k * 40) out" "S16_8 st"] m2 r(2) assms(4) by auto
  then show ?thesis using m1 m2
    by (simp add: block22To8_def SUB_BLOCKS_22_8_def stream22To8_def abs22To8_def pipe_def split_beta Let_def)
qed

definition wf8To22 :: "State8khzTo22khz \<Rightarrow> bool" where
  "wf8To22 st \<longleftrightarrow> length (S8_16 st) = 8 \<and> length (S16_11 st) = 8 \<and> length (S11_22 st) = 8"

definition abs8To22 :: "State8khzTo22khz \<Rightarrow> int list \<times> int list \<times> int list" where
  "abs8To22 st = (S8_16 st, S16_11 st, S11_22 st)"

lemma block8To22_ok:
  assumes "k < 2" "length inp = 80" "length out = 220" "98 \<le> length mem" "wf8To22 st"
  shows "\<exists>st' m. block8To22 inp k (out, st, mem) = Some (take (k * 110) out @
      fst (stream8To22 (take 40 (drop (k * 40) inp)) (abs8To22 st)) @ drop (110 + k * 110) out, st', m) \<and>
    abs8To22 st' = snd (stream8To22 (take 40 (drop (k * 40) inp)) (abs8To22 st)) \<and> length m = length mem"
proof -
  have r: "40 \<le> length (drop (k * 40) inp)" "110 \<le> length (drop (k * 110) out)" using assms(1-3) by simp_all
  let ?xs = "take 40 (drop (k * 40) inp)"
  let ?ys = "fst (up_in ?xs (S8_16 st))" let ?zs = "fst (frac_run 16 blk1116 ?ys (S16_11 st))"
  obtain m1 where m1: "WebRtcSpl_UpBy2ShortToInt (drop (k * 40) inp) 40 mem 18 (S8_16 st) = Some (m1, snd (up_in ?xs (S8_16 st)))"
      "seg m1 18 80 = ?ys" "length m1 = length mem"
    using UpBy2ShortToInt_stream [of 40 "drop (k * 40) inp" 18 mem "S8_16 st"] r(1) assms(4) by auto
  obtain m2 m3 where m2: "memcpy m1 10 (S16_11 st) 0 8 = Some m2"
      "memcpy (S16_11 st) 0 m2 90 8 = Some (snd (frac_run 16 blk1116 ?ys (S16_11 st)))"
      "WebRtcSpl_32khzTo22khzIntToInt 5 m2 10 0 = Some m3" "length m3 = length mem" "seg m3 0 55 = ?zs"
    by (rule frac1116_step [of m1 0 10 5 "S16_11 st"]) (use m1 assms in \<open>simp_all add: wf8To22_def\<close>)
  have "WebRtcSpl_UpBy2IntToShort m3 0 55 (drop (k * 110) out) (S11_22 st) =
      Some (fst (up_out ?zs (S11_22 st)) @ drop (110 + k * 110) out, snd (up_out ?zs (S11_22 st)))"
    using UpBy2IntToShort_stream [of 55 "drop (k * 110) out" 0 m3 "S11_22 st"] m2 r(2) assms(4) by simp
  then show ?thesis using m1 m2
    by (simp add: block8To22_def SUB_BLOCKS_8_22_def stream8To22_def abs8To22_def pipe_def split_beta Let_def)
qed

lemma stream_axioms22:
  "block_stream 11 8 stream22To16 (\<lambda>s. length (fst s) = 8 \<and> length (fst (snd s)) = 8 \<and> length (snd (snd s)) = 8)"
  "block_stream 8 11 stream16To22 (\<lambda>s. length (fst s) = 8 \<and> length (snd s) = 8)"
  "block_stream 22 8 stream22To8 (\<lambda>s. length (fst s) = 16 \<and> length (fst (snd s)) = 8 \<and> length (snd (snd s)) = 8)"
  "block_stream 8 22 stream8To22 (\<lambda>s. length (fst s) = 8 \<and> length (fst (snd s)) = 8 \<and> length (snd (snd s)) = 8)"
  using pipe_stream [OF up_in.block_stream_axioms pipe_stream [OF frac811.block_stream_axioms down_out.block_stream_axioms, of 11], of 11]
    pipe_stream [OF up_in.block_stream_axioms frac1116s.block_stream_axioms, of 8]
    pipe_stream [OF lp_in.block_stream_axioms pipe_stream [OF frac811.block_stream_axioms down_out.block_stream_axioms, of 11], of 22]
    pipe_stream [OF up_in.block_stream_axioms pipe_stream [OF frac1116.block_stream_axioms up_out.block_stream_axioms, of 16], of 8]
  by (simp_all add: stream22To16_def stream16To22_def stream22To8_def stream8To22_def)

interpretation r22To16: frame_resampler 11 8 stream22To16
  "\<lambda>s. length (fst s) = 8 \<and> length (fst (snd s)) = 8 \<and> length (snd (snd s)) = 8"
  220 160 104 wf22To16 abs22To16 WebRtcSpl_Resample22khzTo16khz
proof (rule frame_resamplerI [OF stream_axioms22(1)])
  fix xs out mem :: "int list" and st assume "length xs = 220" "length out = 160" "104 \<le> length mem" "wf22To16 st"
  then show "\<exists>st' mem'. WebRtcSpl_Resample22khzTo16khz xs out st mem = Some (fst (stream22To16 xs (abs22To16 st)), st', mem') \<and>
      abs22To16 st' = snd (stream22To16 xs (abs22To16 st)) \<and> length mem' = length mem"
    unfolding WebRtcSpl_Resample22khzTo16khz_def SUB_BLOCKS_22_16_def
    by (intro for_blocks_stream [OF stream_axioms22(1), where n = 44 and n' = 32 and n_mem = 104 and W = wf22To16] block22To16_ok)
      (simp_all add: wf22To16_def abs22To16_def)
qed (simp_all add: wf22To16_def abs22To16_def)

interpretation r16To22: frame_resampler 8 11 stream16To22 "\<lambda>s. length (fst s) = 8 \<and> length (snd s) = 8"
  160 220 88 wf16To22 abs16To22 WebRtcSpl_Resample16khzTo22khz
proof (rule frame_resamplerI [OF stream_axioms22(2)])
  fix xs out mem :: "int list" and st assume "length xs = 160" "length out = 220" "88 \<le> length mem" "wf16To22 st"
  then show "\<exists>st' mem'. WebRtcSpl_Resample16khzTo22khz xs out st mem = Some (fst (stream16To22 xs (abs16To22 st)), st', mem') \<and>
      abs16To22 st' = snd (stream16To22 xs (abs16To22 st)) \<and> length mem' = length mem"
    unfolding WebRtcSpl_Resample16khzTo22khz_def SUB_BLOCKS_16_22_def
    by (intro for_blocks_stream [OF stream_axioms22(2), where n = 40 and n' = 55 and n_mem = 88 and W = wf16To22] block16To22_ok)
      (simp_all add: wf16To22_def abs16To22_def)
qed (simp_all add: wf16To22_def abs16To22_def)

interpretation r22To8: frame_resampler 22 8 stream22To8
  "\<lambda>s. length (fst s) = 16 \<and> length (fst (snd s)) = 8 \<and> length (snd (snd s)) = 8"
  220 80 126 wf22To8 abs22To8 WebRtcSpl_Resample22khzTo8khz
proof (rule frame_resamplerI [OF stream_axioms22(3)])
  fix xs out mem :: "int list" and st assume "length xs = 220" "length out = 80" "126 \<le> length mem" "wf22To8 st"
  then show "\<exists>st' mem'. WebRtcSpl_Resample22khzTo8khz xs out st mem = Some (fst (stream22To8 xs (abs22To8 st)), st', mem') \<and>
      abs22To8 st' = snd (stream22To8 xs (abs22To8 st)) \<and> length mem' = length mem"
    unfolding WebRtcSpl_Resample22khzTo8khz_def SUB_BLOCKS_22_8_def
    by (intro for_blocks_stream [OF stream_axioms22(3), where n = 110 and n' = 40 and n_mem = 126 and W = wf22To8] block22To8_ok)
      (simp_all add: wf22To8_def abs22To8_def)
qed (simp_all add: wf22To8_def abs22To8_def)

interpretation r8To22: frame_resampler 8 22 stream8To22
  "\<lambda>s. length (fst s) = 8 \<and> length (fst (snd s)) = 8 \<and> length (snd (snd s)) = 8"
  80 220 98 wf8To22 abs8To22 WebRtcSpl_Resample8khzTo22khz
proof (rule frame_resamplerI [OF stream_axioms22(4)])
  fix xs out mem :: "int list" and st assume "length xs = 80" "length out = 220" "98 \<le> length mem" "wf8To22 st"
  then show "\<exists>st' mem'. WebRtcSpl_Resample8khzTo22khz xs out st mem = Some (fst (stream8To22 xs (abs8To22 st)), st', mem') \<and>
      abs8To22 st' = snd (stream8To22 xs (abs8To22 st)) \<and> length mem' = length mem"
    unfolding WebRtcSpl_Resample8khzTo22khz_def SUB_BLOCKS_8_22_def
    by (intro for_blocks_stream [OF stream_axioms22(4), where n = 40 and n' = 110 and n_mem = 98 and W = wf8To22] block8To22_ok)
      (simp_all add: wf8To22_def abs8To22_def)
qed (simp_all add: wf8To22_def abs8To22_def)

lemma memset_all: "length xs = n \<Longrightarrow> memset xs 0 v n = Some (replicate n v)"
  by (simp add: memset_def)

lemma combine_loop_odd:
  assumes "odd len" "even i" "i \<le> len" "length out = len"
  shows "combine_loop mem inp len i out = None"
  using assms
proof (induction mem inp len i out rule: combine_loop.induct)
  case (1 mem inp len i out)
  have i: "i < len" using 1(2-4) by (cases "i = len") auto
  show ?case
  proof (rule ccontr)
    assume "combine_loop mem inp len i out \<noteq> None"
    then obtain res where "combine_loop mem inp len i out = Some res" by auto
    then obtain a b c d out1 out2 where r: "rd mem (inp + 2 * i) = Some a" "rd mem (inp + 2 * i + 1) = Some b"
        "rd mem (inp + 2 * i + 2) = Some c" "rd mem (inp + 2 * i + 3) = Some d"
        "wr out i (clip16 (asr (s32 (a + b)) 15)) = Some out1" "wr out1 (i + 1) (clip16 (asr (s32 (c + d)) 15)) = Some out2"
        "combine_loop mem inp len (i + 2) out2 = Some res"
      using i by (subst (asm) combine_loop.simps) (auto simp: bind_eq_Some_conv)
    have l: "length out1 = len" "length out2 = len" "i + 1 < len"
      using r(5,6) 1(5) by (auto simp: wr_def vec_put_def split: if_splits)
    show False using 1(1) [OF i r(1-6)] 1(2,3) l r(7) by simp
  qed
qed

lemma DownBy2IntToShort_odd:
  assumes "odd n" "length out = n"
  shows "WebRtcSpl_DownBy2IntToShort mem inp (2 * n) out st = None"
  using combine_loop_odd [of n 0 out] assms
  by (auto simp: WebRtcSpl_DownBy2IntToShort_def bind_eq_None_conv Let_def split: prod.splits)

section \<open>Properties\<close>

text \<open>C20: Resampling between 48 kHz and 16 kHz.  With buffers of the sizes the steps need and a well-formed
  state, both resamplers return on every sequence of 10 ms frames and never access memory out of
  bounds; the output is the whole signal put through the pipeline of steps at once, so that neither
  the frame boundaries nor the in-place use of the scratch block leave a trace.  The state they
  leave is the pipeline's.  Reset gives the all-zero state.\<close>

theorem resample_48khz_16khz_stream:
  assumes "\<forall>xs \<in> set down. length xs = 480" "\<forall>xs \<in> set up. length xs = 160"
    and "length out = 160" "length out' = 480" "496 \<le> length tmpmem" "wf48To16 st" "wf16To48 st'"
  shows "(\<exists>s. resample_frames WebRtcSpl_Resample48khzTo16khz down out st tmpmem =
        Some (fst (stream48To16 (concat down) (abs48To16 st)), s) \<and>
      abs48To16 s = snd (stream48To16 (concat down) (abs48To16 st)) \<and> wf48To16 s) \<and>
    (\<exists>s. resample_frames WebRtcSpl_Resample16khzTo48khz up out' st' tmpmem =
        Some (fst (stream16To48 (concat up) (abs16To48 st')), s) \<and>
      abs16To48 s = snd (stream16To48 (concat up) (abs16To48 st')) \<and> wf16To48 s) \<and>
    WebRtcSpl_ResetResample48khzTo16khz st =
      Some \<lparr>S_48_48 = replicate 16 0, S_48_32 = replicate 8 0, S_32_16 = replicate 8 0\<rparr> \<and>
    WebRtcSpl_ResetResample16khzTo48khz st' =
      Some \<lparr>S_16_32 = replicate 8 0, S_32_24 = replicate 8 0, S_24_48 = replicate 8 0\<rparr>"
  using r48To16.frames_ok [of down out tmpmem st] r16To48.frames_ok [of up out' tmpmem st'] assms
  by (simp add: WebRtcSpl_ResetResample48khzTo16khz_def WebRtcSpl_ResetResample16khzTo48khz_def
      wf48To16_def wf16To48_def memset_all)

theorem resample_48khz_16khz_stream_witness:
  "\<exists>s. resample_frames WebRtcSpl_Resample48khzTo16khz [replicate 480 1000, replicate 480 (- 1000)] (replicate 160 0)
        \<lparr>S_48_48 = replicate 16 0, S_48_32 = replicate 8 0, S_32_16 = replicate 8 0\<rparr> (replicate 496 0) =
      Some (fst (stream48To16 (replicate 480 1000 @ replicate 480 (- 1000)) (replicate 16 0, replicate 8 0, replicate 8 0)), s)"
  using resample_48khz_16khz_stream [of "[replicate 480 1000, replicate 480 (- 1000)]" "[]" "replicate 160 0" "replicate 480 0" "replicate 496 0"
      "\<lparr>S_48_48 = replicate 16 0, S_48_32 = replicate 8 0, S_32_16 = replicate 8 0\<rparr>"
      "\<lparr>S_16_32 = replicate 8 0, S_32_24 = replicate 8 0, S_24_48 = replicate 8 0\<rparr>"]
  by (auto simp only: length_replicate wf48To16_def wf16To48_def abs48To16_def list.set State48khzTo16khz.simps
      State16khzTo48khz.simps concat.simps append_Nil2 ball_simps insert_iff empty_iff simp_thms order.refl)

text \<open>C9: Resampling between 48 kHz and 8 kHz.  With buffers of the sizes the steps need and a well-formed
  state, both resamplers return on every sequence of 10 ms frames and never access memory out of
  bounds; the output is the whole signal put through the pipeline of steps at once, so that neither
  the frame boundaries nor the in-place use of the scratch block leave a trace.  The state they
  leave is the pipeline's.  Reset gives the all-zero state.\<close>

theorem resample_48khz_8khz_stream:
  assumes "\<forall>xs \<in> set down. length xs = 480" "\<forall>xs \<in> set up. length xs = 80"
    and "length out = 80" "length out' = 480" "496 \<le> length tmpmem" "wf48To8 st" "wf8To48 st'"
  shows "(\<exists>s. resample_frames WebRtcSpl_Resample48khzTo8khz down out st tmpmem =
        Some (fst (stream48To8 (concat down) (abs48To8 st)), s) \<and>
      abs48To8 s = snd (stream48To8 (concat down) (abs48To8 st)) \<and> wf48To8 s) \<and>
    (\<exists>s. resample_frames WebRtcSpl_Resample8khzTo48khz up out' st' tmpmem =
        Some (fst (stream8To48 (concat up) (abs8To48 st')), s) \<and>
      abs8To48 s = snd (stream8To48 (concat up) (abs8To48 st')) \<and> wf8To48 s) \<and>
    WebRtcSpl_ResetResample48khzTo8khz st =
      Some \<lparr>S_48_24 = replicate 8 0, S_24_24 = replicate 16 0, S_24_16 = replicate 8 0, S_16_8 = replicate 8 0\<rparr> \<and>
    WebRtcSpl_ResetResample8khzTo48khz st' =
      Some \<lparr>S_8_16 = replicate 8 0, S_16_12 = replicate 8 0, S_12_24 = replicate 8 0, S8_24_48 = replicate 8 0\<rparr>"
  using r48To8.frames_ok [of down out tmpmem st] r8To48.frames_ok [of up out' tmpmem st'] assms
  by (simp add: WebRtcSpl_ResetResample48khzTo8khz_def WebRtcSpl_ResetResample8khzTo48khz_def
      wf48To8_def wf8To48_def memset_all)

theorem resample_48khz_8khz_stream_witness:
  "\<exists>s. resample_frames WebRtcSpl_Resample48khzTo8khz [replicate 480 1000, replicate 480 (- 1000)] (replicate 80 0)
        \<lparr>S_48_24 = replicate 8 0, S_24_24 = replicate 16 0, S_24_16 = replicate 8 0, S_16_8 = replicate 8 0\<rparr> (replicate 496 0) =
      Some (fst (stream48To8 (replicate 480 1000 @ replicate 480 (- 1000)) (replicate 8 0, replicate 16 0, replicate 8 0, replicate 8 0)), s)"
  using resample_48khz_8khz_stream [of "[replicate 480 1000, replicate 480 (- 1000)]" "[]" "replicate 80 0" "replicate 480 0" "replicate 496 0"
      "\<lparr>S_48_24 = replicate 8 0, S_24_24 = replicate 16 0, S_24_16 = replicate 8 0, S_16_8 = replicate 8 0\<rparr>"
      "\<lparr>S_8_16 = replicate 8 0, S_16_12 = replicate 8 0, S_12_24 = replicate 8 0, S8_24_48 = replicate 8 0\<rparr>"]
  by (auto simp only: length_replicate wf48To8_def wf8To48_def abs48To8_def list.set State48khzTo8khz.simps
      State8khzTo48khz.simps concat.simps append_Nil2 ball_simps insert_iff empty_iff simp_thms order.refl)

text \<open>C10: Resampling between 22 kHz and 16 kHz, where a frame is processed in five or four sub-blocks.  With buffers of the sizes the steps need and a well-formed
  state, both resamplers return on every sequence of 10 ms frames and never access memory out of
  bounds; the output is the whole signal put through the pipeline of steps at once, so that neither
  the frame and sub-block boundaries nor the in-place use of the scratch block leave a trace.  The state they
  leave is the pipeline's.  Reset gives the all-zero state.\<close>

theorem resample_22khz_16khz_stream:
  assumes "\<forall>xs \<in> set down. length xs = 220" "\<forall>xs \<in> set up. length xs = 160"
    and "length out = 160" "length out' = 220" "104 \<le> length tmpmem" "wf22To16 st" "wf16To22 st'"
  shows "(\<exists>s. resample_frames WebRtcSpl_Resample22khzTo16khz down out st tmpmem =
        Some (fst (stream22To16 (concat down) (abs22To16 st)), s) \<and>
      abs22To16 s = snd (stream22To16 (concat down) (abs22To16 st)) \<and> wf22To16 s) \<and>
    (\<exists>s. resample_frames WebRtcSpl_Resample16khzTo22khz up out' st' tmpmem =
        Some (fst (stream16To22 (concat up) (abs16To22 st')), s) \<and>
      abs16To22 s = snd (stream16To22 (concat up) (abs16To22 st')) \<and> wf16To22 s) \<and>
    WebRtcSpl_ResetResample22khzTo16khz st =
      Some \<lparr>S22_44 = replicate 8 0, S44_32 = replicate 8 0, S32_16 = replicate 8 0\<rparr> \<and>
    WebRtcSpl_ResetResample16khzTo22khz st' =
      Some \<lparr>S16_32 = replicate 8 0, S32_22 = replicate 8 0\<rparr>"
  using r22To16.frames_ok [of down out tmpmem st] r16To22.frames_ok [of up out' tmpmem st'] assms
  by (simp add: WebRtcSpl_ResetResample22khzTo16khz_def WebRtcSpl_ResetResample16khzTo22khz_def
      wf22To16_def wf16To22_def memset_all)

theorem resample_22khz_16khz_stream_witness:
  "\<exists>s. resample_frames WebRtcSpl_Resample22khzTo16khz [replicate 220 1000, replicate 220 (- 1000)] (replicate 160 0)
        \<lparr>S22_44 = replicate 8 0, S44_32 = replicate 8 0, S32_16 = replicate 8 0\<rparr> (replicate 104 0) =
      Some (fst (stream22To16 (replicate 220 1000 @ replicate 220 (- 1000)) (replicate 8 0, replicate 8 0, replicate 8 0)), s)"
  using resample_22khz_16khz_stream [of "[replicate 220 1000, replicate 220 (- 1000)]" "[]" "replicate 160 0" "replicate 220 0" "replicate 104 0"
      "\<lparr>S22_44 = replicate 8 0, S44_32 = replicate 8 0, S32_16 = replicate 8 0\<rparr>"
      "\<lparr>S16_32 = replicate 8 0, S32_22 = replicate 8 0\<rparr>"]
  by (auto simp only: length_replicate wf22To16_def wf16To22_def abs22To16_def list.set State22khzTo16khz.simps
      State16khzTo22khz.simps concat.simps append_Nil2 ball_simps insert_iff empty_iff simp_thms order.refl)

text \<open>C21: Resampling between 22 kHz and 8 kHz, where a frame is processed in two sub-blocks.  With buffers of the sizes the steps need and a well-formed
  state, both resamplers return on every sequence of 10 ms frames and never access memory out of
  bounds; the output is the whole signal put through the pipeline of steps at once, so that neither
  the frame and sub-block boundaries nor the in-place use of the scratch block leave a trace.  The state they
  leave is the pipeline's.  Reset gives the all-zero state.\<close>

theorem resample_22khz_8khz_stream:
  assumes "\<forall>xs \<in> set down. length xs = 220" "\<forall>xs \<in> set up. length xs = 80"
    and "length out = 80" "length out' = 220" "126 \<le> length tmpmem" "wf22To8 st" "wf8To22 st'"
  shows "(\<exists>s. resample_frames WebRtcSpl_Resample22khzTo8khz down out st tmpmem =
        Some (fst (stream22To8 (concat down) (abs22To8 st)), s) \<and>
      abs22To8 s = snd (stream22To8 (concat down) (abs22To8 st)) \<and> wf22To8 s) \<and>
    (\<exists>s. resample_frames WebRtcSpl_Resample8khzTo22khz up out' st' tmpmem =
        Some (fst (stream8To22 (concat up) (abs8To22 st')), s) \<and>
      abs8To22 s = snd (stream8To22 (concat up) (abs8To22 st')) \<and> wf8To22 s) \<and>
    WebRtcSpl_ResetResample22khzTo8khz st =
      Some \<lparr>S22_22 = replicate 16 0, S22_16 = replicate 8 0, S16_8 = replicate 8 0\<rparr> \<and>
    WebRtcSpl_ResetResample8khzTo22khz st' =
      Some \<lparr>S8_16 = replicate 8 0, S16_11 = replicate 8 0, S11_22 = replicate 8 0\<rparr>"
  using r22To8.frames_ok [of down out tmpmem st] r8To22.frames_ok [of up out' tmpmem st'] assms
  by (simp add: WebRtcSpl_ResetResample22khzTo8khz_def WebRtcSpl_ResetResample8khzTo22khz_def
      wf22To8_def wf8To22_def memset_all)

theorem resample_22khz_8khz_stream_witness:
  "\<exists>s. resample_frames WebRtcSpl_Resample22khzTo8khz [replicate 220 1000, replicate 220 (- 1000)] (replicate 80 0)
        \<lparr>S22_22 = replicate 16 0, S22_16 = replicate 8 0, S16_8 = replicate 8 0\<rparr> (replicate 126 0) =
      Some (fst (stream22To8 (replicate 220 1000 @ replicate 220 (- 1000)) (replicate 16 0, replicate 8 0, replicate 8 0)), s)"
  using resample_22khz_8khz_stream [of "[replicate 220 1000, replicate 220 (- 1000)]" "[]" "replicate 80 0" "replicate 220 0" "replicate 126 0"
      "\<lparr>S22_22 = replicate 16 0, S22_16 = replicate 8 0, S16_8 = replicate 8 0\<rparr>"
      "\<lparr>S8_16 = replicate 8 0, S16_11 = replicate 8 0, S11_22 = replicate 8 0\<rparr>"]
  by (auto simp only: length_replicate wf22To8_def wf8To22_def abs22To8_def list.set State22khzTo8khz.simps
      State8khzTo22khz.simps concat.simps append_Nil2 ball_simps insert_iff empty_iff simp_thms order.refl)

end
