(* ===== verification/Vad_Inst.thy ===== *)
theory Vad_Inst
  imports Resample_Chains
begin

unbundle bit_operations_syntax

text \<open>
  The voice activity detector's instance (\<^verbatim>\<open>vad_core.h\<close>), the tables of \<^verbatim>\<open>vad_core.c\<close>, and the Gaussian
  probability of \<^verbatim>\<open>vad_gmm.c\<close>.

  The arrays of the instance are lists; \<open>vad_shape\<close> gives their lengths.  16-bit and 32-bit values are
  integers, and each assignment to an \<^verbatim>\<open>int16_t\<close> or an operation that can leave \<^verbatim>\<open>int32_t\<close> wraps through
  \<open>s16\<close> or \<open>s32\<close>.  A shift by a negative amount or by 32 or more is undefined in C and is \<open>None\<close>.
\<close>

section \<open>The instance\<close>

definition kNumChannels :: nat where "kNumChannels = 6"
definition kNumGaussians :: nat where "kNumGaussians = 2"
definition kTableSize :: nat where "kTableSize = kNumChannels * kNumGaussians"
definition kMinEnergy :: int where "kMinEnergy = 10"

record VadInstT =
  vad :: int
  downsampling_filter_states :: "int list"
  state_48_to_8 :: State48khzTo8khz
  noise_means :: "int list"
  speech_means :: "int list"
  noise_stds :: "int list"
  speech_stds :: "int list"
  frame_counter :: int
  over_hang :: int
  num_of_speech :: int
  index_vector :: "int list"
  low_value_vector :: "int list"
  mean_value :: "int list"
  upper_state :: "int list"
  lower_state :: "int list"
  hp_filter_state :: "int list"
  over_hang_max_1 :: "int list"
  over_hang_max_2 :: "int list"
  individual :: "int list"
  total :: "int list"
  init_flag :: int

definition kSpectrumWeight :: "int list" where
  "kSpectrumWeight = [6, 8, 10, 12, 14, 16]"

definition kNoiseUpdateConst :: int where "kNoiseUpdateConst = 655"
definition kSpeechUpdateConst :: int where "kSpeechUpdateConst = 6554"
definition kBackEta :: int where "kBackEta = 154"

definition kMinimumDifference :: "int list" where
  "kMinimumDifference = [544, 544, 576, 576, 576, 576]"

definition kMaximumSpeech :: "int list" where
  "kMaximumSpeech = [11392, 11392, 11520, 11520, 11520, 11520]"

definition kMinimumMean :: "int list" where
  "kMinimumMean = [640, 768]"

definition kMaximumNoise :: "int list" where
  "kMaximumNoise = [9216, 9088, 8960, 8832, 8704, 8576]"

definition kNoiseDataWeights :: "int list" where
  "kNoiseDataWeights = [34, 62, 72, 66, 53, 25, 94, 66, 56, 62, 75, 103]"

definition kSpeechDataWeights :: "int list" where
  "kSpeechDataWeights = [48, 82, 45, 87, 50, 47, 80, 46, 83, 41, 78, 81]"

definition kNoiseDataMeans :: "int list" where
  "kNoiseDataMeans = [6738, 4892, 7065, 6715, 6771, 3369, 7646, 3863, 7820, 7266, 5020, 4362]"

definition kSpeechDataMeans :: "int list" where
  "kSpeechDataMeans = [8306, 10085, 10078, 11823, 11843, 6309, 9473, 9571, 10879, 7581, 8180, 7483]"

definition kNoiseDataStds :: "int list" where
  "kNoiseDataStds = [378, 1064, 493, 582, 688, 593, 474, 697, 475, 688, 421, 455]"

definition kSpeechDataStds :: "int list" where
  "kSpeechDataStds = [555, 505, 567, 524, 585, 1231, 509, 828, 492, 1540, 1079, 850]"

definition kMaxSpeechFrames :: int where "kMaxSpeechFrames = 6"
definition kMinStd :: int where "kMinStd = 384"
definition kDefaultMode :: int where "kDefaultMode = 0"
definition kInitCheck :: int where "kInitCheck = 42"

text \<open>The lengths the C types give to the arrays.\<close>

definition vad_shape :: "VadInstT \<Rightarrow> bool" where
  "vad_shape self \<longleftrightarrow>
     length (downsampling_filter_states self) = 4 \<and> wf48To8 (state_48_to_8 self) \<and>
     length (noise_means self) = kTableSize \<and> length (speech_means self) = kTableSize \<and>
     length (noise_stds self) = kTableSize \<and> length (speech_stds self) = kTableSize \<and>
     length (index_vector self) = 16 * kNumChannels \<and> length (low_value_vector self) = 16 * kNumChannels \<and>
     length (mean_value self) = kNumChannels \<and> length (upper_state self) = 5 \<and> length (lower_state self) = 5 \<and>
     length (hp_filter_state self) = 4 \<and> length (over_hang_max_1 self) = 3 \<and> length (over_hang_max_2 self) = 3 \<and>
     length (individual self) = 3 \<and> length (total self) = 3"

section \<open>The Gaussian probability\<close>

definition kCompVar :: int where "kCompVar = 22005"
definition kLog2Exp :: int where "kLog2Exp = 5909"

definition WebRtcVad_GaussianProbability :: "int \<Rightarrow> int \<Rightarrow> int \<Rightarrow> (int \<times> int) option" where
  "WebRtcVad_GaussianProbability input mean std =
     (let tmp32 = 131072 + asr std 1;
          inv_std = s16 (WebRtcSpl_DivW32W16 tmp32 std);
          tmp16 = asr inv_std 2;
          inv_std2 = s16 (asr (tmp16 * tmp16) 2);
          tmp16 = s16 (input * 8);
          tmp16 = s16 (tmp16 - mean);
          delta = s16 (asr (inv_std2 * tmp16) 10);
          tmp32 = asr (delta * tmp16) 9
      in if tmp32 < kCompVar
         then let tmp16 = s16 (asr (s32 (kLog2Exp * tmp32)) 12);
                  tmp16 = s16 (- tmp16);
                  exp_value = 0x0400 OR (tmp16 AND 0x03FF);
                  tmp16 = s16 (tmp16 XOR 0xFFFF);
                  tmp16 = s16 (asr tmp16 10 + 1)
              in if 0 \<le> tmp16 \<and> tmp16 < 32 then Some (inv_std * asr exp_value (nat tmp16), delta) else None
         else Some (0, delta))"

lemma s16_cong: "x mod 65536 = y mod 65536 \<Longrightarrow> s16 x = s16 y"
  by (metis s16_def mod_add_left_eq)

lemma s16_complement: "s16 (n XOR 0xFFFF) = s16 (- n - 1)"
proof (rule s16_cong)
  have "take_bit 16 (n XOR mask 16) = take_bit 16 (NOT n)"
    by (rule bit_eqI) (auto simp: bit_simps)
  then show "(n XOR 0xFFFF) mod 65536 = (- n - 1) mod 65536"
    by (simp add: take_bit_eq_mod mask_eq_exp_minus_1 not_int_def algebra_simps)
qed

lemma div_bounds: "0 < s \<Longrightarrow> x div s * s \<le> x \<and> x < (x div s + 1) * (s::int)"
  using div_mult_mod_eq [of x s] pos_mod_bound [of s x] pos_mod_sign [of s x] unfolding distrib_right by linarith

lemma asr_le: "0 \<le> x \<Longrightarrow> asr x n \<le> x"
  using zdiv_mono2 [of x 1 "2 ^ n"] by (simp add: asr_def)

lemma inv_std_bounds:
  assumes "378 \<le> std" "std \<le> (32767::int)"
  shows "4 \<le> (131072 + std div 2) div std" "(131072 + std div 2) div std \<le> 347"
proof -
  let ?d = "(131072 + std div 2) div std"
  have le: "?d * std \<le> 131072 + std div 2" "131072 + std div 2 < (?d + 1) * std"
    using div_bounds [of std "131072 + std div 2"] assms by simp_all
  show "?d \<le> 347"
  proof (rule ccontr)
    assume "\<not> ?d \<le> 347"
    then have "348 * std \<le> ?d * std" using assms by (intro mult_right_mono) auto
    then show False using le(1) assms by linarith
  qed
  show "4 \<le> ?d"
  proof (rule ccontr)
    assume "\<not> 4 \<le> ?d"
    then have "(?d + 1) * std \<le> 4 * std" using assms by (intro mult_right_mono) auto
    then show False using le(2) assms by linarith
  qed
qed

lemma exp_shift_bounds:
  assumes "0 \<le> t" "t \<le> 31743"
  defines "n \<equiv> s16 (- t)"
  defines "sh \<equiv> s16 (asr (s16 (n XOR 0xFFFF)) 10 + 1)"
  shows "0 \<le> sh" "sh < 32" "0 \<le> asr (0x0400 OR (n AND 0x03FF)) (nat sh)" "asr (0x0400 OR (n AND 0x03FF)) (nat sh) \<le> 2047"
proof -
  have n: "n = - t" unfolding n_def using assms(1,2) by (intro s16_id) (simp add: is_s16_def)
  have x: "s16 (n XOR 0xFFFF) = t - 1" unfolding s16_complement n using assms(1,2) by (subst s16_id) (simp_all add: is_s16_def)
  have a: "0 \<le> asr (t - 1) 10 + 1" "asr (t - 1) 10 + 1 < 32" using assms(1,2) by (simp_all add: asr_def)
  have sh: "sh = asr (t - 1) 10 + 1" unfolding sh_def x using a by (intro s16_id) (simp add: is_s16_def)
  show "0 \<le> sh" "sh < 32" using a sh by simp_all
  have m: "0 \<le> n AND 0x03FF" "n AND 0x03FF < 2 ^ 11"
    using take_bit_eq_mask [of 10 n] by (simp_all add: take_bit_eq_mod mask_eq_exp_minus_1 flip: take_bit_eq_mask)
  have e: "0 \<le> 0x0400 OR (n AND 0x03FF)" "0x0400 OR (n AND 0x03FF) < 2048"
    using m OR_upper [of "0x0400" 11 "n AND 0x03FF"] by simp_all
  show "0 \<le> asr (0x0400 OR (n AND 0x03FF)) (nat sh)" using e by (simp add: asr_nonneg)
  have "asr (0x0400 OR (n AND 0x03FF)) (nat sh) \<le> 0x0400 OR (n AND 0x03FF)"
    using e(1) by (rule asr_le)
  then show "asr (0x0400 OR (n AND 0x03FF)) (nat sh) \<le> 2047" using e by linarith
qed


text \<open>
  The probability is defined and has the expected range as long as the feature is not too far from
  the mean: the exponent then is not negative.
\<close>

lemma delta_bounds:
  assumes "0 \<le> i" "i \<le> 1849" "\<bar>x\<bar> \<le> (18000::int)"
  shows "is_s16 (asr (i * x) 10)" "0 \<le> asr (i * x) 10 * x" "asr (i * x) 10 * x \<le> 32503 * 18000"
proof -
  have ix: "\<bar>i * x\<bar> \<le> 1849 * 18000" unfolding abs_mult using assms by (intro mult_mono) auto
  have d: "\<bar>asr (i * x) 10\<bar> \<le> 32503" using ix by (simp add: asr_def)
  then show "is_s16 (asr (i * x) 10)" unfolding is_s16_def by linarith
  show "0 \<le> asr (i * x) 10 * x"
  proof (cases "0 \<le> x")
    case True
    then show ?thesis using assms(1) by (simp add: asr_nonneg)
  next
    case False
    then have "i * x \<le> 0" using assms(1) by (simp add: mult_nonneg_nonpos)
    then have "asr (i * x) 10 \<le> 0" by (simp add: asr_def)
    then show ?thesis using False by (simp add: mult_nonpos_nonpos)
  qed
  have "asr (i * x) 10 * x \<le> \<bar>asr (i * x) 10 * x\<bar>" by simp
  also have "\<dots> \<le> 32503 * 18000" unfolding abs_mult using d assms(3) by (intro mult_mono) auto
  finally show "asr (i * x) 10 * x \<le> 32503 * 18000" .
qed

lemma GaussianProbability_ok:
  assumes std: "378 \<le> std" "std \<le> 32767" and x: "\<bar>input * 8 - mean\<bar> \<le> 18000" "is_s16 (input * 8)"
  shows "\<exists>p delta. WebRtcVad_GaussianProbability input mean std = Some (p, delta) \<and> 0 \<le> p \<and> p \<le> 347 * 2047 \<and> is_s16 delta"
proof -
  define d where "d = (131072 + std div 2) div std"
  have d: "4 \<le> d" "d \<le> 347" using inv_std_bounds [OF std] by (simp_all add: d_def)
  have inv: "s16 (WebRtcSpl_DivW32W16 (131072 + asr std 1) std) = d"
  proof -
    have "cdiv (131072 + asr std 1) std = d" using std by (subst cdiv_nonneg) (simp_all add: d_def asr_def)
    moreover have "s32 d = d" "s16 d = d" using d by (simp_all add: s32_id s16_id is_s16_def is_s32_def)
    ultimately show ?thesis using std by (simp add: WebRtcSpl_DivW32W16_def)
  qed
  define i where "i = asr (asr d 2 * asr d 2) 2"
  have q: "0 \<le> asr d 2" "asr d 2 \<le> 86" using d by (simp_all add: asr_def)
  then have "asr d 2 * asr d 2 \<le> 86 * 86" by (intro mult_mono) auto
  then have i: "0 \<le> i" "i \<le> 1849" using q unfolding i_def by (simp add: asr_nonneg, simp add: asr_def)
  have i2: "s16 (asr (asr d 2 * asr d 2) 2) = i" using i by (simp add: i_def [symmetric] s16_id is_s16_def)
  let ?x = "input * 8 - mean"
  have xs: "s16 (s16 (input * 8) - mean) = ?x" using x by (simp add: s16_id is_s16_def abs_le_iff)
  note db = delta_bounds [OF i x(1)]
  define t where "t = asr (asr (i * ?x) 10 * ?x) 9"
  have dl: "s16 (asr (i * ?x) 10) = asr (i * ?x) 10" using db(1) by (rule s16_id)
  have t0: "0 \<le> t" using db(2) by (simp add: t_def asr_nonneg)
  show ?thesis
  proof (cases "t < kCompVar")
    case True
    let ?t = "s16 (asr (s32 (kLog2Exp * t)) 12)"
    have tt: "0 \<le> asr (5909 * t) 12" "asr (5909 * t) 12 \<le> 31743" using t0 True by (simp_all add: kCompVar_def asr_def)
    have "s32 (5909 * t) = 5909 * t" using t0 True by (simp add: kCompVar_def s32_id is_s32_def)
    then have "?t = asr (5909 * t) 12" using tt by (simp add: kLog2Exp_def s16_id is_s16_def)
    then have te: "0 \<le> ?t" "?t \<le> 31743" using tt by simp_all
    note sh = exp_shift_bounds [OF te]
    let ?sh = "s16 (asr (s16 (s16 (- ?t) XOR 0xFFFF)) 10 + 1)" let ?e = "asr (0x0400 OR (s16 (- ?t) AND 0x03FF)) (nat ?sh)"
    have "WebRtcVad_GaussianProbability input mean std = Some (d * ?e, asr (i * ?x) 10)"
      unfolding WebRtcVad_GaussianProbability_def Let_def inv i2 xs dl t_def [symmetric] using True sh(1,2) by simp
    moreover have "0 \<le> d * ?e" using d sh(3) by simp
    moreover have "d * ?e \<le> 347 * 2047" using d sh(3,4) by (intro mult_mono) auto
    ultimately show ?thesis using db(1) by blast
  next
    case False
    have "WebRtcVad_GaussianProbability input mean std = Some (0, asr (i * ?x) 10)"
      unfolding WebRtcVad_GaussianProbability_def Let_def inv i2 xs dl t_def [symmetric] using False by simp
    then show ?thesis using db(1) by simp
  qed
qed

end
