(* ===== verification/Vad_Sp.thy ===== *)
theory Vad_Sp
  imports Vad_Inst "HOL-Library.Sublist" "HOL-Library.Multiset"
begin

text \<open>
  \<^verbatim>\<open>vad_sp.c\<close>: the decimation by two in front of the detector and the tracking of the smallest
  feature values of a channel.
\<close>

section \<open>Decimation\<close>

definition kAllPassCoefsQ13 :: "int list" where "kAllPassCoefsQ13 = [5243, 1392]"
definition kSmoothingDown :: int where "kSmoothingDown = 6553"
definition kSmoothingUp :: int where "kSmoothingUp = 32439"

text \<open>
  The loop: \<open>n\<close> rounds from the start; the outputs so far and the two filter states.  \<open>cap\<close> is the
  size of the output array.
\<close>

primrec downsampling_loop ::
    "nat \<Rightarrow> int list \<Rightarrow> nat \<Rightarrow> int \<times> int \<Rightarrow> (int list \<times> int \<times> int) option" where
  "downsampling_loop 0 signal_in cap st = Some ([], st)"
| "downsampling_loop (Suc n) signal_in cap st = do {
     (out, tmp32_1, tmp32_2) \<leftarrow> downsampling_loop n signal_in cap st;
     a \<leftarrow> rd signal_in (2 * n);
     let tmp16_1 = s16 (asr tmp32_1 1 + asr (kAllPassCoefsQ13 ! 0 * a) 14);
     let tmp32_1' = a - asr (kAllPassCoefsQ13 ! 0 * tmp16_1) 12;
     b \<leftarrow> rd signal_in (2 * n + 1);
     let tmp16_2 = s16 (asr tmp32_2 1 + asr (kAllPassCoefsQ13 ! 1 * b) 14);
     let tmp32_2' = b - asr (kAllPassCoefsQ13 ! 1 * tmp16_2) 12;
     if n < cap then Some (out @ [s16 (tmp16_1 + tmp16_2)], tmp32_1', tmp32_2') else None
   }"

definition WebRtcVad_Downsampling ::
    "int list \<Rightarrow> nat \<Rightarrow> int list \<Rightarrow> nat \<Rightarrow> nat \<Rightarrow> (int list \<times> int list) option" where
  "WebRtcVad_Downsampling signal_in cap filter_state off in_length = do {
     s0 \<leftarrow> rd filter_state off;
     s1 \<leftarrow> rd filter_state (off + 1);
     (out, t1, t2) \<leftarrow> downsampling_loop (in_length div 2) signal_in cap (s0, s1);
     st1 \<leftarrow> wr filter_state off t1;
     st2 \<leftarrow> wr st1 (off + 1) t2;
     Some (out, st2)
   }"

section \<open>The smallest values\<close>

text \<open>\<open>for (j = i; j < 15; j++) xs[j] = xs[j + 1];\<close> then \<open>xs[15] = x\<close>.\<close>

definition shift_down :: "nat \<Rightarrow> int \<Rightarrow> int list \<Rightarrow> int list" where
  "shift_down i x xs = (fold (\<lambda>j xs. xs[j := xs ! (j + 1)]) [i..<15] xs)[15 := x]"

text \<open>\<open>for (i = 15; i > position; i--) xs[i] = xs[i - 1];\<close> then \<open>xs[position] = x\<close>.\<close>

definition shift_up :: "nat \<Rightarrow> int \<Rightarrow> int list \<Rightarrow> int list" where
  "shift_up position x xs =
     (fold (\<lambda>i xs. xs[i := xs ! (i - 1)]) (rev [position + 1..<16]) xs)[position := x]"

definition age_step :: "nat \<Rightarrow> int list \<times> int list \<Rightarrow> int list \<times> int list" where
  "age_step i = (\<lambda>(age, smallest_values).
     if age ! i \<noteq> 100 then (age[i := s16 (age ! i + 1)], smallest_values)
     else (shift_down i 101 age, shift_down i 10000 smallest_values))"

definition find_position :: "int \<Rightarrow> int list \<Rightarrow> nat option" where
  "find_position v s =
     (if v < s ! 7 then
        if v < s ! 3 then
          if v < s ! 1 then
            if v < s ! 0 then Some 0 else Some 1
          else if v < s ! 2 then Some 2 else Some 3
        else if v < s ! 5 then
          if v < s ! 4 then Some 4 else Some 5
        else if v < s ! 6 then Some 6 else Some 7
      else if v < s ! 15 then
        if v < s ! 11 then
          if v < s ! 9 then
            if v < s ! 8 then Some 8 else Some 9
          else if v < s ! 10 then Some 10 else Some 11
        else if v < s ! 13 then
          if v < s ! 12 then Some 12 else Some 13
        else if v < s ! 14 then Some 14 else Some 15
      else None)"

text \<open>The two arrays of one channel, before the median is taken.\<close>

definition update_minima :: "int \<Rightarrow> int list \<times> int list \<Rightarrow> int list \<times> int list" where
  "update_minima feature_value av =
     (let (age, smallest_values) = fold age_step [0..<16] av
      in case find_position feature_value smallest_values of
           None \<Rightarrow> (age, smallest_values)
         | Some position \<Rightarrow> (shift_up position 1 age, shift_up position feature_value smallest_values))"

definition smooth_median :: "int \<Rightarrow> int list \<Rightarrow> int \<Rightarrow> int" where
  "smooth_median fc smallest_values mean =
     (let current_median = (if fc > 2 then smallest_values ! 2
            else if fc > 0 then smallest_values ! 0 else 1600);
          alpha = (if fc > 0
            then if current_median < mean then kSmoothingDown else kSmoothingUp else 0);
          tmp32 = s32 ((alpha + 1) * mean);
          tmp32 = s32 (tmp32 + (32767 - alpha) * current_median);
          tmp32 = s32 (tmp32 + 16384)
      in s16 (asr tmp32 15))"

definition WebRtcVad_FindMinimum :: "VadInstT \<Rightarrow> int \<Rightarrow> nat \<Rightarrow> (int \<times> VadInstT) option" where
  "WebRtcVad_FindMinimum self feature_value channel =
     (let offset = 16 * channel
      in if offset + 16 \<le> length (index_vector self) \<and> offset + 16 \<le> length (low_value_vector self) \<and>
            channel < length (mean_value self)
         then let (age, smallest_values) = update_minima feature_value
                    (take 16 (drop offset (index_vector self)), take 16 (drop offset (low_value_vector self)));
                  m = smooth_median (frame_counter self) smallest_values (mean_value self ! channel)
              in Some (m, self\<lparr>
                   index_vector := take offset (index_vector self) @ age @ drop (offset + 16) (index_vector self),
                   low_value_vector := take offset (low_value_vector self) @ smallest_values @
                     drop (offset + 16) (low_value_vector self),
                   mean_value := (mean_value self)[channel := m]\<rparr>)
         else None)"

section \<open>The shifts\<close>

lemma fold_shift_down:
  assumes "n < length xs"
  shows "length (fold (\<lambda>j xs. xs[j := xs ! (j + 1)]) [i..<n] xs) = length xs \<and>
    (\<forall>j < length xs. fold (\<lambda>j xs. xs[j := xs ! (j + 1)]) [i..<n] xs ! j = (if i \<le> j \<and> j < n then xs ! Suc j else xs ! j))"
  using assms by (induction n) (auto simp: nth_list_update less_Suc_eq)

lemma shift_down_eq:
  assumes "i < 16" "length xs = 16"
  shows "shift_down i x xs = take i xs @ drop (Suc i) xs @ [x]"
proof (rule nth_equalityI)
  fix j assume "j < length (shift_down i x xs)"
  then have j: "j < 16" using fold_shift_down [of 15 xs i] assms by (simp add: shift_down_def)
  show "shift_down i x xs ! j = (take i xs @ drop (Suc i) xs @ [x]) ! j"
    using fold_shift_down [of 15 xs i] assms j by (auto simp: shift_down_def nth_append nth_list_update)
qed (use fold_shift_down [of 15 xs i] assms in \<open>simp add: shift_down_def\<close>)

lemma fold_shift_up:
  assumes "n < length xs" "p \<le> n"
  shows "length (fold (\<lambda>i xs. xs[i := xs ! (i - 1)]) (rev [p + 1..<n + 1]) xs) = length xs \<and>
    (\<forall>j < length xs. fold (\<lambda>i xs. xs[i := xs ! (i - 1)]) (rev [p + 1..<n + 1]) xs ! j =
       (if p < j \<and> j \<le> n then xs ! (j - 1) else xs ! j))"
  using assms
proof (induction n arbitrary: xs)
  case (Suc n)
  show ?case
  proof (cases "p \<le> n")
    case True
    have "fold (\<lambda>i xs. xs[i := xs ! (i - 1)]) (rev [p + 1..<Suc n + 1]) xs =
        fold (\<lambda>i xs. xs[i := xs ! (i - 1)]) (rev [p + 1..<n + 1]) (xs[Suc n := xs ! n])"
      using True by simp
    moreover define ys where "ys = xs[Suc n := xs ! n]"
    moreover have "length ys = length xs" "\<And>j. (if p < j \<and> j \<le> n then ys ! (j - 1) else ys ! j) =
        (if p < j \<and> j \<le> Suc n then xs ! (j - 1) else xs ! j)"
      using Suc.prems True by (auto simp: ys_def nth_list_update le_Suc_eq)
    ultimately show ?thesis using Suc.IH [of ys] Suc.prems True by simp
  next
    case False
    then show ?thesis using Suc.prems by auto
  qed
qed auto

lemma shift_up_eq:
  assumes "p < 16" "length xs = 16"
  shows "shift_up p x xs = take 16 (take p xs @ x # drop p xs)"
proof (rule nth_equalityI)
  have f: "fold (\<lambda>i xs. xs[i := xs ! (i - 1)]) (rev [p + 1..<16]) xs ! j = (if p < j \<and> j \<le> 15 then xs ! (j - 1) else xs ! j)"
    "length (fold (\<lambda>i xs. xs[i := xs ! (i - 1)]) (rev [p + 1..<16]) xs) = 16" if "j < 16" for j
    using fold_shift_up [of 15 xs p] assms that by simp_all
  show "length (shift_up p x xs) = length (take 16 (take p xs @ x # drop p xs))"
    using f(2) [of 0] assms by (simp add: shift_up_def)
  fix j assume "j < length (shift_up p x xs)"
  then have j: "j < 16" using f(2) [of 0] by (simp add: shift_up_def)
  show "shift_up p x xs ! j = take 16 (take p xs @ x # drop p xs) ! j"
    using f [OF j] assms j by (auto simp: shift_up_def nth_append nth_list_update nth_Cons')
qed

section \<open>The position\<close>

lemma find_position_Some:
  "find_position v s = Some p \<Longrightarrow> p < 16 \<and> v < s ! p \<and> (p = 0 \<or> s ! (p - 1) \<le> v)"
  by (auto simp: find_position_def split: if_splits)

lemma find_position_None: "find_position v s = None \<longleftrightarrow> s ! 7 \<le> v \<and> s ! 15 \<le> v"
  by (auto simp: find_position_def)

section \<open>The sixteen smallest values\<close>

definition minima_ok :: "int list \<times> int list \<Rightarrow> bool" where
  "minima_ok av \<longleftrightarrow> length (fst av) = 16 \<and> length (snd av) = 16 \<and> sorted (snd av) \<and> (\<forall>x \<in> set (snd av). x \<le> 10000)"

text \<open>Some of the values in their order, filled up with the start value 10000.\<close>

definition padded :: "int list \<Rightarrow> int list \<Rightarrow> bool" where
  "padded vs ws \<longleftrightarrow> (\<exists>kept. subseq kept vs \<and> ws = kept @ replicate (length vs - length kept) 10000)"

lemma padded_refl: "padded vs vs"
  by (auto simp: padded_def)

lemma padded_drop:
  assumes "padded vs ws" "i < length vs"
  shows "padded vs (take i ws @ drop (Suc i) ws @ [10000])"
proof -
  obtain kept where k: "subseq kept vs" "ws = kept @ replicate (length vs - length kept) 10000"
    using assms(1) by (auto simp: padded_def)
  have l: "length kept \<le> length vs" using k(1) by (rule list_emb_length)
  show ?thesis
  proof (cases "i < length kept")
    case True
    have "subseq (take i kept @ drop (Suc i) kept) (take i kept @ kept ! i # drop (Suc i) kept)"
      by (intro list_emb_append_mono list_emb_Cons) simp_all
    then have "subseq (take i kept @ drop (Suc i) kept) kept" using True by (simp add: id_take_nth_drop [symmetric])
    then have "subseq (take i kept @ drop (Suc i) kept) vs" using k(1) subseq_order.order_trans by blast
    moreover have "take i ws @ drop (Suc i) ws @ [10000] =
        (take i kept @ drop (Suc i) kept) @ replicate (length vs - length (take i kept @ drop (Suc i) kept)) 10000"
      using True l k(2) by (simp add: Suc_diff_le replicate_append_same flip: replicate_Suc)
    ultimately show ?thesis unfolding padded_def by blast
  next
    case False
    have "take i ws @ drop (Suc i) ws @ [10000] = ws"
      using False assms(2) l unfolding k(2) by (simp add: replicate_append_same flip: replicate_Suc replicate_add)
    then show ?thesis using assms(1) by simp
  qed
qed

lemma subseq_props:
  "subseq xs ys \<Longrightarrow> set xs \<subseteq> set ys \<and> (sorted ys \<longrightarrow> sorted (xs :: int list))"
  by (induction rule: list_emb.induct) auto

lemma sorted_padded:
  assumes "padded vs ws" "sorted vs" "\<forall>x \<in> set vs. x \<le> 10000"
  shows "length ws = length vs \<and> sorted ws \<and> (\<forall>x \<in> set ws. x \<le> 10000)"
proof -
  obtain kept where k: "subseq kept vs" "ws = kept @ replicate (length vs - length kept) 10000"
    using assms(1) by (auto simp: padded_def)
  have "sorted kept" using k(1) assms(2) subseq_props by blast
  moreover have "set kept \<subseteq> set vs" using k(1) subseq_props by blast
  moreover have "length kept \<le> length vs" using k(1) by (rule list_emb_length)
  ultimately show ?thesis using assms(3) k(2) by (auto simp: sorted_append)
qed


lemma age_step_ok:
  assumes "i < 16" "length (fst av) = 16" "length vs = 16" "padded vs (snd av)" "length (snd av) = 16"
  shows "length (fst (age_step i av)) = 16 \<and> padded vs (snd (age_step i av)) \<and> length (snd (age_step i av)) = 16"
  using assms padded_drop [of vs "snd av" i] by (auto simp: age_step_def split_beta shift_down_eq)

lemma age_loop_ok:
  assumes "n \<le> 16" "length (fst av) = 16" "length (snd av) = 16"
  shows "length (fst (fold age_step [0..<n] av)) = 16 \<and> padded (snd av) (snd (fold age_step [0..<n] av)) \<and>
    length (snd (fold age_step [0..<n] av)) = 16"
  using assms
proof (induction n)
  case (Suc n)
  then show ?case using age_step_ok [of n "fold age_step [0..<n] av" "snd av"] by simp
qed (simp add: padded_refl)

text \<open>
  Which values expire: those of age 100, but a value that moves down into the place of an expired one is passed over,
  neither aged nor removed.
\<close>

fun survivors :: "(int \<times> int) list \<Rightarrow> int list" where
  "survivors [] = []"
| "survivors ((a, v) # avs) =
     (if a \<noteq> 100 then v # survivors avs
      else case avs of [] \<Rightarrow> [] | (b, w) # bws \<Rightarrow> w # survivors bws)"

definition unexpired :: "int list \<times> int list \<Rightarrow> int list" where
  "unexpired av = take 16 (survivors (zip (fst av) (snd av)) @ replicate 16 10000)"

lemma age_step_at:
  assumes "length pa + length xa = 15" "length pv = length pa" "length xv = length xa"
  shows "age_step (length pa) (pa @ a # xa, pv @ v # xv) =
    (if a \<noteq> 100 then (pa @ s16 (a + 1) # xa, pv @ v # xv) else (pa @ xa @ [101], pv @ xv @ [10000]))"
  using assms by (simp add: age_step_def shift_down_eq nth_append list_update_append)

lemma age_loop_survivors:
  assumes "length pa + length xa + f = 16" "length pv = length pa" "length xv = length xa"
  shows "snd (fold age_step [length pa..<16] (pa @ xa @ replicate f 101, pv @ xv @ replicate f 10000)) =
    take 16 (pv @ survivors (zip xa xv) @ replicate 16 10000)"
  using assms
proof (induction "16 - length pa" arbitrary: pa pv xa xv f)
  case 0
  then have "length xa = 0" "length xv = 0" "f = 0" "length pa = 16" "length pv = 16" by linarith+
  then show ?case by simp
next
  case (Suc k)
  have up: "[length pa..<16] = length pa # [Suc (length pa)..<16]" using Suc.hyps(2) by (simp add: upt_rec)
  have IH: "snd (fold age_step [Suc (length pa)..<16] (pa @ b # xa' @ replicate f' 101, pv @ w # xv' @ replicate f' 10000)) =
      take 16 (pv @ w # survivors (zip xa' xv') @ replicate 16 10000)"
    if "length pa + length xa' + f' = 15" "length xv' = length xa'" for b w xa' xv' f'
    using Suc.hyps(1) [of "pa @ [b]" xa' f' "pv @ [w]" xv'] Suc.hyps(2) Suc.prems(2) that by simp
  have fill: "take 16 (pv @ 10000 # replicate 16 10000) = take 16 (pv @ replicate 16 (10000 :: int))"
    using Suc.prems(2) Suc.hyps(2) by (simp flip: replicate_Suc add: take_Cons')
  show ?case
  proof (cases xa)
    case Nil
    then obtain f' where f: "f = Suc f'" using Suc.prems Suc.hyps(2) by (cases f) simp_all
    show ?thesis using IH [of "[]" f' "[]" "s16 102" 10000] age_step_at [of pa "replicate f' 101" pv "replicate f' 10000" 101 10000] Suc.prems Nil f fill
      by (simp add: up)
  next
    case (Cons a xa1)
    then obtain v xv1 where xv: "xv = v # xv1" "length xv1 = length xa1" using Suc.prems(3) by (cases xv) simp_all
    note st = age_step_at [of pa "xa1 @ replicate f 101" pv "xv1 @ replicate f 10000" a v]
    show ?thesis
    proof (cases "a = 100")
      case False
      then show ?thesis using IH [of xa1 f xv1 "s16 (a + 1)" v] st Suc.prems Cons xv by (simp add: up)
    next
      case True
      show ?thesis
      proof (cases xa1)
        case Nil
        then show ?thesis using IH [of "[]" f "[]" 101 10000] st Suc.prems Cons xv True fill
          by (simp add: up replicate_append_same)
      next
        case (Cons b xa2)
        then obtain w xv2 where "xv1 = w # xv2" "length xv2 = length xa2" using xv(2) by (cases xv1) simp_all
        then show ?thesis using IH [of xa2 "Suc f" xv2 b w] st Suc.prems Cons \<open>xa = a # xa1\<close> xv True
          by (simp add: up replicate_append_same)
      qed
    qed
  qed
qed

lemma age_loop_unexpired:
  assumes "minima_ok av"
  shows "snd (fold age_step [0..<16] av) = unexpired av"
  using age_loop_survivors [of "[]" "fst av" 0 "[]" "snd av"] assms by (simp add: minima_ok_def unexpired_def)

lemma sorted_insert:
  assumes "sorted s" "p < length s" "v < s ! p" "p = 0 \<or> s ! (p - 1) \<le> (v::int)"
  shows "take p s @ v # drop p s = sort (v # s)"
proof (rule properties_for_sort [symmetric])
  have "x \<le> v" if mem: "x \<in> set (take p s)" for x
  proof -
    obtain i where i: "i < p" "x = s ! i" using mem assms(2) by (auto simp: in_set_conv_nth)
    then have "s ! i \<le> s ! (p - 1)" using assms(1,2) by (intro sorted_nth_mono) auto
    then show ?thesis using i assms(4) by auto
  qed
  moreover have "v \<le> x" if mem: "x \<in> set (drop p s)" for x
  proof -
    obtain i where i: "i < length s - p" "x = s ! (p + i)" using mem assms(2) by (auto simp: in_set_conv_nth)
    then have "s ! p \<le> s ! (p + i)" using assms(1,2) i(1) by (intro sorted_nth_mono) auto
    then show ?thesis using i assms(3) by simp
  qed
  ultimately show "sorted (take p s @ v # drop p s)"
    using assms(1) by (auto simp: sorted_append sorted_wrt_take sorted_wrt_drop intro: order_trans)
  show "mset (take p s @ v # drop p s) = mset (v # s)"
    by simp (metis append_take_drop_id mset_append)
qed

text \<open>The update keeps the sixteen smallest of the aged values and the new one.\<close>

lemma update_minima_ok:
  assumes "minima_ok av" "fold age_step [0..<16] av = (age, aged)"
  shows "snd (update_minima v av) = take 16 (sort (v # aged)) \<and> padded (snd av) aged \<and> minima_ok (update_minima v av)"
proof -
  have a: "length age = 16" "padded (snd av) aged" "length aged = 16"
    using age_loop_ok [of 16 av] assms by (auto simp: minima_ok_def)
  have s: "sorted aged" "\<forall>x \<in> set aged. x \<le> 10000"
    using sorted_padded [OF a(2)] assms(1) by (auto simp: minima_ok_def)
  have srt: "sorted (take 16 (sort (v # aged)))" by (intro sorted_wrt_take sorted_sort)
  show ?thesis
  proof (cases "find_position v aged")
    case None
    have "v \<ge> x" if "x \<in> set aged" for x
    proof -
      have "\<exists>i < 16. x = aged ! i" using that a(3) by (auto simp: in_set_conv_nth)
      then have "x \<le> aged ! 15" using s(1) a(3) by (auto intro!: sorted_nth_mono)
      then show ?thesis using None find_position_None [of v aged] by simp
    qed
    then have "sort (v # aged) = aged @ [v]" using s(1) by (intro properties_for_sort) (auto simp: sorted_append)
    then show ?thesis using None a s assms(2) by (simp add: update_minima_def minima_ok_def)
  next
    case (Some p)
    note p = find_position_Some [OF Some]
    have eq: "shift_up p v aged = take 16 (sort (v # aged))"
      using p a(3) s(1) sorted_insert [of aged p v] by (simp add: shift_up_eq)
    have l: "length (shift_up p 1 age) = 16" using p a(1) by (simp add: shift_up_eq)
    have "aged ! p \<le> 10000" using s(2) p a(3) by simp
    then have "v \<le> 10000" using p by linarith
    then have "\<forall>x \<in> set (take 16 (sort (v # aged))). x \<le> 10000" using s(2) by (auto simp: set_insort_key dest!: in_set_takeD)
    then show ?thesis using Some a s assms(2) eq l srt by (simp add: update_minima_def minima_ok_def)
  qed
qed

text \<open>The smoothed value lies between the old one and the median.\<close>

lemma smooth_median_between:
  fixes m fc :: int
  assumes "is_s16 m" "\<forall>x \<in> set vs. is_s16 x" "length vs = 16"
  defines "c \<equiv> (if fc > 2 then vs ! 2 else if fc > 0 then vs ! 0 else 1600)"
  shows "min m c \<le> smooth_median fc vs m \<and> smooth_median fc vs m \<le> max m c"
proof -
  have "vs ! 0 \<in> set vs" "vs ! 2 \<in> set vs" using assms(3) by simp_all
  then have c: "is_s16 c" using assms(2) by (auto simp: c_def is_s16_def)
  have key: "s16 (asr (s32 (s32 (s32 ((a + 1) * m) + (32767 - a) * c) + 16384)) 15) = ((a + 1) * m + (32767 - a) * c + 16384) div 32768
      \<and> min m c \<le> ((a + 1) * m + (32767 - a) * c + 16384) div 32768 \<and> ((a + 1) * m + (32767 - a) * c + 16384) div 32768 \<le> max m c"
    if a: "0 \<le> a" "a \<le> 32767" for a
  proof -
    have lo: "(a + 1) * min m c + (32767 - a) * min m c \<le> (a + 1) * m + (32767 - a) * c"
      using a by (intro add_mono mult_left_mono) auto
    have hi: "(a + 1) * m + (32767 - a) * c \<le> (a + 1) * max m c + (32767 - a) * max m c"
      using a by (intro add_mono mult_left_mono) auto
    have lo': "32768 * min m c \<le> (a + 1) * m + (32767 - a) * c" using lo by (simp add: algebra_simps)
    have hi': "(a + 1) * m + (32767 - a) * c \<le> 32768 * max m c" using hi by (simp add: algebra_simps)
    have b: "- 32768 \<le> min m c" "max m c \<le> 32767" using assms(1) c by (auto simp: is_s16_def)
    let ?x = "(a + 1) * m + (32767 - a) * c"
    have am: "\<bar>(a + 1) * m\<bar> \<le> 32768 * 32768" 
      unfolding abs_mult using a assms(1) by (intro mult_mono) (auto simp: is_s16_def)
    have 1: "s32 ((a + 1) * m) = (a + 1) * m" using am by (intro s32_id) (auto simp: is_s32_def)
    have 2: "s32 ?x = ?x" "s32 (?x + 16384) = ?x + 16384"
      using lo' hi' b by (intro s32_id; unfold is_s32_def; linarith)+
    have q: "min m c \<le> (?x + 16384) div 32768" "(?x + 16384) div 32768 \<le> max m c"
      using lo' hi' by linarith+
    have "s16 ((?x + 16384) div 32768) = (?x + 16384) div 32768"
      using q b by (intro s16_id) (unfold is_s16_def, linarith)
    then show ?thesis using 1 2 q by (simp add: asr_def)
  qed
  let ?a = "if fc > 0 then if c < m then kSmoothingDown else kSmoothingUp else 0"
  have "smooth_median fc vs m = s16 (asr (s32 (s32 (s32 ((?a + 1) * m) + (32767 - ?a) * c) + 16384)) 15)"
    by (simp only: smooth_median_def Let_def c_def)
  moreover have "0 \<le> ?a" "?a \<le> 32767" by (simp_all add: kSmoothingDown_def kSmoothingUp_def)
  note key [OF this]
  ultimately show ?thesis by (simp only: conj_assoc)
qed

lemma padded_set: "padded vs ws \<Longrightarrow> set ws \<subseteq> insert 10000 (set vs)"
  using subseq_props by (fastforce simp: padded_def)

lemma update_minima_set:
  assumes "minima_ok av"
  shows "set (snd (update_minima v av)) \<subseteq> insert v (insert 10000 (set (snd av)))"
proof -
  obtain age aged where f: "fold age_step [0..<16] av = (age, aged)" by fastforce
  have "set (snd (update_minima v av)) \<subseteq> insert v (set aged)"
    using update_minima_ok [OF assms f] by (auto simp: set_insort_key dest!: in_set_takeD)
  then show ?thesis using padded_set update_minima_ok [OF assms f] by blast
qed

text \<open>The arrays of one channel in the instance.\<close>

definition channel_minima :: "VadInstT \<Rightarrow> nat \<Rightarrow> int list \<times> int list" where
  "channel_minima self c = (take 16 (drop (16 * c) (index_vector self)), take 16 (drop (16 * c) (low_value_vector self)))"

lemma splice_same: "c + 16 \<le> length xs \<Longrightarrow> length ys = 16 \<Longrightarrow> take 16 (drop c (take c xs @ ys @ drop (c + 16) xs)) = ys"
  by simp

lemma splice_other:
  assumes "c + 16 \<le> length xs" "length ys = 16" "c' + 16 \<le> c \<or> c + 16 \<le> c'"
  shows "take 16 (drop c' (take c xs @ ys @ drop (c + 16) xs)) = take 16 (drop c' xs)"
proof (rule nth_equalityI)
  show "length (take 16 (drop c' (take c xs @ ys @ drop (c + 16) xs))) = length (take 16 (drop c' xs))"
    using assms by (simp del: drop_append take_append)
  fix i assume "i < length (take 16 (drop c' (take c xs @ ys @ drop (c + 16) xs)))"
  then show "take 16 (drop c' (take c xs @ ys @ drop (c + 16) xs)) ! i = take 16 (drop c' xs) ! i"
    using assms by (auto simp: nth_append simp del: drop_append take_append)
qed

lemma FindMinimum_ok:
  assumes "vad_shape self" "c < 6" "minima_ok (channel_minima self c)"
  obtains iv lv where "WebRtcVad_FindMinimum self v c =
      (let m = smooth_median (frame_counter self) (snd (update_minima v (channel_minima self c))) (mean_value self ! c)
       in Some (m, self\<lparr>index_vector := iv, low_value_vector := lv, mean_value := (mean_value self)[c := m]\<rparr>))"
    "length iv = 96" "length lv = 96"
    "\<And>x. channel_minima (self\<lparr>index_vector := iv, low_value_vector := lv, mean_value := x\<rparr>) c =
       update_minima v (channel_minima self c)"
    "\<And>c' x. c' < 6 \<Longrightarrow> c' \<noteq> c \<Longrightarrow>
       channel_minima (self\<lparr>index_vector := iv, low_value_vector := lv, mean_value := x\<rparr>) c' = channel_minima self c'"
proof -
  obtain age sv where u: "update_minima v (channel_minima self c) = (age, sv)" by fastforce
  obtain a0 s0 where f: "fold age_step [0..<16] (channel_minima self c) = (a0, s0)" by fastforce
  have "minima_ok (update_minima v (channel_minima self c))" using update_minima_ok [OF assms(3) f] by blast
  then have l: "length age = 16" "length sv = 16" using u by (simp_all add: minima_ok_def)
  have sh: "length (index_vector self) = 96" "length (low_value_vector self) = 96" "length (mean_value self) = 6"
    using assms(1) by (simp_all add: vad_shape_def kNumChannels_def)
  let ?iv = "take (16 * c) (index_vector self) @ age @ drop (16 * c + 16) (index_vector self)"
  let ?lv = "take (16 * c) (low_value_vector self) @ sv @ drop (16 * c + 16) (low_value_vector self)"
  have c: "16 * c + 16 \<le> 96" using assms(2) by simp
  have o: "16 * c' + 16 \<le> 16 * c \<or> 16 * c + 16 \<le> 16 * c'" if "c' \<noteq> c" for c' using that by linarith
  show thesis
  proof (rule that [where iv = ?iv and lv = ?lv])
    show "WebRtcVad_FindMinimum self v c =
      (let m = smooth_median (frame_counter self) (snd (update_minima v (channel_minima self c))) (mean_value self ! c)
       in Some (m, self\<lparr>index_vector := ?iv, low_value_vector := ?lv, mean_value := (mean_value self)[c := m]\<rparr>))"
      using sh c assms(2) u unfolding channel_minima_def by (simp add: WebRtcVad_FindMinimum_def Let_def)
    show "channel_minima (self\<lparr>index_vector := ?iv, low_value_vector := ?lv, mean_value := x\<rparr>) c =
        update_minima v (channel_minima self c)" for x
      unfolding u unfolding channel_minima_def using l sh c by (simp add: splice_same del: drop_append take_append)
    show "channel_minima (self\<lparr>index_vector := ?iv, low_value_vector := ?lv, mean_value := x\<rparr>) c' = channel_minima self c'"
      if "c' < 6" "c' \<noteq> c" for c' x
      unfolding channel_minima_def using l sh c o [OF that(2)] by (simp add: splice_other del: drop_append take_append)
  qed (use l sh c in simp_all)
qed

section \<open>The decimation\<close>

lemma downsampling_loop_ok:
  assumes "2 * n \<le> length xs" "n \<le> cap"
  shows "\<exists>out t. downsampling_loop n xs cap st = Some (out, t) \<and> length out = n \<and> (\<forall>y \<in> set out. is_s16 y)"
  using assms
proof (induction n)
  case (Suc n)
  then obtain out t1 t2 where "downsampling_loop n xs cap st = Some (out, t1, t2)" "length out = n" "\<forall>y \<in> set out. is_s16 y"
    by auto
  then show ?case using Suc.prems by (auto simp: rd_less Let_def)
qed simp

lemma Downsampling_ok:
  assumes "n \<le> length xs" "n div 2 \<le> cap" "off + 2 \<le> length st"
  shows "\<exists>out st'. WebRtcVad_Downsampling xs cap st off n = Some (out, st') \<and> length out = n div 2 \<and>
    (\<forall>y \<in> set out. is_s16 y) \<and> length st' = length st"
proof -
  have "2 * (n div 2) \<le> length xs" using assms(1) by linarith
  then obtain out t1 t2 where "downsampling_loop (n div 2) xs cap (st ! off, st ! (off + 1)) = Some (out, t1, t2)"
      "length out = n div 2" "\<forall>y \<in> set out. is_s16 y"
    using downsampling_loop_ok [of "n div 2" xs cap "(st ! off, st ! (off + 1))"] assms by auto
  then show ?thesis using assms by (simp add: WebRtcVad_Downsampling_def rd_less wr_less)
qed

end
