(* ===== verification/Vad_Filterbank.thy ===== *)
theory Vad_Filterbank
  imports Vad_Inst
begin

text \<open>
  \<^verbatim>\<open>vad_filterbank.c\<close>: six band energies from a frame of 8 kHz audio, by a tree of two-band splits.

  The stack arrays the splits write to are the lists of the samples written; \<open>cap\<close> is the size of an
  output array, and a split that would write more samples is \<open>None\<close>.
\<close>

definition kLogConst :: int where "kLogConst = 24660"
definition kLogEnergyIntPart :: int where "kLogEnergyIntPart = 14336"
definition kHpZeroCoefs :: "int list" where "kHpZeroCoefs = [6631, -13262, 6631]"
definition kHpPoleCoefs :: "int list" where "kHpPoleCoefs = [16384, -7756, 5620]"
definition kAllPassCoefsQ15 :: "int list" where "kAllPassCoefsQ15 = [20972, 5571]"
definition kOffsetVector :: "int list" where "kOffsetVector = [368, 368, 272, 176, 176, 176]"

primrec HighPassFilter :: "int list \<Rightarrow> int list \<Rightarrow> int list \<times> int list" where
  "HighPassFilter [] filter_state = ([], filter_state)"
| "HighPassFilter (x # xs) filter_state =
     (let tmp32 = s32 (kHpZeroCoefs ! 0 * x);
          tmp32 = s32 (tmp32 + kHpZeroCoefs ! 1 * filter_state ! 0);
          tmp32 = s32 (tmp32 + kHpZeroCoefs ! 2 * filter_state ! 1);
          filter_state = filter_state[1 := filter_state ! 0];
          filter_state = filter_state[0 := x];
          tmp32 = s32 (tmp32 - kHpPoleCoefs ! 1 * filter_state ! 2);
          tmp32 = s32 (tmp32 - kHpPoleCoefs ! 2 * filter_state ! 3);
          filter_state = filter_state[3 := filter_state ! 2];
          filter_state = filter_state[2 := s16 (asr tmp32 14)];
          (ys, st) = HighPassFilter xs filter_state
      in (filter_state ! 2 # ys, st))"

text \<open>The loop of \<open>AllPassFilter\<close> on the samples it reads, and the function with its reads of every
  second sample from \<open>off\<close> on.\<close>

primrec allpass_loop :: "int \<Rightarrow> int list \<Rightarrow> int \<Rightarrow> int list \<times> int" where
  "allpass_loop coef [] state32 = ([], state32)"
| "allpass_loop coef (x # xs) state32 =
     (let tmp32 = s32 (state32 + coef * x);
          tmp16 = s16 (asr tmp32 16);
          state32 = s32 (x * 16384 - coef * tmp16);
          state32 = s32 (state32 * 2);
          (ys, st) = allpass_loop coef xs state32
      in (tmp16 # ys, st))"

definition AllPassFilter :: "int list \<Rightarrow> nat \<Rightarrow> nat \<Rightarrow> int \<Rightarrow> int \<Rightarrow> nat \<Rightarrow> (int list \<times> int) option" where
  "AllPassFilter data_in off data_length filter_coefficient filter_state cap =
     (if data_length \<le> cap then do {
        xs \<leftarrow> those (map (\<lambda>i. rd data_in (off + 2 * i)) [0..<data_length]);
        let (ys, state32) = allpass_loop filter_coefficient xs (s32 (filter_state * 65536));
        Some (ys, s16 (asr state32 16))
      } else None)"

definition SplitFilter ::
    "int list \<Rightarrow> nat \<Rightarrow> int \<Rightarrow> int \<Rightarrow> nat \<Rightarrow> (int list \<times> int list \<times> int \<times> int) option" where
  "SplitFilter data_in data_length upper lower cap = do {
     let half_length = data_length div 2;
     (hp, upper') \<leftarrow> AllPassFilter data_in 0 half_length (kAllPassCoefsQ15 ! 0) upper cap;
     (lp, lower') \<leftarrow> AllPassFilter data_in 1 half_length (kAllPassCoefsQ15 ! 1) lower cap;
     Some (map2 (\<lambda>h l. s16 (h - l)) hp lp, map2 (\<lambda>h l. s16 (l + h)) hp lp, upper', lower')
   }"

definition LogOfEnergy :: "int list \<Rightarrow> int \<Rightarrow> int \<Rightarrow> int \<times> int" where
  "LogOfEnergy data_in offset total_energy =
     (let (en, tot_rshifts) = WebRtcSpl_Energy data_in;
          energy = u32 en
      in if energy \<noteq> 0 then
           let normalizing_rshifts = 17 - WebRtcSpl_NormU32 energy;
               tot_rshifts = tot_rshifts + normalizing_rshifts;
               energy = (if normalizing_rshifts < 0 then u32 (energy * 2 ^ nat (- normalizing_rshifts))
                         else asr energy (nat normalizing_rshifts));
               log2_energy = s16 (kLogEnergyIntPart + s16 (asr (energy AND 0x00003FFF) 4));
               log_energy = s16 (asr (kLogConst * log2_energy) 19 + asr (tot_rshifts * kLogConst) 9);
               log_energy = (if log_energy < 0 then 0 else log_energy);
               log_energy = s16 (log_energy + offset);
               total_energy = (if total_energy \<le> kMinEnergy
                 then if tot_rshifts \<ge> 0 then s16 (total_energy + (kMinEnergy + 1))
                      else s16 (total_energy + s16 (asr energy (nat (- tot_rshifts))))
                 else total_energy)
           in (total_energy, log_energy)
         else (total_energy, offset))"

text \<open>
  \<open>split_band\<close> is a call of \<open>SplitFilter\<close> with the filter states of a frequency band of the instance.
\<close>

definition split_band :: "VadInstT \<Rightarrow> nat \<Rightarrow> int list \<Rightarrow> nat \<Rightarrow> nat \<Rightarrow> (int list \<times> int list \<times> VadInstT) option" where
  "split_band self frequency_band data_in data_length cap = do {
     us \<leftarrow> rd (upper_state self) frequency_band;
     ls \<leftarrow> rd (lower_state self) frequency_band;
     (hp, lp, us', ls') \<leftarrow> SplitFilter data_in data_length us ls cap;
     Some (hp, lp, self\<lparr>upper_state := (upper_state self)[frequency_band := us'],
                        lower_state := (lower_state self)[frequency_band := ls']\<rparr>)
   }"

definition WebRtcVad_CalculateFeatures ::
    "VadInstT \<Rightarrow> int list \<Rightarrow> nat \<Rightarrow> (int \<times> int list \<times> VadInstT) option" where
  "WebRtcVad_CalculateFeatures self data_in data_length = do {
     let half_data_length = data_length div 2;
     let len = half_data_length;
     (hp_120, lp_120, self) \<leftarrow> split_band self 0 data_in data_length 120;
     (hp_60, lp_60, self) \<leftarrow> split_band self 1 hp_120 len 60;
     let (total_energy, f5) = LogOfEnergy hp_60 (kOffsetVector ! 5) 0;
     let (total_energy, f4) = LogOfEnergy lp_60 (kOffsetVector ! 4) total_energy;
     let len = half_data_length;
     (hp_60, lp_60, self) \<leftarrow> split_band self 2 lp_120 len 60;
     let len = len div 2;
     let (total_energy, f3) = LogOfEnergy hp_60 (kOffsetVector ! 3) total_energy;
     (hp_120, lp_120, self) \<leftarrow> split_band self 3 lp_60 len 120;
     let len = len div 2;
     let (total_energy, f2) = LogOfEnergy hp_120 (kOffsetVector ! 2) total_energy;
     (hp_60, lp_60, self) \<leftarrow> split_band self 4 lp_120 len 60;
     let (total_energy, f1) = LogOfEnergy hp_60 (kOffsetVector ! 1) total_energy;
     let (hp_120, hp_st) = HighPassFilter lp_60 (hp_filter_state self);
     let self = self\<lparr>hp_filter_state := hp_st\<rparr>;
     let (total_energy, f0) = LogOfEnergy hp_120 (kOffsetVector ! 0) total_energy;
     Some (total_energy, [f0, f1, f2, f3, f4, f5], self)
   }"

section \<open>The energy of a band\<close>

lemma scan_value_bounds: "lo \<le> b \<Longrightarrow> b \<le> hi \<Longrightarrow> \<forall>x \<in> set xs. x \<le> hi \<Longrightarrow> lo \<le> scan_value (>) xs b \<and> scan_value (>) xs b \<le> (hi::int)"
  by (induction xs arbitrary: b) auto

lemma GetScalingSquare_bounds:
  assumes "length v < 128" "\<forall>x \<in> set v. is_s16 x"
  shows "0 \<le> WebRtcSpl_GetScalingSquare v (length v) \<and> WebRtcSpl_GetScalingSquare v (length v) \<le> 7"
proof -
  let ?m = "scan_value (>) (map (\<lambda>x. if x > 0 then x else s16 (- x)) v) (-1)"
  have "\<forall>y \<in> set (map (\<lambda>x. if x > 0 then x else s16 (- x)) v). y \<le> 32767" using assms(2) by (auto simp: is_s16_def)
  from scan_value_bounds [OF _ _ this, of "-1" "-1"] have m: "-1 \<le> ?m" "?m \<le> 32767" by simp_all
  have b: "bit_length (length v) \<le> 7" using assms(1) by (intro bit_length_le) simp
  have nb: "WebRtcSpl_GetSizeInBits (u32 (int (length v))) = int (bit_length (length v))"
    using GetSizeInBits_eq [of "length v"] assms(1) by simp
  show ?thesis
  proof (cases "?m = 0")
    case True
    then show ?thesis by (simp add: WebRtcSpl_GetScalingSquare_def Let_def)
  next
    case False
    have sq: "0 < ?m * ?m" using False by (simp add: zero_less_mult_iff) linarith
    have "\<bar>?m\<bar> * \<bar>?m\<bar> \<le> 32767 * 32767" using m by (intro mult_mono) auto
    then have le: "?m * ?m < 2147483648" by simp
    then have "s32 (?m * ?m) = ?m * ?m" using sq by (intro s32_id) (simp add: is_s32_def)
    then obtain t where t: "t \<le> 30" "WebRtcSpl_NormW32 (s32 (?m * ?m)) = int t"
      using NormW32_pos [OF sq le] by auto
    have "s16 (int (bit_length (length v)) - int t) = int (bit_length (length v)) - int t"
      using t(1) b by (intro s16_id) (simp add: is_s16_def)
    then show ?thesis using False t nb b by (simp add: WebRtcSpl_GetScalingSquare_def Let_def)
  qed
qed

lemma NormU32_eq: "0 < e \<Longrightarrow> e < 4294967296 \<Longrightarrow>
  WebRtcSpl_NormU32 e = 32 - int (bit_length (nat e)) \<and> 1 \<le> bit_length (nat e) \<and> bit_length (nat e) \<le> 32"
proof -
  assume e: "0 < e" "e < 4294967296"
  have "bit_length (nat e) \<le> 32" using e by (intro bit_length_le) (simp add: nat_less_iff)
  moreover have "0 < bit_length (nat e)" using bit_length_bounds [of "nat e"] e by simp
  moreover have "s16 (32 - int (bit_length (nat e))) = 32 - int (bit_length (nat e))"
    using calculation by (intro s16_id) (simp add: is_s16_def)
  ultimately show ?thesis using e by (simp add: WebRtcSpl_NormU32_def CountLeadingZeros32_eq)
qed

text \<open>Normalised to 15 bits: between \<open>2 ^ 14\<close> and \<open>2 ^ 15\<close>.\<close>

lemma normalize_15:
  assumes "0 < e" "e < 4294967296"
  defines "r \<equiv> 17 - WebRtcSpl_NormU32 e"
  defines "n \<equiv> (if r < 0 then u32 (e * 2 ^ nat (- r)) else asr e (nat r))"
  shows "-14 \<le> r" "r \<le> 17" "16384 \<le> n" "n < 32768"
proof -
  let ?k = "bit_length (nat e)"
  note k = NormU32_eq [OF assms(1,2)]
  have r: "r = int ?k - 15" using k by (simp add: r_def)
  then show "-14 \<le> r" "r \<le> 17" using k by linarith+
  have "2 ^ (?k - 1) \<le> nat e" "nat e < 2 ^ ?k" using bit_length_bounds [of "nat e"] assms(1) by simp_all
  then have b: "2 ^ (?k - 1) \<le> e" "e < 2 ^ ?k" using assms(1) by (simp_all add: le_nat_iff nat_less_iff)
  have "16384 \<le> n \<and> n < 32768"
  proof (cases "r < 0")
    case True
    have p: "(2::int) ^ (?k - 1) * 2 ^ nat (- r) = 16384" "(2::int) ^ ?k * 2 ^ nat (- r) = 32768"
    proof -
      have "?k - 1 + nat (- r) = 14" "?k + nat (- r) = 15" using True r k by linarith+
      then show "(2::int) ^ (?k - 1) * 2 ^ nat (- r) = 16384" "(2::int) ^ ?k * 2 ^ nat (- r) = 32768"
        by (simp_all only: power_add [symmetric]) simp_all
    qed
    have "2 ^ (?k - 1) * 2 ^ nat (- r) \<le> e * 2 ^ nat (- r)" "e * 2 ^ nat (- r) < 2 ^ ?k * 2 ^ nat (- r)"
      using b by simp_all
    then have bb: "16384 \<le> e * 2 ^ nat (- r)" "e * 2 ^ nat (- r) < 32768" using p by linarith+
    then have "n = e * 2 ^ nat (- r)" using True by (simp add: n_def u32_id is_u32_def)
    then show ?thesis using bb by simp
  next
    case False
    have p: "(2::int) ^ (?k - 1) = 16384 * 2 ^ nat r" "(2::int) ^ ?k = 32768 * 2 ^ nat r"
    proof -
      have "?k - 1 = 14 + nat r" "?k = 15 + nat r" using False r k by linarith+
      then show "(2::int) ^ (?k - 1) = 16384 * 2 ^ nat r" "(2::int) ^ ?k = 32768 * 2 ^ nat r"
        by (simp_all add: power_add)
    qed
    have "16384 \<le> e div 2 ^ nat r" using zdiv_mono1 [OF b(1), of "2 ^ nat r"] unfolding p by simp
    moreover have "e div 2 ^ nat r < 32768"
    proof (rule ccontr)
      assume "\<not> e div 2 ^ nat r < 32768"
      then have "32768 * 2 ^ nat r \<le> e div 2 ^ nat r * 2 ^ nat r" by (intro mult_right_mono) simp_all
      also have "\<dots> \<le> e" using div_bounds [of "2 ^ nat r" e] by simp
      finally show False using b(2) p by simp
    qed
    ultimately show ?thesis using False by (simp add: n_def asr_def)
  qed
  then show "16384 \<le> n" "n < 32768" by simp_all
qed

text \<open>The band energy is a log value between its offset and \<open>offset + 1877\<close>; the total stays positive.\<close>

lemma LogOfEnergy_bounds:
  assumes v: "length v < 128" "\<forall>x \<in> set v. is_s16 x" and off: "0 \<le> off" "off \<le> 1000"
    and te: "0 \<le> te" "te \<le> 16393"
  shows "\<exists>te' f. LogOfEnergy v off te = (te', f) \<and> off \<le> f \<and> f \<le> off + 1877 \<and> 0 \<le> te' \<and> te' \<le> 16393"
proof -
  obtain en sc where e: "WebRtcSpl_Energy v = (en, sc)" by fastforce
  have sc: "0 \<le> sc" "sc \<le> 7"
    using e GetScalingSquare_bounds [OF v] by (auto simp: WebRtcSpl_Energy_def Let_def)
  show ?thesis
  proof (cases "u32 en = 0")
    case True
    then show ?thesis using e off te by (simp add: LogOfEnergy_def)
  next
    case False
    then have en: "0 < u32 en" "u32 en < 4294967296" using u32_bounds [of en] by linarith+
    define r where "r = 17 - WebRtcSpl_NormU32 (u32 en)"
    define n where "n = (if r < 0 then u32 (u32 en * 2 ^ nat (- r)) else asr (u32 en) (nat r))"
    have b: "-14 \<le> r" "r \<le> 17" "16384 \<le> n" "n < 32768"
      using normalize_15 [OF en] unfolding r_def n_def by blast+
    have m: "0 \<le> n AND 0x3FFF" "n AND 0x3FFF \<le> 16383"
      using take_bit_eq_mask [of 14 n] by (simp_all add: take_bit_eq_mod mask_eq_exp_minus_1 flip: take_bit_eq_mask)
    define g where "g = asr (n AND 0x3FFF) 4"
    have "g = (n AND 0x3FFF) div 16" by (simp add: g_def asr_def)
    then have g: "0 \<le> g" "g \<le> 1023" using m by linarith+
    have l2: "s16 (kLogEnergyIntPart + s16 g) = 14336 + g"
      using g by (simp add: kLogEnergyIntPart_def s16_id is_s16_def)
    define l where "l = asr (24660 * (14336 + g)) 19 + asr ((sc + r) * 24660) 9"
    have "674 \<le> asr (24660 * (14336 + g)) 19" "asr (24660 * (14336 + g)) 19 \<le> 722" using g by (simp_all add: asr_def)
    moreover have "-675 \<le> asr ((sc + r) * 24660) 9" "asr ((sc + r) * 24660) 9 \<le> 1155" using b sc by (simp_all add: asr_def)
    ultimately have l: "-1 \<le> l" "l \<le> 1877" by (simp_all add: l_def)
    have ls: "s16 (asr (kLogConst * (14336 + g)) 19 + asr ((sc + r) * kLogConst) 9) = l"
      using l unfolding kLogConst_def l_def [symmetric] by (intro s16_id) (simp add: is_s16_def)
    let ?f = "s16 ((if l < 0 then 0 else l) + off)"
    let ?te = "if te \<le> kMinEnergy then if sc + r \<ge> 0 then s16 (te + (kMinEnergy + 1)) else s16 (te + s16 (asr n (nat (- (sc + r))))) else te"
    have "LogOfEnergy v off te = (?te, ?f)"
      using False e unfolding LogOfEnergy_def by (simp add: Let_def r_def [symmetric] n_def [symmetric] g_def [symmetric] l2 ls)
    moreover have "?f = (if l < 0 then 0 else l) + off" using l off by (intro s16_id) (simp add: is_s16_def)
    moreover have "0 \<le> ?te \<and> ?te \<le> 16393"
    proof -
      have an: "asr n (Suc i) \<le> 16383" "0 \<le> asr n (Suc i)" for i
      proof -
        have "asr n (Suc i) \<le> asr (n div 2) i" by (simp add: asr_def zdiv_zmult2_eq)
        also have "\<dots> \<le> n div 2" using b by (intro asr_le) simp
        finally show "asr n (Suc i) \<le> 16383" using b by linarith
        show "0 \<le> asr n (Suc i)" using b by (simp add: asr_nonneg)
      qed
      show ?thesis
      proof (cases "sc + r \<ge> 0")
        case True
        then show ?thesis using te by (simp add: kMinEnergy_def s16_id is_s16_def)
      next
        case False
        then obtain i where i: "nat (- (sc + r)) = Suc i" by (metis Suc_pred' linorder_not_le neg_0_less_iff_less zero_less_nat_eq)
        have "te \<le> 10 \<Longrightarrow> s16 (te + s16 (asr n (Suc i))) = te + asr n (Suc i)"
          using an [of i] te by (simp add: s16_id is_s16_def)
        then show ?thesis using False an [of i] te unfolding i by (simp add: kMinEnergy_def)
      qed
    qed
    ultimately show ?thesis using l off by auto
  qed
qed


section \<open>The filters\<close>

lemma allpass_loop_ok: "length (fst (allpass_loop coef xs st)) = length xs \<and> (\<forall>y \<in> set (fst (allpass_loop coef xs st)). is_s16 y)"
  by (induction xs arbitrary: st) (auto simp: Let_def split_beta)

lemma HighPassFilter_s16: "length st = 4 \<Longrightarrow> y \<in> set (fst (HighPassFilter xs st)) \<Longrightarrow> is_s16 y"
proof (induction xs arbitrary: st)
  case (Cons x xs)
  show ?case using Cons.prems by (auto simp: Let_def split_beta intro: Cons.IH [rotated])
qed simp

lemma HighPassFilter_ok:
  "length st = 4 \<Longrightarrow> length (fst (HighPassFilter xs st)) = length xs \<and> length (snd (HighPassFilter xs st)) = 4"
  by (induction xs arbitrary: st) (simp_all add: Let_def split_beta)

lemma AllPassFilter_ok:
  assumes "n \<le> cap" "\<forall>i<n. off + 2 * i < length xs"
  shows "\<exists>ys st'. AllPassFilter xs off n coef st cap = Some (ys, st') \<and> length ys = n \<and> (\<forall>y \<in> set ys. is_s16 y)"
proof -
  have "map (\<lambda>i. rd xs (off + 2 * i)) [0..<n] = map (\<lambda>i. Some (xs ! (off + 2 * i))) [0..<n]"
    using assms(2) by (simp add: rd_less)
  then have "those (map (\<lambda>i. rd xs (off + 2 * i)) [0..<n]) = Some (map (\<lambda>i. xs ! (off + 2 * i)) [0..<n])"
    by (simp only: those_Some)
  then show ?thesis
    using assms(1) allpass_loop_ok [of coef "map (\<lambda>i. xs ! (off + 2 * i)) [0..<n]" "s32 (st * 65536)"]
    by (auto simp: AllPassFilter_def split_beta Let_def)
qed

lemma split_band_ok:
  assumes "length (upper_state self) = 5" "length (lower_state self) = 5" "band < 5" "n div 2 \<le> cap" "n \<le> length xs"
  obtains hp lp us ls where "split_band self band xs n cap = Some (hp, lp, self\<lparr>upper_state := us, lower_state := ls\<rparr>)"
    "length hp = n div 2" "length lp = n div 2" "\<forall>y \<in> set hp. is_s16 y" "\<forall>y \<in> set lp. is_s16 y"
    "length us = 5" "length ls = 5"
proof -
  have i: "\<forall>i < n div 2. 0 + 2 * i < length xs" "\<forall>i < n div 2. 1 + 2 * i < length xs" using assms(5) by auto
  obtain ys us where u: "AllPassFilter xs 0 (n div 2) (kAllPassCoefsQ15 ! 0) (upper_state self ! band) cap = Some (ys, us)"
      "length ys = n div 2"
    using AllPassFilter_ok [OF assms(4) i(1)] by blast
  obtain zs ls where l: "AllPassFilter xs 1 (n div 2) (kAllPassCoefsQ15 ! 1) (lower_state self ! band) cap = Some (zs, ls)"
      "length zs = n div 2"
    using AllPassFilter_ok [OF assms(4) i(2)] by blast
  show thesis
    by (rule that [of "map2 (\<lambda>h l. s16 (h - l)) ys zs" "map2 (\<lambda>h l. s16 (l + h)) ys zs"
          "(lower_state self)[band := ls]" "(upper_state self)[band := us]"])
      (use u l assms in \<open>auto simp: split_band_def SplitFilter_def rd_less Let_def\<close>)
qed

text \<open>
  The features of a frame: no access out of bounds for frames of at most 240 samples, six values in
  a known range, and only the filter states of the instance change.
\<close>

lemma CalculateFeatures_ok:
  assumes sh: "vad_shape self" and n: "0 < n" "n \<le> 240" "n \<le> length xs"
  obtains te fs us ls hs where "WebRtcVad_CalculateFeatures self xs n =
      Some (te, fs, self\<lparr>upper_state := us, lower_state := ls, hp_filter_state := hs\<rparr>)"
    "length us = 5" "length ls = 5" "length hs = 4" "length fs = 6" "\<forall>f \<in> set fs. 176 \<le> f \<and> f \<le> 2245"
    "0 \<le> te" "te \<le> 16393"
proof -
  have l0: "length (upper_state self) = 5" "length (lower_state self) = 5" "length (hp_filter_state self) = 4"
    using sh by (simp_all add: vad_shape_def)
  have d: "n div 2 \<le> 120" "n div 2 div 2 \<le> 60" "n div 2 div 2 div 2 \<le> 30" "n div 2 div 2 div 2 div 2 \<le> 15"
    using n(2) by linarith+
  have c0: "length (upper_state self) = 5" "length (lower_state self) = 5" "0 < (5::nat)" "(n) div 2 \<le> 120" "n \<le> length xs"
    by (simp add: l0(1), simp add: l0(2), simp, rule d(1), rule n(3))
  obtain h1 p1 us1 ls1 where 1: "split_band self 0 xs n 120 = Some (h1, p1, self\<lparr>upper_state := us1, lower_state := ls1\<rparr>)"
      "length h1 = n div 2" "length p1 = n div 2" "\<forall>y \<in> set h1. is_s16 y" "\<forall>y \<in> set p1. is_s16 y" "length us1 = 5" "length ls1 = 5"
    by (rule split_band_ok [of self 0 "n" 120 xs, OF c0], rule that)
  let ?s1 = "self\<lparr>upper_state := us1, lower_state := ls1\<rparr>"
  have c1: "length (upper_state (?s1)) = 5" "length (lower_state (?s1)) = 5" "1 < (5::nat)" "(n div 2) div 2 \<le> 60" "n div 2 \<le> length h1"
    by (simp add: 1(6), simp add: 1(7), simp, rule d(2), simp only: 1(2) order.refl)
  obtain h2 p2 us2 ls2 where 2: "split_band ?s1 1 h1 (n div 2) 60 = Some (h2, p2, ?s1\<lparr>upper_state := us2, lower_state := ls2\<rparr>)"
      "length h2 = n div 2 div 2" "length p2 = n div 2 div 2" "\<forall>y \<in> set h2. is_s16 y" "\<forall>y \<in> set p2. is_s16 y" "length us2 = 5" "length ls2 = 5"
    by (rule split_band_ok [of ?s1 1 "n div 2" 60 h1, OF c1], rule that)
  let ?s2 = "?s1\<lparr>upper_state := us2, lower_state := ls2\<rparr>"
  have c2: "length (upper_state (?s2)) = 5" "length (lower_state (?s2)) = 5" "2 < (5::nat)" "(n div 2) div 2 \<le> 60" "n div 2 \<le> length p1"
    by (simp add: 2(6), simp add: 2(7), simp, rule d(2), simp only: 1(3) order.refl)
  obtain h3 p3 us3 ls3 where 3: "split_band ?s2 2 p1 (n div 2) 60 = Some (h3, p3, ?s2\<lparr>upper_state := us3, lower_state := ls3\<rparr>)"
      "length h3 = n div 2 div 2" "length p3 = n div 2 div 2" "\<forall>y \<in> set h3. is_s16 y" "\<forall>y \<in> set p3. is_s16 y" "length us3 = 5" "length ls3 = 5"
    by (rule split_band_ok [of ?s2 2 "n div 2" 60 p1, OF c2], rule that)
  let ?s3 = "?s2\<lparr>upper_state := us3, lower_state := ls3\<rparr>"
  have c3: "length (upper_state (?s3)) = 5" "length (lower_state (?s3)) = 5" "3 < (5::nat)" "(n div 2 div 2) div 2 \<le> 120" "n div 2 div 2 \<le> length p3"
    by (simp add: 3(6), simp add: 3(7), simp, use d(3) in linarith, simp only: 3(3) order.refl)
  obtain h4 p4 us4 ls4 where 4: "split_band ?s3 3 p3 (n div 2 div 2) 120 = Some (h4, p4, ?s3\<lparr>upper_state := us4, lower_state := ls4\<rparr>)"
      "length h4 = n div 2 div 2 div 2" "length p4 = n div 2 div 2 div 2" "\<forall>y \<in> set h4. is_s16 y" "\<forall>y \<in> set p4. is_s16 y" "length us4 = 5" "length ls4 = 5"
    by (rule split_band_ok [of ?s3 3 "n div 2 div 2" 120 p3, OF c3], rule that)
  let ?s4 = "?s3\<lparr>upper_state := us4, lower_state := ls4\<rparr>"
  have c4: "length (upper_state (?s4)) = 5" "length (lower_state (?s4)) = 5" "4 < (5::nat)" "(n div 2 div 2 div 2) div 2 \<le> 60" "n div 2 div 2 div 2 \<le> length p4"
    by (simp add: 4(6), simp add: 4(7), simp, use d(4) in linarith, simp only: 4(3) order.refl)
  obtain h5 p5 us5 ls5 where 5: "split_band ?s4 4 p4 (n div 2 div 2 div 2) 60 = Some (h5, p5, ?s4\<lparr>upper_state := us5, lower_state := ls5\<rparr>)"
      "length h5 = n div 2 div 2 div 2 div 2" "length p5 = n div 2 div 2 div 2 div 2" "\<forall>y \<in> set h5. is_s16 y" "\<forall>y \<in> set p5. is_s16 y" "length us5 = 5" "length ls5 = 5"
    by (rule split_band_ok [of ?s4 4 "n div 2 div 2 div 2" 60 p4, OF c4], rule that)
  obtain h6 hs where 6: "HighPassFilter p5 (hp_filter_state self) = (h6, hs)" by fastforce
  have h6: "length h6 = length p5" "length hs = 4" "\<forall>y \<in> set h6. is_s16 y"
    using HighPassFilter_ok [OF l0(3), of p5] HighPassFilter_s16 [OF l0(3), of _ p5] 6 by simp_all
  have q: "n div 2 div 2 < 128" and q2: "n div 2 div 2 div 2 < 128" and q3: "n div 2 div 2 div 2 div 2 < 128"
    using d by linarith+
  obtain t5 f5 where f5: "LogOfEnergy h2 176 0 = (t5, f5)" "176 \<le> f5" "f5 \<le> 176 + 1877" "0 \<le> t5" "t5 \<le> 16393"
    using LogOfEnergy_bounds [of h2 176 0] 2 q by auto
  obtain t4 f4 where f4: "LogOfEnergy p2 176 t5 = (t4, f4)" "176 \<le> f4" "f4 \<le> 176 + 1877" "0 \<le> t4" "t4 \<le> 16393"
    using LogOfEnergy_bounds [of p2 176 t5] 2 q f5 by auto
  obtain t3 f3 where f3: "LogOfEnergy h3 176 t4 = (t3, f3)" "176 \<le> f3" "f3 \<le> 176 + 1877" "0 \<le> t3" "t3 \<le> 16393"
    using LogOfEnergy_bounds [of h3 176 t4] 3 q f4 by auto
  obtain t2 f2 where f2: "LogOfEnergy h4 272 t3 = (t2, f2)" "272 \<le> f2" "f2 \<le> 272 + 1877" "0 \<le> t2" "t2 \<le> 16393"
    using LogOfEnergy_bounds [of h4 272 t3] 4 q2 f3 by auto
  obtain t1 f1 where f1: "LogOfEnergy h5 368 t2 = (t1, f1)" "368 \<le> f1" "f1 \<le> 368 + 1877" "0 \<le> t1" "t1 \<le> 16393"
    using LogOfEnergy_bounds [of h5 368 t2] 5 q3 f2 by auto
  obtain t0 f0 where f0: "LogOfEnergy h6 368 t1 = (t0, f0)" "368 \<le> f0" "f0 \<le> 368 + 1877" "0 \<le> t0" "t0 \<le> 16393"
    using LogOfEnergy_bounds [of h6 368 t1] 5 h6 q3 f1 by auto
  show thesis
  proof (rule that [where te = t0 and fs = "[f0, f1, f2, f3, f4, f5]" and us = us5 and ls = ls5 and hs = hs])
    show "WebRtcVad_CalculateFeatures self xs n = Some (t0, [f0, f1, f2, f3, f4, f5],
        self\<lparr>upper_state := us5, lower_state := ls5, hp_filter_state := hs\<rparr>)"
      using 1(1) 2(1) 3(1) 4(1) 5(1) 6 f0(1) f1(1) f2(1) f3(1) f4(1) f5(1)
      by (simp add: WebRtcVad_CalculateFeatures_def kOffsetVector_def Let_def)
  qed (use f0 f1 f2 f3 f4 f5 h6 5 in auto)
qed

end
