(* ===== verification/Vad_Core.thy ===== *)
theory Vad_Core
  imports Vad_Sp Vad_Filterbank
begin

text \<open>
  \<^verbatim>\<open>vad_core.c\<close>: the Gaussian mixture models of speech and noise, the decision with its hangover, the
  initialisation and the entry points for the four sampling rates.  Then the invariant of an
  initialised instance, and that the model update and the decision keep it.

  The local arrays of \<open>GmmProbability\<close> and the frame buffers on the stack start as zeroes here; the
  code writes every element before it reads it.
\<close>

section \<open>The decision\<close>

definition WeightedAverage :: "int list \<Rightarrow> nat \<Rightarrow> int \<Rightarrow> int list \<Rightarrow> int \<times> int list" where
  "WeightedAverage data channel offset weights =
     fold (\<lambda>k (weighted_average, data).
         let i = channel + k * kNumChannels; data = data[i := s16 (data ! i + offset)]
         in (s32 (weighted_average + data ! i * weights ! i), data))
       [0..<kNumGaussians] (0, data)"

definition OverflowingMulS16ByS32ToS32 :: "int \<Rightarrow> int \<Rightarrow> int" where
  "OverflowingMulS16ByS32ToS32 a b = s32 (a * b)"

text \<open>The local variables the first loop fills.\<close>

record gmm_vars =
  deltaN :: "int list"
  deltaS :: "int list"
  ngprvec :: "int list"
  sgprvec :: "int list"
  sum_log_likelihood_ratios :: int
  vadflag :: int

definition gmm_vars0 :: gmm_vars where
  "gmm_vars0 = \<lparr>deltaN = replicate kTableSize 0, deltaS = replicate kTableSize 0,
     ngprvec = replicate kTableSize 0, sgprvec = replicate kTableSize 0,
     sum_log_likelihood_ratios = 0, vadflag = 0\<rparr>"

text \<open>\<open>(p & 0xFFFFF000) << 2\<close>, computed in \<^verbatim>\<open>unsigned\<close> and assigned to an \<^verbatim>\<open>int32_t\<close>.\<close>

definition mask_q29 :: "int \<Rightarrow> int" where
  "mask_q29 p = s32 (u32 ((u32 p AND 0xFFFFF000) * 4))"

text \<open>The log likelihood ratio of a channel from its two test values.\<close>

definition log_likelihood_ratio :: "int \<Rightarrow> int \<Rightarrow> int" where
  "log_likelihood_ratio h0_test h1_test =
     (let shifts_h0 = (if h0_test = 0 then 31 else WebRtcSpl_NormW32 h0_test);
          shifts_h1 = (if h1_test = 0 then 31 else WebRtcSpl_NormW32 h1_test)
      in s16 (shifts_h0 - shifts_h1))"

definition gmm_test_channel :: "VadInstT \<Rightarrow> int list \<Rightarrow> int \<Rightarrow> nat \<Rightarrow> gmm_vars \<Rightarrow> gmm_vars option" where
  "gmm_test_channel self features individualTest channel v = do {
     let x = features ! channel;
     let g1 = channel + kNumChannels;
     (p0, dn0) \<leftarrow> WebRtcVad_GaussianProbability x (noise_means self ! channel) (noise_stds self ! channel);
     (q0, ds0) \<leftarrow> WebRtcVad_GaussianProbability x (speech_means self ! channel) (speech_stds self ! channel);
     (p1, dn1) \<leftarrow> WebRtcVad_GaussianProbability x (noise_means self ! g1) (noise_stds self ! g1);
     (q1, ds1) \<leftarrow> WebRtcVad_GaussianProbability x (speech_means self ! g1) (speech_stds self ! g1);
     let noise0 = s32 (kNoiseDataWeights ! channel * p0);
     let speech0 = s32 (kSpeechDataWeights ! channel * q0);
     let noise1 = s32 (kNoiseDataWeights ! g1 * p1);
     let speech1 = s32 (kSpeechDataWeights ! g1 * q1);
     let h0_test = s32 (noise0 + noise1);
     let h1_test = s32 (speech0 + speech1);
     let llr = log_likelihood_ratio h0_test h1_test;
     let h0 = s16 (asr h0_test 12);
     let ng = ngprvec v;
     let ng = (if h0 > 0
          then let r = s16 (WebRtcSpl_DivW32W16 (mask_q29 noise0) h0) in ng[channel := r, g1 := s16 (16384 - r)]
          else ng[channel := 16384]);
     let h1 = s16 (asr h1_test 12);
     let sg = sgprvec v;
     let sg = (if h1 > 0
          then let r = s16 (WebRtcSpl_DivW32W16 (mask_q29 speech0) h1) in sg[channel := r, g1 := s16 (16384 - r)]
          else sg);
     Some \<lparr>deltaN = (deltaN v)[channel := dn0, g1 := dn1], deltaS = (deltaS v)[channel := ds0, g1 := ds1],
       ngprvec = ng, sgprvec = sg,
       sum_log_likelihood_ratios = s32 (sum_log_likelihood_ratios v + llr * kSpectrumWeight ! channel),
       vadflag = (if llr * 4 > individualTest then 1 else vadflag v)\<rparr>
   }"

primrec gmm_test_loop :: "nat \<Rightarrow> VadInstT \<Rightarrow> int list \<Rightarrow> int \<Rightarrow> gmm_vars option" where
  "gmm_test_loop 0 self features individualTest = Some gmm_vars0"
| "gmm_test_loop (Suc channel) self features individualTest = do {
     v \<leftarrow> gmm_test_loop channel self features individualTest;
     gmm_test_channel self features individualTest channel v
   }"

text \<open>The updated mean of a noise Gaussian: \<open>tmp1\<close> is the global noise mean in Q8.\<close>

definition update_noise_mean :: "gmm_vars \<Rightarrow> int \<Rightarrow> int \<Rightarrow> nat \<Rightarrow> nat \<Rightarrow> int \<Rightarrow> int" where
  "update_noise_mean v feature_minimum tmp1 channel k nmk =
     (let gaussian = channel + k * kNumChannels;
          nmk2 = (if vadflag v = 0
            then let delt = s16 (asr (ngprvec v ! gaussian * deltaN v ! gaussian) 11)
                 in s16 (nmk + s16 (asr (delt * kNoiseUpdateConst) 22))
            else nmk);
          ndelt = s16 (feature_minimum * 16 - tmp1);
          nmk3 = s16 (nmk2 + s16 (asr (ndelt * kBackEta) 9));
          lo = s16 ((int k + 5) * 128);
          nmk3 = (if nmk3 < lo then lo else nmk3);
          hi = s16 ((72 + int k - int channel) * 128)
      in if nmk3 > hi then hi else nmk3)"

definition update_speech_mean :: "gmm_vars \<Rightarrow> int \<Rightarrow> nat \<Rightarrow> nat \<Rightarrow> int \<Rightarrow> int" where
  "update_speech_mean v maxspe channel k smk =
     (let gaussian = channel + k * kNumChannels;
          delt = s16 (asr (sgprvec v ! gaussian * deltaS v ! gaussian) 11);
          tmp_s16 = s16 (asr (delt * kSpeechUpdateConst) 21);
          smk2 = s16 (smk + asr (tmp_s16 + 1) 1);
          maxmu = s16 (maxspe + 640);
          smk2 = (if smk2 < kMinimumMean ! k then kMinimumMean ! k else smk2)
      in if smk2 > maxmu then maxmu else smk2)"

definition update_speech_std :: "gmm_vars \<Rightarrow> int list \<Rightarrow> nat \<Rightarrow> nat \<Rightarrow> int \<Rightarrow> int \<Rightarrow> int" where
  "update_speech_std v features channel k smk ssk =
     (let gaussian = channel + k * kNumChannels;
          tmp_s16 = s16 (asr (smk + 4) 3);
          tmp_s16 = s16 (features ! channel - tmp_s16);
          tmp1_s32 = asr (deltaS v ! gaussian * tmp_s16) 3;
          tmp2_s32 = tmp1_s32 - 4096;
          tmp_s16 = asr (sgprvec v ! gaussian) 2;
          tmp1_s32 = s32 (tmp_s16 * tmp2_s32);
          tmp2_s32 = asr tmp1_s32 4;
          den = s16 (ssk * 10);
          tmp_s16 = (if tmp2_s32 > 0 then s16 (WebRtcSpl_DivW32W16 tmp2_s32 den)
            else s16 (- s16 (WebRtcSpl_DivW32W16 (s32 (- tmp2_s32)) den)));
          tmp_s16 = s16 (tmp_s16 + 128);
          ssk = s16 (ssk + asr tmp_s16 8)
      in if ssk < kMinStd then kMinStd else ssk)"

definition update_noise_std :: "gmm_vars \<Rightarrow> int list \<Rightarrow> nat \<Rightarrow> nat \<Rightarrow> int \<Rightarrow> int \<Rightarrow> int" where
  "update_noise_std v features channel k nmk nsk =
     (let gaussian = channel + k * kNumChannels;
          tmp_s16 = s16 (features ! channel - asr nmk 3);
          tmp1_s32 = asr (deltaN v ! gaussian * tmp_s16) 3;
          tmp1_s32 = tmp1_s32 - 4096;
          tmp_s16 = s16 (asr (ngprvec v ! gaussian + 2) 2);
          tmp2_s32 = OverflowingMulS16ByS32ToS32 tmp_s16 tmp1_s32;
          tmp1_s32 = asr tmp2_s32 14;
          tmp_s16 = (if tmp1_s32 > 0 then s16 (WebRtcSpl_DivW32W16 tmp1_s32 nsk)
            else s16 (- s16 (WebRtcSpl_DivW32W16 (s32 (- tmp1_s32)) nsk)));
          tmp_s16 = s16 (tmp_s16 + 32);
          nsk = s16 (nsk + asr tmp_s16 6)
      in if nsk < kMinStd then kMinStd else nsk)"

definition gmm_update_gaussian ::
    "gmm_vars \<Rightarrow> int list \<Rightarrow> int \<Rightarrow> int \<Rightarrow> int \<Rightarrow> nat \<Rightarrow> nat \<Rightarrow> VadInstT \<Rightarrow> VadInstT" where
  "gmm_update_gaussian v features feature_minimum tmp1 maxspe channel k self =
     (let gaussian = channel + k * kNumChannels;
          nmk = noise_means self ! gaussian;
          smk = speech_means self ! gaussian;
          nsk = noise_stds self ! gaussian;
          ssk = speech_stds self ! gaussian;
          self = self\<lparr>noise_means := (noise_means self)[gaussian := update_noise_mean v feature_minimum tmp1 channel k nmk]\<rparr>
      in if vadflag v \<noteq> 0
         then self\<lparr>speech_means := (speech_means self)[gaussian := update_speech_mean v maxspe channel k smk],
                   speech_stds := (speech_stds self)[gaussian := update_speech_std v features channel k smk ssk]\<rparr>
         else self\<lparr>noise_stds := (noise_stds self)[gaussian := update_noise_std v features channel k nmk nsk]\<rparr>)"

text \<open>\<open>for (k ...) data[channel + k * kNumChannels] -= x\<close>.\<close>

definition lower_means :: "int list \<Rightarrow> nat \<Rightarrow> int \<Rightarrow> int list" where
  "lower_means data channel x =
     fold (\<lambda>k data. let i = channel + k * kNumChannels in data[i := s16 (data ! i - x)]) [0..<kNumGaussians] data"

text \<open>Separates the two models of a channel and keeps their global means below the limits; also the new \<open>maxspe\<close>.\<close>

definition gmm_separate :: "nat \<Rightarrow> VadInstT \<Rightarrow> VadInstT \<times> int" where
  "gmm_separate channel self =
     (let (noise_global_mean, nm) = WeightedAverage (noise_means self) channel 0 kNoiseDataWeights;
          (speech_global_mean, sm) = WeightedAverage (speech_means self) channel 0 kSpeechDataWeights;
          diff = s16 (s16 (asr speech_global_mean 9) - s16 (asr noise_global_mean 9));
          (speech_global_mean, sm, noise_global_mean, nm) =
            (if diff < kMinimumDifference ! channel
             then let tmp_s16 = s16 (kMinimumDifference ! channel - diff);
                      tmp1_s16 = s16 (asr (13 * tmp_s16) 2);
                      tmp2_s16 = s16 (asr (3 * tmp_s16) 2);
                      (sg, sm) = WeightedAverage sm channel tmp1_s16 kSpeechDataWeights;
                      (ng, nm) = WeightedAverage nm channel (s16 (- tmp2_s16)) kNoiseDataWeights
                  in (sg, sm, ng, nm)
             else (speech_global_mean, sm, noise_global_mean, nm));
          maxspe = kMaximumSpeech ! channel;
          tmp2_s16 = s16 (asr speech_global_mean 7);
          sm = (if tmp2_s16 > maxspe then lower_means sm channel (s16 (tmp2_s16 - maxspe)) else sm);
          tmp2_s16 = s16 (asr noise_global_mean 7);
          nm = (if tmp2_s16 > kMaximumNoise ! channel
                then lower_means nm channel (s16 (tmp2_s16 - kMaximumNoise ! channel)) else nm)
      in (self\<lparr>noise_means := nm, speech_means := sm\<rparr>, maxspe))"

definition gmm_update_channel :: "gmm_vars \<Rightarrow> int list \<Rightarrow> nat \<Rightarrow> VadInstT \<times> int \<Rightarrow> (VadInstT \<times> int) option" where
  "gmm_update_channel v features channel = (\<lambda>(self, maxspe). do {
     (feature_minimum, self) \<leftarrow> WebRtcVad_FindMinimum self (features ! channel) channel;
     let (noise_global_mean, nm) = WeightedAverage (noise_means self) channel 0 kNoiseDataWeights;
     let self = self\<lparr>noise_means := nm\<rparr>;
     let tmp1_s16 = s16 (asr noise_global_mean 6);
     let self = fold (gmm_update_gaussian v features feature_minimum tmp1_s16 maxspe channel) [0..<kNumGaussians] self;
     Some (gmm_separate channel self)
   })"

primrec gmm_update_loop :: "nat \<Rightarrow> gmm_vars \<Rightarrow> int list \<Rightarrow> VadInstT \<Rightarrow> (VadInstT \<times> int) option" where
  "gmm_update_loop 0 v features self = Some (self, 12800)"
| "gmm_update_loop (Suc channel) v features self = do {
     s \<leftarrow> gmm_update_loop channel v features self;
     gmm_update_channel v features channel s
   }"

text \<open>The hangover: a detection is held for some frames after the last speech frame.\<close>

definition hangover :: "int \<Rightarrow> int \<Rightarrow> int \<Rightarrow> VadInstT \<Rightarrow> int \<times> VadInstT" where
  "hangover flag overhead1 overhead2 self =
     (if flag = 0 then
        let (flag, self) = (if over_hang self > 0
              then (s16 (2 + over_hang self), self\<lparr>over_hang := s16 (over_hang self - 1)\<rparr>) else (flag, self))
        in (flag, self\<lparr>num_of_speech := 0\<rparr>)
      else
        let self = self\<lparr>num_of_speech := s16 (num_of_speech self + 1)\<rparr>
        in if num_of_speech self > kMaxSpeechFrames
           then (flag, self\<lparr>num_of_speech := kMaxSpeechFrames, over_hang := overhead2\<rparr>)
           else (flag, self\<lparr>over_hang := overhead1\<rparr>))"

definition GmmProbability :: "VadInstT \<Rightarrow> int list \<Rightarrow> int \<Rightarrow> nat \<Rightarrow> (int \<times> VadInstT) option" where
  "GmmProbability self features total_power frame_length = do {
     let i = (if frame_length = 80 then 0 else if frame_length = 160 then 1 else 2);
     overhead1 \<leftarrow> rd (over_hang_max_1 self) i;
     overhead2 \<leftarrow> rd (over_hang_max_2 self) i;
     individualTest \<leftarrow> rd (individual self) i;
     totalTest \<leftarrow> rd (total self) i;
     (flag, self) \<leftarrow> (if total_power > kMinEnergy then do {
         v \<leftarrow> gmm_test_loop kNumChannels self features individualTest;
         let v = v\<lparr>vadflag := (if sum_log_likelihood_ratios v \<ge> totalTest then 1 else vadflag v)\<rparr>;
         (self, _) \<leftarrow> gmm_update_loop kNumChannels v features self;
         Some (vadflag v, self\<lparr>frame_counter := s32 (frame_counter self + 1)\<rparr>)
       } else Some (0, self));
     Some (hangover flag overhead1 overhead2 self)
   }"

section \<open>Initialisation and modes\<close>

text \<open>The thresholds of the four modes for frames of 10, 20 and 30 ms: quality, low bit rate, aggressive and very aggressive.\<close>

definition kOverHangMax1Q :: "int list" where "kOverHangMax1Q = [8, 4, 3]"
definition kOverHangMax2Q :: "int list" where "kOverHangMax2Q = [14, 7, 5]"
definition kLocalThresholdQ :: "int list" where "kLocalThresholdQ = [24, 21, 24]"
definition kGlobalThresholdQ :: "int list" where "kGlobalThresholdQ = [57, 48, 57]"
definition kOverHangMax1LBR :: "int list" where "kOverHangMax1LBR = [8, 4, 3]"
definition kOverHangMax2LBR :: "int list" where "kOverHangMax2LBR = [14, 7, 5]"
definition kLocalThresholdLBR :: "int list" where "kLocalThresholdLBR = [37, 32, 37]"
definition kGlobalThresholdLBR :: "int list" where "kGlobalThresholdLBR = [100, 80, 100]"
definition kOverHangMax1AGG :: "int list" where "kOverHangMax1AGG = [6, 3, 2]"
definition kOverHangMax2AGG :: "int list" where "kOverHangMax2AGG = [9, 5, 3]"
definition kLocalThresholdAGG :: "int list" where "kLocalThresholdAGG = [82, 78, 82]"
definition kGlobalThresholdAGG :: "int list" where "kGlobalThresholdAGG = [285, 260, 285]"
definition kOverHangMax1VAG :: "int list" where "kOverHangMax1VAG = [6, 3, 2]"
definition kOverHangMax2VAG :: "int list" where "kOverHangMax2VAG = [9, 5, 3]"
definition kLocalThresholdVAG :: "int list" where "kLocalThresholdVAG = [94, 94, 94]"
definition kGlobalThresholdVAG :: "int list" where "kGlobalThresholdVAG = [1100, 1050, 1100]"

lemmas mode_tables =
  kOverHangMax1Q_def kOverHangMax2Q_def kLocalThresholdQ_def kGlobalThresholdQ_def
  kOverHangMax1LBR_def kOverHangMax2LBR_def kLocalThresholdLBR_def kGlobalThresholdLBR_def
  kOverHangMax1AGG_def kOverHangMax2AGG_def kLocalThresholdAGG_def kGlobalThresholdAGG_def
  kOverHangMax1VAG_def kOverHangMax2VAG_def kLocalThresholdVAG_def kGlobalThresholdVAG_def

definition set_thresholds :: "int list \<Rightarrow> int list \<Rightarrow> int list \<Rightarrow> int list \<Rightarrow> VadInstT \<Rightarrow> VadInstT option" where
  "set_thresholds m1 m2 loc glob self = do {
     a \<leftarrow> memcpy (over_hang_max_1 self) 0 m1 0 3;
     b \<leftarrow> memcpy (over_hang_max_2 self) 0 m2 0 3;
     c \<leftarrow> memcpy (individual self) 0 loc 0 3;
     d \<leftarrow> memcpy (total self) 0 glob 0 3;
     Some (self\<lparr>over_hang_max_1 := a, over_hang_max_2 := b, individual := c, total := d\<rparr>)
   }"

definition WebRtcVad_set_mode_core :: "VadInstT \<Rightarrow> int \<Rightarrow> (int \<times> VadInstT) option" where
  "WebRtcVad_set_mode_core self mode =
     (if mode = 0 then map_option (Pair 0) (set_thresholds kOverHangMax1Q kOverHangMax2Q kLocalThresholdQ kGlobalThresholdQ self)
      else if mode = 1 then map_option (Pair 0) (set_thresholds kOverHangMax1LBR kOverHangMax2LBR kLocalThresholdLBR kGlobalThresholdLBR self)
      else if mode = 2 then map_option (Pair 0) (set_thresholds kOverHangMax1AGG kOverHangMax2AGG kLocalThresholdAGG kGlobalThresholdAGG self)
      else if mode = 3 then map_option (Pair 0) (set_thresholds kOverHangMax1VAG kOverHangMax2VAG kLocalThresholdVAG kGlobalThresholdVAG self)
      else Some (- 1, self))"

definition WebRtcVad_InitCore :: "VadInstT option \<Rightarrow> (int \<times> VadInstT option) option" where
  "WebRtcVad_InitCore handle = (case handle of
     None \<Rightarrow> Some (- 1, None)
   | Some self \<Rightarrow> do {
       let self = self\<lparr>vad := 1, frame_counter := 0, over_hang := 0, num_of_speech := 0\<rparr>;
       ds \<leftarrow> memset (downsampling_filter_states self) 0 0 4;
       st \<leftarrow> WebRtcSpl_ResetResample48khzTo8khz (state_48_to_8 self);
       nm \<leftarrow> memcpy (noise_means self) 0 kNoiseDataMeans 0 kTableSize;
       sm \<leftarrow> memcpy (speech_means self) 0 kSpeechDataMeans 0 kTableSize;
       ns \<leftarrow> memcpy (noise_stds self) 0 kNoiseDataStds 0 kTableSize;
       ss \<leftarrow> memcpy (speech_stds self) 0 kSpeechDataStds 0 kTableSize;
       lv \<leftarrow> memset (low_value_vector self) 0 10000 (16 * kNumChannels);
       iv \<leftarrow> memset (index_vector self) 0 0 (16 * kNumChannels);
       us \<leftarrow> memset (upper_state self) 0 0 5;
       ls \<leftarrow> memset (lower_state self) 0 0 5;
       hs \<leftarrow> memset (hp_filter_state self) 0 0 4;
       mv \<leftarrow> memset (mean_value self) 0 1600 kNumChannels;
       let self = self\<lparr>downsampling_filter_states := ds, state_48_to_8 := st, noise_means := nm, speech_means := sm,
         noise_stds := ns, speech_stds := ss, low_value_vector := lv, index_vector := iv, upper_state := us,
         lower_state := ls, hp_filter_state := hs, mean_value := mv\<rparr>;
       (r, self) \<leftarrow> WebRtcVad_set_mode_core self kDefaultMode;
       if r \<noteq> 0 then Some (- 1, Some self) else Some (0, Some (self\<lparr>init_flag := kInitCheck\<rparr>))
     })"

section \<open>The sampling rates\<close>

definition WebRtcVad_CalcVad8khz :: "VadInstT \<Rightarrow> int list \<Rightarrow> nat \<Rightarrow> (int \<times> VadInstT) option" where
  "WebRtcVad_CalcVad8khz inst speech_frame frame_length = do {
     (total_power, feature_vector, inst) \<leftarrow> WebRtcVad_CalculateFeatures inst speech_frame frame_length;
     (r, inst) \<leftarrow> GmmProbability inst feature_vector total_power frame_length;
     Some (r, inst\<lparr>vad := r\<rparr>)
   }"

definition WebRtcVad_CalcVad16khz :: "VadInstT \<Rightarrow> int list \<Rightarrow> nat \<Rightarrow> (int \<times> VadInstT) option" where
  "WebRtcVad_CalcVad16khz inst speech_frame frame_length = do {
     (speechNB, st) \<leftarrow> WebRtcVad_Downsampling speech_frame 240 (downsampling_filter_states inst) 0 frame_length;
     WebRtcVad_CalcVad8khz (inst\<lparr>downsampling_filter_states := st\<rparr>) speechNB (frame_length div 2)
   }"

definition WebRtcVad_CalcVad32khz :: "VadInstT \<Rightarrow> int list \<Rightarrow> nat \<Rightarrow> (int \<times> VadInstT) option" where
  "WebRtcVad_CalcVad32khz inst speech_frame frame_length = do {
     (speechWB, st) \<leftarrow> WebRtcVad_Downsampling speech_frame 480 (downsampling_filter_states inst) 2 frame_length;
     let len = frame_length div 2;
     (speechNB, st) \<leftarrow> WebRtcVad_Downsampling speechWB 240 st 0 len;
     let len = len div 2;
     WebRtcVad_CalcVad8khz (inst\<lparr>downsampling_filter_states := st\<rparr>) speechNB len
   }"

text \<open>The loop over the 10 ms parts of a 48 kHz frame; \<open>speech_frame\<close> is the same in every round.\<close>

primrec resample_48_loop ::
    "nat \<Rightarrow> int list \<Rightarrow> int list \<times> State48khzTo8khz \<times> int list \<Rightarrow> (int list \<times> State48khzTo8khz \<times> int list) option" where
  "resample_48_loop 0 speech_frame s = Some s"
| "resample_48_loop (Suc i) speech_frame s = do {
     (speech_nb, st, tmp_mem) \<leftarrow> resample_48_loop i speech_frame s;
     (out, st, tmp_mem) \<leftarrow> WebRtcSpl_Resample48khzTo8khz speech_frame (drop (i * 80) speech_nb) st tmp_mem;
     Some (take (i * 80) speech_nb @ out, st, tmp_mem)
   }"

definition WebRtcVad_CalcVad48khz :: "VadInstT \<Rightarrow> int list \<Rightarrow> nat \<Rightarrow> (int \<times> VadInstT) option" where
  "WebRtcVad_CalcVad48khz inst speech_frame frame_length = do {
     let num_10ms_frames = frame_length div 480;
     (speech_nb, st, _) \<leftarrow> resample_48_loop num_10ms_frames speech_frame
        (replicate 240 0, state_48_to_8 inst, replicate (480 + 256) 0);
     WebRtcVad_CalcVad8khz (inst\<lparr>state_48_to_8 := st\<rparr>) speech_nb (frame_length div 6)
   }"

section \<open>The invariant of an initialised instance\<close>

definition std_ok :: "int \<Rightarrow> bool" where
  "std_ok x \<longleftrightarrow> 378 \<le> x \<and> x \<le> 32767"

definition hang_ok :: "int \<Rightarrow> bool" where
  "hang_ok x \<longleftrightarrow> 0 \<le> x \<and> x \<le> 14"

definition vad_inv :: "VadInstT \<Rightarrow> bool" where
  "vad_inv self \<longleftrightarrow> vad_shape self \<and>
     list_all is_s16 (noise_means self) \<and> list_all is_s16 (speech_means self) \<and>
     list_all std_ok (noise_stds self) \<and> list_all std_ok (speech_stds self) \<and>
     list_all is_s16 (mean_value self) \<and>
     (\<forall>c<6. minima_ok (channel_minima self c) \<and> list_all is_s16 (snd (channel_minima self c))) \<and>
     hang_ok (over_hang self) \<and> 0 \<le> num_of_speech self \<and> num_of_speech self \<le> 6 \<and>
     list_all hang_ok (over_hang_max_1 self) \<and> list_all hang_ok (over_hang_max_2 self)"

text \<open>The features are in a range such that a feature and a mean in this range have a probability.\<close>

definition means_ok :: "VadInstT \<Rightarrow> bool" where
  "means_ok self \<longleftrightarrow> list_all (\<lambda>m. -40 \<le> m \<and> m \<le> 19408) (noise_means self) \<and>
     list_all (\<lambda>m. -40 \<le> m \<and> m \<le> 19408) (speech_means self)"

definition features_ok :: "int list \<Rightarrow> bool" where
  "features_ok fs \<longleftrightarrow> length fs = 6 \<and> (\<forall>f \<in> set fs. 176 \<le> f \<and> f \<le> 2245)"

lemma list_all_update: "list_all P xs \<Longrightarrow> P y \<Longrightarrow> list_all P (xs[i := y])"
  by (auto simp: list_all_iff dest!: set_update_subset_insert [THEN subsetD])

lemma list_all_at: "list_all P xs \<Longrightarrow> i < length xs \<Longrightarrow> P (xs ! i)"
  by (simp add: list_all_iff)

lemma gaussians: "[0..<kNumGaussians] = [0, 1]"
  by (simp add: kNumGaussians_def upt_2)

lemma WeightedAverage_ok:
  "list_all is_s16 data \<Longrightarrow> list_all is_s16 (snd (WeightedAverage data c off w)) \<and>
     length (snd (WeightedAverage data c off w)) = length data"
  by (simp add: WeightedAverage_def gaussians Let_def list_all_update)

lemma lower_means_ok:
  "list_all is_s16 data \<Longrightarrow> list_all is_s16 (lower_means data c x) \<and> length (lower_means data c x) = length data"
  by (simp add: lower_means_def gaussians Let_def list_all_update)

lemma update_noise_mean_s16: "is_s16 (update_noise_mean v fm t c k nmk)"
  by (simp add: update_noise_mean_def Let_def)

lemma update_speech_mean_s16: "k < 2 \<Longrightarrow> is_s16 (update_speech_mean v ms c k smk)"
proof -
  assume "k < 2"
  then have "is_s16 (kMinimumMean ! k)" by (auto simp: kMinimumMean_def less_Suc_eq numeral_eq_Suc is_s16_def)
  then show ?thesis by (simp add: update_speech_mean_def Let_def)
qed

lemma std_ok_floor: "std_ok (if s16 x < kMinStd then kMinStd else s16 x)"
  by (simp add: std_ok_def kMinStd_def)

lemma update_std_ok: "std_ok (update_speech_std v fs c k smk ssk)" "std_ok (update_noise_std v fs c k nmk nsk)"
  unfolding update_speech_std_def update_noise_std_def Let_def by (rule std_ok_floor)+

lemma update_gaussian_ok:
  assumes "vad_inv self" "k < 2"
  shows "vad_inv (gmm_update_gaussian v fs fm t ms c k self) \<and> init_flag (gmm_update_gaussian v fs fm t ms c k self) = init_flag self"
  using assms
  by (simp add: gmm_update_gaussian_def Let_def vad_inv_def vad_shape_def channel_minima_def list_all_update
      update_noise_mean_s16 update_speech_mean_s16 update_std_ok)

lemma separate_ok:
  assumes "vad_inv self"
  shows "vad_inv (fst (gmm_separate c self)) \<and> init_flag (fst (gmm_separate c self)) = init_flag self"
proof -
  obtain nm sm where s: "fst (gmm_separate c self) = self\<lparr>noise_means := nm, speech_means := sm\<rparr>"
      "list_all is_s16 nm \<and> length nm = length (noise_means self)" "list_all is_s16 sm \<and> length sm = length (speech_means self)"
    using assms
    by (simp add: gmm_separate_def Let_def split_beta WeightedAverage_ok lower_means_ok vad_inv_def)
  then show ?thesis using assms by (simp add: vad_inv_def vad_shape_def channel_minima_def)
qed

lemma FindMinimum_inv:
  assumes "vad_inv self" "c < 6" "is_s16 v"
  obtains m self' where "WebRtcVad_FindMinimum self v c = Some (m, self')" "vad_inv self'" "init_flag self' = init_flag self"
proof -
  have shp: "vad_shape self" and mo: "minima_ok (channel_minima self c)" and ms: "list_all is_s16 (snd (channel_minima self c))"
    using assms(1,2) by (simp_all add: vad_inv_def)
  obtain iv lv where f: "WebRtcVad_FindMinimum self v c =
      (let m = smooth_median (frame_counter self) (snd (update_minima v (channel_minima self c))) (mean_value self ! c)
       in Some (m, self\<lparr>index_vector := iv, low_value_vector := lv, mean_value := (mean_value self)[c := m]\<rparr>))"
    "length iv = 96" "length lv = 96"
    "\<And>x. channel_minima (self\<lparr>index_vector := iv, low_value_vector := lv, mean_value := x\<rparr>) c =
       update_minima v (channel_minima self c)"
    "\<And>c' x. c' < 6 \<Longrightarrow> c' \<noteq> c \<Longrightarrow>
       channel_minima (self\<lparr>index_vector := iv, low_value_vector := lv, mean_value := x\<rparr>) c' = channel_minima self c'"
    by (rule FindMinimum_ok [OF shp assms(2) mo, of v], rule that)
  let ?m = "smooth_median (frame_counter self) (snd (update_minima v (channel_minima self c))) (mean_value self ! c)"
  let ?s = "self\<lparr>index_vector := iv, low_value_vector := lv, mean_value := (mean_value self)[c := ?m]\<rparr>"
  have m: "is_s16 ?m" by (simp add: smooth_median_def Let_def)
  obtain a b where "fold age_step [0..<16] (channel_minima self c) = (a, b)" by fastforce
  from update_minima_ok [OF mo this, of v] have u: "minima_ok (update_minima v (channel_minima self c))" by blast
  have u2: "list_all is_s16 (snd (update_minima v (channel_minima self c)))"
    using update_minima_set [OF mo, of v] ms assms(3) by (fastforce simp: list_all_iff is_s16_def)
  have "minima_ok (channel_minima ?s c') \<and> list_all is_s16 (snd (channel_minima ?s c'))" if "c' < 6" for c'
    using that f(4) f(5) [of c'] u u2 assms(1) by (cases "c' = c") (simp_all add: vad_inv_def)
  then have "vad_inv ?s"
    using assms(1) m f(2,3) by (simp add: vad_inv_def vad_shape_def kNumChannels_def list_all_update)
  then show thesis by (rule that [OF f(1) [unfolded Let_def]]) simp
qed

lemma fold_gaussians_ok:
  assumes "vad_inv self"
  shows "vad_inv (fold (gmm_update_gaussian v fs fm t ms c) [0..<kNumGaussians] self) \<and>
    init_flag (fold (gmm_update_gaussian v fs fm t ms c) [0..<kNumGaussians] self) = init_flag self"
  using update_gaussian_ok [OF assms, of 0 v fs fm t ms c]
    update_gaussian_ok [of "gmm_update_gaussian v fs fm t ms c 0 self" 1 v fs fm t ms c] by (simp add: gaussians)

lemma update_channel_ok:
  assumes "vad_inv self" "c < 6" "features_ok fs"
  obtains self' m where "gmm_update_channel v fs c (self, ms) = Some (self', m)" "vad_inv self'" "init_flag self' = init_flag self"
proof -
  have "176 \<le> fs ! c \<and> fs ! c \<le> 2245" using assms(2,3) by (simp add: features_ok_def)
  then have x: "is_s16 (fs ! c)" by (simp add: is_s16_def)
  obtain fm s1 where f: "WebRtcVad_FindMinimum self (fs ! c) c = Some (fm, s1)" "vad_inv s1" "init_flag s1 = init_flag self"
    by (rule FindMinimum_inv [OF assms(1,2) x])
  obtain g nm where w: "WeightedAverage (noise_means s1) c 0 kNoiseDataWeights = (g, nm)" by fastforce
  have "list_all is_s16 nm \<and> length nm = length (noise_means s1)"
    using WeightedAverage_ok [of "noise_means s1" c 0 kNoiseDataWeights] w f(2) by (simp add: vad_inv_def)
  then have n: "vad_inv (s1\<lparr>noise_means := nm\<rparr>)" using f(2) by (simp add: vad_inv_def vad_shape_def channel_minima_def)
  let ?s2 = "fold (gmm_update_gaussian v fs fm (s16 (asr g 6)) ms c) [0..<kNumGaussians] (s1\<lparr>noise_means := nm\<rparr>)"
  have s2: "vad_inv ?s2" "init_flag ?s2 = init_flag self" using fold_gaussians_ok [OF n] f(3) by simp_all
  obtain s3 m where s3: "gmm_separate c ?s2 = (s3, m)" by fastforce
  have "gmm_update_channel v fs c (self, ms) = Some (s3, m)" using f(1) w s3 by (simp add: gmm_update_channel_def Let_def)
  moreover have "vad_inv s3" "init_flag s3 = init_flag self" using separate_ok [OF s2(1), of c] s2(2) s3 by simp_all
  ultimately show thesis using that by blast
qed

lemma update_loop_ok:
  assumes "vad_inv self" "n \<le> 6" "features_ok fs"
  shows "\<exists>self' m. gmm_update_loop n v fs self = Some (self', m) \<and> vad_inv self' \<and> init_flag self' = init_flag self"
  using assms(2)
proof (induction n)
  case 0
  then show ?case using assms(1) by simp
next
  case (Suc n)
  then obtain s m where s: "gmm_update_loop n v fs self = Some (s, m)" "vad_inv s" "init_flag s = init_flag self" by auto
  obtain s' m' where "gmm_update_channel v fs n (s, m) = Some (s', m')" "vad_inv s'" "init_flag s' = init_flag s"
    by (rule update_channel_ok [OF s(2) _ assms(3), of n v m]) (use Suc.prems in simp_all)
  then show ?case using s by simp
qed

section \<open>The test\<close>

lemma test_channel_ok:
  assumes inv: "vad_inv self" "means_ok self" and fs: "features_ok fs" "c < 6"
  shows "gmm_test_channel self fs t c v \<noteq> None"
proof -
  have x: "176 \<le> fs ! c" "fs ! c \<le> 2245" using fs by (auto simp: features_ok_def)
  have x16: "is_s16 (fs ! c * 8)" using x by (simp add: is_s16_def)
  have len: "length (noise_means self) = 12" "length (speech_means self) = 12" "length (noise_stds self) = 12"
    "length (speech_stds self) = 12"
    using inv(1) by (simp_all add: vad_inv_def vad_shape_def kTableSize_def kNumChannels_def kNumGaussians_def)
  have g: "\<exists>p d. WebRtcVad_GaussianProbability (fs ! c) (noise_means self ! i) (noise_stds self ! i) = Some (p, d)"
    "\<exists>p d. WebRtcVad_GaussianProbability (fs ! c) (speech_means self ! i) (speech_stds self ! i) = Some (p, d)"
    if "i < 12" for i
  proof -
    have m: "-40 \<le> noise_means self ! i" "noise_means self ! i \<le> 19408" "-40 \<le> speech_means self ! i" "speech_means self ! i \<le> 19408"
      using inv(2) that len by (auto simp: means_ok_def dest!: list_all_at)
    have s: "378 \<le> noise_stds self ! i" "noise_stds self ! i \<le> 32767" "378 \<le> speech_stds self ! i" "speech_stds self ! i \<le> 32767"
      using inv(1) that len by (auto simp: vad_inv_def std_ok_def dest!: list_all_at)
    have "\<bar>fs ! c * 8 - noise_means self ! i\<bar> \<le> 18000" "\<bar>fs ! c * 8 - speech_means self ! i\<bar> \<le> 18000"
      using x m by linarith+
    then show "\<exists>p d. WebRtcVad_GaussianProbability (fs ! c) (noise_means self ! i) (noise_stds self ! i) = Some (p, d)"
      "\<exists>p d. WebRtcVad_GaussianProbability (fs ! c) (speech_means self ! i) (speech_stds self ! i) = Some (p, d)"
      using GaussianProbability_ok [OF s(1,2) _ x16] GaussianProbability_ok [OF s(3,4) _ x16] by blast+
  qed
  from g [of c] g [of "c + 6"] fs(2) obtain p0 d0 p1 d1 q0 e0 q1 e1 where
    "WebRtcVad_GaussianProbability (fs ! c) (noise_means self ! c) (noise_stds self ! c) = Some (p0, d0)"
    "WebRtcVad_GaussianProbability (fs ! c) (speech_means self ! c) (speech_stds self ! c) = Some (q0, e0)"
    "WebRtcVad_GaussianProbability (fs ! c) (noise_means self ! (c + 6)) (noise_stds self ! (c + 6)) = Some (p1, d1)"
    "WebRtcVad_GaussianProbability (fs ! c) (speech_means self ! (c + 6)) (speech_stds self ! (c + 6)) = Some (q1, e1)"
    by auto
  then show ?thesis by (simp add: gmm_test_channel_def kNumChannels_def Let_def)
qed

lemma test_loop_ok:
  "vad_inv self \<Longrightarrow> means_ok self \<Longrightarrow> features_ok fs \<Longrightarrow> n \<le> 6 \<Longrightarrow> gmm_test_loop n self fs t \<noteq> None"
proof (induction n)
  case (Suc n)
  then obtain w where "gmm_test_loop n self fs t = Some w" by auto
  then show ?case using test_channel_ok [OF Suc.prems(1,2,3), of n t w] Suc.prems(4) by simp
qed simp

lemma test_channel_flag: "gmm_test_channel self fs t c w = Some v \<Longrightarrow> vadflag v = vadflag w \<or> vadflag v = 1"
  by (clarsimp simp: gmm_test_channel_def Let_def bind_eq_Some_conv)

lemma test_loop_flag: "gmm_test_loop n self fs t = Some v \<Longrightarrow> vadflag v = 0 \<or> vadflag v = 1"
proof (induction n arbitrary: v)
  case 0
  then show ?case by (auto simp: gmm_vars0_def)
next
  case (Suc n)
  then obtain w where "gmm_test_loop n self fs t = Some w" "gmm_test_channel self fs t n w = Some v"
    by (auto simp: bind_eq_Some_conv)
  then show ?case using Suc.IH [of w] test_channel_flag by fastforce
qed

section \<open>The hangover\<close>

lemma hangover_ok:
  assumes "vad_inv self" "hang_ok o1" "hang_ok o2" "flag = 0 \<or> flag = 1"
  obtains r self' where "hangover flag o1 o2 self = (r, self')" "vad_inv self'" "init_flag self' = init_flag self" "0 \<le> r" "r \<le> 16"
proof -
  have h: "0 \<le> over_hang self" "over_hang self \<le> 14" "0 \<le> num_of_speech self" "num_of_speech self \<le> 6"
    using assms(1) by (simp_all add: vad_inv_def hang_ok_def)
  have s: "s16 (2 + over_hang self) = 2 + over_hang self" "s16 (over_hang self - 1) = over_hang self - 1"
    "s16 (num_of_speech self + 1) = num_of_speech self + 1"
    using h by (simp_all add: s16_id is_s16_def)
  obtain r self' where e: "hangover flag o1 o2 self = (r, self')" by fastforce
  have "vad_inv self' \<and> init_flag self' = init_flag self \<and> 0 \<le> r \<and> r \<le> 16"
    using e assms h s
    by (auto simp: hangover_def Let_def vad_inv_def vad_shape_def channel_minima_def kMaxSpeechFrames_def hang_ok_def split: if_splits)
  then show thesis using that e by blast
qed

lemma GmmProbability_ok:
  assumes "vad_inv self" "features_ok fs"
  shows "case GmmProbability self fs tp n of None \<Rightarrow> \<not> means_ok self
    | Some (r, self') \<Rightarrow> vad_inv self' \<and> init_flag self' = init_flag self \<and> 0 \<le> r \<and> r \<le> 16"
proof -
  let ?i = "if n = 80 then 0 else if n = 160 then 1 else 2 :: nat"
  have l: "length (over_hang_max_1 self) = 3" "length (over_hang_max_2 self) = 3" "length (individual self) = 3" "length (total self) = 3"
    using assms(1) by (simp_all add: vad_inv_def vad_shape_def)
  have i: "?i < 3" by simp
  have six: "kNumChannels \<le> 6" by (simp add: kNumChannels_def)
  let ?o1 = "over_hang_max_1 self ! ?i" and ?o2 = "over_hang_max_2 self ! ?i"
  have o: "hang_ok ?o1" "hang_ok ?o2" using assms(1) l i by (simp_all add: vad_inv_def list_all_at)
  have e: "GmmProbability self fs tp n = do {
      (flag, self) \<leftarrow> (if tp > kMinEnergy then do {
         v \<leftarrow> gmm_test_loop kNumChannels self fs (individual self ! ?i);
         let v = v\<lparr>vadflag := (if sum_log_likelihood_ratios v \<ge> total self ! ?i then 1 else vadflag v)\<rparr>;
         (self, _) \<leftarrow> gmm_update_loop kNumChannels v fs self;
         Some (vadflag v, self\<lparr>frame_counter := s32 (frame_counter self + 1)\<rparr>)
       } else Some (0, self));
      Some (hangover flag ?o1 ?o2 self) }"
    unfolding GmmProbability_def Let_def using l i by (simp only: rd_less bind.bind_lunit)
  show ?thesis
  proof (cases "tp > kMinEnergy \<and> gmm_test_loop kNumChannels self fs (individual self ! ?i) = None")
    case True
    then have "GmmProbability self fs tp n = None" unfolding e by simp
    moreover have "\<not> means_ok self"
      using True test_loop_ok [OF assms(1) _ assms(2), of kNumChannels "individual self ! ?i"] six by blast
    ultimately show ?thesis by simp
  next
    case False
    have "\<exists>flag s. GmmProbability self fs tp n = Some (hangover flag ?o1 ?o2 s) \<and> vad_inv s \<and> init_flag s = init_flag self \<and>
        (flag = 0 \<or> flag = 1)"
    proof (cases "tp > kMinEnergy")
      case True
      then obtain v where v: "gmm_test_loop kNumChannels self fs (individual self ! ?i) = Some v" using False by auto
      let ?v = "v\<lparr>vadflag := (if sum_log_likelihood_ratios v \<ge> total self ! ?i then 1 else vadflag v)\<rparr>"
      have fl: "vadflag ?v = 0 \<or> vadflag ?v = 1" using test_loop_flag [OF v] by auto
      obtain s m where s: "gmm_update_loop kNumChannels ?v fs self = Some (s, m)" "vad_inv s" "init_flag s = init_flag self"
        using update_loop_ok [OF assms(1) _ assms(2), of kNumChannels ?v] by (auto simp: kNumChannels_def)
      let ?s = "s\<lparr>frame_counter := s32 (frame_counter s + 1)\<rparr>"
      have "vad_inv ?s" using s(2) by (simp add: vad_inv_def vad_shape_def channel_minima_def)
      moreover have "GmmProbability self fs tp n = Some (hangover (vadflag ?v) ?o1 ?o2 ?s)"
        unfolding e using True v s(1) by (simp add: Let_def)
      ultimately show ?thesis using s(3) fl by (intro exI [of _ "vadflag ?v"] exI [of _ ?s]) simp
    next
      case False
      then show ?thesis unfolding e using assms(1) by auto
    qed
    then obtain flag s where g: "GmmProbability self fs tp n = Some (hangover flag ?o1 ?o2 s)" "vad_inv s"
        "init_flag s = init_flag self" "flag = 0 \<or> flag = 1" by blast
    obtain r s' where "hangover flag ?o1 ?o2 s = (r, s')" "vad_inv s'" "init_flag s' = init_flag s" "0 \<le> r" "r \<le> 16"
      by (rule hangover_ok [OF g(2) o g(4)])
    then show ?thesis using g by simp
  qed
qed

end
