(* ===== verification/Webrtc_Vad.thy ===== *)
theory Webrtc_Vad
  imports Vad_Core
begin

text \<open>
  \<^verbatim>\<open>webrtc_vad.c\<close>, the interface of the voice activity detector, and the properties of the detector:
  the four sampling rates as instances of one interface (\<open>frame_detector\<close>), the states a client's calls
  reach, and the hangover.
\<close>

section \<open>The interface\<close>

text \<open>
  A handle is \<open>None\<close> for \<^verbatim>\<open>NULL\<close>.  \<open>WebRtcVad_Create\<close> takes what \<^verbatim>\<open>malloc\<close> returned: the contents of the
  block, or \<open>None\<close> for \<^verbatim>\<open>NULL\<close>.  The outer \<open>option\<close> of its result is the memory fault: the code writes the flag without
  a check of the pointer.
\<close>

definition WebRtcVad_Create :: "VadInstT option \<Rightarrow> VadInstT option option" where
  "WebRtcVad_Create mem = (case mem of None \<Rightarrow> None | Some self \<Rightarrow> Some (Some (self\<lparr>init_flag := 0\<rparr>)))"

definition WebRtcVad_Init :: "VadInstT option \<Rightarrow> (int \<times> VadInstT option) option" where
  "WebRtcVad_Init handle = WebRtcVad_InitCore handle"

definition WebRtcVad_set_mode :: "VadInstT option \<Rightarrow> int \<Rightarrow> (int \<times> VadInstT option) option" where
  "WebRtcVad_set_mode handle mode = (case handle of
     None \<Rightarrow> Some (- 1, None)
   | Some self \<Rightarrow>
       if init_flag self \<noteq> kInitCheck then Some (- 1, handle)
       else map_option (map_prod id Some) (WebRtcVad_set_mode_core self mode))"

definition kValidRates :: "int list" where "kValidRates = [8000, 16000, 32000, 48000]"
definition kMaxFrameLengthMs :: int where "kMaxFrameLengthMs = 30"

text \<open>The inner loop of \<open>WebRtcVad_ValidRateAndFrameLength\<close>.\<close>

function valid_length_loop :: "int \<Rightarrow> int \<Rightarrow> nat \<Rightarrow> int" where
  "valid_length_loop valid_length_ms rate frame_length =
     (if valid_length_ms \<le> kMaxFrameLengthMs
      then if frame_length = nat (cdiv rate 1000 * valid_length_ms) then 0
           else valid_length_loop (valid_length_ms + 10) rate frame_length
      else - 1)"
  by pat_completeness auto
termination
  by (relation "measure (\<lambda>(ms, _, _). nat (kMaxFrameLengthMs + 1 - ms))") auto

declare valid_length_loop.simps [simp del]

primrec valid_rate_loop :: "int list \<Rightarrow> int \<Rightarrow> nat \<Rightarrow> int" where
  "valid_rate_loop [] rate frame_length = - 1"
| "valid_rate_loop (r # rs) rate frame_length =
     (if r = rate then valid_length_loop 10 r frame_length else valid_rate_loop rs rate frame_length)"

definition WebRtcVad_ValidRateAndFrameLength :: "int \<Rightarrow> nat \<Rightarrow> int" where
  "WebRtcVad_ValidRateAndFrameLength rate frame_length = valid_rate_loop kValidRates rate frame_length"

definition WebRtcVad_Process ::
    "VadInstT option \<Rightarrow> int \<Rightarrow> int list option \<Rightarrow> nat \<Rightarrow> (int \<times> VadInstT option) option" where
  "WebRtcVad_Process handle fs audio_frame frame_length = (case handle of
     None \<Rightarrow> Some (- 1, None)
   | Some self \<Rightarrow>
       if init_flag self \<noteq> kInitCheck then Some (- 1, handle)
       else (case audio_frame of
         None \<Rightarrow> Some (- 1, handle)
       | Some frame \<Rightarrow>
           if WebRtcVad_ValidRateAndFrameLength fs frame_length \<noteq> 0 then Some (- 1, handle)
           else do {
             (r, self) \<leftarrow>
               (if fs = 48000 then WebRtcVad_CalcVad48khz self frame frame_length
                else if fs = 32000 then WebRtcVad_CalcVad32khz self frame frame_length
                else if fs = 16000 then WebRtcVad_CalcVad16khz self frame frame_length
                else if fs = 8000 then WebRtcVad_CalcVad8khz self frame frame_length
                else Some (- 1, self));
             Some (if r > 0 then 1 else r, Some self)
           }))"

section \<open>The sampling rates keep the invariant\<close>

text \<open>What each of the four detectors does with a frame: it returns unless a mean is out of range.\<close>

definition detects :: "VadInstT \<Rightarrow> (int \<times> VadInstT) option \<Rightarrow> bool" where
  "detects self res \<longleftrightarrow> (case res of None \<Rightarrow> \<not> means_ok self
     | Some (r, self') \<Rightarrow> vad_inv self' \<and> init_flag self' = init_flag self \<and> 0 \<le> r \<and> r \<le> 16)"

lemma CalcVad8khz_ok:
  assumes "vad_inv self" "0 < n" "n \<le> 240" "n \<le> length xs"
  shows "detects self (WebRtcVad_CalcVad8khz self xs n)"
proof -
  have sh: "vad_shape self" using assms(1) by (simp add: vad_inv_def)
  obtain te fs us ls hs where f: "WebRtcVad_CalculateFeatures self xs n =
      Some (te, fs, self\<lparr>upper_state := us, lower_state := ls, hp_filter_state := hs\<rparr>)"
    "length us = 5" "length ls = 5" "length hs = 4" "length fs = 6" "\<forall>f \<in> set fs. 176 \<le> f \<and> f \<le> 2245"
    by (rule CalculateFeatures_ok [OF sh assms(2-4)])
  let ?s = "self\<lparr>upper_state := us, lower_state := ls, hp_filter_state := hs\<rparr>"
  have s: "vad_inv ?s" using assms(1) f by (simp add: vad_inv_def vad_shape_def channel_minima_def)
  have "features_ok fs" using f(5,6) by (simp add: features_ok_def)
  note g = GmmProbability_ok [OF s this, of te n]
  have m: "means_ok ?s = means_ok self" by (simp add: means_ok_def)
  show ?thesis
  proof (cases "GmmProbability ?s fs te n")
    case None
    then show ?thesis using g m f(1) by (simp add: detects_def WebRtcVad_CalcVad8khz_def)
  next
    case (Some p)
    then have "vad_inv (snd p)" "init_flag (snd p) = init_flag self" "0 \<le> fst p" "fst p \<le> 16" using g by (auto split: prod.splits)
    moreover have "vad_inv ((snd p)\<lparr>vad := fst p\<rparr>)" using \<open>vad_inv (snd p)\<close>
      by (simp add: vad_inv_def vad_shape_def channel_minima_def)
    ultimately show ?thesis using Some f(1) by (simp add: detects_def WebRtcVad_CalcVad8khz_def split_beta)
  qed
qed

lemma inv_states:
  "vad_inv self \<Longrightarrow> length ds = 4 \<Longrightarrow> vad_inv (self\<lparr>downsampling_filter_states := ds\<rparr>)"
  "vad_inv self \<Longrightarrow> wf48To8 st \<Longrightarrow> vad_inv (self\<lparr>state_48_to_8 := st\<rparr>)"
  by (simp_all add: vad_inv_def vad_shape_def channel_minima_def)

lemma detects_states [simp]:
  "detects (self\<lparr>downsampling_filter_states := ds\<rparr>) r = detects self r"
  "detects (self\<lparr>state_48_to_8 := st\<rparr>) r = detects self r"
  by (simp_all add: detects_def means_ok_def split: option.splits)

lemma CalcVad16khz_ok:
  assumes "vad_inv self" "1 < n" "n \<le> 480" "n \<le> length xs"
  shows "detects self (WebRtcVad_CalcVad16khz self xs n)"
proof -
  have l: "length (downsampling_filter_states self) = 4" using assms(1) by (simp add: vad_inv_def vad_shape_def)
  have "n div 2 \<le> 240" "0 < n div 2" using assms(2,3) by linarith+
  then obtain out st where d: "WebRtcVad_Downsampling xs 240 (downsampling_filter_states self) 0 n = Some (out, st)"
      "length out = n div 2" "length st = 4"
    using Downsampling_ok [of n xs 240 0 "downsampling_filter_states self"] assms(4) l by auto
  have i: "vad_inv (self\<lparr>downsampling_filter_states := st\<rparr>)" by (rule inv_states(1) [OF assms(1) d(3)])
  have "detects (self\<lparr>downsampling_filter_states := st\<rparr>)
      (WebRtcVad_CalcVad8khz (self\<lparr>downsampling_filter_states := st\<rparr>) out (n div 2))"
    by (rule CalcVad8khz_ok [OF i]) (use d \<open>n div 2 \<le> 240\<close> \<open>0 < n div 2\<close> in simp_all)
  then show ?thesis using d(1) by (simp add: WebRtcVad_CalcVad16khz_def)
qed

lemma CalcVad32khz_ok:
  assumes "vad_inv self" "3 < n" "n \<le> 960" "n \<le> length xs"
  shows "detects self (WebRtcVad_CalcVad32khz self xs n)"
proof -
  have l: "length (downsampling_filter_states self) = 4" using assms(1) by (simp add: vad_inv_def vad_shape_def)
  have h: "n div 2 \<le> 480" "n div 2 div 2 \<le> 240" "0 < n div 2 div 2" using assms(2,3) by linarith+
  obtain wb st where d: "WebRtcVad_Downsampling xs 480 (downsampling_filter_states self) 2 n = Some (wb, st)"
      "length wb = n div 2" "length st = 4"
    using Downsampling_ok [of n xs 480 2 "downsampling_filter_states self"] assms(4) l h(1) by auto
  obtain nb st' where e: "WebRtcVad_Downsampling wb 240 st 0 (n div 2) = Some (nb, st')" "length nb = n div 2 div 2" "length st' = 4"
    using Downsampling_ok [of "n div 2" wb 240 0 st] d h(2) by auto
  have i: "vad_inv (self\<lparr>downsampling_filter_states := st'\<rparr>)" by (rule inv_states(1) [OF assms(1) e(3)])
  have "detects (self\<lparr>downsampling_filter_states := st'\<rparr>)
      (WebRtcVad_CalcVad8khz (self\<lparr>downsampling_filter_states := st'\<rparr>) nb (n div 2 div 2))"
    by (rule CalcVad8khz_ok [OF i]) (use e h in simp_all)
  then show ?thesis using d(1) e(1) by (simp add: WebRtcVad_CalcVad32khz_def Let_def)
qed

text \<open>
  The loop of the 48 kHz detector: the narrow band signal is the resampled first 10 ms, repeated.
\<close>

abbreviation first_10ms :: "nat \<Rightarrow> int list \<Rightarrow> int list" where
  "first_10ms n frame \<equiv> concat (replicate n (take 480 frame))"

lemma concat_replicate_snoc: "concat (replicate (Suc n) xs) = concat (replicate n xs) @ xs"
  by (induction n) simp_all

lemma length_first_10ms: "480 \<le> length frame \<Longrightarrow> length (first_10ms n frame) = 480 * n"
  by (induction n) simp_all

lemma abs48To8_eqD: "abs48To8 st = abs48To8 st' \<Longrightarrow> st = st'"
  by (cases st, cases st') (simp add: abs48To8_def)

lemma resample_48_loop_ok:
  assumes "480 \<le> length frame" "length nb = 240" "length mem = 736" "wf48To8 st" "n \<le> 3"
  shows "\<exists>st' mem'. resample_48_loop n frame (nb, st, mem) =
      Some (fst (stream48To8 (first_10ms n frame) (abs48To8 st)) @ drop (n * 80) nb, st', mem') \<and>
    abs48To8 st' = snd (stream48To8 (first_10ms n frame) (abs48To8 st)) \<and> wf48To8 st' \<and> length mem' = 736"
  using assms(5)
proof (induction n)
  case 0
  then show ?case using assms(3,4) by (simp add: r48To8.run_Nil r48To8.wf_inv)
next
  case (Suc n)
  let ?run = "\<lambda>k. stream48To8 (first_10ms k frame) (abs48To8 st)"
  obtain st1 mem1 where r: "resample_48_loop n frame (nb, st, mem) = Some (fst (?run n) @ drop (n * 80) nb, st1, mem1)"
      "abs48To8 st1 = snd (?run n)" "wf48To8 st1" "length mem1 = 736" using Suc by auto
  have dv: "12 dvd length (first_10ms n frame)" "12 dvd length (take 480 frame)"
    using length_first_10ms [OF assms(1), of n] assms(1) by simp_all
  note I = r48To8.wf_inv [OF assms(4)] and I1 = r48To8.wf_inv [OF r(3)]
  have l: "length (fst (?run n)) = n * 80"
    using r48To8.run_length [OF I dv(1)] length_first_10ms [OF assms(1), of n] by simp
  have s: "?run (Suc n) = (fst (?run n) @ fst (stream48To8 (take 480 frame) (abs48To8 st1)),
      snd (stream48To8 (take 480 frame) (abs48To8 st1)))"
    unfolding concat_replicate_snoc r(2) by (rule r48To8.run_append [OF I dv])
  have ll: "80 \<le> length (drop (n * 80) (fst (?run n) @ drop (n * 80) nb))" using l assms(2) Suc.prems by simp
  have lm: "496 \<le> length mem1" using r(4) by simp
  obtain m where f: "WebRtcSpl_Resample48khzTo8khz frame (drop (n * 80) (fst (?run n) @ drop (n * 80) nb)) st1 mem1 =
      (case stream48To8 (take 480 frame) (abs48To8 st1) of (ys, a, b, c, d) \<Rightarrow>
       Some (ys @ drop 80 (drop (n * 80) (fst (?run n) @ drop (n * 80) nb)), \<lparr>S_48_24 = a, S_24_24 = b, S_24_16 = c, S_16_8 = d\<rparr>, m))"
      "length m = length mem1"
    by (rule frame48To8_prefix [OF assms(1) ll lm r(3)])
  obtain ys a b c d where y: "stream48To8 (take 480 frame) (abs48To8 st1) = (ys, a, b, c, d)" by (metis prod_cases5)
  have w: "wf48To8 \<lparr>S_48_24 = a, S_24_24 = b, S_24_16 = c, S_16_8 = d\<rparr>"
    using r48To8.run_inv [OF I1 dv(2)] by (simp add: y wf48To8_def)
  have "resample_48_loop (Suc n) frame (nb, st, mem) =
      Some (fst (?run n) @ ys @ drop (80 + n * 80) nb, \<lparr>S_48_24 = a, S_24_24 = b, S_24_16 = c, S_16_8 = d\<rparr>, m)"
    using r(1) f(1) y l by simp
  then show ?case unfolding s using w y f(2) r(4) by (simp add: abs48To8_def)
qed

text \<open>The 48 kHz detector in terms of the stream of the resampler.\<close>

lemma CalcVad48khz_eq:
  assumes "vad_inv self" "480 \<le> length frame" "n \<le> 3"
  obtains st where "wf48To8 st" "abs48To8 st = snd (stream48To8 (first_10ms n frame) (abs48To8 (state_48_to_8 self)))"
    "WebRtcVad_CalcVad48khz self frame (n * 480) = WebRtcVad_CalcVad8khz (self\<lparr>state_48_to_8 := st\<rparr>)
       (fst (stream48To8 (first_10ms n frame) (abs48To8 (state_48_to_8 self))) @ replicate (240 - n * 80) 0) (n * 80)"
proof -
  have w: "wf48To8 (state_48_to_8 self)" using assms(1) by (simp add: vad_inv_def vad_shape_def)
  obtain st mem where "resample_48_loop n frame (replicate 240 0, state_48_to_8 self, replicate 736 0) =
      Some (fst (stream48To8 (first_10ms n frame) (abs48To8 (state_48_to_8 self))) @ drop (n * 80) (replicate 240 0), st, mem)"
    "abs48To8 st = snd (stream48To8 (first_10ms n frame) (abs48To8 (state_48_to_8 self)))" "wf48To8 st"
    using resample_48_loop_ok [OF assms(2) _ _ w assms(3), of "replicate 240 0" "replicate 736 0"] by auto
  then show thesis using that [of st] by (simp add: WebRtcVad_CalcVad48khz_def Let_def mult.commute [of 80])
qed

lemma CalcVad48khz_ok:
  assumes "vad_inv self" "480 \<le> length frame" "0 < n" "n \<le> 3"
  shows "detects self (WebRtcVad_CalcVad48khz self frame (n * 480))"
proof -
  let ?y = "fst (stream48To8 (first_10ms n frame) (abs48To8 (state_48_to_8 self)))"
  obtain st where st: "wf48To8 st" "WebRtcVad_CalcVad48khz self frame (n * 480) =
      WebRtcVad_CalcVad8khz (self\<lparr>state_48_to_8 := st\<rparr>) (?y @ replicate (240 - n * 80) 0) (n * 80)"
    by (rule CalcVad48khz_eq [OF assms(1,2,4)])
  have i: "vad_inv (self\<lparr>state_48_to_8 := st\<rparr>)"  by (rule inv_states(2) [OF assms(1) st(1)])
  have w: "wf48To8 (state_48_to_8 self)" using assms(1) by (simp add: vad_inv_def vad_shape_def)
  have "length ?y = n * 80"
    using r48To8.run_length [OF r48To8.wf_inv [OF w], of "first_10ms n frame"] length_first_10ms [OF assms(2), of n] by simp
  then have "detects (self\<lparr>state_48_to_8 := st\<rparr>)
      (WebRtcVad_CalcVad8khz (self\<lparr>state_48_to_8 := st\<rparr>) (?y @ replicate (240 - n * 80) 0) (n * 80))"
    by (intro CalcVad8khz_ok [OF i]) (use assms(3,4) in simp_all)
  then show ?thesis using st(2) by simp
qed

section \<open>Initialisation and modes\<close>

lemma memcpy_all: "length xs = n \<Longrightarrow> length ys = n \<Longrightarrow> memcpy xs 0 ys 0 n = Some ys"
  by (simp add: memcpy_def)

lemma set_mode_core_ok:
  assumes "vad_shape self"
  shows "WebRtcVad_set_mode_core self mode =
    (if mode \<in> {0, 1, 2, 3}
     then Some (0, self\<lparr>over_hang_max_1 := [[8, 4, 3], [8, 4, 3], [6, 3, 2], [6, 3, 2]] ! nat mode,
            over_hang_max_2 := [[14, 7, 5], [14, 7, 5], [9, 5, 3], [9, 5, 3]] ! nat mode,
            individual := [[24, 21, 24], [37, 32, 37], [82, 78, 82], [94, 94, 94]] ! nat mode,
            total := [[57, 48, 57], [100, 80, 100], [285, 260, 285], [1100, 1050, 1100]] ! nat mode\<rparr>)
     else Some (- 1, self))"
  using assms by (auto simp: WebRtcVad_set_mode_core_def set_thresholds_def mode_tables memcpy_all vad_shape_def)

lemma set_mode_core_inv:
  assumes "vad_inv self"
  obtains r self' where "WebRtcVad_set_mode_core self mode = Some (r, self')" "vad_inv self'" "init_flag self' = init_flag self"
    "means_ok self' = means_ok self" "r = 0 \<or> r = - 1"
proof (cases "mode \<in> {0, 1, 2, 3}")
  case True
  then show thesis using that assms
    by (auto simp: set_mode_core_ok vad_inv_def vad_shape_def channel_minima_def hang_ok_def means_ok_def)
next
  case False
  then show thesis using that [of "- 1" self] assms by (simp add: set_mode_core_ok vad_inv_def)
qed

text \<open>The instance after \<open>WebRtcVad_Init\<close>, whatever the memory held.\<close>

definition vad_initial :: VadInstT where
  "vad_initial = \<lparr>vad = 1, downsampling_filter_states = replicate 4 0,
     state_48_to_8 = \<lparr>S_48_24 = replicate 8 0, S_24_24 = replicate 16 0, S_24_16 = replicate 8 0, S_16_8 = replicate 8 0\<rparr>,
     noise_means = kNoiseDataMeans, speech_means = kSpeechDataMeans, noise_stds = kNoiseDataStds, speech_stds = kSpeechDataStds,
     frame_counter = 0, over_hang = 0, num_of_speech = 0, index_vector = replicate 96 0, low_value_vector = replicate 96 10000,
     mean_value = replicate 6 1600, upper_state = replicate 5 0, lower_state = replicate 5 0, hp_filter_state = replicate 4 0,
     over_hang_max_1 = [8, 4, 3], over_hang_max_2 = [14, 7, 5], individual = [24, 21, 24], total = [57, 48, 57],
     init_flag = kInitCheck\<rparr>"

lemma Init_eq:
  assumes "vad_shape mem"
  shows "WebRtcVad_Init (Some mem) = Some (0, Some vad_initial)"
proof -
  have l: "length kNoiseDataMeans = 12" "length kSpeechDataMeans = 12" "length kNoiseDataStds = 12" "length kSpeechDataStds = 12"
    by (simp_all add: kNoiseDataMeans_def kSpeechDataMeans_def kNoiseDataStds_def kSpeechDataStds_def)
  show ?thesis
    using assms l by (simp add: WebRtcVad_Init_def WebRtcVad_InitCore_def Let_def memset_all memcpy_all vad_shape_def wf48To8_def
        WebRtcSpl_ResetResample48khzTo8khz_def kTableSize_def kNumChannels_def kNumGaussians_def WebRtcVad_set_mode_core_def
        set_thresholds_def mode_tables kDefaultMode_def vad_initial_def)
qed

lemma initial_minima: "c < 6 \<Longrightarrow> channel_minima vad_initial c = (replicate 16 0, replicate 16 10000)"
  by (simp add: channel_minima_def vad_initial_def)

lemma initial_ok: "vad_inv vad_initial \<and> means_ok vad_initial"
proof -
  have "\<forall>c<6. minima_ok (channel_minima vad_initial c) \<and> list_all is_s16 (snd (channel_minima vad_initial c))"
    by (simp add: initial_minima minima_ok_def list_all_iff is_s16_def)
  then show ?thesis
    by (simp add: vad_inv_def means_ok_def)
      (simp add: vad_initial_def vad_shape_def wf48To8_def kTableSize_def kNumChannels_def kNumGaussians_def list_all_iff is_s16_def
        kNoiseDataMeans_def kSpeechDataMeans_def kNoiseDataStds_def kSpeechDataStds_def std_ok_def hang_ok_def)
qed

section \<open>Frames the interface accepts\<close>

lemma valid_length_eq:
  assumes "0 \<le> r"
  shows "valid_length_loop 10 r n = (if int n \<in> {r div 1000 * 10, r div 1000 * 20, r div 1000 * 30} then 0 else - 1)"
proof -
  have c: "cdiv r 1000 = r div 1000" using assms by (simp add: cdiv_nonneg)
  have n: "n = nat (r div 1000 * k) \<longleftrightarrow> int n = r div 1000 * k" if "0 \<le> k" for k
    using assms that by (auto simp: pos_imp_zdiv_nonneg_iff)
  show ?thesis
    by (simp add: valid_length_loop.simps [of 10] valid_length_loop.simps [of 20] valid_length_loop.simps [of 30]
        valid_length_loop.simps [of 40] c n kMaxFrameLengthMs_def)
qed

lemma ValidRateAndFrameLength_eq:
  "WebRtcVad_ValidRateAndFrameLength rate n =
     (if rate \<in> {8000, 16000, 32000, 48000} \<and> int n \<in> {rate div 100, 2 * (rate div 100), 3 * (rate div 100)} then 0 else - 1)"
  by (auto simp: WebRtcVad_ValidRateAndFrameLength_def kValidRates_def valid_length_eq)

section \<open>The detectors as one interface\<close>

text \<open>
  What \<open>WebRtcVad_Process\<close> relies on: a detector for the frames of 10, 20 and 30 ms at one rate.
\<close>

locale frame_detector =
  fixes calc :: "VadInstT \<Rightarrow> int list \<Rightarrow> nat \<Rightarrow> (int \<times> VadInstT) option" and n10 :: nat
  assumes calc_ok: "vad_inv self \<Longrightarrow> k \<in> {1, 2, 3} \<Longrightarrow> k * n10 \<le> length xs \<Longrightarrow> detects self (calc self xs (k * n10))"
begin

lemma decision:
  assumes "vad_inv self" "init_flag self = kInitCheck" "int n \<in> {int n10, 2 * int n10, 3 * int n10}" "n \<le> length xs"
    and "(do {(r, s) \<leftarrow> calc self xs n; Some (if r > 0 then 1 else r, Some s)}) = res"
  shows "case res of None \<Rightarrow> \<not> means_ok self
    | Some (r, h) \<Rightarrow> (r = 0 \<or> r = 1) \<and> (\<exists>s. h = Some s \<and> vad_inv s \<and> init_flag s = kInitCheck)"
proof -
  have "n = 1 * n10 \<or> n = 2 * n10 \<or> n = 3 * n10" using assms(3) by (simp, linarith)
  then obtain k where k: "k \<in> {1, 2, 3}" "n = k * n10" by blast
  have "detects self (calc self xs n)" using calc_ok [OF assms(1) k(1)] assms(4) by (simp add: k(2))
  then show ?thesis using assms(2,5) by (cases "calc self xs n") (auto simp: detects_def split: prod.splits)
qed

end

interpretation det8: frame_detector WebRtcVad_CalcVad8khz 80
  by unfold_locales (auto intro!: CalcVad8khz_ok)

interpretation det16: frame_detector WebRtcVad_CalcVad16khz 160
  by unfold_locales (auto intro!: CalcVad16khz_ok)

interpretation det32: frame_detector WebRtcVad_CalcVad32khz 320
  by unfold_locales (auto intro!: CalcVad32khz_ok)

interpretation det48: frame_detector WebRtcVad_CalcVad48khz 480
  by unfold_locales (rule CalcVad48khz_ok, auto)

lemma Process_ok:
  assumes "vad_inv self" "init_flag self = kInitCheck" "WebRtcVad_ValidRateAndFrameLength fs n = 0" "n \<le> length xs"
  shows "case WebRtcVad_Process (Some self) fs (Some xs) n of None \<Rightarrow> \<not> means_ok self
    | Some (r, h) \<Rightarrow> (r = 0 \<or> r = 1) \<and> (\<exists>s. h = Some s \<and> vad_inv s \<and> init_flag s = kInitCheck)"
proof -
  have v: "fs \<in> {8000, 16000, 32000, 48000}" "int n \<in> {fs div 100, 2 * (fs div 100), 3 * (fs div 100)}"
    using assms(3) by (simp_all add: ValidRateAndFrameLength_eq split: if_splits)
  let ?calc = "if fs = 48000 then WebRtcVad_CalcVad48khz else if fs = 32000 then WebRtcVad_CalcVad32khz
    else if fs = 16000 then WebRtcVad_CalcVad16khz else WebRtcVad_CalcVad8khz"
  have e: "(do {(r, s) \<leftarrow> ?calc self xs n; Some (if r > 0 then 1 else r, Some s)}) = WebRtcVad_Process (Some self) fs (Some xs) n"
    using assms(2,3) v(1) by (auto simp: WebRtcVad_Process_def)
  consider "fs = 8000" | "fs = 16000" | "fs = 32000" | "fs = 48000" using v(1) by auto
  then show ?thesis
  proof cases
    case 1 then show ?thesis using det8.decision [OF assms(1,2) _ assms(4)] v(2) e by simp
  next
    case 2 then show ?thesis using det16.decision [OF assms(1,2) _ assms(4)] v(2) e by simp
  next
    case 3 then show ?thesis using det32.decision [OF assms(1,2) _ assms(4)] v(2) e by simp
  next
    case 4 then show ?thesis using det48.decision [OF assms(1,2) _ assms(4)] v(2) e by simp
  qed
qed

section \<open>Sequences of calls\<close>

text \<open>The calls a client makes on a handle; a frame has at least the length the client gives.\<close>

datatype vad_call = Init | Set_mode int | Process int "int list option" nat

primrec vad_call_step :: "vad_call \<Rightarrow> VadInstT option \<Rightarrow> (int \<times> VadInstT option) option" where
  "vad_call_step Init h = WebRtcVad_Init h"
| "vad_call_step (Set_mode mode) h = WebRtcVad_set_mode h mode"
| "vad_call_step (Process fs frame n) h = WebRtcVad_Process h fs frame n"

primrec vad_call_ok :: "vad_call \<Rightarrow> bool" where
  "vad_call_ok Init = True"
| "vad_call_ok (Set_mode mode) = True"
| "vad_call_ok (Process fs frame n) = (case frame of None \<Rightarrow> True | Some xs \<Rightarrow> n \<le> length xs)"

inductive vad_reach :: "VadInstT option \<Rightarrow> bool" where
  create: "vad_shape mem \<Longrightarrow> WebRtcVad_Create (Some mem) = Some h \<Longrightarrow> vad_reach h"
| call: "vad_reach h \<Longrightarrow> vad_call_ok c \<Longrightarrow> vad_call_step c h = Some (r, h') \<Longrightarrow> vad_reach h'"

text \<open>A handle before or after its initialisation.\<close>

definition handle_ok :: "VadInstT option \<Rightarrow> bool" where
  "handle_ok h \<longleftrightarrow> (case h of None \<Rightarrow> True
     | Some self \<Rightarrow> vad_shape self \<and> (init_flag self = kInitCheck \<longrightarrow> vad_inv self))"

lemma Init_handle: "handle_ok h \<Longrightarrow> WebRtcVad_Init h = (case h of None \<Rightarrow> Some (- 1, None) | Some _ \<Rightarrow> Some (0, Some vad_initial))"
  by (cases h) (simp_all add: Init_eq handle_ok_def, simp add: WebRtcVad_Init_def WebRtcVad_InitCore_def)

lemma handle_initial: "handle_ok (Some vad_initial)"
  using initial_ok by (simp add: handle_ok_def vad_inv_def)

lemma set_mode_handle:
  assumes "handle_ok h"
  obtains r h' where "WebRtcVad_set_mode h mode = Some (r, h')" "r = 0 \<or> r = - 1" "handle_ok h'"
proof (cases "\<exists>self. h = Some self \<and> init_flag self = kInitCheck")
  case True
  then obtain self where h: "h = Some self" "init_flag self = kInitCheck" by blast
  then have "vad_inv self" using assms by (simp add: handle_ok_def)
  then obtain r s where "WebRtcVad_set_mode_core self mode = Some (r, s)" "vad_inv s" "init_flag s = init_flag self" "r = 0 \<or> r = - 1"
    by (rule set_mode_core_inv [of self mode])
  then show thesis using that [of r "Some s"] h by (simp add: WebRtcVad_set_mode_def handle_ok_def vad_inv_def)
next
  case False
  then show thesis using that [of "- 1" h] assms by (cases h) (simp_all add: WebRtcVad_set_mode_def)
qed

lemma Process_error:
  "h = None \<or> init_flag (the h) \<noteq> kInitCheck \<or> frame = None \<or> WebRtcVad_ValidRateAndFrameLength fs n \<noteq> 0 \<Longrightarrow>
     WebRtcVad_Process h fs frame n = Some (- 1, h)"
  by (cases h; cases frame) (auto simp: WebRtcVad_Process_def)

lemma Process_handle:
  assumes "handle_ok h" "vad_call_ok (Process fs frame n)" "WebRtcVad_Process h fs frame n = Some (r, h')"
  shows "r \<in> {- 1, 0, 1} \<and> handle_ok h'"
proof (cases "h = None \<or> init_flag (the h) \<noteq> kInitCheck \<or> frame = None \<or> WebRtcVad_ValidRateAndFrameLength fs n \<noteq> 0")
  case True
  then show ?thesis using Process_error [OF True] assms(1,3) by simp
next
  case False
  then obtain self xs where h: "h = Some self" "frame = Some xs" "init_flag self = kInitCheck"
      "WebRtcVad_ValidRateAndFrameLength fs n = 0" by auto
  then have i: "vad_inv self" using assms(1) by (simp add: handle_ok_def)
  show ?thesis using Process_ok [OF i h(3,4), of xs] assms(2,3) h(1,2) by (auto simp: handle_ok_def vad_inv_def)
qed

lemma call_handle:
  assumes "handle_ok h" "vad_call_ok c" "vad_call_step c h = Some (r, h')"
  shows "r \<in> {- 1, 0, 1} \<and> handle_ok h'"
proof (cases c)
  case Init
  then show ?thesis using assms Init_handle [OF assms(1)] handle_initial by (cases h) auto
next
  case (Set_mode m)
  obtain q h1 where "WebRtcVad_set_mode h m = Some (q, h1)" "q = 0 \<or> q = - 1" "handle_ok h1"
    by (rule set_mode_handle [OF assms(1)])
  then show ?thesis using assms(3) Set_mode by auto
next
  case (Process fs frame n)
  then show ?thesis using assms Process_handle by simp
qed

lemma reach_handle: "vad_reach h \<Longrightarrow> handle_ok h"
proof (induction rule: vad_reach.induct)
  case (create mem h)
  then show ?case by (auto simp: WebRtcVad_Create_def handle_ok_def kInitCheck_def vad_shape_def)
next
  case (call h c r h')
  then show ?case using call_handle by blast
qed

lemma reach_initial: "vad_reach (Some vad_initial)"
proof -
  have s: "vad_shape vad_initial" using initial_ok by (simp add: vad_inv_def)
  have r: "vad_reach (Some (vad_initial\<lparr>init_flag := 0\<rparr>))"
    by (rule vad_reach.create [OF s]) (simp add: WebRtcVad_Create_def)
  have "vad_call_step Init (Some (vad_initial\<lparr>init_flag := 0\<rparr>)) = Some (0, Some vad_initial)"
    using Init_handle [OF reach_handle [OF r]] by simp
  then show ?thesis using vad_reach.call [OF r, of Init] by simp
qed

text \<open>The decisions of \<open>GmmProbability\<close> on a sequence of frames: features, total power and length.\<close>

primrec gmm_decisions :: "(int list \<times> int \<times> nat) list \<Rightarrow> VadInstT \<Rightarrow> (int list \<times> VadInstT) option" where
  "gmm_decisions [] self = Some ([], self)"
| "gmm_decisions (f # fs) self = do {
     (r, self) \<leftarrow> GmmProbability self (fst f) (fst (snd f)) (snd (snd f));
     (rs, self) \<leftarrow> gmm_decisions fs self;
     Some (r # rs, self)
   }"

lemma GmmProbability_silent:
  assumes "vad_inv self" "tp \<le> kMinEnergy"
  shows "\<exists>self'. GmmProbability self fs tp n = Some (if over_hang self > 0 then 2 + over_hang self else 0, self') \<and>
    over_hang self' = max 0 (over_hang self - 1) \<and> vad_inv self'"
proof -
  let ?i = "if n = 80 then 0 else if n = 160 then 1 else 2 :: nat"
  have l: "length (over_hang_max_1 self) = 3" "length (over_hang_max_2 self) = 3" "length (individual self) = 3" "length (total self) = 3"
    using assms(1) by (simp_all add: vad_inv_def vad_shape_def)
  have i: "?i < 3" by simp
  have e: "GmmProbability self fs tp n = Some (hangover 0 (over_hang_max_1 self ! ?i) (over_hang_max_2 self ! ?i) self)"
    using assms(2) l i by (simp add: GmmProbability_def Let_def rd_less del: if_split)
  have h: "0 \<le> over_hang self" "over_hang self \<le> 14" using assms(1) by (simp_all add: vad_inv_def hang_ok_def)
  then have s: "s16 (2 + over_hang self) = 2 + over_hang self" "s16 (over_hang self - 1) = over_hang self - 1"
    by (simp_all add: s16_id is_s16_def)
  have "vad_inv (self\<lparr>num_of_speech := 0\<rparr>)"
    "over_hang self > 0 \<Longrightarrow> vad_inv (self\<lparr>over_hang := over_hang self - 1, num_of_speech := 0\<rparr>)"
    using assms(1) h by (simp_all add: vad_inv_def vad_shape_def channel_minima_def hang_ok_def)
  then show ?thesis unfolding e using h s by (simp add: hangover_def)
qed

lemma gmm_decisions_silent:
  assumes "vad_inv self" "\<forall>f \<in> set fs. fst (snd f) \<le> kMinEnergy"
  shows "\<exists>self'. gmm_decisions fs self =
      Some (map (\<lambda>i. if int i < over_hang self then 2 + over_hang self - int i else 0) [0..<length fs], self') \<and>
    over_hang self' = max 0 (over_hang self - int (length fs)) \<and> vad_inv self'"
  using assms
proof (induction fs arbitrary: self)
  case Nil
  then show ?case by (simp add: vad_inv_def hang_ok_def)
next
  case (Cons f fs)
  obtain s1 where 1: "GmmProbability self (fst f) (fst (snd f)) (snd (snd f)) =
      Some (if over_hang self > 0 then 2 + over_hang self else 0, s1)" "over_hang s1 = max 0 (over_hang self - 1)" "vad_inv s1"
    using GmmProbability_silent [OF Cons.prems(1), of "fst (snd f)" "fst f" "snd (snd f)"] Cons.prems(2) by auto
  obtain s2 where 2: "gmm_decisions fs s1 =
      Some (map (\<lambda>i. if int i < over_hang s1 then 2 + over_hang s1 - int i else 0) [0..<length fs], s2)"
    "over_hang s2 = max 0 (over_hang s1 - int (length fs))" "vad_inv s2"
    using Cons.IH [OF 1(3)] Cons.prems(2) by auto
  have h: "0 \<le> over_hang self" using Cons.prems(1) by (simp add: vad_inv_def hang_ok_def)
  have "map (\<lambda>i. if int i < over_hang s1 then 2 + over_hang s1 - int i else 0) [0..<length fs] =
      map (\<lambda>i. if int (Suc i) < over_hang self then 2 + over_hang self - int (Suc i) else 0) [0..<length fs]"
    using 1(2) h by (auto simp: max_def)
  moreover have "map g [0..<length (f # fs)] = g 0 # map (\<lambda>i. g (Suc i)) [0..<length fs]" for g :: "nat \<Rightarrow> int"
    by (simp add: upt_conv_Cons map_Suc_upt [symmetric] del: upt_Suc)
  ultimately show ?case using 1 2 h by (simp del: upt_Suc) linarith
qed

lemma Process_None:
  assumes "handle_ok h" "vad_call_ok (Process fs frame n)" "WebRtcVad_Process h fs frame n = None"
  shows "\<exists>self. h = Some self \<and> init_flag self = kInitCheck \<and> \<not> means_ok self"
proof (cases "h = None \<or> init_flag (the h) \<noteq> kInitCheck \<or> frame = None \<or> WebRtcVad_ValidRateAndFrameLength fs n \<noteq> 0")
  case True
  then show ?thesis using Process_error [OF True] assms(3) by simp
next
  case False
  then obtain self xs where h: "h = Some self" "frame = Some xs" "init_flag self = kInitCheck"
      "WebRtcVad_ValidRateAndFrameLength fs n = 0" by auto
  then have i: "vad_inv self" using assms(1) by (simp add: handle_ok_def)
  show ?thesis using Process_ok [OF i h(3,4), of xs] assms(2,3) h by simp
qed

lemma set_mode_total: "handle_ok h \<Longrightarrow> WebRtcVad_set_mode h mode \<noteq> None"
  by (erule set_mode_handle [of h mode]) simp

section \<open>Properties\<close>

text \<open>C1: The detector decides every valid frame.  An initialised instance whose invariant holds and whose
  model means are in the range of the features processes every frame of 10, 20 or 30 ms at 8, 16, 32
  or 48 kHz: no array access is out of bounds and no shift undefined in the filter bank, the
  decimators, the 48 kHz resampler, the tracking of the minima and the model update; the decision is
  0 or 1; and the invariant holds of the instance afterwards.\<close>

theorem vad_process_decides:
  assumes "vad_inv self" "means_ok self" "init_flag self = kInitCheck"
    and "WebRtcVad_ValidRateAndFrameLength fs n = 0" "n \<le> length frame"
  shows "\<exists>r self'. WebRtcVad_Process (Some self) fs (Some frame) n = Some (r, Some self') \<and> (r = 0 \<or> r = 1) \<and>
    vad_inv self' \<and> init_flag self' = kInitCheck"
  using Process_ok [OF assms(1,3,4,5)] assms(2) by (auto split: option.splits)

theorem vad_process_decides_witness:
  "\<exists>r self'. WebRtcVad_Process (Some vad_initial) 48000 (Some (replicate 960 1000)) 960 = Some (r, Some self') \<and>
     (r = 0 \<or> r = 1) \<and> vad_inv self' \<and> init_flag self' = kInitCheck"
  by (rule vad_process_decides) (simp_all add: initial_ok ValidRateAndFrameLength_eq, simp add: vad_initial_def)

text \<open>C7: The invariant of every sequence of calls.  From memory of the right shape, after
  \<open>WebRtcVad_Create\<close> and any calls of \<open>WebRtcVad_Init\<close>, \<open>WebRtcVad_set_mode\<close> and \<open>WebRtcVad_Process\<close>, in any
  order and with any arguments, an instance that is marked initialised satisfies the invariant; the
  next call returns -1, 0 or 1, and its instance is reachable again; only \<open>WebRtcVad_Process\<close> can fail to
  have a defined result, and only when a mean of the models has left the range of the features.\<close>

theorem vad_reachable_invariant:
  assumes "vad_reach h" "vad_call_ok c"
  shows "(\<forall>self. h = Some self \<and> init_flag self = kInitCheck \<longrightarrow> vad_inv self) \<and>
    (case vad_call_step c h of
       Some (r, h') \<Rightarrow> r \<in> {- 1, 0, 1} \<and> vad_reach h'
     | None \<Rightarrow> (\<exists>fs frame n. c = Process fs frame n) \<and>
         (\<exists>self. h = Some self \<and> init_flag self = kInitCheck \<and> \<not> means_ok self))"
proof (rule conjI)
  have ok: "handle_ok h" by (rule reach_handle [OF assms(1)])
  then show "\<forall>self. h = Some self \<and> init_flag self = kInitCheck \<longrightarrow> vad_inv self" by (auto simp: handle_ok_def)
  show "case vad_call_step c h of Some (r, h') \<Rightarrow> r \<in> {- 1, 0, 1} \<and> vad_reach h'
     | None \<Rightarrow> (\<exists>fs frame n. c = Process fs frame n) \<and> (\<exists>self. h = Some self \<and> init_flag self = kInitCheck \<and> \<not> means_ok self)"
  proof (cases "vad_call_step c h")
    case None
    have "vad_call_step Init h \<noteq> None" using Init_handle [OF ok] by (cases h) simp_all
    moreover have "vad_call_step (Set_mode m) h \<noteq> None" for m using set_mode_total [OF ok, of m] by simp
    ultimately obtain fs frame n where c: "c = Process fs frame n" using None by (cases c) metis+
    then show ?thesis using None Process_None [OF ok] assms(2) by simp
  next
    case (Some p)
    then show ?thesis using call_handle [OF ok assms(2)] vad_reach.call [OF assms] by (cases p) simp
  qed
qed

theorem vad_reachable_invariant_witness:
  "case vad_call_step (Process 8000 (Some (replicate 80 500)) 80) (Some vad_initial) of
     Some (r, h') \<Rightarrow> r \<in> {- 1, 0, 1} \<and> vad_reach h' | None \<Rightarrow> False"
  using vad_reachable_invariant [OF reach_initial, of "Process 8000 (Some (replicate 80 500)) 80"] initial_ok
  by (auto split: option.splits)

text \<open>C11: The tracking of the smallest feature values.  \<open>WebRtcVad_FindMinimum\<close> keeps for a channel the 16
  smallest, in order, of the new value and the values that have not expired, filled up with 10000 (\<open>unexpired\<close>: a value expires at age 100, unless it
  has just moved into the place of another that did); these are a subsequence of the old values.  It leaves the other channels alone, and it
  moves the smoothed value towards the median without passing it.\<close>

theorem find_minimum_tracks:
  assumes "vad_inv self" "c < kNumChannels" "is_s16 v"
  shows "\<exists>m self'. WebRtcVad_FindMinimum self v c = Some (m, self') \<and>
    snd (channel_minima self' c) = take 16 (sort (v # unexpired (channel_minima self c))) \<and>
    padded (snd (channel_minima self c)) (unexpired (channel_minima self c)) \<and>
    (\<forall>c'<kNumChannels. c' \<noteq> c \<longrightarrow> channel_minima self' c' = channel_minima self c') \<and>
    mean_value self' = (mean_value self)[c := m] \<and>
    (let s = take 16 (sort (v # unexpired (channel_minima self c))); fc = frame_counter self;
         med = (if fc > 2 then s ! 2 else if fc > 0 then s ! 0 else 1600); old = mean_value self ! c
     in min old med \<le> m \<and> m \<le> max old med)"
proof -
  have c: "c < 6" using assms(2) by (simp add: kNumChannels_def)
  have sh: "vad_shape self" and mo: "minima_ok (channel_minima self c)" and ms: "list_all is_s16 (snd (channel_minima self c))"
    and l: "length (mean_value self) = 6" and mv: "list_all is_s16 (mean_value self)"
    using assms(1) c by (simp_all add: vad_inv_def vad_shape_def kNumChannels_def)
  obtain iv lv where f: "WebRtcVad_FindMinimum self v c =
      (let m = smooth_median (frame_counter self) (snd (update_minima v (channel_minima self c))) (mean_value self ! c)
       in Some (m, self\<lparr>index_vector := iv, low_value_vector := lv, mean_value := (mean_value self)[c := m]\<rparr>))"
    "length iv = 96" "length lv = 96"
    "\<And>x. channel_minima (self\<lparr>index_vector := iv, low_value_vector := lv, mean_value := x\<rparr>) c =
       update_minima v (channel_minima self c)"
    "\<And>c' x. c' < 6 \<Longrightarrow> c' \<noteq> c \<Longrightarrow>
       channel_minima (self\<lparr>index_vector := iv, low_value_vector := lv, mean_value := x\<rparr>) c' = channel_minima self c'"
    by (rule FindMinimum_ok [OF sh c mo, of v], rule that)
  define S where "S = take 16 (sort (v # unexpired (channel_minima self c)))"
  obtain age where age: "fold age_step [0..<16] (channel_minima self c) = (age, unexpired (channel_minima self c))"
    using age_loop_unexpired [OF mo] by (metis prod.collapse)
  have u: "snd (update_minima v (channel_minima self c)) = S" "padded (snd (channel_minima self c)) (unexpired (channel_minima self c))" "length S = 16"
    using update_minima_ok [OF mo age, of v] unfolding S_def [symmetric] minima_ok_def by metis+
  have s: "\<forall>x \<in> set S. is_s16 x"
    using update_minima_set [OF mo, of v] ms assms(3) unfolding u(1) by (fastforce simp: list_all_iff is_s16_def)
  have "is_s16 (mean_value self ! c)" using list_all_at [OF mv] c l by simp
  note b = smooth_median_between [OF this s u(3), of "frame_counter self"]
  let ?m = "smooth_median (frame_counter self) S (mean_value self ! c)"
  show ?thesis unfolding S_def [symmetric] Let_def kNumChannels_def
    by (rule exI [of _ ?m], rule exI [of _ "self\<lparr>index_vector := iv, low_value_vector := lv, mean_value := (mean_value self)[c := ?m]\<rparr>"])
      (use f(1) [unfolded Let_def u(1)] f(4,5) u b in simp)
qed

theorem find_minimum_tracks_witness:
  "\<exists>m self'. WebRtcVad_FindMinimum vad_initial 300 0 = Some (m, self') \<and>
     snd (channel_minima self' 0) = 300 # replicate 15 10000 \<and> m = 1600"
proof -
  have z: "0 < kNumChannels" "is_s16 300" by (simp_all add: kNumChannels_def is_s16_def)
  have a: "unexpired (channel_minima vad_initial 0) = replicate 16 10000"
    unfolding initial_minima [of 0, simplified] by code_simp
  have s: "take 16 (sort (300 # replicate 16 10000)) = 300 # replicate 15 (10000 :: int)" by code_simp
  have i: "frame_counter vad_initial = 0" "mean_value vad_initial ! 0 = 1600" by (simp_all add: vad_initial_def)
  show ?thesis
    using find_minimum_tracks [OF conjunct1 [OF initial_ok] z] unfolding Let_def a s i by auto
qed

text \<open>C22: The hangover ends.  On frames below the energy limit, \<open>GmmProbability\<close> always returns: it answers
  "speech" for as many frames as the hangover counter says, with the decisions \<open>2 + h\<close>, \<open>1 + h\<close>, ...,
  3 that count it down, and 0 on every later frame; as the counter is at most 14, the 15th such frame
  at the latest is decided as noise.\<close>

theorem vad_hangover_ends:
  assumes "vad_inv self" "\<forall>f \<in> set frames. fst (snd f) \<le> kMinEnergy"
  shows "\<exists>ds self'. gmm_decisions frames self = Some (ds, self') \<and> length ds = length frames \<and>
    over_hang self \<le> 14 \<and>
    (\<forall>i < length frames. ds ! i = (if int i < over_hang self then 2 + over_hang self - int i else 0)) \<and>
    over_hang self' = max 0 (over_hang self - int (length frames)) \<and> vad_inv self'"
  using gmm_decisions_silent [OF assms] assms(1) by (auto simp: vad_inv_def hang_ok_def)

theorem vad_hangover_ends_witness:
  "\<exists>ds self'. gmm_decisions (replicate 3 ([], 0, 80)) (vad_initial\<lparr>over_hang := 2\<rparr>) = Some (ds, self') \<and> ds ! 0 = 4 \<and> ds ! 1 = 3 \<and> ds ! 2 = 0"
proof -
  have i: "vad_inv (vad_initial\<lparr>over_hang := 2\<rparr>)"
    using initial_ok by (simp add: vad_inv_def vad_shape_def channel_minima_def hang_ok_def)
  have f: "\<forall>f \<in> set (replicate 3 ([] :: int list, 0 :: int, 80 :: nat)). fst (snd f) \<le> kMinEnergy" by (simp add: kMinEnergy_def)
  show ?thesis using vad_hangover_ends [OF i f] by (fastforce simp: vad_initial_def)
qed

text \<open>The frames the detector accepts.  \<open>WebRtcVad_ValidRateAndFrameLength\<close>, whose inner loop ends for
  every rate, is 0 exactly on the frames of 10, 20 and 30 ms at 8, 16, 32 and 48 kHz, and -1 on all
  other pairs.\<close>

theorem valid_rate_and_frame_length:
  "WebRtcVad_ValidRateAndFrameLength rate frame_length =
     (if rate \<in> {8000, 16000, 32000, 48000} \<and>
         int frame_length * 100 \<in> {rate, 2 * rate, 3 * rate} then 0 else - 1)"
proof -
  have "int frame_length \<in> {rate div 100, 2 * (rate div 100), 3 * (rate div 100)} \<longleftrightarrow> int frame_length * 100 \<in> {rate, 2 * rate, 3 * rate}"
    if "rate \<in> {8000, 16000, 32000, 48000}" using that by (elim insertE emptyE; simp; linarith)
  then show ?thesis by (auto simp: ValidRateAndFrameLength_eq)
qed

text \<open>C26: The bounds of the Gaussian probability.  For a standard deviation of at least 378 and a feature whose
  distance to the mean is at most 18000 (in Q7), every intermediate value of
  \<open>WebRtcVad_GaussianProbability\<close> fits its type and the shift is defined; the probability is non-negative and
  below \<open>2 ^ 20\<close>, its limit in Q20, so the products with the 7-bit weights fit in 32 bits.  Outside that range it need not be defined: for the smallest
  deviation the model update leaves (384), the largest feature value (2245) and a mean of -800, the
  16-bit product wraps and the code shifts by a negative amount.\<close>

theorem gaussian_probability_bounds:
  assumes "378 \<le> std" "std \<le> 32767" "\<bar>input * 8 - mean\<bar> \<le> 18000" "is_s16 (input * 8)" "0 \<le> w" "w \<le> 127"
  shows "(\<exists>p delta. WebRtcVad_GaussianProbability input mean std = Some (p, delta) \<and> 0 \<le> p \<and> p < 2 ^ 20 \<and>
      is_s16 delta \<and> is_s32 (w * p)) \<and>
    WebRtcVad_GaussianProbability 2245 (- 800) kMinStd = None"
proof -
  obtain p delta where p: "WebRtcVad_GaussianProbability input mean std = Some (p, delta)" "0 \<le> p" "p \<le> 347 * 2047" "is_s16 delta"
    using GaussianProbability_ok [OF assms(1-4)] by blast
  have "0 \<le> w * p" "w * p \<le> 127 * (347 * 2047)"
    using assms(5,6) p(2,3) by (simp, intro mult_mono) simp_all
  then have "is_s32 (w * p)" "p < 2 ^ 20" using p(3) by (simp_all add: is_s32_def)
  moreover have "WebRtcVad_GaussianProbability 2245 (- 800) kMinStd = None" by code_simp
  ultimately show ?thesis using p(1,2,4) by blast
qed

theorem gaussian_probability_bounds_witness:
  "\<exists>p delta. WebRtcVad_GaussianProbability 900 6738 378 = Some (p, delta) \<and> 0 \<le> p \<and> p < 2 ^ 20 \<and> is_s16 delta \<and> is_s32 (34 * p)"
  by (rule conjunct1 [OF gaussian_probability_bounds]) (simp_all add: is_s16_def)

text \<open>C25: The 48 kHz detector looks at the first 10 ms of a frame only.  Two frames that agree in their first
  480 samples get the same decision and leave the same instance, whatever follows in the other 10 or
  20 ms.\<close>

theorem vad_48khz_first_10ms:
  assumes "vad_inv self" "480 \<le> length frame" "480 \<le> length frame'" "take 480 frame = take 480 frame'"
  shows "WebRtcVad_Process (Some self) 48000 (Some frame) n = WebRtcVad_Process (Some self) 48000 (Some frame') n"
proof (cases "WebRtcVad_ValidRateAndFrameLength 48000 n = 0")
  case True
  then have "n = 1 * 480 \<or> n = 2 * 480 \<or> n = 3 * 480" by (auto simp: ValidRateAndFrameLength_eq split: if_splits)
  then obtain k where k: "k \<le> 3" "n = k * 480" by auto
  obtain st where st: "abs48To8 st = snd (stream48To8 (first_10ms k frame) (abs48To8 (state_48_to_8 self)))"
      "WebRtcVad_CalcVad48khz self frame n = WebRtcVad_CalcVad8khz (self\<lparr>state_48_to_8 := st\<rparr>)
         (fst (stream48To8 (first_10ms k frame) (abs48To8 (state_48_to_8 self))) @ replicate (240 - k * 80) 0) (k * 80)"
    using CalcVad48khz_eq [OF assms(1,2) k(1)] k(2) by metis
  obtain st' where st': "abs48To8 st' = snd (stream48To8 (first_10ms k frame) (abs48To8 (state_48_to_8 self)))"
      "WebRtcVad_CalcVad48khz self frame' n = WebRtcVad_CalcVad8khz (self\<lparr>state_48_to_8 := st'\<rparr>)
         (fst (stream48To8 (first_10ms k frame) (abs48To8 (state_48_to_8 self))) @ replicate (240 - k * 80) 0) (k * 80)"
    using CalcVad48khz_eq [OF assms(1,3) k(1)] k(2) unfolding assms(4) by metis
  have "st' = st" by (rule abs48To8_eqD) (simp only: st st')
  then have "WebRtcVad_CalcVad48khz self frame n = WebRtcVad_CalcVad48khz self frame' n" by (simp only: st(2) st'(2))
  then show ?thesis by (simp add: WebRtcVad_Process_def)
next
  case False
  then show ?thesis by (simp add: WebRtcVad_Process_def)
qed

theorem vad_48khz_first_10ms_witness:
  "WebRtcVad_Process (Some vad_initial) 48000 (Some (replicate 480 0 @ replicate 480 20000)) 960 =
   WebRtcVad_Process (Some vad_initial) 48000 (Some (replicate 960 0)) 960"
  by (rule vad_48khz_first_10ms) (simp_all add: initial_ok)

text \<open>C24: The features.  On a frame of at most 30 ms at 8 kHz, \<open>WebRtcVad_CalculateFeatures\<close> returns six
  features, each between 176 and 2245; the total energy is non-negative and at most 16393; and of the instance only the
  filter states change, with their lengths.\<close>

theorem vad_features_bounds:
  assumes "vad_shape self" "0 < n" "n \<le> 240" "n \<le> length frame"
  shows "\<exists>te fs us ls hs. WebRtcVad_CalculateFeatures self frame n =
      Some (te, fs, self\<lparr>upper_state := us, lower_state := ls, hp_filter_state := hs\<rparr>) \<and>
    length us = 5 \<and> length ls = 5 \<and> length hs = 4 \<and> length fs = kNumChannels \<and>
    list_all (\<lambda>f. 176 \<le> f \<and> f \<le> 2245) fs \<and> 0 \<le> te \<and> te \<le> 16393"
proof -
  obtain te fs us ls hs where "WebRtcVad_CalculateFeatures self frame n =
      Some (te, fs, self\<lparr>upper_state := us, lower_state := ls, hp_filter_state := hs\<rparr>)"
    "length us = 5" "length ls = 5" "length hs = 4" "length fs = 6" "\<forall>f \<in> set fs. 176 \<le> f \<and> f \<le> 2245" "0 \<le> te" "te \<le> 16393"
    by (rule CalculateFeatures_ok [OF assms])
  then show ?thesis by (auto simp: kNumChannels_def list_all_iff)
qed

theorem vad_features_bounds_witness:
  "\<exists>te fs s. WebRtcVad_CalculateFeatures vad_initial (replicate 80 1000) 80 = Some (te, fs, s) \<and>
     list_all (\<lambda>f. 176 \<le> f \<and> f \<le> 2245) fs"
proof -
  have "vad_shape vad_initial" using initial_ok by (simp add: vad_inv_def)
  then show ?thesis using vad_features_bounds [of vad_initial 80 "replicate 80 1000"] by auto
qed

text \<open>C27: The interface before and after initialisation.  \<open>WebRtcVad_Create\<close> on any allocated block, whatever its contents, returns
  an instance that is not initialised; on a failed allocation it writes through \<^verbatim>\<open>NULL\<close>.  On every instance that is not
  initialised, of whatever contents, and on \<^verbatim>\<open>NULL\<close>, \<open>WebRtcVad_set_mode\<close> and \<open>WebRtcVad_Process\<close> return -1 and change nothing, for all
  arguments.  \<open>WebRtcVad_Init\<close> turns every instance whose arrays have the lengths of the struct, whatever their contents, into the same initial one.  On an initialised instance \<open>WebRtcVad_set_mode\<close> succeeds for the
  modes 0 to 3, setting the thresholds of the mode and nothing else, and returns -1 without a change for any other mode, as does
  \<open>WebRtcVad_Process\<close> on a \<^verbatim>\<open>NULL\<close> frame and on a rate or length that is not valid.\<close>

theorem vad_errors:
  assumes "vad_shape self"
  shows "WebRtcVad_Create None = None \<and>
    (\<exists>new. WebRtcVad_Create (Some mem) = Some (Some new) \<and> init_flag new \<noteq> kInitCheck \<and> new\<lparr>init_flag := init_flag mem\<rparr> = mem) \<and>
    (\<forall>h. (case h of None \<Rightarrow> True | Some u \<Rightarrow> init_flag u \<noteq> kInitCheck) \<longrightarrow>
       WebRtcVad_set_mode h mode = Some (- 1, h) \<and> WebRtcVad_Process h fs frame n = Some (- 1, h)) \<and>
    WebRtcVad_Init None = Some (- 1, None) \<and>
    WebRtcVad_Init (Some self) = Some (0, Some vad_initial) \<and>
    (init_flag self = kInitCheck \<longrightarrow>
       WebRtcVad_set_mode (Some self) mode =
         (if 0 \<le> mode \<and> mode \<le> 3
          then Some (0, Some (self\<lparr>over_hang_max_1 := [[8, 4, 3], [8, 4, 3], [6, 3, 2], [6, 3, 2]] ! nat mode,
               over_hang_max_2 := [[14, 7, 5], [14, 7, 5], [9, 5, 3], [9, 5, 3]] ! nat mode,
               individual := [[24, 21, 24], [37, 32, 37], [82, 78, 82], [94, 94, 94]] ! nat mode,
               total := [[57, 48, 57], [100, 80, 100], [285, 260, 285], [1100, 1050, 1100]] ! nat mode\<rparr>))
          else Some (- 1, Some self)) \<and>
       WebRtcVad_Process (Some self) fs None n = Some (- 1, Some self) \<and>
       (WebRtcVad_ValidRateAndFrameLength fs n \<noteq> 0 \<longrightarrow> WebRtcVad_Process (Some self) fs frame n = Some (- 1, Some self)))"
proof -
  have m: "mode \<in> {0, 1, 2, 3} \<longleftrightarrow> 0 \<le> mode \<and> mode \<le> 3" by auto
  have "WebRtcVad_set_mode (Some self) mode = map_option (map_prod id Some) (WebRtcVad_set_mode_core self mode)" if "init_flag self = kInitCheck"
    using that by (simp add: WebRtcVad_set_mode_def)
  note e = this [unfolded set_mode_core_ok [OF assms] m]
  have u: "WebRtcVad_set_mode h mode = Some (- 1, h) \<and> WebRtcVad_Process h fs frame n = Some (- 1, h)"
    if "case h of None \<Rightarrow> True | Some u \<Rightarrow> init_flag u \<noteq> kInitCheck" for h
    using that by (cases h) (simp_all add: WebRtcVad_set_mode_def Process_error)
  have i: "WebRtcVad_Init None = Some (- 1, None)" "WebRtcVad_Init (Some self) = Some (0, Some vad_initial)"
    using Init_eq [OF assms] by (simp_all add: WebRtcVad_Init_def WebRtcVad_InitCore_def)
  show ?thesis using u i e by (auto simp: Process_error WebRtcVad_Create_def kInitCheck_def)
qed

theorem vad_errors_witness:
  "vad_shape vad_initial \<and>
   WebRtcVad_set_mode (Some (vad_initial\<lparr>init_flag := 17, over_hang := -7\<rparr>)) 2 = Some (- 1, Some (vad_initial\<lparr>init_flag := 17, over_hang := -7\<rparr>)) \<and>
   WebRtcVad_set_mode (Some vad_initial) 4 = Some (- 1, Some vad_initial) \<and>
   WebRtcVad_Process (Some vad_initial) 44100 (Some []) 441 = Some (- 1, Some vad_initial)"
proof -
  have s: "vad_shape vad_initial" using initial_ok by (simp add: vad_inv_def)
  have f: "init_flag vad_initial = kInitCheck" "WebRtcVad_ValidRateAndFrameLength 44100 441 \<noteq> 0"
    by (simp_all add: vad_initial_def ValidRateAndFrameLength_eq)
  have "init_flag (vad_initial\<lparr>init_flag := 17, over_hang := -7\<rparr>) \<noteq> kInitCheck" by (simp add: kInitCheck_def)
  then show ?thesis
    using vad_errors [OF s, where mode = 2] vad_errors [OF s, where mode = 4 and fs = 44100 and frame = "Some []" and n = 441] s f by simp
qed

end
