(* ===== verification/Circular.thy ===== *)
theory Circular
  imports Stream_Buffer
begin

text \<open>
  Blocks used as a circle.  Seen from a position \<open>p\<close>, the block \<open>b\<close> is the list \<open>rotate p b\<close>; a queue that
  starts at \<open>p\<close> and holds \<open>a\<close> bytes is its prefix of length \<open>a\<close>.  Both circular queues of the code copy in two
  parts, up to the end of the block and from its start.
\<close>

section \<open>Copies in two parts\<close>

lemma rotate_split: "p \<le> length b \<Longrightarrow> rotate p b = drop p b @ take p b"
  by (cases "p = length b") (simp_all add: rotate_drop_take)

lemma rotate_mod: "length b = N \<Longrightarrow> rotate (p mod N) b = rotate p b"
  using rotate_conv_mod [of p b] by metis

lemma two_part_write:
  assumes "length b = N" "p \<le> N" "m \<le> N" "m \<le> length xs" "t = min m (N - p)"
  obtains b1 b2 where "memcpy b p xs 0 t = Some b1" "memcpy b1 0 xs t (m - t) = Some b2" "length b2 = N"
    "rotate p b2 = take m xs @ drop m (rotate p b)"
proof -
  let ?b1 = "take p b @ take t xs @ drop (p + t) b"
  let ?b2 = "take (m - t) (drop t xs) @ drop (m - t) ?b1"
  have 1: "memcpy b p xs 0 t = Some ?b1" using assms by (simp add: memcpy_Some)
  have l1: "length ?b1 = N" using assms by simp
  have 2: "memcpy ?b1 0 xs t (m - t) = Some ?b2" using assms l1 by (subst memcpy_Some) simp_all
  have l2: "length ?b2 = N" using assms l1 by simp
  have "rotate p ?b2 = take m xs @ drop m (rotate p b)"
  proof (cases "m \<le> N - p")
    case True
    then have t: "t = m" using assms(5) by simp
    have "?b2 = take p b @ take m xs @ drop (p + m) b" by (simp add: t)
    then have "rotate p ?b2 = take m xs @ drop (p + m) b @ take p b"
      using assms True by (simp add: rotate_split)
    moreover have "drop m (rotate p b) = drop (p + m) b @ take p b"
      using assms True by (simp add: rotate_split add.commute)
    ultimately show ?thesis by simp
  next
    case False
    then have t: "t = N - p" using assms(5) by simp
    have pm: "m - t \<le> p" "t \<le> m" "t \<le> length xs" "p + t = N" "length b - p = t" using False assms t by simp_all
    have b1: "?b1 = take p b @ take t xs" using assms t by simp
    let ?A = "take (m - t) (drop t xs) @ drop (m - t) (take p b)"
    have lp: "length (take p b) = p" using assms(1,2) by simp
    have "?b2 = ?A @ take t xs" unfolding b1 using lp pm(1) by simp
    moreover have "length ?A = p" using lp pm(1,2) assms(4) by simp
    ultimately have "rotate p ?b2 = take t xs @ ?A" using rotate_append [of ?A "take t xs"] by simp
    moreover have "take m xs = take t xs @ take (m - t) (drop t xs)" using take_add [of t "m - t" xs] pm(2) by simp
    moreover have "drop m (rotate p b) = drop (m - t) (take p b)"
      using rotate_split [of p b] assms(1,2) pm(2,5) by simp
    ultimately show ?thesis by simp
  qed
  then show thesis using that 1 2 l2 by blast
qed

lemma two_part_read:
  assumes "length b = N" "p \<le> N" "m \<le> N" "m \<le> length dst" "t = min m (N - p)"
  obtains d1 where "memcpy dst 0 b p t = Some d1" "memcpy d1 t b 0 (m - t) = Some (take m (rotate p b) @ drop m dst)"
proof -
  let ?d1 = "take t (drop p b) @ drop t dst"
  have l: "length (take t (drop p b)) = t" using assms by simp
  have tm: "t \<le> m" using assms(5) by simp
  have 1: "memcpy dst 0 b p t = Some ?d1" using assms by (simp add: memcpy_Some)
  have "memcpy ?d1 t b 0 (m - t) = Some (take t (drop p b) @ take (m - t) b @ drop m dst)"
    using assms tm l by (subst memcpy_Some) simp_all
  moreover have "take m (rotate p b) = take t (drop p b) @ take (m - t) b"
    using assms tm by (auto simp: rotate_split min_def)
  ultimately show thesis using that 1 by simp
qed

text \<open>Writing behind the \<open>a\<close> bytes of the queue appends to it and leaves it as it was.\<close>

lemma rotate_write:
  assumes "length b = N" "length b' = N" "a + m \<le> N" "length xs = m"
    and "rotate (q + a) b' = xs @ drop m (rotate (q + a) b)"
  shows "take (a + m) (rotate q b') = take a (rotate q b) @ xs"
    and "drop (a + m) (rotate q b') = drop (a + m) (rotate q b)"
proof -
  let ?B = "rotate q b" and ?B' = "rotate q b'"
  have l: "length ?B = N" "length ?B' = N" using assms by simp_all
  have e: "rotate a ?B' = xs @ drop m (rotate a ?B)" using assms(5) by (simp add: rotate_rotate add.commute)
  have "rotate a ?B' = drop a ?B' @ take a ?B'" "rotate a ?B = drop a ?B @ take a ?B"
    using l assms(3) by (simp_all add: rotate_split)
  then have "drop a ?B' @ take a ?B' = (xs @ drop (a + m) ?B) @ take a ?B" using e l assms(3) by (simp add: add.commute)
  moreover have "length (drop a ?B') = length (xs @ drop (a + m) ?B)" using l assms(3,4) by simp
  ultimately have "drop a ?B' = xs @ drop (a + m) ?B \<and> take a ?B' = take a ?B"
    by (intro iffD1 [OF append_eq_append_conv [OF disjI1]])
  then have d: "drop a ?B' = xs @ drop (a + m) ?B" and t: "take a ?B' = take a ?B" by simp_all
  show "take (a + m) ?B' = take a ?B @ xs" unfolding take_add d t using assms(4) by simp
  have "drop (a + m) ?B' = drop m (drop a ?B')" by (simp add: add.commute)
  then show "drop (a + m) ?B' = drop (a + m) ?B" unfolding d using assms(4) by simp
qed

text \<open>Reading from the front moves the start.\<close>

lemma rotate_read:
  assumes "length b = N" "m \<le> a" "a \<le> N"
  shows "take (a - m) (rotate (q + m) b) = drop m (take a (rotate q b))"
proof -
  let ?B = "rotate q b"
  have "rotate (q + m) b = drop m ?B @ take m ?B"
    using assms by (subst add.commute) (simp add: rotate_rotate [symmetric] rotate_split)
  then show ?thesis using assms by (simp add: drop_take)
qed

end
