(* ===== verification/Fifo_Buffer.thy ===== *)
theory Fifo_Buffer
  imports Circular
begin

text \<open>
  The FIFO buffer of \<^verbatim>\<open>rtc_base/memory/fifo_buffer.cc\<close>, a byte queue in a circular block that tells its owner
  when it becomes readable or writable.  Every method holds the buffer's mutex, so that a
  concurrent use is a sequence of these operations.

  \<open>posted\<close> is the list of the events given to the owner's task queue.  A pointer into the block is an
  offset.  The contents of a block \<^verbatim>\<open>new\<close> returns is unspecified, a parameter.  A division by
  a capacity of 0 and an access outside a block are \<open>None\<close>.  The optional out-parameters are results; \<open>None\<close> is "not written".
\<close>

section \<open>The buffer and its operations\<close>

datatype StreamState = SS_CLOSED | SS_OPENING | SS_OPEN

datatype StreamResult = SR_ERROR | SR_SUCCESS | SR_BLOCK | SR_EOS

datatype StreamEvent = SE_OPEN | SE_READ | SE_WRITE | SE_CLOSE

record fifo_buffer =
  state :: StreamState
  buffer :: "byte list"
  buffer_length :: nat
  data_length :: nat
  read_position :: nat
  posted :: "StreamEvent list"

definition sz_mod :: "nat \<Rightarrow> nat \<Rightarrow> nat option" where
  "sz_mod a b = (if b = 0 then None else Some (a mod b))"

definition PostEvent :: "StreamEvent \<Rightarrow> fifo_buffer \<Rightarrow> fifo_buffer" where
  "PostEvent e fb = fb\<lparr>posted := posted fb @ [e]\<rparr>"

definition FifoBuffer :: "byte list \<Rightarrow> fifo_buffer" where
  "FifoBuffer mem = \<lparr>state = SS_OPEN, buffer = mem, buffer_length = length mem, data_length = 0, read_position = 0,
     posted = []\<rparr>"

definition GetBuffered :: "fifo_buffer \<Rightarrow> nat" where
  "GetBuffered fb = data_length fb"

definition SetCapacity :: "fifo_buffer \<Rightarrow> byte list \<Rightarrow> (bool \<times> fifo_buffer) option" where
  "SetCapacity fb mem =
     (let sz = length mem
      in if data_length fb > sz then Some (False, fb)
         else if sz \<noteq> buffer_length fb then do {
           let copy = data_length fb;
           let tail_copy = min copy (sz_sub (buffer_length fb) (read_position fb));
           mem \<leftarrow> memcpy mem 0 (buffer fb) (read_position fb) tail_copy;
           mem \<leftarrow> memcpy mem tail_copy (buffer fb) 0 (sz_sub copy tail_copy);
           Some (True, fb\<lparr>buffer := mem, read_position := 0, buffer_length := sz\<rparr>)
         }
         else Some (True, fb))"

definition ReadOffsetLocked :: "fifo_buffer \<Rightarrow> byte list \<Rightarrow> nat \<Rightarrow> nat \<Rightarrow> (StreamResult \<times> nat option \<times> byte list) option" where
  "ReadOffsetLocked fb p bytes offset =
     (if offset \<ge> data_length fb
      then Some (if state fb \<noteq> SS_CLOSED then SR_BLOCK else SR_EOS, None, p)
      else do {
        let available = sz_sub (data_length fb) offset;
        rp \<leftarrow> sz_mod (sz_add (read_position fb) offset) (buffer_length fb);
        let copy = min bytes available;
        let tail_copy = min copy (sz_sub (buffer_length fb) rp);
        p \<leftarrow> memcpy p 0 (buffer fb) rp tail_copy;
        p \<leftarrow> memcpy p tail_copy (buffer fb) 0 (sz_sub copy tail_copy);
        Some (SR_SUCCESS, Some copy, p)
      })"

definition WriteOffsetLocked :: "fifo_buffer \<Rightarrow> byte list \<Rightarrow> nat \<Rightarrow> nat \<Rightarrow> (StreamResult \<times> nat option \<times> fifo_buffer) option" where
  "WriteOffsetLocked fb p bytes offset =
     (if state fb = SS_CLOSED then Some (SR_EOS, None, fb)
      else if sz_add (data_length fb) offset \<ge> buffer_length fb then Some (SR_BLOCK, None, fb)
      else do {
        let available = sz_sub (sz_sub (buffer_length fb) (data_length fb)) offset;
        wp \<leftarrow> sz_mod (sz_add (sz_add (read_position fb) (data_length fb)) offset) (buffer_length fb);
        let copy = min bytes available;
        let tail_copy = min copy (sz_sub (buffer_length fb) wp);
        b \<leftarrow> memcpy (buffer fb) wp p 0 tail_copy;
        b \<leftarrow> memcpy b 0 p tail_copy (sz_sub copy tail_copy);
        Some (SR_SUCCESS, Some copy, fb\<lparr>buffer := b\<rparr>)
      })"

definition ReadOffset :: "fifo_buffer \<Rightarrow> byte list \<Rightarrow> nat \<Rightarrow> nat \<Rightarrow> (StreamResult \<times> nat option \<times> byte list) option" where
  "ReadOffset fb p bytes offset = ReadOffsetLocked fb p bytes offset"

definition WriteOffset :: "fifo_buffer \<Rightarrow> byte list \<Rightarrow> nat \<Rightarrow> nat \<Rightarrow> (StreamResult \<times> nat option \<times> fifo_buffer) option" where
  "WriteOffset fb p bytes offset = WriteOffsetLocked fb p bytes offset"

definition GetState :: "fifo_buffer \<Rightarrow> StreamState" where
  "GetState fb = state fb"

definition FifoBuffer_Read ::
    "fifo_buffer \<Rightarrow> byte list \<Rightarrow> nat \<Rightarrow> (StreamResult \<times> nat option \<times> byte list \<times> fifo_buffer) option" where
  "FifoBuffer_Read fb p bytes = do {
     let was_writable = data_length fb < buffer_length fb;
     (result, n, p) \<leftarrow> ReadOffsetLocked fb p bytes 0;
     let copy = case_option 0 id n;
     if result = SR_SUCCESS then do {
       rp \<leftarrow> sz_mod (sz_add (read_position fb) copy) (buffer_length fb);
       let fb = fb\<lparr>read_position := rp, data_length := sz_sub (data_length fb) copy\<rparr>;
       Some (result, Some copy, p, if \<not> was_writable \<and> copy > 0 then PostEvent SE_WRITE fb else fb)
     }
     else Some (result, None, p, fb)
   }"

definition FifoBuffer_Write ::
    "fifo_buffer \<Rightarrow> byte list \<Rightarrow> nat \<Rightarrow> (StreamResult \<times> nat option \<times> fifo_buffer) option" where
  "FifoBuffer_Write fb p bytes = do {
     let was_readable = data_length fb > 0;
     (result, n, fb) \<leftarrow> WriteOffsetLocked fb p bytes 0;
     let copy = case_option 0 id n;
     if result = SR_SUCCESS then do {
       let fb = fb\<lparr>data_length := sz_add (data_length fb) copy\<rparr>;
       Some (result, Some copy, if \<not> was_readable \<and> copy > 0 then PostEvent SE_READ fb else fb)
     }
     else Some (result, None, fb)
   }"

definition FifoBuffer_Close :: "fifo_buffer \<Rightarrow> fifo_buffer" where
  "FifoBuffer_Close fb = fb\<lparr>state := SS_CLOSED\<rparr>"

text \<open>The offset and the size of the region the caller may read.\<close>

definition GetReadData :: "fifo_buffer \<Rightarrow> nat \<times> nat" where
  "GetReadData fb =
     (read_position fb,
      if sz_add (read_position fb) (data_length fb) \<le> buffer_length fb then data_length fb
      else sz_sub (buffer_length fb) (read_position fb))"

definition ConsumeReadData :: "fifo_buffer \<Rightarrow> nat \<Rightarrow> fifo_buffer option" where
  "ConsumeReadData fb sz = do {
     let was_writable = data_length fb < buffer_length fb;
     rp \<leftarrow> sz_mod (sz_add (read_position fb) sz) (buffer_length fb);
     let fb = fb\<lparr>read_position := rp, data_length := sz_sub (data_length fb) sz\<rparr>;
     Some (if \<not> was_writable \<and> sz > 0 then PostEvent SE_WRITE fb else fb)
   }"

text \<open>The region the caller may write to, \<open>None\<close> inside for \<^verbatim>\<open>nullptr\<close>.\<close>

definition GetWriteBuffer :: "fifo_buffer \<Rightarrow> ((nat \<times> nat) option \<times> fifo_buffer) option" where
  "GetWriteBuffer fb =
     (if state fb = SS_CLOSED then Some (None, fb)
      else do {
        let fb = (if data_length fb = 0 then fb\<lparr>read_position := 0\<rparr> else fb);
        wp \<leftarrow> sz_mod (sz_add (read_position fb) (data_length fb)) (buffer_length fb);
        let sz = (if wp > read_position fb \<or> data_length fb = 0 then sz_sub (buffer_length fb) wp
                    else sz_sub (read_position fb) wp);
        Some (Some (wp, sz), fb)
      })"

definition ConsumeWriteBuffer :: "fifo_buffer \<Rightarrow> nat \<Rightarrow> fifo_buffer" where
  "ConsumeWriteBuffer fb sz =
     (let was_readable = data_length fb > 0;
          fb = fb\<lparr>data_length := sz_add (data_length fb) sz\<rparr>
      in if \<not> was_readable \<and> sz > 0 then PostEvent SE_READ fb else fb)"

definition GetWriteRemaining :: "fifo_buffer \<Rightarrow> nat" where
  "GetWriteRemaining fb = sz_sub (buffer_length fb) (data_length fb)"

section \<open>Invariant and contents\<close>

definition fifo_inv :: "fifo_buffer \<Rightarrow> bool" where
  "fifo_inv fb \<longleftrightarrow> length (buffer fb) = buffer_length fb \<and> buffer_length fb \<le> 4294967296 \<and>
     data_length fb \<le> buffer_length fb \<and>
     (read_position fb < buffer_length fb \<or> read_position fb = 0 \<and> buffer_length fb = 0)"

definition fifo_queued :: "fifo_buffer \<Rightarrow> byte list" where
  "fifo_queued fb = take (data_length fb) (rotate (read_position fb) (buffer fb))"

definition fifo_room :: "fifo_buffer \<Rightarrow> nat" where
  "fifo_room fb = (if state fb = SS_CLOSED then 0 else buffer_length fb - data_length fb)"

lemma fifo_sz:
  assumes "fifo_inv fb"
  shows "buffer_length fb < size_range" "data_length fb < size_range" "read_position fb + data_length fb < size_range"
    "sz_sub (buffer_length fb) (data_length fb) = buffer_length fb - data_length fb"
    "k \<le> buffer_length fb \<Longrightarrow> sz_sub (buffer_length fb) k = buffer_length fb - k"
    "k \<le> data_length fb \<Longrightarrow> sz_sub (data_length fb) k = data_length fb - k"
    "k \<le> buffer_length fb \<Longrightarrow> sz_add (read_position fb) k = read_position fb + k"
    "k \<le> buffer_length fb \<Longrightarrow> sz_add (data_length fb) k = data_length fb + k"
proof -
  have b: "buffer_length fb \<le> 4294967296" "data_length fb \<le> 4294967296" "read_position fb \<le> 4294967296"
    "read_position fb + data_length fb \<le> 1099511627776"
    using assms by (auto simp: fifo_inv_def)
  show r: "buffer_length fb < size_range" "data_length fb < size_range" using b by (simp_all add: size_range_gt)
  show "read_position fb + data_length fb < size_range" using b(4) by (rule size_range_gt40)
  show "sz_sub (buffer_length fb) (data_length fb) = buffer_length fb - data_length fb"
    using r assms by (intro sz_sub_id) (simp_all add: fifo_inv_def)
  show "k \<le> buffer_length fb \<Longrightarrow> sz_sub (buffer_length fb) k = buffer_length fb - k"
    "k \<le> data_length fb \<Longrightarrow> sz_sub (data_length fb) k = data_length fb - k"
    using r by (simp_all add: sz_sub_id)
  show "k \<le> buffer_length fb \<Longrightarrow> sz_add (read_position fb) k = read_position fb + k"
    "k \<le> buffer_length fb \<Longrightarrow> sz_add (data_length fb) k = data_length fb + k"
    using b by (auto intro!: sz_add_id size_range_gt40)
qed

lemma fifo_length: "fifo_inv fb \<Longrightarrow> length (fifo_queued fb) = data_length fb"
  by (simp add: fifo_inv_def fifo_queued_def)

lemma fifo_nonempty: "fifo_inv fb \<Longrightarrow> fifo_queued fb \<noteq> [] \<longleftrightarrow> 0 < data_length fb"
  using fifo_length [of fb] by (cases "fifo_queued fb") simp_all

section \<open>The operations on the contents\<close>

lemma ReadOffsetLocked_ok:
  assumes "fifo_inv fb" "offset < data_length fb" "k = min bytes (data_length fb - offset)" "k \<le> length p"
  shows "ReadOffsetLocked fb p bytes offset = Some (SR_SUCCESS, Some k, take k (drop offset (fifo_queued fb)) @ drop k p)"
proof -
  let ?N = "buffer_length fb"
  have i: "length (buffer fb) = ?N" "data_length fb \<le> ?N" using assms(1) by (simp_all add: fifo_inv_def)
  define rp where "rp = (read_position fb + offset) mod ?N"
  have N: "0 < ?N" "offset \<le> ?N" "rp < ?N" using assms(2) i by (simp_all add: rp_def)
  have kN: "k \<le> ?N" using assms(3) i by simp
  obtain d where d: "memcpy p 0 (buffer fb) rp (min k (?N - rp)) = Some d"
      "memcpy d (min k (?N - rp)) (buffer fb) 0 (k - min k (?N - rp)) = Some (take k (rotate rp (buffer fb)) @ drop k p)"
    by (rule two_part_read [OF i(1), of rp k p "min k (?N - rp)"]) (use N i kN assms(4) in simp_all)
  have "take (data_length fb - offset) (rotate (read_position fb + offset) (buffer fb)) = drop offset (fifo_queued fb)"
    unfolding fifo_queued_def by (rule rotate_read [OF i(1)]) (use assms(2) i in simp_all)
  then have "take k (drop offset (fifo_queued fb)) = take k (rotate rp (buffer fb))"
    using assms(3) rotate_mod [OF i(1)] by (metis rp_def take_take min.absorb_iff1 min.cobounded2)
  moreover have k: "k < size_range" using assms(3) fifo_sz(2) [OF assms(1)] by simp
  moreover have s: "sz_sub k (min k (?N - rp)) = k - min k (?N - rp)" "sz_sub (data_length fb) offset = data_length fb - offset"
    "sz_add (read_position fb) offset = read_position fb + offset" "sz_sub ?N rp = ?N - rp"
    using fifo_sz(5,6,7) [OF assms(1)] assms(2) N k by (simp_all add: sz_sub_id)
  ultimately show ?thesis
    unfolding ReadOffsetLocked_def Let_def s assms(3) [symmetric] using assms(2) N(1) d by (simp add: sz_mod_def rp_def [symmetric] s)
qed

lemma WriteOffsetLocked_ok:
  assumes "fifo_inv fb" "state fb \<noteq> SS_CLOSED" "data_length fb + offset < buffer_length fb"
    and "k = min bytes (buffer_length fb - data_length fb - offset)" "k \<le> length p"
  obtains b where "WriteOffsetLocked fb p bytes offset = Some (SR_SUCCESS, Some k, fb\<lparr>buffer := b\<rparr>)" "length b = buffer_length fb"
    "take (data_length fb + offset + k) (rotate (read_position fb) b) =
       take (data_length fb + offset) (rotate (read_position fb) (buffer fb)) @ take k p"
proof -
  let ?N = "buffer_length fb" and ?r = "read_position fb + (data_length fb + offset)"
  have i: "length (buffer fb) = ?N" "data_length fb \<le> ?N" using assms(1) by (simp_all add: fifo_inv_def)
  define wp where "wp = ?r mod ?N"
  have N: "0 < ?N" "wp < ?N" "k \<le> ?N" "data_length fb + offset + k \<le> ?N" using assms(3,4) by (auto simp: wp_def)
  obtain b1 b where b: "memcpy (buffer fb) wp p 0 (min k (?N - wp)) = Some b1"
      "memcpy b1 0 p (min k (?N - wp)) (k - min k (?N - wp)) = Some b" "length b = ?N"
      "rotate wp b = take k p @ drop k (rotate wp (buffer fb))"
    by (rule two_part_write [OF i(1), of wp k p "min k (?N - wp)"]) (use N assms(5) in simp_all)
  have "rotate ?r b = take k p @ drop k (rotate ?r (buffer fb))"
    using b(4) rotate_mod [OF i(1), of ?r] rotate_mod [OF b(3), of ?r] by (simp only: wp_def)
  then have q: "take (data_length fb + offset + k) (rotate (read_position fb) b) =
       take (data_length fb + offset) (rotate (read_position fb) (buffer fb)) @ take k p"
    by (intro rotate_write(1) [OF i(1) b(3) N(4)]) (use assms(5) in simp_all)
  have bl: "?N \<le> 4294967296" "read_position fb \<le> 4294967296" using assms(1) by (auto simp: fifo_inv_def)
  have s: "sz_add (data_length fb) offset = data_length fb + offset"
    "sz_add (sz_add (read_position fb) (data_length fb)) offset = ?r"
    "sz_sub (?N - data_length fb) offset = ?N - data_length fb - offset"
    "sz_sub k (min k (?N - wp)) = k - min k (?N - wp)"
    using bl assms(3) N by (auto simp: fifo_sz [OF assms(1)] i sz_add_id sz_sub_id size_range_gt size_range_gt40)
  have "WriteOffsetLocked fb p bytes offset = Some (SR_SUCCESS, Some k, fb\<lparr>buffer := b\<rparr>)"
    unfolding WriteOffsetLocked_def Let_def fifo_sz(4) [OF assms(1)] s assms(4) [symmetric]
    using assms(2,3) N(1) b(1,2) fifo_sz(5) [OF assms(1), of wp] N(2) by (simp add: sz_mod_def wp_def [symmetric] s)
  then show thesis using that b(3) q by blast
qed

lemma Read_ok:
  assumes "fifo_inv fb" "min n (data_length fb) \<le> length p" "fifo_queued fb \<noteq> []"
  defines "k \<equiv> min n (data_length fb)"
  obtains fb' where "FifoBuffer_Read fb p n = Some (SR_SUCCESS, Some k, take k (fifo_queued fb) @ drop k p, fb')"
    "fifo_inv fb'" "fifo_queued fb' = drop k (fifo_queued fb)" "state fb' = state fb" "buffer_length fb' = buffer_length fb"
    "posted fb' = posted fb @ (if fifo_queued fb' \<noteq> fifo_queued fb \<and> data_length fb = buffer_length fb then [SE_WRITE] else [])"
proof -
  have i: "length (buffer fb) = buffer_length fb" "data_length fb \<le> buffer_length fb" using assms(1) by (simp_all add: fifo_inv_def)
  have d: "0 < data_length fb" using assms(3) fifo_nonempty [OF assms(1)] by simp
  have r: "ReadOffsetLocked fb p n 0 = Some (SR_SUCCESS, Some k, take k (fifo_queued fb) @ drop k p)"
    using ReadOffsetLocked_ok [OF assms(1) d, of k n p] assms(2) by (simp add: k_def)
  have k: "k \<le> data_length fb" "k \<le> buffer_length fb" using i by (simp_all add: k_def)
  define fb1 where "fb1 = fb\<lparr>read_position := (read_position fb + k) mod buffer_length fb, data_length := data_length fb - k\<rparr>"
  define fb' where "fb' = (if \<not> data_length fb < buffer_length fb \<and> k > 0 then PostEvent SE_WRITE fb1 else fb1)"
  have "FifoBuffer_Read fb p n = Some (SR_SUCCESS, Some k, take k (fifo_queued fb) @ drop k p, fb')"
    using r k d i fifo_sz [OF assms(1)] by (simp add: FifoBuffer_Read_def sz_mod_def Let_def fb1_def fb'_def)
  moreover have "fifo_inv fb'" using assms(1) d i by (auto simp: fb'_def fb1_def fifo_inv_def PostEvent_def)
  moreover have q: "fifo_queued fb' = drop k (fifo_queued fb)"
    using rotate_read [OF i(1) k(1) i(2), of "read_position fb"] rotate_mod [OF i(1)]
    by (simp add: fb'_def fb1_def fifo_queued_def PostEvent_def)
  moreover have "state fb' = state fb" "buffer_length fb' = buffer_length fb" by (simp_all add: fb'_def fb1_def PostEvent_def)
  moreover have "fifo_queued fb' \<noteq> fifo_queued fb \<longleftrightarrow> k > 0"
  proof -
    have "length (fifo_queued fb') = data_length fb - k" "length (fifo_queued fb) = data_length fb"
      using q fifo_length [OF assms(1)] by simp_all
    then have "length (fifo_queued fb') \<noteq> length (fifo_queued fb)" if "k > 0" using that k(1) d by simp
    then show ?thesis using q by (cases "k = 0") (simp, metis gr0I)
  qed
  then have "posted fb' = posted fb @ (if fifo_queued fb' \<noteq> fifo_queued fb \<and> data_length fb = buffer_length fb then [SE_WRITE] else [])"
    using i by (auto simp: fb'_def fb1_def PostEvent_def)
  ultimately show thesis using that by blast
qed

lemma Read_empty:
  "fifo_inv fb \<Longrightarrow> fifo_queued fb = [] \<Longrightarrow>
     FifoBuffer_Read fb p n = Some (if state fb = SS_CLOSED then SR_EOS else SR_BLOCK, None, p, fb)"
  using fifo_length [of fb] by (simp add: FifoBuffer_Read_def ReadOffsetLocked_def)

lemma Write_ok:
  assumes "fifo_inv fb" "0 < fifo_room fb" "min n (fifo_room fb) \<le> length p"
  defines "k \<equiv> min n (fifo_room fb)"
  obtains fb' where "FifoBuffer_Write fb p n = Some (SR_SUCCESS, Some k, fb')"
    "fifo_inv fb'" "fifo_queued fb' = fifo_queued fb @ take k p" "state fb' = state fb" "buffer_length fb' = buffer_length fb"
    "posted fb' = posted fb @ (if fifo_queued fb = [] \<and> fifo_queued fb' \<noteq> [] then [SE_READ] else [])"
proof -
  have st: "state fb \<noteq> SS_CLOSED" "data_length fb < buffer_length fb" "fifo_room fb = buffer_length fb - data_length fb"
    using assms(2) by (auto simp: fifo_room_def split: if_splits)
  have w: "data_length fb + 0 < buffer_length fb" "k = min n (buffer_length fb - data_length fb - 0)" "k \<le> length p"
    using st assms(3) by (simp_all add: k_def)
  obtain b where b: "WriteOffsetLocked fb p n 0 = Some (SR_SUCCESS, Some k, fb\<lparr>buffer := b\<rparr>)" "length b = buffer_length fb"
      "take (data_length fb + 0 + k) (rotate (read_position fb) b) =
         take (data_length fb + 0) (rotate (read_position fb) (buffer fb)) @ take k p"
    by (rule WriteOffsetLocked_ok [OF assms(1) st(1) w])
  have k: "k \<le> buffer_length fb" "data_length fb + k \<le> buffer_length fb" using w(2) st(2) by auto
  define fb1 where "fb1 = fb\<lparr>buffer := b, data_length := data_length fb + k\<rparr>"
  define fb' where "fb' = (if data_length fb = 0 \<and> k > 0 then PostEvent SE_READ fb1 else fb1)"
  have "FifoBuffer_Write fb p n = Some (SR_SUCCESS, Some k, fb')"
    unfolding FifoBuffer_Write_def Let_def b(1) fb'_def fb1_def using fifo_sz(8) [OF assms(1) k(1)]
    by (cases "data_length fb = 0"; cases "k = 0") simp_all
  moreover have inv: "fifo_inv fb'" using assms(1) b(2) k by (auto simp: fb'_def fb1_def fifo_inv_def PostEvent_def)
  moreover have "fifo_queued fb' = fifo_queued fb @ take k p" using b(3)
    by (cases "data_length fb = 0") (simp_all add: fb'_def fb1_def fifo_queued_def PostEvent_def)
  moreover have "state fb' = state fb" "buffer_length fb' = buffer_length fb" by (simp_all add: fb'_def fb1_def PostEvent_def)
  moreover have "posted fb' = posted fb @ (if fifo_queued fb = [] \<and> fifo_queued fb' \<noteq> [] then [SE_READ] else [])"
  proof -
    show ?thesis using fifo_nonempty [OF assms(1)] fifo_nonempty [OF inv] by (auto simp: fb'_def fb1_def PostEvent_def)
  qed
  ultimately show thesis using that by blast
qed

lemma Write_full:
  "fifo_inv fb \<Longrightarrow> fifo_room fb = 0 \<Longrightarrow>
     FifoBuffer_Write fb p n = Some (if state fb = SS_CLOSED then SR_EOS else SR_BLOCK, None, fb)"
  using fifo_sz(8) [of fb 0] by (simp add: FifoBuffer_Write_def WriteOffsetLocked_def fifo_room_def fifo_inv_def split: if_splits)

section \<open>A bounded byte queue\<close>

definition fifo_put :: "fifo_buffer \<Rightarrow> byte list \<Rightarrow> nat \<Rightarrow> (nat \<times> fifo_buffer) option" where
  "fifo_put fb p n = do {
     (_, k, fb) \<leftarrow> FifoBuffer_Write fb p n;
     Some (case_option 0 id k, fb)
   }"

definition fifo_get :: "fifo_buffer \<Rightarrow> nat \<Rightarrow> (byte list \<times> fifo_buffer) option" where
  "fifo_get fb n = do {
     (_, k, p, fb) \<leftarrow> FifoBuffer_Read fb (replicate n 0) n;
     Some (take (case_option 0 id k) p, fb)
   }"

interpretation fifo: stream_buffer fifo_inv fifo_queued "\<lambda>_. 1" fifo_room fifo_put fifo_get
proof
  fix q n and xs :: "byte list"
  assume q: "fifo_inv q" and n: "n * 1 \<le> length xs"
  show "\<exists>q'. fifo_put q xs n = Some (min n (fifo_room q), q') \<and> fifo_inv q' \<and> 1 = (1 :: nat) \<and>
      fifo_queued q' = fifo_queued q @ take (min n (fifo_room q) * 1) xs"
  proof (cases "fifo_room q = 0")
    case True
    then show ?thesis using Write_full [OF q] q by (simp add: fifo_put_def)
  next
    case False
    then have r: "0 < fifo_room q" "min n (fifo_room q) \<le> length xs" using n by auto
    show ?thesis by (rule Write_ok [OF q r]) (simp add: fifo_put_def)
  qed
next
  fix q n
  assume q: "fifo_inv q"
  show "\<exists>q'. fifo_get q n = Some (take (n * 1) (fifo_queued q), q') \<and> fifo_inv q' \<and> 1 = (1 :: nat) \<and>
      fifo_queued q' = drop (n * 1) (fifo_queued q)"
  proof (cases "fifo_queued q = []")
    case True
    then show ?thesis using Read_empty [OF q] q by (simp add: fifo_get_def)
  next
    case False
    have l: "min n (data_length q) \<le> length (replicate n (0 :: byte))" by simp
    have t: "take (min n (data_length q)) (fifo_queued q) = take n (fifo_queued q)"
      "drop (min n (data_length q)) (fifo_queued q) = drop n (fifo_queued q)"
      using fifo_length [OF q] by (auto simp: min_def)
    show ?thesis by (rule Read_ok [OF q l False]) (use fifo_length [OF q] t in \<open>simp add: fifo_get_def\<close>)
  qed
qed

text \<open>Open buffers of capacity \<open>n\<close> are bounded queues.\<close>

definition fifo_sized :: "nat \<Rightarrow> fifo_buffer \<Rightarrow> bool" where
  "fifo_sized n fb \<longleftrightarrow> fifo_inv fb \<and> buffer_length fb = n \<and> state fb \<noteq> SS_CLOSED"

lemma fifo_put_keeps: "fifo_put fb xs n = Some (k, fb') \<Longrightarrow> buffer_length fb' = buffer_length fb \<and> state fb' = state fb"
  by (auto simp: fifo_put_def FifoBuffer_Write_def WriteOffsetLocked_def PostEvent_def Let_def bind_eq_Some_conv split: if_splits)

lemma fifo_get_keeps: "fifo_get fb n = Some (ys, fb') \<Longrightarrow> buffer_length fb' = buffer_length fb \<and> state fb' = state fb"
  by (auto simp: fifo_get_def FifoBuffer_Read_def PostEvent_def Let_def bind_eq_Some_conv split: if_splits)

interpretation fifoq: bounded_buffer "fifo_sized c" fifo_queued "\<lambda>_. 1" fifo_room fifo_put fifo_get c 1 for c
proof
  show "\<exists>q'. fifo_put q xs n = Some (min n (fifo_room q), q') \<and> fifo_sized c q' \<and> 1 = (1 :: nat) \<and>
      fifo_queued q' = fifo_queued q @ take (min n (fifo_room q) * 1) xs" if "fifo_sized c q" "n * 1 \<le> length xs" for q n xs
    using that fifo.put_law fifo_put_keeps unfolding fifo_sized_def by metis
  show "\<exists>q'. fifo_get q n = Some (take (n * 1) (fifo_queued q), q') \<and> fifo_sized c q' \<and> 1 = (1 :: nat) \<and>
      fifo_queued q' = drop (n * 1) (fifo_queued q)" if "fifo_sized c q" for q n
    using that fifo.get_law fifo_get_keeps unfolding fifo_sized_def by metis
  show "fifo_room q = c - length (fifo_queued q) div 1" if "fifo_sized c q" for q
    using that by (simp add: fifo_sized_def fifo_room_def fifo_length)
qed simp

section \<open>Access in place\<close>

lemma GetReadData_ok:
  assumes "fifo_inv fb" "GetReadData fb = (pos, n)"
  shows "n \<le> data_length fb" "pos + n \<le> buffer_length fb" "take n (drop pos (buffer fb)) = take n (fifo_queued fb)"
    "fifo_queued fb \<noteq> [] \<Longrightarrow> 0 < n"
proof -
  have i: "length (buffer fb) = buffer_length fb" "data_length fb \<le> buffer_length fb" "read_position fb \<le> buffer_length fb"
    using assms(1) by (auto simp: fifo_inv_def)
  have p: "pos = read_position fb" "n = min (data_length fb) (buffer_length fb - read_position fb)"
    using assms(2) i fifo_sz(5,7) [OF assms(1)] by (auto simp: GetReadData_def split: if_splits)
  show "n \<le> data_length fb" "pos + n \<le> buffer_length fb" using i p by auto
  show "take n (drop pos (buffer fb)) = take n (fifo_queued fb)" using i p by (simp add: fifo_queued_def rotate_split)
  show "fifo_queued fb \<noteq> [] \<Longrightarrow> 0 < n" using assms(1) p fifo_nonempty [OF assms(1)] by (auto simp: fifo_inv_def)
qed

lemma ConsumeReadData_ok:
  assumes "fifo_inv fb" "n \<le> data_length fb" "0 < buffer_length fb"
  obtains fb' where "ConsumeReadData fb n = Some fb'" "fifo_inv fb'" "fifo_queued fb' = drop n (fifo_queued fb)"
    "posted fb' = posted fb @ (if data_length fb = buffer_length fb \<and> 0 < n then [SE_WRITE] else [])"
proof -
  have i: "length (buffer fb) = buffer_length fb" "data_length fb \<le> buffer_length fb" "n \<le> buffer_length fb"
    using assms(1,2) by (auto simp: fifo_inv_def)
  define fb1 where "fb1 = fb\<lparr>read_position := (read_position fb + n) mod buffer_length fb, data_length := data_length fb - n\<rparr>"
  define fb' where "fb' = (if \<not> data_length fb < buffer_length fb \<and> n > 0 then PostEvent SE_WRITE fb1 else fb1)"
  have "ConsumeReadData fb n = Some fb'"
    using assms(2,3) i fifo_sz(6,7) [OF assms(1)] by (simp add: ConsumeReadData_def sz_mod_def Let_def fb1_def fb'_def)
  moreover have "fifo_inv fb'" using assms i by (auto simp: fb'_def fb1_def fifo_inv_def PostEvent_def)
  moreover have "fifo_queued fb' = drop n (fifo_queued fb)"
    using rotate_read [OF i(1) assms(2) i(2), of "read_position fb"] rotate_mod [OF i(1)]
    by (simp add: fb'_def fb1_def fifo_queued_def PostEvent_def)
  moreover have "posted fb' = posted fb @ (if data_length fb = buffer_length fb \<and> 0 < n then [SE_WRITE] else [])"
    using i by (auto simp: fb'_def fb1_def PostEvent_def)
  ultimately show thesis using that by blast
qed

text \<open>
  The region \<open>GetWriteBuffer\<close> returns is free and follows the contents: what the caller stores at its start
  and announces with \<open>ConsumeWriteBuffer\<close> is appended.
\<close>

lemma GetWriteBuffer_ok:
  assumes "fifo_inv fb" "state fb \<noteq> SS_CLOSED" "0 < buffer_length fb"
  obtains wp n fb1 where "GetWriteBuffer fb = Some (Some (wp, n), fb1)" "fifo_inv fb1" "fifo_queued fb1 = fifo_queued fb"
    "posted fb1 = posted fb" "buffer_length fb1 = buffer_length fb" "wp + n \<le> buffer_length fb" "n \<le> buffer_length fb - data_length fb"
    "data_length fb < buffer_length fb \<Longrightarrow> 0 < n"
    "\<And>xs b. length xs \<le> n \<Longrightarrow> memcpy (buffer fb1) wp xs 0 (length xs) = Some b \<Longrightarrow>
       fifo_inv (ConsumeWriteBuffer (fb1\<lparr>buffer := b\<rparr>) (length xs)) \<and>
       fifo_queued (ConsumeWriteBuffer (fb1\<lparr>buffer := b\<rparr>) (length xs)) = fifo_queued fb @ xs"
proof -
  define fb1 where "fb1 = (if data_length fb = 0 then fb\<lparr>read_position := 0\<rparr> else fb)"
  let ?N = "buffer_length fb" and ?d = "data_length fb"
  have f: "buffer fb1 = buffer fb" "buffer_length fb1 = ?N" "data_length fb1 = ?d" "posted fb1 = posted fb" "state fb1 = state fb"
    by (simp_all add: fb1_def)
  have inv: "fifo_inv fb1" using assms by (auto simp: fb1_def fifo_inv_def)
  have q: "fifo_queued fb1 = fifo_queued fb" by (simp add: fb1_def fifo_queued_def)
  have i: "length (buffer fb) = ?N" "?d \<le> ?N" "read_position fb1 < ?N" using inv f assms(3) by (auto simp: fifo_inv_def)
  define wp where "wp = (read_position fb1 + ?d) mod ?N"
  define n where "n = (if wp > read_position fb1 \<or> ?d = 0 then ?N - wp else read_position fb1 - wp)"
  have wp: "wp < ?N" using assms(3) by (simp add: wp_def)
  have wpc: "wp = (if read_position fb1 + ?d < ?N then read_position fb1 + ?d else read_position fb1 + ?d - ?N)"
    using i by (simp add: wp_def mod_if le_mod_geq)
  have z: "?d = 0 \<Longrightarrow> read_position fb1 = 0" by (simp add: fb1_def)
  have n: "n \<le> ?N - ?d" "wp + n \<le> ?N" "?d < ?N \<Longrightarrow> 0 < n" using i wp wpc z by (auto simp: n_def split: if_splits)
  have "wp \<le> read_position fb1 \<Longrightarrow> sz_sub (read_position fb1) wp = read_position fb1 - wp"
    using i(3) fifo_sz(1) [OF assms(1)] by (simp add: sz_sub_id)
  then have "GetWriteBuffer fb = Some (Some (wp, n), fb1)"
    using assms(2,3) fifo_sz(5,7) [OF inv] i wp f
    by (auto simp: GetWriteBuffer_def fb1_def [symmetric] sz_mod_def Let_def wp_def [symmetric] n_def sz_sub_id fifo_sz(1) [OF assms(1)])
  moreover have "fifo_inv (ConsumeWriteBuffer (fb1\<lparr>buffer := b\<rparr>) (length xs)) \<and>
      fifo_queued (ConsumeWriteBuffer (fb1\<lparr>buffer := b\<rparr>) (length xs)) = fifo_queued fb @ xs"
    if xs: "length xs \<le> n" "memcpy (buffer fb1) wp xs 0 (length xs) = Some b" for xs b
  proof -
    let ?m = "length xs"
    obtain b1 b2 where b: "memcpy (buffer fb) wp xs 0 ?m = Some b1" "memcpy b1 0 xs ?m (?m - ?m) = Some b2" "length b2 = ?N"
        "rotate wp b2 = take ?m xs @ drop ?m (rotate wp (buffer fb))"
      by (rule two_part_write [OF i(1), of wp ?m xs ?m]) (use wp n xs in simp_all)
    have e: "b2 = b" using b(1,2) xs(2) f(1) by (simp add: memcpy_def)
    let ?r = "read_position fb1 + ?d"
    have "rotate ?r b = xs @ drop ?m (rotate ?r (buffer fb))"
      using b(3,4) rotate_mod [OF i(1), of ?r] rotate_mod [OF b(3), of ?r] by (simp add: wp_def e)
    then have "take (?d + ?m) (rotate (read_position fb1) b) = take ?d (rotate (read_position fb1) (buffer fb)) @ xs"
      by (intro rotate_write(1) [OF i(1) b(3) [unfolded e]]) (use xs(1) n(1) i(2) in simp_all)
    moreover have "sz_add ?d ?m = ?d + ?m" using fifo_sz(8) [OF inv, of ?m] xs(1) n(1) by (simp add: f)
    moreover have "?d + ?m \<le> ?N" using xs(1) n(1) i(2) by simp
    ultimately show ?thesis using inv q b(3) e f
      by (auto simp: ConsumeWriteBuffer_def Let_def PostEvent_def fifo_inv_def fifo_queued_def)
  qed
  ultimately show thesis using that inv q n f(2,4) by blast
qed

lemma SetCapacity_ok:
  assumes "fifo_inv fb" "length mem \<le> 4294967296"
  shows "\<exists>ok fb'. SetCapacity fb mem = Some (ok, fb') \<and> ok = (data_length fb \<le> length mem) \<and> fifo_inv fb' \<and>
    fifo_queued fb' = fifo_queued fb \<and> posted fb' = posted fb \<and> (ok \<longrightarrow> buffer_length fb' = length mem) \<and> (\<not> ok \<longrightarrow> fb' = fb)"
proof (cases "data_length fb > length mem \<or> length mem = buffer_length fb")
  case True
  then show ?thesis using assms(1) by (auto simp: SetCapacity_def Let_def fifo_inv_def)
next
  case False
  let ?d = "data_length fb" and ?r = "read_position fb"
  have i: "length (buffer fb) = buffer_length fb" "?r \<le> buffer_length fb" "?d \<le> buffer_length fb"
    using assms(1) by (auto simp: fifo_inv_def)
  obtain m1 where m: "memcpy mem 0 (buffer fb) ?r (min ?d (buffer_length fb - ?r)) = Some m1"
      "memcpy m1 (min ?d (buffer_length fb - ?r)) (buffer fb) 0 (?d - min ?d (buffer_length fb - ?r)) =
         Some (take ?d (rotate ?r (buffer fb)) @ drop ?d mem)"
    by (rule two_part_read [OF i, of mem]) (use False in simp_all)
  let ?fb = "fb\<lparr>buffer := take ?d (rotate ?r (buffer fb)) @ drop ?d mem, read_position := 0, buffer_length := length mem\<rparr>"
  have "SetCapacity fb mem = Some (True, ?fb)"
    using False m i fifo_sz(5) [OF assms(1), of ?r] fifo_sz(6) [OF assms(1), of "min ?d (buffer_length fb - ?r)"]
    by (simp add: SetCapacity_def Let_def)
  moreover have "fifo_inv ?fb" "fifo_queued ?fb = fifo_queued fb" using i False assms(2) by (auto simp: fifo_inv_def fifo_queued_def)
  ultimately show ?thesis using False by auto
qed

lemma fifo_fresh: "length mem \<le> 4294967296 \<Longrightarrow> fifo_inv (FifoBuffer mem) \<and> fifo_queued (FifoBuffer mem) = []"
  by (cases mem) (simp_all add: FifoBuffer_def fifo_inv_def fifo_queued_def)

section \<open>Properties\<close>

text \<open>C8: The FIFO buffer is a bounded byte queue.  Over any sequence of \<open>FifoBuffer_Write\<close> and \<open>FifoBuffer_Read\<close> calls on a
  well-formed buffer, open or closed, no copy leaves its block and no division is by zero; the
  bytes read, followed by the bytes still queued, are the bytes queued at the start followed by those the writes accepted.\<close>

theorem fifo_buffer_stream:
  assumes "fifo_inv fb" "list_all (op_ok 1) ops"
  shows "\<exists>acc out fb'. run_ops (\<lambda>_. 1) fifo_put fifo_get fb ops = Some (acc, out, fb') \<and> fifo_inv fb' \<and>
    fifo_queued fb @ acc = out @ fifo_queued fb'"
  using assms by (rule fifo.run_conserves)

theorem fifo_buffer_stream_witness:
  "\<exists>acc out fb'. run_ops (\<lambda>_. 1) fifo_put fifo_get (FifoBuffer [0, 0, 0]) [Put [1, 2] 2, Get 1, Put [3, 4, 5] 3, Get 2] =
       Some (acc, out, fb') \<and> acc = out @ fifo_queued fb'"
  using fifo_buffer_stream [of "FifoBuffer [0, 0, 0]" "[Put [1, 2] 2, Get 1, Put [3, 4, 5] 3, Get 2]"] fifo_fresh [of "[0, 0, 0]"]
  by (simp del: run_ops.simps) blast

text \<open>C17: No wake-up is lost.  \<open>FifoBuffer_Write\<close> posts a read event exactly when the buffer goes from empty to not
  empty, and \<open>FifoBuffer_Read\<close> posts a write event exactly when it goes from full to not full; otherwise they post nothing.  Both
  always return: success with what was moved, "block" when nothing can be moved, and "end of stream" for that on a
  closed buffer.\<close>

theorem fifo_events:
  assumes "fifo_inv fb" "n \<le> length p"
  shows "(\<exists>r k fb'. FifoBuffer_Write fb p n = Some (r, k, fb') \<and>
      r = (if state fb = SS_CLOSED then SR_EOS else if fifo_room fb = 0 then SR_BLOCK else SR_SUCCESS) \<and>
      k = (if r = SR_SUCCESS then Some (min n (fifo_room fb)) else None) \<and>
      posted fb' = posted fb @ (if fifo_queued fb = [] \<and> fifo_queued fb' \<noteq> [] then [SE_READ] else [])) \<and>
    (\<exists>r k p' fb'. FifoBuffer_Read fb p n = Some (r, k, p', fb') \<and>
      r = (if fifo_queued fb \<noteq> [] then SR_SUCCESS else if state fb = SS_CLOSED then SR_EOS else SR_BLOCK) \<and>
      k = (if r = SR_SUCCESS then Some (min n (data_length fb)) else None) \<and>
      posted fb' = posted fb @ (if length (fifo_queued fb) = buffer_length fb \<and> length (fifo_queued fb') < buffer_length fb'
        then [SE_WRITE] else []))"
proof (rule conjI)
  show "\<exists>r k fb'. FifoBuffer_Write fb p n = Some (r, k, fb') \<and>
      r = (if state fb = SS_CLOSED then SR_EOS else if fifo_room fb = 0 then SR_BLOCK else SR_SUCCESS) \<and>
      k = (if r = SR_SUCCESS then Some (min n (fifo_room fb)) else None) \<and>
      posted fb' = posted fb @ (if fifo_queued fb = [] \<and> fifo_queued fb' \<noteq> [] then [SE_READ] else [])"
  proof (cases "fifo_room fb = 0")
    case True
    then show ?thesis using Write_full [OF assms(1) True, of p n] by simp
  next
    case False
    then have r: "0 < fifo_room fb" "min n (fifo_room fb) \<le> length p" "state fb \<noteq> SS_CLOSED"
      using assms(2) by (auto simp: fifo_room_def)
    show ?thesis by (rule Write_ok [OF assms(1) r(1,2)]) (use r in simp)
  qed
  show "\<exists>r k p' fb'. FifoBuffer_Read fb p n = Some (r, k, p', fb') \<and>
      r = (if fifo_queued fb \<noteq> [] then SR_SUCCESS else if state fb = SS_CLOSED then SR_EOS else SR_BLOCK) \<and>
      k = (if r = SR_SUCCESS then Some (min n (data_length fb)) else None) \<and>
      posted fb' = posted fb @ (if length (fifo_queued fb) = buffer_length fb \<and> length (fifo_queued fb') < buffer_length fb'
        then [SE_WRITE] else [])"
  proof (cases "fifo_queued fb = []")
    case True
    then show ?thesis using Read_empty [OF assms(1) True, of p n] by auto
  next
    case False
    have l: "min n (data_length fb) \<le> length p" using assms(2) by simp
    have d: "length (fifo_queued fb) = data_length fb" "0 < data_length fb" "data_length fb \<le> buffer_length fb"
      using fifo_length [OF assms(1)] fifo_nonempty [OF assms(1)] False assms(1) by (simp_all add: fifo_inv_def)
    obtain fb' where r: "FifoBuffer_Read fb p n = Some (SR_SUCCESS, Some (min n (data_length fb)),
          take (min n (data_length fb)) (fifo_queued fb) @ drop (min n (data_length fb)) p, fb')"
        "fifo_queued fb' = drop (min n (data_length fb)) (fifo_queued fb)" "buffer_length fb' = buffer_length fb"
        "posted fb' = posted fb @ (if fifo_queued fb' \<noteq> fifo_queued fb \<and> data_length fb = buffer_length fb then [SE_WRITE] else [])"
      by (rule Read_ok [OF assms(1) l False])
    have "length (fifo_queued fb') = data_length fb - min n (data_length fb)" using r(2) d(1) by simp
    then have "n \<noteq> 0 \<Longrightarrow> length (fifo_queued fb') < length (fifo_queued fb)" using d by simp
    then have "fifo_queued fb' \<noteq> fifo_queued fb \<longleftrightarrow> length (fifo_queued fb') < length (fifo_queued fb)"
      using r(2) by (cases "n = 0") (simp, metis less_irrefl)
    then show ?thesis using r d False by auto
  qed
qed

theorem fifo_events_witness:
  "\<exists>r k fb'. FifoBuffer_Write (FifoBuffer [0, 0]) [1, 2, 3] 3 = Some (r, k, fb') \<and> r = SR_SUCCESS \<and> k = Some 2 \<and>
     posted fb' = (if fifo_queued fb' \<noteq> [] then [SE_READ] else [])"
proof -
  have i: "fifo_inv (FifoBuffer [0, 0])" "fifo_queued (FifoBuffer [0, 0]) = []" using fifo_fresh [of "[0, 0]"] by simp_all
  have f: "state (FifoBuffer [0, 0]) = SS_OPEN" "fifo_room (FifoBuffer [0, 0]) = 2" "posted (FifoBuffer [0, 0]) = []"
    by (simp_all add: FifoBuffer_def fifo_room_def)
  show ?thesis using fifo_events [OF i(1), of 3 "[1, 2, 3]"] unfolding i(2) f by auto
qed

text \<open>C19: Access in place.  The region \<open>GetReadData\<close> returns lies in the block and holds the front of the queue, and is
  not empty unless the queue is; \<open>ConsumeReadData\<close> removes as many bytes as it is told.  On an open buffer \<open>GetWriteBuffer\<close>
  returns a free region, not empty unless the buffer is full; bytes stored at its start and announced to
  \<open>ConsumeWriteBuffer\<close> are appended to the queue.  \<open>SetCapacity\<close> keeps the queue and fails exactly when it would not fit.\<close>

theorem fifo_in_place:
  assumes "fifo_inv fb" "state fb \<noteq> SS_CLOSED" "0 < buffer_length fb" "length mem \<le> 4294967296" "n \<le> data_length fb"
  shows "(case GetReadData fb of (pos, sz) \<Rightarrow> pos + sz \<le> buffer_length fb \<and>
        take sz (drop pos (buffer fb)) = take sz (fifo_queued fb) \<and> (fifo_queued fb \<noteq> [] \<longrightarrow> 0 < sz)) \<and>
    (\<exists>fb'. ConsumeReadData fb n = Some fb' \<and> fifo_inv fb' \<and> fifo_queued fb' = drop n (fifo_queued fb)) \<and>
    (\<exists>pos sz fb1. GetWriteBuffer fb = Some (Some (pos, sz), fb1) \<and> pos + sz \<le> buffer_length fb \<and>
        (data_length fb < buffer_length fb \<longrightarrow> 0 < sz) \<and>
        (\<forall>xs. length xs \<le> sz \<longrightarrow> (\<exists>b. memcpy (buffer fb1) pos xs 0 (length xs) = Some b \<and>
           fifo_inv (ConsumeWriteBuffer (fb1\<lparr>buffer := b\<rparr>) (length xs)) \<and>
           fifo_queued (ConsumeWriteBuffer (fb1\<lparr>buffer := b\<rparr>) (length xs)) = fifo_queued fb @ xs))) \<and>
    (\<exists>fb'. SetCapacity fb mem = Some (data_length fb \<le> length mem, fb') \<and> fifo_inv fb' \<and> fifo_queued fb' = fifo_queued fb)"
proof -
  obtain rp rn where g: "GetReadData fb = (rp, rn)" by fastforce
  obtain fb' where c: "ConsumeReadData fb n = Some fb'" "fifo_inv fb'" "fifo_queued fb' = drop n (fifo_queued fb)"
    by (rule ConsumeReadData_ok [OF assms(1,5,3)])
  obtain wp wn fb1 where w: "GetWriteBuffer fb = Some (Some (wp, wn), fb1)" "fifo_inv fb1" "wp + wn \<le> buffer_length fb"
      "data_length fb < buffer_length fb \<Longrightarrow> 0 < wn" "buffer_length fb1 = buffer_length fb"
      "\<And>xs b. length xs \<le> wn \<Longrightarrow> memcpy (buffer fb1) wp xs 0 (length xs) = Some b \<Longrightarrow>
         fifo_inv (ConsumeWriteBuffer (fb1\<lparr>buffer := b\<rparr>) (length xs)) \<and>
         fifo_queued (ConsumeWriteBuffer (fb1\<lparr>buffer := b\<rparr>) (length xs)) = fifo_queued fb @ xs"
    by (rule GetWriteBuffer_ok [OF assms(1-3)], rule that)
  have "\<exists>b. memcpy (buffer fb1) wp xs 0 (length xs) = Some b" if "length xs \<le> wn" for xs
    using that w(2,3,5) by (simp add: memcpy_def fifo_inv_def)
  then have "\<forall>xs. length xs \<le> wn \<longrightarrow> (\<exists>b. memcpy (buffer fb1) wp xs 0 (length xs) = Some b \<and>
      fifo_inv (ConsumeWriteBuffer (fb1\<lparr>buffer := b\<rparr>) (length xs)) \<and>
      fifo_queued (ConsumeWriteBuffer (fb1\<lparr>buffer := b\<rparr>) (length xs)) = fifo_queued fb @ xs)"
    using w(6) by blast
  then show ?thesis using g GetReadData_ok [OF assms(1) g] c w(1,3,4) SetCapacity_ok [OF assms(1,4)] by auto
qed

theorem fifo_in_place_witness:
  "\<exists>pos sz fb1. GetWriteBuffer (FifoBuffer [0, 0, 0]) = Some (Some (pos, sz), fb1) \<and> 0 < sz"
proof -
  have i: "fifo_inv (FifoBuffer [0, 0, 0])" "state (FifoBuffer [0, 0, 0]) \<noteq> SS_CLOSED" "0 < buffer_length (FifoBuffer [0, 0, 0])"
    "length ([] :: byte list) \<le> 4294967296" "0 \<le> data_length (FifoBuffer [0, 0, 0])"
    "data_length (FifoBuffer [0, 0, 0]) < buffer_length (FifoBuffer [0, 0, 0])"
    using fifo_fresh [of "[0, 0, 0]"] by (simp_all add: FifoBuffer_def)
  show ?thesis using fifo_in_place [OF i(1-5)] i(6) by blast
qed

text \<open>
  Two boundary cases the code does not guard.  A buffer of capacity 0, which the constructor and \<open>SetCapacity\<close> accept, divides by
  zero in \<open>GetWriteBuffer\<close> and \<open>ConsumeReadData\<close>.  The check of \<open>WriteOffset\<close> wraps around: with one byte queued an offset of
  \<open>2 ^ 64 - 1\<close> is accepted and overwrites the queued byte.
\<close>

lemma fifo_zero_capacity: "GetWriteBuffer (FifoBuffer []) = None" "ConsumeReadData (FifoBuffer []) 0 = None"
  by (simp_all add: GetWriteBuffer_def ConsumeReadData_def FifoBuffer_def sz_mod_def Let_def)

lemma fifo_offset_wraps:
  "let fb = (FifoBuffer [7, 0])\<lparr>data_length := 1\<rparr>
   in fifo_inv fb \<and> fifo_queued fb = [7] \<and>
      (\<exists>fb'. WriteOffset fb [9] 1 (2 ^ 64 - 1) = Some (SR_SUCCESS, Some 1, fb') \<and> fifo_queued fb' = [9])"
  by (simp add: FifoBuffer_def fifo_inv_def fifo_queued_def WriteOffset_def WriteOffsetLocked_def sz_add_def sz_sub_def sz_mod_def
      size_range_def memcpy_def Let_def)

end
