(* ===== verification/Pa_Ring_Buffer.thy ===== *)
theory Pa_Ring_Buffer
  imports Circular
begin

unbundle bit_operations_syntax

text \<open>
  The lock-free ring buffer of \<^verbatim>\<open>modules/third_party/portaudio/pa_ringbuffer.c\<close>, for one writing and one
  reading thread.  Indices run modulo twice the capacity, a power of two, so that full and empty differ.

  \<^verbatim>\<open>PaRingBufferSize\<close> is taken at its narrowest, 32 bits.  A pointer into the buffer is a byte offset.  The
  barriers order a thread's copies before its index update; the threads' steps are interleaved in that order.
\<close>

section \<open>The buffer and its operations\<close>

record PaUtilRingBuffer =
  bufferSize :: int
  writeIndex :: int
  readIndex :: int
  bigMask :: int
  smallMask :: int
  elementSizeBytes :: int
  buffer :: "byte list"

definition PaUtil_FlushRingBuffer :: "PaUtilRingBuffer \<Rightarrow> PaUtilRingBuffer" where
  "PaUtil_FlushRingBuffer rbuf = rbuf\<lparr>writeIndex := 0, readIndex := 0\<rparr>"

definition PaUtil_InitializeRingBuffer ::
    "PaUtilRingBuffer \<Rightarrow> int \<Rightarrow> int \<Rightarrow> byte list \<Rightarrow> int \<times> PaUtilRingBuffer" where
  "PaUtil_InitializeRingBuffer rbuf elementSize elementCount dataPtr =
     (if s32 (elementCount - 1) AND elementCount \<noteq> 0 then (- 1, rbuf)
      else let rbuf = rbuf\<lparr>bufferSize := elementCount, buffer := dataPtr\<rparr>;
               rbuf = PaUtil_FlushRingBuffer rbuf
           in (0, rbuf\<lparr>bigMask := s32 (s32 (elementCount * 2) - 1), smallMask := s32 (elementCount - 1),
                 elementSizeBytes := elementSize\<rparr>))"

definition PaUtil_GetRingBufferReadAvailable :: "PaUtilRingBuffer \<Rightarrow> int" where
  "PaUtil_GetRingBufferReadAvailable rbuf = s32 (writeIndex rbuf - readIndex rbuf) AND bigMask rbuf"

definition PaUtil_GetRingBufferWriteAvailable :: "PaUtilRingBuffer \<Rightarrow> int" where
  "PaUtil_GetRingBufferWriteAvailable rbuf = s32 (bufferSize rbuf - PaUtil_GetRingBufferReadAvailable rbuf)"

text \<open>The one or two regions a call hands out: number of elements, offset and size of each.\<close>

record regions =
  count :: int
  dataPtr1 :: int
  sizePtr1 :: int
  dataPtr2 :: "int option"
  sizePtr2 :: int

definition PaUtil_GetRingBufferWriteRegions :: "PaUtilRingBuffer \<Rightarrow> int \<Rightarrow> regions" where
  "PaUtil_GetRingBufferWriteRegions rbuf elementCount =
     (let available = PaUtil_GetRingBufferWriteAvailable rbuf;
          elementCount = (if elementCount > available then available else elementCount);
          index = writeIndex rbuf AND smallMask rbuf
      in if s32 (index + elementCount) > bufferSize rbuf
         then let firstHalf = s32 (bufferSize rbuf - index)
              in \<lparr>count = elementCount, dataPtr1 = s32 (index * elementSizeBytes rbuf), sizePtr1 = firstHalf,
                  dataPtr2 = Some 0, sizePtr2 = s32 (elementCount - firstHalf)\<rparr>
         else \<lparr>count = elementCount, dataPtr1 = s32 (index * elementSizeBytes rbuf), sizePtr1 = elementCount,
               dataPtr2 = None, sizePtr2 = 0\<rparr>)"

definition PaUtil_AdvanceRingBufferWriteIndex :: "PaUtilRingBuffer \<Rightarrow> int \<Rightarrow> PaUtilRingBuffer" where
  "PaUtil_AdvanceRingBufferWriteIndex rbuf elementCount =
     rbuf\<lparr>writeIndex := s32 (writeIndex rbuf + elementCount) AND bigMask rbuf\<rparr>"

definition PaUtil_GetRingBufferReadRegions :: "PaUtilRingBuffer \<Rightarrow> int \<Rightarrow> regions" where
  "PaUtil_GetRingBufferReadRegions rbuf elementCount =
     (let available = PaUtil_GetRingBufferReadAvailable rbuf;
          elementCount = (if elementCount > available then available else elementCount);
          index = readIndex rbuf AND smallMask rbuf
      in if s32 (index + elementCount) > bufferSize rbuf
         then let firstHalf = s32 (bufferSize rbuf - index)
              in \<lparr>count = elementCount, dataPtr1 = s32 (index * elementSizeBytes rbuf), sizePtr1 = firstHalf,
                  dataPtr2 = Some 0, sizePtr2 = s32 (elementCount - firstHalf)\<rparr>
         else \<lparr>count = elementCount, dataPtr1 = s32 (index * elementSizeBytes rbuf), sizePtr1 = elementCount,
               dataPtr2 = None, sizePtr2 = 0\<rparr>)"

definition PaUtil_AdvanceRingBufferReadIndex :: "PaUtilRingBuffer \<Rightarrow> int \<Rightarrow> PaUtilRingBuffer" where
  "PaUtil_AdvanceRingBufferReadIndex rbuf elementCount =
     rbuf\<lparr>readIndex := s32 (readIndex rbuf + elementCount) AND bigMask rbuf\<rparr>"

text \<open>The copies of \<open>PaUtil_WriteRingBuffer\<close> and \<open>PaUtil_ReadRingBuffer\<close>, between the call for the regions and the update of
  the index.  A size is converted to \<^verbatim>\<open>size_t\<close>; a negative offset is outside the block.\<close>

definition at_offset :: "int option \<Rightarrow> nat option" where
  "at_offset p = (case p of None \<Rightarrow> None | Some i \<Rightarrow> if i < 0 then None else Some (nat i))"

definition write_copy :: "PaUtilRingBuffer \<Rightarrow> byte list \<Rightarrow> regions \<Rightarrow> PaUtilRingBuffer option" where
  "write_copy rbuf src g = do {
     let bytes1 = sz_of_int (s32 (sizePtr1 g * elementSizeBytes rbuf));
     p1 \<leftarrow> at_offset (Some (dataPtr1 g));
     if sizePtr2 g > 0 then do {
       b \<leftarrow> memcpy (buffer rbuf) p1 src 0 bytes1;
       p2 \<leftarrow> at_offset (dataPtr2 g);
       b \<leftarrow> memcpy b p2 src bytes1 (sz_of_int (s32 (sizePtr2 g * elementSizeBytes rbuf)));
       Some (rbuf\<lparr>buffer := b\<rparr>)
     } else do {
       b \<leftarrow> memcpy (buffer rbuf) p1 src 0 bytes1;
       Some (rbuf\<lparr>buffer := b\<rparr>)
     }
   }"

definition read_copy :: "PaUtilRingBuffer \<Rightarrow> byte list \<Rightarrow> regions \<Rightarrow> byte list option" where
  "read_copy rbuf dst g = do {
     let bytes1 = sz_of_int (s32 (sizePtr1 g * elementSizeBytes rbuf));
     p1 \<leftarrow> at_offset (Some (dataPtr1 g));
     if sizePtr2 g > 0 then do {
       d \<leftarrow> memcpy dst 0 (buffer rbuf) p1 bytes1;
       p2 \<leftarrow> at_offset (dataPtr2 g);
       memcpy d bytes1 (buffer rbuf) p2 (sz_of_int (s32 (sizePtr2 g * elementSizeBytes rbuf)))
     } else memcpy dst 0 (buffer rbuf) p1 bytes1
   }"

definition PaUtil_WriteRingBuffer :: "PaUtilRingBuffer \<Rightarrow> byte list \<Rightarrow> int \<Rightarrow> (int \<times> PaUtilRingBuffer) option" where
  "PaUtil_WriteRingBuffer rbuf src elementCount = do {
     let g = PaUtil_GetRingBufferWriteRegions rbuf elementCount;
     rbuf \<leftarrow> write_copy rbuf src g;
     Some (count g, PaUtil_AdvanceRingBufferWriteIndex rbuf (count g))
   }"

definition PaUtil_ReadRingBuffer ::
    "PaUtilRingBuffer \<Rightarrow> byte list \<Rightarrow> int \<Rightarrow> (int \<times> byte list \<times> PaUtilRingBuffer) option" where
  "PaUtil_ReadRingBuffer rbuf dst elementCount = do {
     let g = PaUtil_GetRingBufferReadRegions rbuf elementCount;
     d \<leftarrow> read_copy rbuf dst g;
     Some (count g, d, PaUtil_AdvanceRingBufferReadIndex rbuf (count g))
   }"

section \<open>Invariant and contents\<close>

text \<open>Capacity \<open>2 ^ k\<close>, and the numbers of elements that can be read and written.\<close>

definition pa_ok :: "nat \<Rightarrow> PaUtilRingBuffer \<Rightarrow> bool" where
  "pa_ok k rbuf \<longleftrightarrow> k \<le> 29 \<and> bufferSize rbuf = 2 ^ k \<and> bigMask rbuf = 2 ^ Suc k - 1 \<and> smallMask rbuf = 2 ^ k - 1 \<and>
     0 < elementSizeBytes rbuf \<and> 2 ^ k * elementSizeBytes rbuf \<le> 2147483647 \<and>
     int (length (buffer rbuf)) = 2 ^ k * elementSizeBytes rbuf \<and>
     0 \<le> readIndex rbuf \<and> readIndex rbuf < 2 ^ Suc k \<and> 0 \<le> writeIndex rbuf \<and> writeIndex rbuf < 2 ^ Suc k \<and>
     (writeIndex rbuf - readIndex rbuf) mod 2 ^ Suc k \<le> 2 ^ k"

definition pa_avail :: "PaUtilRingBuffer \<Rightarrow> nat" where
  "pa_avail rbuf = nat (PaUtil_GetRingBufferReadAvailable rbuf)"

definition pa_room :: "PaUtilRingBuffer \<Rightarrow> nat" where
  "pa_room rbuf = nat (PaUtil_GetRingBufferWriteAvailable rbuf)"

definition esz :: "PaUtilRingBuffer \<Rightarrow> nat" where
  "esz rbuf = nat (elementSizeBytes rbuf)"

definition pa_queued :: "PaUtilRingBuffer \<Rightarrow> byte list" where
  "pa_queued rbuf = take (pa_avail rbuf * esz rbuf) (rotate (nat (readIndex rbuf) * esz rbuf) (buffer rbuf))"

lemma and_mask_mod: "x AND (2 ^ n - 1) = x mod 2 ^ n" for x :: int
  by (simp add: take_bit_eq_mask [symmetric] take_bit_eq_mod flip: mask_eq_exp_minus_1)

lemma pa_powers: "k \<le> 29 \<Longrightarrow> (2 :: int) ^ k \<le> 536870912" "k \<le> 29 \<Longrightarrow> (2 :: int) ^ Suc k \<le> 1073741824"
proof -
  assume "k \<le> 29"
  then have "(2 :: int) ^ k \<le> 2 ^ 29" by (intro power_increasing) simp_all
  then show "(2 :: int) ^ k \<le> 536870912" "(2 :: int) ^ Suc k \<le> 1073741824" by simp_all
qed

lemma pa_available:
  assumes "pa_ok k rb"
  shows "PaUtil_GetRingBufferReadAvailable rb = (writeIndex rb - readIndex rb) mod 2 ^ Suc k"
    "PaUtil_GetRingBufferWriteAvailable rb = 2 ^ k - PaUtil_GetRingBufferReadAvailable rb"
    "0 \<le> PaUtil_GetRingBufferReadAvailable rb" "PaUtil_GetRingBufferReadAvailable rb \<le> 2 ^ k"
proof -
  note p = pa_powers [of k]
  have k: "k \<le> 29" using assms by (simp add: pa_ok_def)
  have "s32 (writeIndex rb - readIndex rb) = writeIndex rb - readIndex rb"
    using assms p(2) [OF k] by (intro s32_id) (simp add: pa_ok_def is_s32_def)
  then show a: "PaUtil_GetRingBufferReadAvailable rb = (writeIndex rb - readIndex rb) mod 2 ^ Suc k"
    using assms by (simp only: PaUtil_GetRingBufferReadAvailable_def pa_ok_def and_mask_mod)
  then show b: "0 \<le> PaUtil_GetRingBufferReadAvailable rb" "PaUtil_GetRingBufferReadAvailable rb \<le> 2 ^ k"
    using assms by (simp_all add: pa_ok_def)
  have "s32 (bufferSize rb - PaUtil_GetRingBufferReadAvailable rb) = 2 ^ k - PaUtil_GetRingBufferReadAvailable rb"
    using assms b p(1) [OF k] by (subst s32_id) (simp_all add: is_s32_def pa_ok_def)
  then show "PaUtil_GetRingBufferWriteAvailable rb = 2 ^ k - PaUtil_GetRingBufferReadAvailable rb"
    by (simp add: PaUtil_GetRingBufferWriteAvailable_def)
qed

lemma pa_sizes:
  assumes "pa_ok k rb"
  shows "pa_avail rb + pa_room rb = 2 ^ k" "length (buffer rb) = 2 ^ k * esz rb" "0 < esz rb" "int (esz rb) = elementSizeBytes rb"
    "int (pa_avail rb) = PaUtil_GetRingBufferReadAvailable rb" "int (pa_room rb) = PaUtil_GetRingBufferWriteAvailable rb"
proof -
  note a = pa_available [OF assms]
  show "int (pa_avail rb) = PaUtil_GetRingBufferReadAvailable rb" "int (pa_room rb) = PaUtil_GetRingBufferWriteAvailable rb"
    using a by (simp_all add: pa_avail_def pa_room_def)
  then have "int (pa_avail rb + pa_room rb) = int (2 ^ k)" using a(2) by simp
  then show "pa_avail rb + pa_room rb = 2 ^ k" by (simp only: of_nat_eq_iff)
  show e: "int (esz rb) = elementSizeBytes rb" "0 < esz rb" using assms by (simp_all add: pa_ok_def esz_def)
  have "int (length (buffer rb)) = int (2 ^ k * esz rb)" using assms e by (simp add: pa_ok_def)
  then show "length (buffer rb) = 2 ^ k * esz rb" by (simp only: of_nat_eq_iff)
qed

section \<open>The regions\<close>

text \<open>The regions from element \<open>i\<close> on, \<open>n\<close> elements long.\<close>

definition regions_at :: "nat \<Rightarrow> nat \<Rightarrow> nat \<Rightarrow> nat \<Rightarrow> regions" where
  "regions_at N e i n =
     (if i + n > N
      then \<lparr>count = int n, dataPtr1 = int (i * e), sizePtr1 = int (N - i), dataPtr2 = Some 0, sizePtr2 = int (n - (N - i))\<rparr>
      else \<lparr>count = int n, dataPtr1 = int (i * e), sizePtr1 = int n, dataPtr2 = None, sizePtr2 = 0\<rparr>)"

lemma pa_s32:
  assumes "pa_ok k rb" "0 \<le> x" "x \<le> 2 ^ Suc k"
  shows "s32 x = x"
proof -
  have "k \<le> 29" using assms(1) by (simp add: pa_ok_def)
  from pa_powers(2) [OF this] show ?thesis using assms by (intro s32_id) (simp add: is_s32_def)
qed

lemma pa_s32_bytes:
  assumes "pa_ok k rb" "n \<le> 2 ^ k"
  shows "s32 (int n * elementSizeBytes rb) = int (n * esz rb)" "sz_of_int (int (n * esz rb)) = n * esz rb"
    "int (n * esz rb) \<le> 2147483647"
proof -
  have e: "0 < elementSizeBytes rb" "2 ^ k * elementSizeBytes rb \<le> 2147483647" using assms(1) by (simp_all add: pa_ok_def)
  have "int n \<le> 2 ^ k" using assms(2) by (metis of_nat_le_iff of_nat_numeral of_nat_power)
  then have m: "int n * elementSizeBytes rb \<le> 2 ^ k * elementSizeBytes rb" using e by (intro mult_right_mono) simp_all
  have i: "int (n * esz rb) = int n * elementSizeBytes rb" using pa_sizes(4) [OF assms(1)] by simp
  show l: "int (n * esz rb) \<le> 2147483647" unfolding i using m e(2) by linarith
  show "s32 (int n * elementSizeBytes rb) = int (n * esz rb)"
    unfolding i [symmetric] using l of_nat_0_le_iff [of "n * esz rb"] by (intro s32_id) (unfold is_s32_def, linarith)
  have "n * esz rb < size_range" using nat_mono [OF l, unfolded nat_int nat_numeral] by (intro size_range_gt) linarith
  then show "sz_of_int (int (n * esz rb)) = n * esz rb" by (subst sz_of_int_id) (simp_all del: of_nat_mult)
qed

lemma regions_expr:
  assumes "pa_ok k rb" "0 \<le> w" "w < 2 ^ Suc k" "n \<le> 2 ^ k"
  shows "(let index = w AND smallMask rb
      in if s32 (index + int n) > bufferSize rb
         then let firstHalf = s32 (bufferSize rb - index)
              in \<lparr>count = int n, dataPtr1 = s32 (index * elementSizeBytes rb), sizePtr1 = firstHalf,
                  dataPtr2 = Some 0, sizePtr2 = s32 (int n - firstHalf)\<rparr>
         else \<lparr>count = int n, dataPtr1 = s32 (index * elementSizeBytes rb), sizePtr1 = int n, dataPtr2 = None, sizePtr2 = 0\<rparr>)
    = regions_at (2 ^ k) (esz rb) (nat w mod 2 ^ k) n"
proof -
  let ?i = "nat w mod 2 ^ k"
  have ok: "bufferSize rb = 2 ^ k" "smallMask rb = 2 ^ k - 1" using assms(1) by (simp_all add: pa_ok_def)
  have i: "w AND smallMask rb = int ?i" using assms(2) by (simp add: ok and_mask_mod zmod_int)
  have lt: "?i < 2 ^ k" by simp
  have n: "int n \<le> 2 ^ k" using assms(4) by (metis of_nat_le_iff of_nat_numeral of_nat_power)
  have il: "int ?i < 2 ^ k" using lt by (metis of_nat_less_iff of_nat_numeral of_nat_power)
  have "0 \<le> int ?i + int n" "int ?i + int n \<le> 2 ^ Suc k" "0 \<le> 2 ^ k - int ?i" "2 ^ k - int ?i \<le> 2 ^ Suc k"
    unfolding power_Suc using il n by linarith+
  then have s: "s32 (int ?i + int n) = int (?i + n)" "s32 (2 ^ k - int ?i) = int (2 ^ k - ?i)"
    by (simp_all add: pa_s32 [OF assms(1)] of_nat_diff)
  have s3: "s32 (int n - int (2 ^ k - ?i)) = int (n - (2 ^ k - ?i))" if "2 ^ k < ?i + n"
  proof -
    have "int n - int (2 ^ k - ?i) = int (n - (2 ^ k - ?i))" using that by (simp add: of_nat_diff)
    moreover have "int (n - (2 ^ k - ?i)) \<le> 2 ^ Suc k" unfolding power_Suc using n by linarith
    ultimately show ?thesis by (simp only: pa_s32 [OF assms(1) of_nat_0_le_iff])
  qed
  have c: "2 ^ k < int (?i + n) \<longleftrightarrow> 2 ^ k < ?i + n" by (metis of_nat_less_iff of_nat_numeral of_nat_power)
  show ?thesis unfolding Let_def i ok(1) s(1,2) c pa_s32_bytes(1) [OF assms(1) less_imp_le [OF lt]] regions_at_def
    using s3 by auto
qed

lemma pa_write_regions:
  assumes "pa_ok k rb"
  shows "PaUtil_GetRingBufferWriteRegions rb (int n) =
    regions_at (2 ^ k) (esz rb) (nat (writeIndex rb) mod 2 ^ k) (min n (pa_room rb))"
proof -
  have m: "(if int n > PaUtil_GetRingBufferWriteAvailable rb then PaUtil_GetRingBufferWriteAvailable rb else int n) = int (min n (pa_room rb))"
    using pa_sizes(6) [OF assms] by (simp add: min_def)
  have "min n (pa_room rb) \<le> 2 ^ k" using pa_sizes(1) [OF assms] by linarith
  from regions_expr [OF assms _ _ this, of "writeIndex rb"] show ?thesis
    using assms unfolding PaUtil_GetRingBufferWriteRegions_def Let_def m by (simp add: pa_ok_def Let_def)
qed

lemma pa_read_regions:
  assumes "pa_ok k rb"
  shows "PaUtil_GetRingBufferReadRegions rb (int n) =
    regions_at (2 ^ k) (esz rb) (nat (readIndex rb) mod 2 ^ k) (min n (pa_avail rb))"
proof -
  have m: "(if int n > PaUtil_GetRingBufferReadAvailable rb then PaUtil_GetRingBufferReadAvailable rb else int n) = int (min n (pa_avail rb))"
    using pa_sizes(5) [OF assms] by (simp add: min_def)
  have "min n (pa_avail rb) \<le> 2 ^ k" using pa_sizes(1) [OF assms] by linarith
  from regions_expr [OF assms _ _ this, of "readIndex rb"] show ?thesis
    using assms unfolding PaUtil_GetRingBufferReadRegions_def Let_def m by (simp add: pa_ok_def Let_def)
qed

section \<open>The copies\<close>

lemma write_copy_ok:
  fixes w :: int
  assumes "pa_ok k rb" "n \<le> 2 ^ k" "n * esz rb \<le> length src"
  defines "i \<equiv> nat w mod 2 ^ k"
  obtains b where "write_copy rb src (regions_at (2 ^ k) (esz rb) i n) = Some (rb\<lparr>buffer := b\<rparr>)" "length b = length (buffer rb)"
    "rotate (nat w * esz rb) b = take (n * esz rb) src @ drop (n * esz rb) (rotate (nat w * esz rb) (buffer rb))"
proof -
  let ?e = "esz rb" and ?N = "2 ^ k :: nat"
  have T: "length (buffer rb) = ?N * ?e" and e: "0 < ?e" using pa_sizes(2,3) [OF assms(1)] by simp_all
  have i: "i < ?N" by (simp add: i_def)
  define t where "t = min (n * ?e) (?N * ?e - i * ?e)"
  have te: "t = min n (?N - i) * ?e" by (simp add: t_def diff_mult_distrib [symmetric] min_def)
  obtain b1 b where b: "memcpy (buffer rb) (i * ?e) src 0 t = Some b1" "memcpy b1 0 src t (n * ?e - t) = Some b" "length b = ?N * ?e"
      "rotate (i * ?e) b = take (n * ?e) src @ drop (n * ?e) (rotate (i * ?e) (buffer rb))"
    by (rule two_part_write [OF T, of "i * ?e" "n * ?e" src t]) (use i assms(2,3) in \<open>simp_all add: t_def\<close>)
  have r: "rotate (i * ?e) x = rotate (nat w * ?e) x" if "length x = ?N * ?e" for x :: "byte list"
    using rotate_mod [OF that, of "nat w * ?e"] by (simp add: i_def mult_mod_left)
  have o: "\<not> int (i * ?e) < 0" "nat (int (i * ?e)) = i * ?e" by (simp_all del: of_nat_mult)
  have "write_copy rb src (regions_at ?N ?e i n) = Some (rb\<lparr>buffer := b\<rparr>)"
  proof (cases "?N < i + n")
    case True
    then have "min n (?N - i) = ?N - i" by simp
    then have t: "t = (?N - i) * ?e" by (simp only: te)
    then have d: "n * ?e - t = (n - (?N - i)) * ?e" by (simp only: diff_mult_distrib)
    have g: "regions_at ?N ?e i n = \<lparr>count = int n, dataPtr1 = int (i * ?e), sizePtr1 = int (?N - i), dataPtr2 = Some 0,
        sizePtr2 = int (n - (?N - i))\<rparr>" "0 < n - (?N - i)" using True i by (simp add: regions_at_def, linarith)
    have l: "?N - i \<le> 2 ^ k" "n - (?N - i) \<le> 2 ^ k" using assms(2) by simp_all
    show ?thesis unfolding write_copy_def g(1) Let_def regions.simps pa_s32_bytes(1,2) [OF assms(1) l(1)]
        pa_s32_bytes(1,2) [OF assms(1) l(2)] at_offset_def option.case
      using b(1,2) g(2) o unfolding t [symmetric] d [symmetric] by simp
  next
    case False
    then have "min n (?N - i) = n" using i by linarith
    then have t: "t = n * ?e" by (simp only: te)
    have g: "regions_at ?N ?e i n = \<lparr>count = int n, dataPtr1 = int (i * ?e), sizePtr1 = int n, dataPtr2 = None, sizePtr2 = 0\<rparr>"
      using False by (simp add: regions_at_def)
    have "b1 = b" using b(2) by (simp add: t memcpy_def split: if_splits)
    then show ?thesis unfolding write_copy_def g Let_def regions.simps pa_s32_bytes(1,2) [OF assms(1,2)] at_offset_def option.case
      using b(1) o unfolding t by simp
  qed
  then show thesis using that b(3,4) r [OF T] r [OF b(3)] T by simp
qed

lemma read_copy_ok:
  fixes r :: int
  assumes "pa_ok k rb" "n \<le> 2 ^ k" "n * esz rb \<le> length dst"
  defines "i \<equiv> nat r mod 2 ^ k"
  shows "read_copy rb dst (regions_at (2 ^ k) (esz rb) i n) =
    Some (take (n * esz rb) (rotate (nat r * esz rb) (buffer rb)) @ drop (n * esz rb) dst)"
proof -
  let ?e = "esz rb" and ?N = "2 ^ k :: nat"
  have T: "length (buffer rb) = ?N * ?e" and e: "0 < ?e" using pa_sizes(2,3) [OF assms(1)] by simp_all
  have i: "i < ?N" by (simp add: i_def)
  define t where "t = min (n * ?e) (?N * ?e - i * ?e)"
  have te: "t = min n (?N - i) * ?e" by (simp add: t_def diff_mult_distrib [symmetric] min_def)
  have r: "rotate (i * ?e) (buffer rb) = rotate (nat r * ?e) (buffer rb)"
    using rotate_mod [OF T, of "nat r * ?e"] by (simp add: i_def mult_mod_left)
  obtain d where d: "memcpy dst 0 (buffer rb) (i * ?e) t = Some d"
      "memcpy d t (buffer rb) 0 (n * ?e - t) = Some (take (n * ?e) (rotate (nat r * ?e) (buffer rb)) @ drop (n * ?e) dst)"
    using two_part_read [OF T, of "i * ?e" "n * ?e" dst t] i assms(2,3) unfolding r by (auto simp: t_def)
  have o: "\<not> int (i * ?e) < 0" "nat (int (i * ?e)) = i * ?e" by (simp_all del: of_nat_mult)
  show ?thesis
  proof (cases "?N < i + n")
    case True
    then have "min n (?N - i) = ?N - i" by simp
    then have t: "t = (?N - i) * ?e" by (simp only: te)
    then have dd: "n * ?e - t = (n - (?N - i)) * ?e" by (simp only: diff_mult_distrib)
    have g: "regions_at ?N ?e i n = \<lparr>count = int n, dataPtr1 = int (i * ?e), sizePtr1 = int (?N - i), dataPtr2 = Some 0,
        sizePtr2 = int (n - (?N - i))\<rparr>" "0 < n - (?N - i)" using True i by (simp add: regions_at_def, linarith)
    have l: "?N - i \<le> 2 ^ k" "n - (?N - i) \<le> 2 ^ k" using assms(2) by simp_all
    show ?thesis unfolding read_copy_def g(1) Let_def regions.simps pa_s32_bytes(1,2) [OF assms(1) l(1)]
        pa_s32_bytes(1,2) [OF assms(1) l(2)] at_offset_def option.case
      using d g(2) o unfolding t [symmetric] dd [symmetric] by simp
  next
    case False
    then have "min n (?N - i) = n" using i by linarith
    then have t: "t = n * ?e" by (simp only: te)
    have g: "regions_at ?N ?e i n = \<lparr>count = int n, dataPtr1 = int (i * ?e), sizePtr1 = int n, dataPtr2 = None, sizePtr2 = 0\<rparr>"
      using False by (simp add: regions_at_def)
    have "d = take (n * ?e) (rotate (nat r * ?e) (buffer rb)) @ drop (n * ?e) dst" using d(2) by (simp add: t memcpy_def split: if_splits)
    then show ?thesis unfolding read_copy_def g Let_def regions.simps pa_s32_bytes(1,2) [OF assms(1,2)] at_offset_def option.case
      using d(1) o unfolding t by simp
  qed
qed

section \<open>The indices\<close>

text \<open>What a thread sees of the positions: the write position is the read position plus the queued elements.\<close>

lemma pa_position_mod:
  assumes "pa_ok k rb"
  shows "nat (writeIndex rb) * esz rb mod (2 ^ k * esz rb) = (nat (readIndex rb) * esz rb + pa_avail rb * esz rb) mod (2 ^ k * esz rb)"
proof -
  have "int (pa_avail rb) = (writeIndex rb - readIndex rb) mod 2 ^ Suc k"
    using pa_sizes(5) [OF assms] pa_available(1) [OF assms] by simp
  then have "(readIndex rb + int (pa_avail rb)) mod 2 ^ Suc k = writeIndex rb mod 2 ^ Suc k" by (simp only: mod_add_right_eq) simp
  moreover have "writeIndex rb = int (nat (writeIndex rb))" "readIndex rb = int (nat (readIndex rb))"
    using assms by (simp_all add: pa_ok_def)
  ultimately have "int ((nat (readIndex rb) + pa_avail rb) mod 2 ^ Suc k) = int (nat (writeIndex rb) mod 2 ^ Suc k)"
    by (metis of_nat_add of_nat_mod of_nat_numeral of_nat_power)
  then have "(nat (readIndex rb) + pa_avail rb) mod 2 ^ Suc k mod 2 ^ k = nat (writeIndex rb) mod 2 ^ Suc k mod 2 ^ k"
    by (simp only: of_nat_eq_iff)
  then have "(nat (readIndex rb) + pa_avail rb) mod 2 ^ k = nat (writeIndex rb) mod 2 ^ k" by (simp add: mod_mod_cancel)
  then show ?thesis unfolding add_mult_distrib [symmetric] by (simp only: mult_mod_left [symmetric])
qed

lemma pa_position:
  assumes "pa_ok k rb" "length x = length (buffer rb)"
  shows "rotate (nat (writeIndex rb) * esz rb) x = rotate (nat (readIndex rb) * esz rb + pa_avail rb * esz rb) x"
proof -
  have "length x = 2 ^ k * esz rb" using assms(2) pa_sizes(2) [OF assms(1)] by simp
  then show ?thesis using pa_position_mod [OF assms(1)] by (metis rotate_conv_mod)
qed

lemma pa_ok_buffer: "length b = length (buffer rb) \<Longrightarrow> pa_ok k (rb\<lparr>buffer := b\<rparr>) = pa_ok k rb"
  by (simp add: pa_ok_def)

lemma pa_buffer_simps [simp]:
  "pa_avail (rb\<lparr>buffer := b\<rparr>) = pa_avail rb" "pa_room (rb\<lparr>buffer := b\<rparr>) = pa_room rb" "esz (rb\<lparr>buffer := b\<rparr>) = esz rb"
  by (simp_all add: pa_avail_def pa_room_def esz_def PaUtil_GetRingBufferReadAvailable_def PaUtil_GetRingBufferWriteAvailable_def)

lemma pa_length: "pa_ok k rb \<Longrightarrow> length (pa_queued rb) = pa_avail rb * esz rb"
proof -
  assume ok: "pa_ok k rb"
  have "pa_avail rb * esz rb \<le> length (buffer rb)" using pa_sizes(1,2) [OF ok] by (metis le_add1 mult_le_mono1)
  then show ?thesis by (simp add: pa_queued_def)
qed

text \<open>Copying behind the queue leaves it alone; moving the write index then appends what was copied.\<close>

lemma pa_write_data:
  assumes "pa_ok k rb" "n \<le> pa_room rb" "length b = length (buffer rb)" "length xs = n * esz rb"
    and "rotate (nat (writeIndex rb) * esz rb) b = xs @ drop (n * esz rb) (rotate (nat (writeIndex rb) * esz rb) (buffer rb))"
  shows "pa_queued (rb\<lparr>buffer := b\<rparr>) = pa_queued rb"
    and "take ((pa_avail rb + n) * esz rb) (rotate (nat (readIndex rb) * esz rb) b) = pa_queued rb @ xs"
proof -
  let ?q = "nat (readIndex rb) * esz rb" and ?a = "pa_avail rb * esz rb" and ?m = "n * esz rb"
  have l: "?a + ?m \<le> length (buffer rb)"
    using pa_sizes(1,2) [OF assms(1)] assms(2) by (metis add_mult_distrib mult_le_mono1 add_le_cancel_left)
  have r: "rotate (?q + ?a) b = xs @ drop ?m (rotate (?q + ?a) (buffer rb))"
    using assms(5) pa_position [OF assms(1,3)] pa_position [OF assms(1) refl] by simp
  have t: "take (?a + ?m) (rotate ?q b) = take ?a (rotate ?q (buffer rb)) @ xs"
    by (rule rotate_write(1) [OF refl assms(3) l assms(4) r])
  then show "take ((pa_avail rb + n) * esz rb) (rotate ?q b) = pa_queued rb @ xs" by (simp add: pa_queued_def add_mult_distrib)
  have "take ?a (rotate ?q b) = take ?a (take (?a + ?m) (rotate ?q b))" by simp
  also have "\<dots> = take ?a (rotate ?q (buffer rb))" unfolding t using l by simp
  finally show "pa_queued (rb\<lparr>buffer := b\<rparr>) = pa_queued rb" by (simp add: pa_queued_def)
qed

lemma pa_index_mod:
  assumes "pa_ok k rb" "0 \<le> w" "w < 2 ^ Suc k" "n \<le> 2 ^ k"
  shows "s32 (w + int n) AND bigMask rb = (w + int n) mod 2 ^ Suc k"
proof -
  have k: "k \<le> 29" using assms(1) by (simp add: pa_ok_def)
  have "int n \<le> 2 ^ k" using assms(4) by (metis of_nat_le_iff of_nat_numeral of_nat_power)
  then have "s32 (w + int n) = w + int n" using assms(2,3) pa_powers [OF k] by (intro s32_id) (unfold is_s32_def, linarith)
  then show ?thesis using assms(1) by (simp only: pa_ok_def and_mask_mod)
qed

lemma pa_advance_write:
  assumes "pa_ok k rb" "n \<le> pa_room rb"
  defines "rb' \<equiv> PaUtil_AdvanceRingBufferWriteIndex rb (int n)"
  shows "pa_ok k rb'" "pa_avail rb' = pa_avail rb + n" "readIndex rb' = readIndex rb" "buffer rb' = buffer rb" "esz rb' = esz rb"
proof -
  let ?M = "2 ^ Suc k :: int"
  have pos: "(0 :: int) < 2 ^ k" by simp
  have n: "n \<le> 2 ^ k" "pa_avail rb + n \<le> 2 ^ k" using assms(2) pa_sizes(1) [OF assms(1)] by linarith+
  then have N: "int (pa_avail rb + n) \<le> 2 ^ k" by (metis of_nat_le_iff of_nat_numeral of_nat_power)
  have w: "0 \<le> writeIndex rb" "writeIndex rb < ?M" using assms(1) by (simp_all add: pa_ok_def)
  have e: "rb' = rb\<lparr>writeIndex := (writeIndex rb + int n) mod ?M\<rparr>"
    by (simp add: rb'_def PaUtil_AdvanceRingBufferWriteIndex_def pa_index_mod [OF assms(1) w n(1)])
  have "((writeIndex rb + int n) mod ?M - readIndex rb) mod ?M = ((writeIndex rb - readIndex rb) mod ?M + int n) mod ?M"
    by (simp add: mod_simps algebra_simps)
  also have "\<dots> = int (pa_avail rb + n) mod ?M" using pa_sizes(5) [OF assms(1)] pa_available(1) [OF assms(1)] by simp
  also have "\<dots> = int (pa_avail rb + n)" using N pos by (intro mod_pos_pos_trivial) (unfold power_Suc, linarith+)
  finally have d: "((writeIndex rb + int n) mod ?M - readIndex rb) mod ?M = int (pa_avail rb + n)" .
  show ok: "pa_ok k rb'" using assms(1) d N by (simp add: e pa_ok_def)
  have "int (pa_avail rb') = int (pa_avail rb + n)" using pa_sizes(5) [OF ok] pa_available(1) [OF ok] d by (simp add: e)
  then show "pa_avail rb' = pa_avail rb + n" by (simp only: of_nat_eq_iff)
  show "readIndex rb' = readIndex rb" "buffer rb' = buffer rb" "esz rb' = esz rb" by (simp_all add: e esz_def)
qed

lemma pa_advance_read:
  assumes "pa_ok k rb" "n \<le> pa_avail rb"
  defines "rb' \<equiv> PaUtil_AdvanceRingBufferReadIndex rb (int n)"
  shows "pa_ok k rb'" "pa_avail rb' = pa_avail rb - n" "pa_queued rb' = drop (n * esz rb) (pa_queued rb)"
    "writeIndex rb' = writeIndex rb" "buffer rb' = buffer rb" "esz rb' = esz rb"
proof -
  let ?M = "2 ^ Suc k :: int"
  have pos: "(0 :: int) < 2 ^ k" by simp
  have n: "n \<le> 2 ^ k" "pa_avail rb \<le> 2 ^ k" using assms(2) pa_sizes(1) [OF assms(1)] by linarith+
  then have N: "int (pa_avail rb - n) \<le> 2 ^ k" using n(2) by (metis diff_le_self le_trans of_nat_le_iff of_nat_numeral of_nat_power)
  have w: "0 \<le> readIndex rb" "readIndex rb < ?M" using assms(1) by (simp_all add: pa_ok_def)
  have e: "rb' = rb\<lparr>readIndex := (readIndex rb + int n) mod ?M\<rparr>"
    by (simp add: rb'_def PaUtil_AdvanceRingBufferReadIndex_def pa_index_mod [OF assms(1) w n(1)])
  have "(writeIndex rb - (readIndex rb + int n) mod ?M) mod ?M = ((writeIndex rb - readIndex rb) mod ?M - int n) mod ?M"
    by (simp add: mod_simps algebra_simps)
  also have "\<dots> = int (pa_avail rb - n) mod ?M"
    using pa_sizes(5) [OF assms(1)] pa_available(1) [OF assms(1)] assms(2) by (simp add: of_nat_diff)
  also have "\<dots> = int (pa_avail rb - n)" using N pos by (intro mod_pos_pos_trivial) (unfold power_Suc, linarith+)
  finally have d: "(writeIndex rb - (readIndex rb + int n) mod ?M) mod ?M = int (pa_avail rb - n)" .
  show ok: "pa_ok k rb'" using assms(1) d N by (simp add: e pa_ok_def)
  have "int (pa_avail rb') = int (pa_avail rb - n)" using pa_sizes(5) [OF ok] pa_available(1) [OF ok] d by (simp add: e)
  then show a: "pa_avail rb' = pa_avail rb - n" by (simp only: of_nat_eq_iff)
  show "writeIndex rb' = writeIndex rb" "buffer rb' = buffer rb" and z: "esz rb' = esz rb" by (simp_all add: e esz_def)
  have l: "n * esz rb \<le> pa_avail rb * esz rb" "pa_avail rb * esz rb \<le> length (buffer rb)"
    using assms(2) pa_length [OF assms(1)] n(2) pa_sizes(2) [OF assms(1)] by (simp_all add: mult_le_mono1)
  have p: "rotate (nat (readIndex rb') * esz rb) (buffer rb) = rotate (nat (readIndex rb) * esz rb + n * esz rb) (buffer rb)"
  proof -
    have "nat (readIndex rb') = (nat (readIndex rb) + n) mod 2 ^ Suc k"
      using w(1) by (simp add: e nat_mod_distrib nat_add_distrib nat_power_eq del: power_Suc)
    moreover have "(nat (readIndex rb) + n) mod 2 ^ Suc k mod 2 ^ k = (nat (readIndex rb) + n) mod 2 ^ k" by (simp add: mod_mod_cancel)
    ultimately have "nat (readIndex rb') * esz rb mod length (buffer rb) = (nat (readIndex rb) * esz rb + n * esz rb) mod length (buffer rb)"
      unfolding pa_sizes(2) [OF assms(1)] add_mult_distrib [symmetric] by (simp only: mult_mod_left [symmetric])
    then show ?thesis by (metis rotate_conv_mod)
  qed
  show "pa_queued rb' = drop (n * esz rb) (pa_queued rb)"
    using rotate_read [OF refl l, of "nat (readIndex rb) * esz rb"] p
    by (simp add: pa_queued_def a z diff_mult_distrib) (simp add: e)
qed

section \<open>A bounded byte queue\<close>

definition pa_inv :: "PaUtilRingBuffer \<Rightarrow> bool" where
  "pa_inv rb \<longleftrightarrow> (\<exists>k. pa_ok k rb)"

definition pa_put :: "PaUtilRingBuffer \<Rightarrow> byte list \<Rightarrow> nat \<Rightarrow> (nat \<times> PaUtilRingBuffer) option" where
  "pa_put rb xs n = map_option (map_prod nat id) (PaUtil_WriteRingBuffer rb xs (int n))"

definition pa_get :: "PaUtilRingBuffer \<Rightarrow> nat \<Rightarrow> (byte list \<times> PaUtilRingBuffer) option" where
  "pa_get rb n = map_option (\<lambda>(k, d, rb'). (take (nat k * esz rb) d, rb')) (PaUtil_ReadRingBuffer rb (replicate (n * esz rb) 0) (int n))"

lemma count_regions [simp]: "count (regions_at N e i n) = int n"
  by (simp add: regions_at_def)

lemma pa_put_ok:
  assumes "pa_ok k rb" "n * esz rb \<le> length xs"
  shows "\<exists>rb'. pa_put rb xs n = Some (min n (pa_room rb), rb') \<and> pa_ok k rb' \<and> esz rb' = esz rb \<and>
    pa_queued rb' = pa_queued rb @ take (min n (pa_room rb) * esz rb) xs"
proof -
  let ?m = "min n (pa_room rb)" and ?w = "nat (writeIndex rb)"
  have m: "?m \<le> 2 ^ k" "?m \<le> pa_room rb" "?m * esz rb \<le> length xs"
    using pa_sizes(1) [OF assms(1)] le_trans [OF mult_le_mono1 [OF min.cobounded1] assms(2)] by simp_all
  obtain b where b: "write_copy rb xs (regions_at (2 ^ k) (esz rb) (?w mod 2 ^ k) ?m) = Some (rb\<lparr>buffer := b\<rparr>)"
      "length b = length (buffer rb)"
      "rotate (?w * esz rb) b = take (?m * esz rb) xs @ drop (?m * esz rb) (rotate (?w * esz rb) (buffer rb))"
    by (rule write_copy_ok [OF assms(1) m(1,3)])
  let ?rb = "rb\<lparr>buffer := b\<rparr>" and ?rb' = "PaUtil_AdvanceRingBufferWriteIndex (rb\<lparr>buffer := b\<rparr>) (int ?m)"
  have ok: "pa_ok k ?rb" "?m \<le> pa_room ?rb" using assms(1) m(2) by (simp_all add: pa_ok_buffer [OF b(2)])
  note a = pa_advance_write [OF ok]
  have l: "length (take (?m * esz rb) xs) = ?m * esz rb" using m(3) by simp
  have "pa_queued ?rb' = pa_queued rb @ take (?m * esz rb) xs"
    using pa_write_data(2) [OF assms(1) m(2) b(2) l b(3)] a(2-5) by (simp add: pa_queued_def)
  then show ?thesis using b(1) a(1,5) by (simp add: pa_put_def PaUtil_WriteRingBuffer_def pa_write_regions [OF assms(1)] Let_def)
qed

lemma pa_get_ok:
  assumes "pa_ok k rb"
  shows "\<exists>rb'. pa_get rb n = Some (take (n * esz rb) (pa_queued rb), rb') \<and> pa_ok k rb' \<and> esz rb' = esz rb \<and>
    pa_queued rb' = drop (n * esz rb) (pa_queued rb)"
proof -
  let ?m = "min n (pa_avail rb)"
  have m: "?m \<le> 2 ^ k" "?m \<le> pa_avail rb" "?m * esz rb \<le> length (replicate (n * esz rb) (0 :: byte))"
    using pa_sizes(1) [OF assms(1)] by (simp_all add: mult_le_mono1)
  have q: "?m * esz rb = min (n * esz rb) (length (pa_queued rb))" by (simp add: pa_length [OF assms] nat_mult_min_left)
  have t: "take (?m * esz rb) (rotate (nat (readIndex rb) * esz rb) (buffer rb)) = take (n * esz rb) (pa_queued rb)"
    by (simp add: pa_queued_def nat_mult_min_left min.commute)
  note a = pa_advance_read [OF assms m(2)]
  have "drop (?m * esz rb) (pa_queued rb) = drop (n * esz rb) (pa_queued rb)" unfolding q by (simp add: min_def)
  moreover have "take (?m * esz rb) (pa_queued rb) = take (n * esz rb) (pa_queued rb)" unfolding q by (simp add: min_def)
  moreover have "length (take (n * esz rb) (pa_queued rb)) = ?m * esz rb" by (simp add: q)
  ultimately show ?thesis
    using read_copy_ok [OF assms m(1,3), of "readIndex rb"] a(1,3,6) t
    by (simp add: pa_get_def PaUtil_ReadRingBuffer_def pa_read_regions [OF assms] Let_def)
qed

interpretation pa: stream_buffer pa_inv pa_queued esz pa_room pa_put pa_get
proof
  show "\<exists>q'. pa_put q xs n = Some (min n (pa_room q), q') \<and> pa_inv q' \<and> esz q' = esz q \<and>
      pa_queued q' = pa_queued q @ take (min n (pa_room q) * esz q) xs" if "pa_inv q" "n * esz q \<le> length xs" for q n xs
    using that pa_put_ok unfolding pa_inv_def by blast
  show "\<exists>q'. pa_get q n = Some (take (n * esz q) (pa_queued q), q') \<and> pa_inv q' \<and> esz q' = esz q \<and>
      pa_queued q' = drop (n * esz q) (pa_queued q)" if "pa_inv q" for q n
    using that pa_get_ok unfolding pa_inv_def by blast
qed

text \<open>Buffers of \<open>n\<close> elements of \<open>z\<close> bytes are bounded queues.\<close>

definition pa_sized :: "nat \<Rightarrow> nat \<Rightarrow> PaUtilRingBuffer \<Rightarrow> bool" where
  "pa_sized n z rb \<longleftrightarrow> pa_inv rb \<and> bufferSize rb = int n \<and> esz rb = z"

lemma pa_sized_ok: "pa_sized n z rb \<longleftrightarrow> (\<exists>k. pa_ok k rb \<and> n = 2 ^ k \<and> esz rb = z)"
  unfolding pa_sized_def pa_inv_def pa_ok_def by (auto simp flip: of_nat_power)

interpretation paq: bounded_buffer "pa_sized c z" pa_queued esz pa_room pa_put pa_get c z for c z
proof
  show "\<exists>q'. pa_put q xs n = Some (min n (pa_room q), q') \<and> pa_sized c z q' \<and> esz q' = esz q \<and>
      pa_queued q' = pa_queued q @ take (min n (pa_room q) * esz q) xs" if "pa_sized c z q" "n * esz q \<le> length xs" for q n xs
    using that pa_put_ok unfolding pa_sized_ok by metis
  show "\<exists>q'. pa_get q n = Some (take (n * esz q) (pa_queued q), q') \<and> pa_sized c z q' \<and> esz q' = esz q \<and>
      pa_queued q' = drop (n * esz q) (pa_queued q)" if "pa_sized c z q" for q n
    using that pa_get_ok unfolding pa_sized_ok by metis
  show "esz q = z" if "pa_sized c z q" for q using that by (simp add: pa_sized_def)
  show "pa_room q = c - length (pa_queued q) div z" if s: "pa_sized c z q" for q
  proof -
    obtain k where "pa_ok k q" "c = 2 ^ k" "esz q = z" using s unfolding pa_sized_ok by blast
    then show ?thesis using pa_sizes(1,3) [of k q] pa_length [of k q] by auto
  qed
qed

lemma pa_initialize:
  assumes "k \<le> 29" "0 < es" "2 ^ k * es \<le> 2147483647" "int (length mem) = 2 ^ k * es"
  shows "\<exists>rb'. PaUtil_InitializeRingBuffer rb es (2 ^ k) mem = (0, rb') \<and> pa_ok k rb' \<and> pa_queued rb' = [] \<and> esz rb' = nat es"
proof -
  note p = pa_powers [OF assms(1)]
  have "(1 :: int) \<le> 2 ^ k" by simp
  then have "is_s32 (2 ^ k - 1)" "is_s32 (2 ^ k * 2)" "is_s32 (2 ^ Suc k - 1)"
    using p unfolding power_Suc is_s32_def by linarith+
  then have s: "s32 (2 ^ k - 1) = 2 ^ k - 1" "s32 (2 ^ k * 2) = 2 ^ Suc k" "s32 (2 ^ Suc k - 1) = 2 ^ Suc k - 1"
    by (simp_all only: s32_id power_Suc mult.commute)
  have "(2 ^ k - 1) AND 2 ^ k = (0 :: int)" by (subst and.commute) (simp only: and_mask_mod mod_self)
  moreover have "s32 0 = 0" by (simp add: s32_def)
  ultimately show ?thesis using assms by (simp add: PaUtil_InitializeRingBuffer_def s Let_def PaUtil_FlushRingBuffer_def pa_ok_def
      pa_queued_def pa_avail_def PaUtil_GetRingBufferReadAvailable_def esz_def del: power_Suc)
qed

end
