(* ===== verification/Pa_Threads.thy ===== *)
theory Pa_Threads
  imports Pa_Ring_Buffer
begin

text \<open>
  The PortAudio ring buffer shared by one writing and one reading thread without a lock: the steps of the two threads
  of \<open>pa_ringbuffer.c\<close> as a transition relation, its invariant by rule induction, and the two properties of the
  buffer.  Memory is sequentially consistent: the fences of \<open>pa_memorybarrier.h\<close> keep the
  order of the accesses that the steps are written in.
\<close>

section \<open>One writer and one reader, interleaved\<close>

text \<open>
  The threads run \<open>PaUtil_WriteRingBuffer\<close> and \<open>PaUtil_ReadRingBuffer\<close> in three steps each: the regions, computed from a single
  read of the other thread's index; the copies; the update of the own index.  \<open>sent\<close> and
  \<open>received\<close> record the data of the completed calls.
\<close>

datatype writer = W_idle | W_regions "byte list" regions | W_copied "byte list" regions

datatype reader = R_idle | R_regions nat regions | R_copied "byte list" regions

record spsc =
  ring :: PaUtilRingBuffer
  wr :: writer
  rd_thread :: reader
  sent :: "byte list"
  received :: "byte list"

inductive pa_step :: "spsc \<Rightarrow> spsc \<Rightarrow> bool" where
  write_begin: "wr s = W_idle \<Longrightarrow> n * esz (ring s) \<le> length xs \<Longrightarrow>
    pa_step s (s\<lparr>wr := W_regions xs (PaUtil_GetRingBufferWriteRegions (ring s) (int n))\<rparr>)"
| write_data: "wr s = W_regions xs g \<Longrightarrow> write_copy (ring s) xs g = Some rb \<Longrightarrow>
    pa_step s (s\<lparr>ring := rb, wr := W_copied xs g\<rparr>)"
| write_end: "wr s = W_copied xs g \<Longrightarrow>
    pa_step s (s\<lparr>ring := PaUtil_AdvanceRingBufferWriteIndex (ring s) (count g), wr := W_idle,
      sent := sent s @ take (nat (count g) * esz (ring s)) xs\<rparr>)"
| read_begin: "rd_thread s = R_idle \<Longrightarrow>
    pa_step s (s\<lparr>rd_thread := R_regions n (PaUtil_GetRingBufferReadRegions (ring s) (int n))\<rparr>)"
| read_data: "rd_thread s = R_regions n g \<Longrightarrow> read_copy (ring s) (replicate (n * esz (ring s)) 0) g = Some d \<Longrightarrow>
    pa_step s (s\<lparr>rd_thread := R_copied d g\<rparr>)"
| read_end: "rd_thread s = R_copied d g \<Longrightarrow>
    pa_step s (s\<lparr>ring := PaUtil_AdvanceRingBufferReadIndex (ring s) (count g), rd_thread := R_idle,
      received := received s @ take (nat (count g) * esz (ring s)) d\<rparr>)"

inductive pa_reach :: "spsc \<Rightarrow> bool" where
  start: "PaUtil_InitializeRingBuffer rb es (2 ^ k) mem = (0, rb') \<Longrightarrow> k \<le> 29 \<Longrightarrow> 0 < es \<Longrightarrow> 2 ^ k * es \<le> 2147483647 \<Longrightarrow>
    int (length mem) = 2 ^ k * es \<Longrightarrow> pa_reach \<lparr>ring = rb', wr = W_idle, rd_thread = R_idle, sent = [], received = []\<rparr>"
| step: "pa_reach s \<Longrightarrow> pa_step s s' \<Longrightarrow> pa_reach s'"

text \<open>The bytes of the block a thread is about to copy.\<close>

definition region_bytes :: "nat \<Rightarrow> regions \<Rightarrow> nat set" where
  "region_bytes e g = {nat (dataPtr1 g) ..< nat (dataPtr1 g) + nat (sizePtr1 g) * e} \<union>
     (if sizePtr2 g > 0 then {nat (the (dataPtr2 g)) ..< nat (the (dataPtr2 g)) + nat (sizePtr2 g) * e} else {})"

section \<open>The invariant of the threads\<close>

definition writer_ok :: "nat \<Rightarrow> PaUtilRingBuffer \<Rightarrow> writer \<Rightarrow> bool" where
  "writer_ok k rb w \<longleftrightarrow> (case w of W_idle \<Rightarrow> True
     | W_regions xs g \<Rightarrow> \<exists>n \<le> pa_room rb. n * esz rb \<le> length xs \<and> g = regions_at (2 ^ k) (esz rb) (nat (writeIndex rb) mod 2 ^ k) n
     | W_copied xs g \<Rightarrow> \<exists>n \<le> pa_room rb. n * esz rb \<le> length xs \<and> g = regions_at (2 ^ k) (esz rb) (nat (writeIndex rb) mod 2 ^ k) n \<and>
         take (n * esz rb) (rotate (nat (writeIndex rb) * esz rb) (buffer rb)) = take (n * esz rb) xs)"

definition reader_ok :: "nat \<Rightarrow> PaUtilRingBuffer \<Rightarrow> reader \<Rightarrow> bool" where
  "reader_ok k rb r \<longleftrightarrow> (case r of R_idle \<Rightarrow> True
     | R_regions m g \<Rightarrow> \<exists>n \<le> pa_avail rb. n \<le> m \<and> g = regions_at (2 ^ k) (esz rb) (nat (readIndex rb) mod 2 ^ k) n
     | R_copied d g \<Rightarrow> \<exists>n \<le> pa_avail rb. g = regions_at (2 ^ k) (esz rb) (nat (readIndex rb) mod 2 ^ k) n \<and>
         take (n * esz rb) d = take (n * esz rb) (pa_queued rb))"

definition spsc_inv :: "nat \<Rightarrow> spsc \<Rightarrow> bool" where
  "spsc_inv k s \<longleftrightarrow> pa_ok k (ring s) \<and> received s @ pa_queued (ring s) = sent s \<and>
     writer_ok k (ring s) (wr s) \<and> reader_ok k (ring s) (rd_thread s)"

text \<open>A thread does not mind the other's index moving on.\<close>

lemma reader_ok_grow:
  assumes "reader_ok k rb r" "readIndex rb' = readIndex rb" "esz rb' = esz rb" "pa_avail rb \<le> pa_avail rb'"
    and "pa_queued rb' = pa_queued rb @ ys" "length (pa_queued rb) = pa_avail rb * esz rb"
  shows "reader_ok k rb' r"
proof (cases r)
  case (R_copied d g)
  then obtain n where n: "n \<le> pa_avail rb" "g = regions_at (2 ^ k) (esz rb) (nat (readIndex rb) mod 2 ^ k) n"
      "take (n * esz rb) d = take (n * esz rb) (pa_queued rb)" using assms(1) by (auto simp: reader_ok_def)
  have "n * esz rb \<le> length (pa_queued rb)" using n(1) assms(6) by simp
  then have "take (n * esz rb) d = take (n * esz rb) (pa_queued rb')" using n(3) assms(5) by simp
  moreover have "n \<le> pa_avail rb'" using n(1) assms(4) by simp
  ultimately show ?thesis using n(2) R_copied assms(2,3) by (auto simp: reader_ok_def)
next
  case (R_regions m g)
  then show ?thesis using assms(1-4) by (auto simp: reader_ok_def intro: order.trans)
qed (simp add: reader_ok_def)

lemma writer_ok_grow:
  assumes "writer_ok k rb w" "writeIndex rb' = writeIndex rb" "esz rb' = esz rb" "buffer rb' = buffer rb" "pa_room rb \<le> pa_room rb'"
  shows "writer_ok k rb' w"
  using assms by (cases w) (auto simp: writer_ok_def intro: order.trans)

lemma pa_append:
  assumes "pa_ok k rb" "n \<le> pa_room rb" "take (n * esz rb) (rotate (nat (writeIndex rb) * esz rb) (buffer rb)) = ys"
  shows "pa_queued (PaUtil_AdvanceRingBufferWriteIndex rb (int n)) = pa_queued rb @ ys"
proof -
  let ?R = "rotate (nat (readIndex rb) * esz rb) (buffer rb)" and ?a = "pa_avail rb * esz rb"
  have l: "?a + n * esz rb \<le> length ?R"
    using pa_sizes(1,2) [OF assms(1)] assms(2) by (simp add: add_mult_distrib [symmetric] mult_le_mono1)
  have "rotate (nat (writeIndex rb) * esz rb) (buffer rb) = rotate ?a ?R"
    using pa_position [OF assms(1) refl] by (simp add: rotate_rotate add.commute)
  also have "\<dots> = drop ?a ?R @ take ?a ?R" using l by (simp add: rotate_split)
  finally have "take (n * esz rb) (drop ?a ?R) = ys" using assms(3) l by simp
  then have "take (?a + n * esz rb) ?R = pa_queued rb @ ys" by (simp add: take_add pa_queued_def)
  then show ?thesis using pa_advance_write(2-5) [OF assms(1,2)] by (simp add: pa_queued_def add_mult_distrib)
qed

lemma write_data_inv:
  assumes "spsc_inv k s" "wr s = W_regions xs g" "write_copy (ring s) xs g = Some rb"
  shows "spsc_inv k (s\<lparr>ring := rb, wr := W_copied xs g\<rparr>)"
proof -
  let ?rb = "ring s" and ?e = "esz (ring s)" and ?w = "nat (writeIndex (ring s))"
  have ok: "pa_ok k ?rb" using assms(1) by (simp add: spsc_inv_def)
  obtain n where n: "n \<le> pa_room ?rb" "n * ?e \<le> length xs" "g = regions_at (2 ^ k) ?e (?w mod 2 ^ k) n"
    using assms(1,2) by (auto simp: spsc_inv_def writer_ok_def)
  have "n \<le> 2 ^ k" using n(1) pa_sizes(1) [OF ok] by simp
  then obtain b where b: "rb = ?rb\<lparr>buffer := b\<rparr>" "length b = length (buffer ?rb)"
      "rotate (?w * ?e) b = take (n * ?e) xs @ drop (n * ?e) (rotate (?w * ?e) (buffer ?rb))"
    using write_copy_ok [OF ok _ n(2), of "writeIndex ?rb"] assms(3) n(3) by (metis option.inject)
  have l: "length (take (n * ?e) xs) = n * ?e" using n(2) by simp
  have q: "pa_queued rb = pa_queued ?rb" unfolding b(1) by (rule pa_write_data(1) [OF ok n(1) b(2) l b(3)])
  have r: "reader_ok k rb (rd_thread s)" using assms(1) q by (auto simp: spsc_inv_def reader_ok_def b(1) split: reader.splits)
  have "writer_ok k rb (W_copied xs g)" using n b(3) l by (auto simp: writer_ok_def b(1))
  then show ?thesis using assms(1) q r by (simp add: spsc_inv_def b(1) pa_ok_buffer [OF b(2)])
qed

lemma write_end_inv:
  assumes "spsc_inv k s" "wr s = W_copied xs g"
  shows "spsc_inv k (s\<lparr>ring := PaUtil_AdvanceRingBufferWriteIndex (ring s) (count g), wr := W_idle,
      sent := sent s @ take (nat (count g) * esz (ring s)) xs\<rparr>)"
proof -
  let ?rb = "ring s" and ?e = "esz (ring s)"
  have ok: "pa_ok k ?rb" using assms(1) by (simp add: spsc_inv_def)
  obtain n where n: "n \<le> pa_room ?rb" "g = regions_at (2 ^ k) ?e (nat (writeIndex ?rb) mod 2 ^ k) n"
      "take (n * ?e) (rotate (nat (writeIndex ?rb) * ?e) (buffer ?rb)) = take (n * ?e) xs"
    using assms by (auto simp: spsc_inv_def writer_ok_def)
  let ?rb' = "PaUtil_AdvanceRingBufferWriteIndex ?rb (int n)"
  note a = pa_advance_write [OF ok n(1)] and q = pa_append [OF ok n(1,3)]
  have re: "reader_ok k ?rb (rd_thread s)" using assms(1) by (simp add: spsc_inv_def)
  have "pa_avail ?rb \<le> pa_avail ?rb'" using a(2) by simp
  then have "reader_ok k ?rb' (rd_thread s)" by (rule reader_ok_grow [OF re a(3) a(5) _ q pa_length [OF ok]])
  then show ?thesis using assms(1) a(1) q n(2) by (simp add: spsc_inv_def writer_ok_def)
qed

lemma read_end_inv:
  assumes "spsc_inv k s" "rd_thread s = R_copied d g"
  shows "spsc_inv k (s\<lparr>ring := PaUtil_AdvanceRingBufferReadIndex (ring s) (count g), rd_thread := R_idle,
      received := received s @ take (nat (count g) * esz (ring s)) d\<rparr>)"
proof -
  let ?rb = "ring s" and ?e = "esz (ring s)"
  have ok: "pa_ok k ?rb" using assms(1) by (simp add: spsc_inv_def)
  obtain n where n: "n \<le> pa_avail ?rb" "g = regions_at (2 ^ k) ?e (nat (readIndex ?rb) mod 2 ^ k) n"
      "take (n * ?e) d = take (n * ?e) (pa_queued ?rb)"
    using assms by (auto simp: spsc_inv_def reader_ok_def)
  let ?rb' = "PaUtil_AdvanceRingBufferReadIndex ?rb (int n)"
  note a = pa_advance_read [OF ok n(1)]
  have wo: "writer_ok k ?rb (wr s)" using assms(1) by (simp add: spsc_inv_def)
  have ro: "pa_room ?rb \<le> pa_room ?rb'" using pa_sizes(1) [OF ok] pa_sizes(1) [OF a(1)] a(2) by linarith
  have "writer_ok k ?rb' (wr s)" by (rule writer_ok_grow [OF wo a(4) a(6) a(5) ro])
  moreover have "received s @ take (n * ?e) (pa_queued ?rb) @ drop (n * ?e) (pa_queued ?rb) = sent s"
    using assms(1) by (simp add: spsc_inv_def)
  ultimately show ?thesis using assms(1) a(1,3) n(2,3) by (simp add: spsc_inv_def reader_ok_def)
qed

lemma step_inv:
  assumes "pa_step s s'" "spsc_inv k s"
  shows "spsc_inv k s'"
  using assms
proof (induction rule: pa_step.induct)
  case (write_begin s n xs)
  have "min n (pa_room (ring s)) * esz (ring s) \<le> length xs"
    using write_begin(2) by (meson le_trans min.cobounded1 mult_le_mono1)
  then have "writer_ok k (ring s) (W_regions xs (PaUtil_GetRingBufferWriteRegions (ring s) (int n)))"
    using pa_write_regions [of k "ring s" n] write_begin(3) unfolding writer_ok_def writer.case spsc_inv_def
    by (intro exI [of _ "min n (pa_room (ring s))"]) simp
  then show ?case using write_begin(3) by (simp add: spsc_inv_def)
next
  case (read_begin s n)
  then have "reader_ok k (ring s) (R_regions n (PaUtil_GetRingBufferReadRegions (ring s) (int n)))"
    using pa_read_regions [of k "ring s" n] unfolding reader_ok_def reader.case spsc_inv_def
    by (intro exI [of _ "min n (pa_avail (ring s))"]) simp
  then show ?case using read_begin by (simp add: spsc_inv_def)
next
  case (read_data s m g d)
  then have ok: "pa_ok k (ring s)" by (simp add: spsc_inv_def)
  obtain n where n: "n \<le> pa_avail (ring s)" "n \<le> m" "g = regions_at (2 ^ k) (esz (ring s)) (nat (readIndex (ring s)) mod 2 ^ k) n"
    using read_data by (auto simp: spsc_inv_def reader_ok_def)
  have l: "n \<le> 2 ^ k" "n * esz (ring s) \<le> length (replicate (m * esz (ring s)) (0 :: byte))"
    using n pa_sizes(1) [OF ok] by (simp_all add: mult_le_mono1)
  have "take (n * esz (ring s)) d = take (n * esz (ring s)) (pa_queued (ring s))"
    using read_copy_ok [OF ok l, of "readIndex (ring s)"] read_data(2) n pa_sizes(1,2) [OF ok]
    by (auto simp: pa_queued_def min_def)
  then have "reader_ok k (ring s) (R_copied d g)" using n by (auto simp: reader_ok_def)
  then show ?case using read_data by (simp add: spsc_inv_def)
qed (simp_all add: write_data_inv write_end_inv read_end_inv)

lemma reach_inv: "pa_reach s \<Longrightarrow> \<exists>k. spsc_inv k s"
proof (induction rule: pa_reach.induct)
  case (start rb es k mem rb')
  then have "spsc_inv k \<lparr>ring = rb', wr = W_idle, rd_thread = R_idle, sent = [], received = []\<rparr>"
    using pa_initialize [OF start(2-5), of rb] by (simp add: spsc_inv_def writer_ok_def reader_ok_def)
  then show ?case by blast
next
  case (step s s')
  then show ?case using step_inv by blast
qed

section \<open>The threads never touch the same byte\<close>

lemma add_mod_inj:
  fixes p x y T :: nat
  assumes "x < T" "y < T" "(p + x) mod T = (p + y) mod T"
  shows "x = y"
proof -
  have "rotate p [0..<T] ! x = rotate p [0..<T] ! y" using assms by (simp add: nth_rotate add.commute)
  then show ?thesis using assms(1,2) nth_eq_iff_index_eq [of "rotate p [0..<T]" x y] by simp
qed

lemma region_bytes_regions_at:
  "region_bytes e (regions_at N e i n) =
     (if N < i + n then {i * e ..< i * e + (N - i) * e} \<union> {0 ..< (n - (N - i)) * e} else {i * e ..< i * e + n * e})"
  by (auto simp: region_bytes_def regions_at_def simp del: of_nat_mult of_nat_diff)

lemma region_bytes_at:
  assumes "i < N" "n \<le> N" "j \<in> region_bytes e (regions_at N e i n)"
  shows "\<exists>x < n * e. j = (i * e + x) mod (N * e)"
proof -
  have e: "(N - i) * e + i * e = N * e" using assms(1) by (simp add: add_mult_distrib [symmetric])
  have ne: "n * e \<le> N * e" using assms(2) by (rule mult_le_mono1)
  consider (one) "N < i + n" "i * e \<le> j" "j < i * e + (N - i) * e" | (two) "N < i + n" "j < (n - (N - i)) * e"
    | (all) "\<not> N < i + n" "i * e \<le> j" "j < i * e + n * e"
    using assms(3) unfolding region_bytes_regions_at by (auto split: if_splits)
  then show ?thesis
  proof cases
    case one
    then have "(N - i) * e \<le> n * e" by (intro mult_le_mono1) linarith
    then have "j - i * e < n * e" "j < N * e" using one e by linarith+
    then show ?thesis using one(2) by (intro exI [of _ "j - i * e"]) simp
  next
    case two
    have "(n - (N - i)) * e + (N - i) * e = n * e" using two(1) assms(1) by (simp add: add_mult_distrib [symmetric])
    then have j: "j + (N - i) * e < n * e" "i * e + (j + (N - i) * e) = j + N * e" "j < N * e" using two(2) e ne by linarith+
    then have "j = (i * e + (j + (N - i) * e)) mod (N * e)" unfolding j(2) by simp
    then show ?thesis using j(1) by blast
  next
    case all
    then have "n * e \<le> (N - i) * e" by (intro mult_le_mono1) linarith
    then have "j - i * e < n * e" "j < N * e" using all e by linarith+
    then show ?thesis using all(2) by (intro exI [of _ "j - i * e"]) simp
  qed
qed

lemma regions_disjoint:
  assumes "pa_ok k rb" "n \<le> pa_room rb" "m \<le> pa_avail rb"
  shows "region_bytes (esz rb) (regions_at (2 ^ k) (esz rb) (nat (writeIndex rb) mod 2 ^ k) n) \<inter>
    region_bytes (esz rb) (regions_at (2 ^ k) (esz rb) (nat (readIndex rb) mod 2 ^ k) m) = {}"
proof (rule ccontr)
  let ?e = "esz rb" and ?T = "2 ^ k * esz rb" and ?r = "nat (readIndex rb) * esz rb"
  assume "\<not> ?thesis"
  then obtain j where j: "j \<in> region_bytes ?e (regions_at (2 ^ k) ?e (nat (writeIndex rb) mod 2 ^ k) n)"
      "j \<in> region_bytes ?e (regions_at (2 ^ k) ?e (nat (readIndex rb) mod 2 ^ k) m)" by blast
  have s: "pa_avail rb + pa_room rb = 2 ^ k" by (rule pa_sizes(1) [OF assms(1)])
  have nm: "n \<le> 2 ^ k" "m \<le> 2 ^ k" using s assms(2,3) by linarith+
  obtain x where x: "x < n * ?e" "j = (nat (writeIndex rb) mod 2 ^ k * ?e + x) mod ?T" using region_bytes_at [OF _ nm(1) j(1)] by auto
  obtain y where y: "y < m * ?e" "j = (nat (readIndex rb) mod 2 ^ k * ?e + y) mod ?T" using region_bytes_at [OF _ nm(2) j(2)] by auto
  have "j = (nat (writeIndex rb) * ?e mod ?T + x) mod ?T" using x(2) by (simp add: mult_mod_left)
  then have "j = (?r + (pa_avail rb * ?e + x)) mod ?T" unfolding pa_position_mod [OF assms(1)] by (simp add: mod_add_left_eq add.assoc)
  moreover have "j = (?r + y) mod ?T" using y(2) unfolding mult_mod_left [of "nat (readIndex rb)"] mod_add_left_eq .
  moreover have "n * ?e \<le> pa_room rb * ?e" "m * ?e \<le> pa_avail rb * ?e" "pa_avail rb * ?e + pa_room rb * ?e = ?T"
    using assms(2,3) s by (simp_all add: mult_le_mono1 add_mult_distrib [symmetric])
  ultimately show False using add_mod_inj [of "pa_avail rb * ?e + x" ?T y ?r] x(1) y(1) by linarith
qed

section \<open>Properties\<close>

text \<open>A record before it is initialised.\<close>

definition raw_ring :: PaUtilRingBuffer where
  "raw_ring = \<lparr>bufferSize = 0, writeIndex = 0, readIndex = 0, bigMask = 0, smallMask = 0, elementSizeBytes = 0, buffer = []\<rparr>"


text \<open>C18: The PortAudio ring buffer is a bounded byte queue.  \<open>PaUtil_InitializeRingBuffer\<close> accepts a capacity that is a power of
  two up to \<open>2 ^ 29\<close>; over any sequence of \<open>PaUtil_WriteRingBuffer\<close> and \<open>PaUtil_ReadRingBuffer\<close> calls from then on every
  copy stays in its block, and the bytes the writes accepted are those read followed by those still queued,
  across any number of wrap-arounds of the indices.\<close>

theorem pa_ring_buffer_stream:
  assumes "k \<le> 29" "0 < es" "2 ^ k * es \<le> 2147483647" "int (length mem) = 2 ^ k * es" "list_all (op_ok (nat es)) ops"
  shows "\<exists>rb0 acc out rb'. PaUtil_InitializeRingBuffer rb es (2 ^ k) mem = (0, rb0) \<and>
    run_ops esz pa_put pa_get rb0 ops = Some (acc, out, rb') \<and> acc = out @ pa_queued rb'"
proof -
  obtain rb0 where r: "PaUtil_InitializeRingBuffer rb es (2 ^ k) mem = (0, rb0)" "pa_ok k rb0" "pa_queued rb0 = []" "esz rb0 = nat es"
    using pa_initialize [OF assms(1-4)] by blast
  have "pa_inv rb0" "list_all (op_ok (esz rb0)) ops" using r(2,4) assms(5) by (auto simp: pa_inv_def)
  then show ?thesis using pa.run_conserves [of rb0 ops] r(1,3) by auto
qed

theorem pa_ring_buffer_stream_witness:
  "\<exists>rb0 acc out rb'. PaUtil_InitializeRingBuffer raw_ring 2 4 (replicate 8 0) = (0, rb0) \<and>
    run_ops esz pa_put pa_get rb0 [Put [1, 2, 3, 4, 5, 6] 3, Get 2, Put [7, 8, 9, 10, 11, 12] 3, Get 4] = Some (acc, out, rb') \<and>
    acc = out @ pa_queued rb'"
  using pa_ring_buffer_stream [of 2 2 "replicate 8 0" "[Put [1, 2, 3, 4, 5, 6] 3, Get 2, Put [7, 8, 9, 10, 11, 12] 3, Get 4]" raw_ring]
  by simp

text \<open>C2: One writer and one reader need no lock.  In every interleaving of the steps of a writing and a reading thread,
  from a freshly initialised buffer on: the bytes received, followed by those queued, are the bytes sent;
  the copies of both threads stay in the block, so that each can complete its call whatever the other does; and the
  bytes the writer is about to copy to and the reader to copy from are disjoint, so that it does not matter in which order or in what
  pieces the copies happen.\<close>

theorem pa_ring_buffer_spsc:
  assumes "pa_reach s"
  shows "received s @ pa_queued (ring s) = sent s \<and>
    (\<forall>xs g. wr s = W_regions xs g \<longrightarrow> write_copy (ring s) xs g \<noteq> None) \<and>
    (\<forall>m h. rd_thread s = R_regions m h \<longrightarrow> read_copy (ring s) (replicate (m * esz (ring s)) 0) h \<noteq> None) \<and>
    (\<forall>xs g m h. wr s = W_regions xs g \<and> rd_thread s = R_regions m h \<longrightarrow>
       region_bytes (esz (ring s)) g \<inter> region_bytes (esz (ring s)) h = {})"
proof -
  obtain k where k: "spsc_inv k s" using reach_inv [OF assms] by blast
  let ?rb = "ring s" and ?e = "esz (ring s)"
  have ok: "pa_ok k ?rb" using k by (simp add: spsc_inv_def)
  have s: "pa_avail ?rb + pa_room ?rb = 2 ^ k" by (rule pa_sizes(1) [OF ok])
  have w: "\<exists>n \<le> pa_room ?rb. n * ?e \<le> length xs \<and> g = regions_at (2 ^ k) ?e (nat (writeIndex ?rb) mod 2 ^ k) n"
    if "wr s = W_regions xs g" for xs g using k that by (simp add: spsc_inv_def writer_ok_def)
  have r: "\<exists>n \<le> pa_avail ?rb. n \<le> m \<and> h = regions_at (2 ^ k) ?e (nat (readIndex ?rb) mod 2 ^ k) n"
    if "rd_thread s = R_regions m h" for m h using k that by (simp add: spsc_inv_def reader_ok_def)
  have "write_copy ?rb xs g \<noteq> None" if g: "wr s = W_regions xs g" for xs g
  proof -
    obtain n where n: "n \<le> pa_room ?rb" "n * ?e \<le> length xs" "g = regions_at (2 ^ k) ?e (nat (writeIndex ?rb) mod 2 ^ k) n"
      using w [OF g] by blast
    have "n \<le> 2 ^ k" using n(1) s by linarith
    then show ?thesis using write_copy_ok [OF ok _ n(2), of "writeIndex ?rb"] n(3) by blast
  qed
  moreover have "read_copy ?rb (replicate (m * ?e) 0) h \<noteq> None" if h: "rd_thread s = R_regions m h" for m h
  proof -
    obtain n where n: "n \<le> pa_avail ?rb" "n \<le> m" "h = regions_at (2 ^ k) ?e (nat (readIndex ?rb) mod 2 ^ k) n"
      using r [OF h] by blast
    have "n \<le> 2 ^ k" using n(1) s by linarith
    then show ?thesis using read_copy_ok [OF ok, of n "replicate (m * ?e) 0" "readIndex ?rb"] n(2,3) by (simp add: mult_le_mono1)
  qed
  moreover have "region_bytes ?e g \<inter> region_bytes ?e h = {}" if "wr s = W_regions xs g" "rd_thread s = R_regions m h" for xs g m h
    using w [OF that(1)] r [OF that(2)] regions_disjoint [OF ok] by blast
  ultimately show ?thesis using k by (simp add: spsc_inv_def)
qed

theorem pa_ring_buffer_spsc_witness:
  "\<exists>s. pa_reach s \<and> wr s = W_regions [5] (PaUtil_GetRingBufferWriteRegions (ring s) 1) \<and> write_copy (ring s) [5]
     (PaUtil_GetRingBufferWriteRegions (ring s) 1) \<noteq> None"
proof -
  obtain rb where r: "PaUtil_InitializeRingBuffer raw_ring 1 (2 ^ 1) [0, 0] = (0, rb)" "esz rb = nat 1"
    using pa_initialize [of 1 1 "[0, 0]" raw_ring] by auto
  let ?s = "\<lparr>ring = rb, wr = W_idle, rd_thread = R_idle, sent = [], received = []\<rparr>"
  have "pa_reach ?s" using r(1) by (rule pa_reach.start) simp_all
  moreover have "pa_step ?s (?s\<lparr>wr := W_regions [5] (PaUtil_GetRingBufferWriteRegions (ring ?s) (int 1))\<rparr>)"
    using r(2) by (intro write_begin) simp_all
  ultimately have "pa_reach (?s\<lparr>wr := W_regions [5] (PaUtil_GetRingBufferWriteRegions (ring ?s) (int 1))\<rparr>)" by (rule pa_reach.step)
  then show ?thesis using pa_ring_buffer_spsc by (intro exI conjI) (assumption, simp, fastforce)
qed

end
