(* ===== verification/Isac_Arith.thy ===== *)
theory Isac_Arith
  imports C_Prelude
begin

unbundle bit_operations_syntax

text \<open>
  The arithmetic coder of the fixed point iSAC codec, \<^verbatim>\<open>arith_routines.c\<close> and \<^verbatim>\<open>arith_routines_hist.c\<close>: encoding of
  symbols with given cumulative frequency tables, termination of the stream, and decoding by bisection or by steps.

  The two bit stream structs are records; the decoder's has one field more.  \<^verbatim>\<open>uint16_t\<close> and \<^verbatim>\<open>uint32_t\<close> are words, which
  wrap.  A pointer into the stream or a table is its index; an access outside the array is
  \<open>None\<close>.  The \<^verbatim>\<open>return\<close>s inside the loops are the left summand of a sum: the code and the state they leave.
\<close>

section \<open>The bit streams\<close>

record Bitstr_enc =
  stream :: "16 word list"
  W_upper :: "32 word"
  streamval :: "32 word"
  stream_index :: nat
  full :: int

record Bitstr_dec = Bitstr_enc +
  stream_size :: nat

definition STREAM_MAXW16_60MS :: nat where
  "STREAM_MAXW16_60MS = 200"

definition INTERNAL_STREAM_SIZE_W16 :: nat where
  "INTERNAL_STREAM_SIZE_W16 = 300 + 5"

definition ISAC_DISALLOWED_BITSTREAM_LENGTH :: int where
  "ISAC_DISALLOWED_BITSTREAM_LENGTH = 6440"

section \<open>Encoding\<close>

text \<open>The bound of an interval of width \<open>W\<close> for the cumulative frequency \<open>c\<close>.\<close>

definition cdf_scale :: "32 word \<Rightarrow> 16 word \<Rightarrow> 32 word" where
  "cdf_scale W c =
     (let W_upper_LSB = W AND 0x0000FFFF; W_upper_MSB = drop_bit 16 W
      in W_upper_MSB * ucast c + drop_bit 16 (W_upper_LSB * ucast c))"

text \<open>The carry: add one to the word before \<open>p\<close>, and to the one before it when that wraps.\<close>

fun carry_back :: "16 word list \<Rightarrow> nat \<Rightarrow> 16 word list option" where
  "carry_back st 0 = None"
| "carry_back st (Suc p) = do {
     v \<leftarrow> fetch st p;
     st \<leftarrow> store st p (v + 1);
     if v + 1 = 0 then carry_back st p else Some st
   }"

definition propagate_carry :: "Bitstr_enc \<Rightarrow> nat \<Rightarrow> Bitstr_enc option" where
  "propagate_carry sd p =
     (if full sd = 0 then do {
        v \<leftarrow> fetch (stream sd) p;
        let negCarry = v + 0x0100;
        st \<leftarrow> store (stream sd) p negCarry;
        st \<leftarrow> (if negCarry = 0 then carry_back st p else Some st);
        Some (sd\<lparr>stream := st\<rparr>)
      } else do {
        st \<leftarrow> carry_back (stream sd) p;
        Some (sd\<lparr>stream := st\<rparr>)
      })"

definition put_byte :: "Bitstr_enc \<Rightarrow> nat \<Rightarrow> (nat \<times> Bitstr_enc) option" where
  "put_byte sd p =
     (if full sd = 0 then do {
        v \<leftarrow> fetch (stream sd) p;
        st \<leftarrow> store (stream sd) p (v + ucast (drop_bit 24 (streamval sd)));
        Some (p + 1, sd\<lparr>stream := st, full := 1\<rparr>)
      } else do {
        st \<leftarrow> store (stream sd) p (ucast (push_bit 8 (drop_bit 24 (streamval sd))));
        Some (p, sd\<lparr>stream := st, full := 0\<rparr>)
      })"

lemma put_byte_progress:
  "put_byte sd p = Some (p', sd') \<Longrightarrow> \<not> STREAM_MAXW16_60MS - 1 < p' \<Longrightarrow>
   2 * (STREAM_MAXW16_60MS - p') + (if full sd' = 0 then 0 else 1) < 2 * (STREAM_MAXW16_60MS - p) + (if full sd = 0 then 0 else 1)"
  by (auto simp: put_byte_def STREAM_MAXW16_60MS_def split: if_splits bind_splits)

text \<open>Renormalisation: while the interval is below \<open>2 ^ 24\<close>, put a byte and scale by \<open>2 ^ 8\<close>.\<close>

function enc_renorm :: "32 word \<Rightarrow> nat \<Rightarrow> Bitstr_enc \<Rightarrow> (Bitstr_enc + 32 word \<times> nat \<times> Bitstr_enc) option" where
  "enc_renorm W p sd =
     (if W AND 0xFF000000 \<noteq> 0 then Some (Inr (W, p, sd))
      else case put_byte sd p of None \<Rightarrow> None
        | Some (p', sd') \<Rightarrow>
            if p' > STREAM_MAXW16_60MS - 1 then Some (Inl sd')
            else enc_renorm (push_bit 8 W) p' (sd'\<lparr>streamval := push_bit 8 (streamval sd')\<rparr>))"
  by pat_completeness auto
termination
  by (relation "measure (\<lambda>(W, p, sd). 2 * (STREAM_MAXW16_60MS - p) + (if full sd = 0 then 0 else 1))")
    (use put_byte_progress in auto)

declare enc_renorm.simps [simp del]

definition enc_interval ::
    "16 word \<Rightarrow> 16 word \<Rightarrow> 32 word \<Rightarrow> nat \<Rightarrow> Bitstr_enc \<Rightarrow> (Bitstr_enc + 32 word \<times> nat \<times> Bitstr_enc) option" where
  "enc_interval cdfLo cdfHi W p sd = do {
     let W_lower = cdf_scale W cdfLo + 1;
     let W = cdf_scale W cdfHi - W_lower;
     let sd = sd\<lparr>streamval := streamval sd + W_lower\<rparr>;
     sd \<leftarrow> (if streamval sd < W_lower then propagate_carry sd p else Some sd);
     enc_renorm W p sd
   }"

definition enc_symbol ::
    "16 word list \<Rightarrow> int \<Rightarrow> 32 word \<Rightarrow> nat \<Rightarrow> Bitstr_enc \<Rightarrow> (Bitstr_enc + 32 word \<times> nat \<times> Bitstr_enc) option" where
  "enc_symbol cdf data W p sd = do {
     cdfLo \<leftarrow> fetch cdf (nat (u32 data));
     cdfHi \<leftarrow> fetch cdf (nat (u32 data) + 1);
     enc_interval cdfLo cdfHi W p sd
   }"

fun enc_hist ::
    "nat \<Rightarrow> int list \<Rightarrow> 16 word list list \<Rightarrow> 32 word \<Rightarrow> nat \<Rightarrow> Bitstr_enc \<Rightarrow> (Bitstr_enc + 32 word \<times> nat \<times> Bitstr_enc) option" where
  "enc_hist 0 data cdf W p sd = Some (Inr (W, p, sd))"
| "enc_hist (Suc k) (d # data) (c # cdf) W p sd = do {
     r \<leftarrow> enc_symbol c d W p sd;
     case r of Inl sd \<Rightarrow> Some (Inl sd) | Inr (W, p, sd) \<Rightarrow> enc_hist k data cdf W p sd
   }"
| "enc_hist (Suc k) data cdf W p sd = None"

definition WebRtcIsacfix_EncHistMulti ::
    "Bitstr_enc \<Rightarrow> int list \<Rightarrow> 16 word list list \<Rightarrow> int \<Rightarrow> (int \<times> Bitstr_enc) option" where
  "WebRtcIsacfix_EncHistMulti sd data cdf lenData = do {
     r \<leftarrow> enc_hist (nat lenData) data cdf (W_upper sd) (stream_index sd) sd;
     Some (case r of Inl sd \<Rightarrow> (- ISAC_DISALLOWED_BITSTREAM_LENGTH, sd)
       | Inr (W, p, sd) \<Rightarrow> (0, sd\<lparr>stream_index := p mod 65536, W_upper := W\<rparr>))
   }"

definition WebRtcIsacfix_EncTerminate :: "Bitstr_enc \<Rightarrow> (int \<times> Bitstr_enc) option" where
  "WebRtcIsacfix_EncTerminate sd =
     (let p = stream_index sd in
      if W_upper sd > 0x01FFFFFF then do {
        let sd = sd\<lparr>streamval := streamval sd + 0x01000000\<rparr>;
        sd \<leftarrow> (if streamval sd < 0x01000000 then propagate_carry sd p else Some sd);
        (p, sd) \<leftarrow> put_byte sd p;
        Some (s16 (int p * 2 + (if full sd = 0 then 1 else 0)), sd)
      } else do {
        let sd = sd\<lparr>streamval := streamval sd + 0x00010000\<rparr>;
        sd \<leftarrow> (if streamval sd < 0x00010000 then propagate_carry sd p else Some sd);
        if full sd \<noteq> 0 then do {
          st \<leftarrow> store (stream sd) p (ucast (drop_bit 16 (streamval sd)));
          Some (s16 (int (p + 1) * 2), sd\<lparr>stream := st\<rparr>)
        } else do {
          v \<leftarrow> fetch (stream sd) p;
          st \<leftarrow> store (stream sd) p (v OR ucast (drop_bit 24 (streamval sd)));
          st \<leftarrow> store st (p + 1) (ucast (drop_bit 8 (streamval sd)) AND 0xFF00);
          Some (s16 (int (p + 1) * 2 + 1), sd\<lparr>stream := st\<rparr>)
        }
      })"

section \<open>Decoding\<close>

text \<open>A read through a pointer into a table; before its start it is outside.\<close>

definition table_at :: "'a list \<Rightarrow> int \<Rightarrow> 'a option" where
  "table_at t i = (if i < 0 then None else fetch t (nat i))"

definition dec_first :: "Bitstr_dec \<Rightarrow> (nat \<times> 32 word) option" where
  "dec_first sd =
     (if stream_index sd = 0 then do {
        a \<leftarrow> fetch (stream sd) 0;
        b \<leftarrow> fetch (stream sd) 1;
        Some (2, push_bit 16 (ucast a) OR ucast b)
      } else Some (stream_index sd, streamval sd))"

text \<open>The local variables of the decoders that live across symbols.\<close>

record dec_regs =
  r_lower :: "32 word"
  r_upper :: "32 word"
  r_val :: "32 word"
  r_ptr :: nat

definition get_byte :: "Bitstr_dec \<Rightarrow> dec_regs \<Rightarrow> (dec_regs \<times> Bitstr_dec) option" where
  "get_byte sd r = do {
     v \<leftarrow> fetch (stream sd) (r_ptr r);
     Some (if full sd = 0
       then (r\<lparr>r_val := push_bit 8 (r_val r) OR (ucast v AND 0x00FF), r_ptr := r_ptr r + 1\<rparr>, sd\<lparr>full := 1\<rparr>)
       else (r\<lparr>r_val := push_bit 8 (r_val r) OR drop_bit 8 (ucast v)\<rparr>, sd\<lparr>full := 0\<rparr>))
   }"

lemma get_byte_progress:
  "get_byte sd r = Some (r', sd') \<Longrightarrow> stream sd' = stream sd \<and>
   2 * (length (stream sd) - r_ptr r') + (if full sd' = 0 then 0 else 1) < 2 * (length (stream sd) - r_ptr r) + (if full sd = 0 then 0 else 1)"
  by (auto simp: get_byte_def fetch_def split: if_splits bind_splits)

function dec_renorm :: "Bitstr_dec \<Rightarrow> dec_regs \<Rightarrow> (dec_regs \<times> Bitstr_dec) option" where
  "dec_renorm sd r =
     (if r_upper r AND 0xFF000000 \<noteq> 0 then Some (r, sd)
      else case get_byte sd r of None \<Rightarrow> None
        | Some (r', sd') \<Rightarrow> dec_renorm sd' (r'\<lparr>r_upper := push_bit 8 (r_upper r')\<rparr>))"
  by pat_completeness auto
termination
  by (relation "measure (\<lambda>(sd, r). 2 * (length (stream sd) - r_ptr r) + (if full sd = 0 then 0 else 1))")
    (use get_byte_progress in \<open>auto, fastforce+\<close>)

declare dec_renorm.simps [simp del]

text \<open>The end of both loop bodies: shift the interval to start at zero, renormalise.\<close>

definition dec_shift :: "Bitstr_dec \<Rightarrow> dec_regs \<Rightarrow> (dec_regs \<times> Bitstr_dec) option" where
  "dec_shift sd r =
     (let lower = r_lower r + 1
      in dec_renorm sd (r\<lparr>r_lower := lower, r_upper := r_upper r - lower, r_val := r_val r - lower\<rparr>))"

text \<open>The bisection: the table position it ends at, the last bound, and the interval so far.\<close>

fun bisect :: "32 word \<Rightarrow> 16 word list \<Rightarrow> 32 word \<Rightarrow> nat \<Rightarrow> int \<Rightarrow> 32 word \<Rightarrow> 32 word \<Rightarrow> (int \<times> 32 word \<times> 32 word \<times> 32 word) option" where
  "bisect W cdf val sizeTmp cdfPtr lower upper =
     (case table_at cdf cdfPtr of None \<Rightarrow> None
      | Some c \<Rightarrow>
          let W_tmp = cdf_scale W c
          in if sizeTmp < 2 then Some (cdfPtr, W_tmp, lower, upper)
             else if val > W_tmp then bisect W cdf val (sizeTmp div 2) (cdfPtr + int (sizeTmp div 2)) W_tmp upper
             else bisect W cdf val (sizeTmp div 2) (cdfPtr - int (sizeTmp div 2)) lower W_tmp)"

declare bisect.simps [simp del]

text \<open>Decoding of one symbol: an error code, with the symbol when it has been stored already, or the symbol and the new state.\<close>

type_synonym symbol_result = "(int \<times> int option \<times> Bitstr_dec + int \<times> dec_regs \<times> Bitstr_dec) option"

definition bisect_symbol :: "16 word list \<times> 16 word \<Rightarrow> Bitstr_dec \<Rightarrow> dec_regs \<Rightarrow> symbol_result" where
  "bisect_symbol t sd r = (case t of (cdf, cdfSize) \<Rightarrow> do {
     let sizeTmp = unat cdfSize div 2;
     (cdfPtr, W_tmp, lower, upper) \<leftarrow> bisect (r_upper r) cdf (r_val r) sizeTmp (int sizeTmp - 1) (r_lower r) (r_upper r);
     let (d, lower, upper) = (if r_val r > W_tmp then (s16 cdfPtr, W_tmp, upper) else (s16 (cdfPtr - 1), lower, W_tmp));
     (r, sd) \<leftarrow> dec_shift sd (r\<lparr>r_lower := lower, r_upper := upper\<rparr>);
     Some (if r_upper r = 0 then Inl (-2, Some d, sd) else Inr (d, r, sd))
   })"

text \<open>The steps up, from a position whose bound \<open>lower\<close> is below the value, and down, from one whose bound \<open>upper\<close> is not.\<close>

function steps_up :: "32 word \<Rightarrow> 16 word list \<Rightarrow> 32 word \<Rightarrow> nat \<Rightarrow> 32 word \<Rightarrow> (int + nat \<times> 32 word \<times> 32 word) option" where
  "steps_up W cdf val cdfPtr lower =
     (case fetch cdf cdfPtr of None \<Rightarrow> None
      | Some c \<Rightarrow> if c = 65535 then Some (Inl (-3))
          else case fetch cdf (cdfPtr + 1) of None \<Rightarrow> None
            | Some c' \<Rightarrow>
                let W_tmp = cdf_scale W c'
                in if val \<le> W_tmp then Some (Inr (cdfPtr + 1, lower, W_tmp))
                   else steps_up W cdf val (cdfPtr + 1) W_tmp)"
  by pat_completeness auto
termination
  by (relation "measure (\<lambda>(W, cdf, val, p, lower). length cdf - p)") (auto simp: fetch_def split: if_splits)

declare steps_up.simps [simp del]

fun steps_down :: "32 word \<Rightarrow> 16 word list \<Rightarrow> 32 word \<Rightarrow> nat \<Rightarrow> 32 word \<Rightarrow> (int + nat \<times> 32 word \<times> 32 word) option" where
  "steps_down W cdf val 0 upper = Some (Inl (-3))"
| "steps_down W cdf val (Suc cdfPtr) upper =
     (case fetch cdf cdfPtr of None \<Rightarrow> None
      | Some c \<Rightarrow>
          let W_tmp = cdf_scale W c
          in if val > W_tmp then Some (Inr (cdfPtr, W_tmp, upper))
             else steps_down W cdf val cdfPtr W_tmp)"

definition one_step_symbol :: "16 word list \<times> 16 word \<Rightarrow> Bitstr_dec \<Rightarrow> dec_regs \<Rightarrow> symbol_result" where
  "one_step_symbol t sd r = (case t of (cdf, initIndex) \<Rightarrow> do {
     let p = unat initIndex;
     c \<leftarrow> fetch cdf p;
     let W_tmp = cdf_scale (r_upper r) c;
     f \<leftarrow> (if r_val r > W_tmp
       then map_option (map_sum id (\<lambda>(q, lu). (s16 (int q - 1), lu))) (steps_up (r_upper r) cdf (r_val r) p W_tmp)
       else map_option (map_sum id (\<lambda>(q, lu). (s16 (int q), lu))) (steps_down (r_upper r) cdf (r_val r) p W_tmp));
     case f of Inl e \<Rightarrow> Some (Inl (e, None, sd))
     | Inr (d, lower, upper) \<Rightarrow> do {
         (r, sd) \<leftarrow> dec_shift sd (r\<lparr>r_lower := lower, r_upper := upper\<rparr>);
         Some (Inr (d, r, sd))
       }
   })"

text \<open>The loop over the symbols; \<open>i\<close> is the position in \<^verbatim>\<open>data\<close>.\<close>

fun dec_loop ::
    "('t \<Rightarrow> Bitstr_dec \<Rightarrow> dec_regs \<Rightarrow> symbol_result) \<Rightarrow> nat \<Rightarrow> 't list \<Rightarrow> int list \<Rightarrow> nat \<Rightarrow> Bitstr_dec \<Rightarrow> dec_regs \<Rightarrow>
     (int \<times> int list \<times> Bitstr_dec + int list \<times> dec_regs \<times> Bitstr_dec) option" where
  "dec_loop step 0 ts data i sd r = Some (Inr (data, r, sd))"
| "dec_loop step (Suc k) (t # ts) data i sd r = do {
     x \<leftarrow> step t sd r;
     case x of Inl (e, y, sd) \<Rightarrow> do { data \<leftarrow> (case y of None \<Rightarrow> Some data | Some d \<Rightarrow> store data i d); Some (Inl (e, data, sd)) }
     | Inr (d, r, sd) \<Rightarrow> do { data \<leftarrow> store data i d; dec_loop step k ts data (i + 1) sd r }
   }"
| "dec_loop step (Suc k) [] data i sd r = None"

definition dec_multi ::
    "('t \<Rightarrow> Bitstr_dec \<Rightarrow> dec_regs \<Rightarrow> symbol_result) \<Rightarrow> int list \<Rightarrow> Bitstr_dec \<Rightarrow> 't list \<Rightarrow> int \<Rightarrow> (int \<times> int list \<times> Bitstr_dec) option" where
  "dec_multi step data sd ts lenData =
     (if W_upper sd = 0 then Some (-2, data, sd) else do {
        (p, val) \<leftarrow> dec_first sd;
        x \<leftarrow> dec_loop step (nat lenData) ts data 0 sd \<lparr>r_lower = 0, r_upper = W_upper sd, r_val = val, r_ptr = p\<rparr>;
        Some (case x of Inl y \<Rightarrow> y
          | Inr (data, r, sd) \<Rightarrow>
              let sd = sd\<lparr>stream_index := r_ptr r mod 65536, W_upper := r_upper r, streamval := r_val r\<rparr>
              in (s16 (int (stream_index sd) * 2 - (if r_upper r > 0x01FFFFFF then 3 else 2) + (if full sd = 0 then 1 else 0)), data, sd))
      })"

definition WebRtcIsacfix_DecHistBisectMulti ::
    "int list \<Rightarrow> Bitstr_dec \<Rightarrow> 16 word list list \<Rightarrow> 16 word list \<Rightarrow> int \<Rightarrow> (int \<times> int list \<times> Bitstr_dec) option" where
  "WebRtcIsacfix_DecHistBisectMulti data sd cdf cdfSize lenData = dec_multi bisect_symbol data sd (zip cdf cdfSize) lenData"

definition WebRtcIsacfix_DecHistOneStepMulti ::
    "int list \<Rightarrow> Bitstr_dec \<Rightarrow> 16 word list list \<Rightarrow> 16 word list \<Rightarrow> int \<Rightarrow> (int \<times> int list \<times> Bitstr_dec) option" where
  "WebRtcIsacfix_DecHistOneStepMulti data sd cdf initIndex lenData = dec_multi one_step_symbol data sd (zip cdf initIndex) lenData"

section \<open>Initialisation and packets\<close>

definition InitializeDecoderBitstream :: "nat \<Rightarrow> Bitstr_dec \<Rightarrow> Bitstr_dec" where
  "InitializeDecoderBitstream stream_size_bytes bitstream =
     bitstream\<lparr>W_upper := 0xFFFFFFFF, streamval := 0, stream_index := 0, full := 1,
       stream_size := sz_add stream_size_bytes 1 div 2, stream := replicate (length (stream bitstream)) 0\<rparr>"

definition init_encoder_bitstream :: "Bitstr_enc \<Rightarrow> Bitstr_enc" where
  "init_encoder_bitstream sd = sd\<lparr>W_upper := 0xFFFFFFFF, streamval := 0, stream_index := 0, full := 1\<rparr>"

text \<open>Between words and the bytes of a packet, the high byte first.\<close>

fun read_be16_loop :: "byte list \<Rightarrow> nat \<Rightarrow> nat \<Rightarrow> 16 word list \<Rightarrow> 16 word list option" where
  "read_be16_loop src i 0 dest = Some dest"
| "read_be16_loop src i (Suc k) dest = do {
     a \<leftarrow> fetch src (2 * i);
     b \<leftarrow> fetch src (2 * i + 1);
     dest \<leftarrow> store dest i (push_bit 8 (ucast a) OR ucast b);
     read_be16_loop src (i + 1) k dest
   }"

definition read_be16 :: "byte list \<Rightarrow> nat \<Rightarrow> 16 word list \<Rightarrow> 16 word list option" where
  "read_be16 src nbytes dest = do {
     dest \<leftarrow> read_be16_loop src 0 (nbytes div 2) dest;
     if nbytes mod 2 = 1
     then do { a \<leftarrow> fetch src (nbytes - 1); store dest (nbytes div 2) (push_bit 8 (ucast a)) }
     else Some dest
   }"

fun write_be16_loop :: "16 word list \<Rightarrow> nat \<Rightarrow> nat \<Rightarrow> byte list \<Rightarrow> byte list option" where
  "write_be16_loop src i 0 dest = Some dest"
| "write_be16_loop src i (Suc k) dest = do {
     w \<leftarrow> fetch src i;
     dest \<leftarrow> store dest (2 * i) (ucast (drop_bit 8 w));
     dest \<leftarrow> store dest (2 * i + 1) (ucast w);
     write_be16_loop src (i + 1) k dest
   }"

definition write_be16 :: "16 word list \<Rightarrow> nat \<Rightarrow> byte list \<Rightarrow> byte list option" where
  "write_be16 src nbytes dest = do {
     dest \<leftarrow> write_be16_loop src 0 (nbytes div 2) dest;
     if nbytes mod 2 = 1
     then do {
       w \<leftarrow> fetch src (nbytes div 2);
       dest \<leftarrow> store dest (nbytes - 1) (ucast (drop_bit 8 w));
       store dest nbytes 0
     }
     else Some dest
   }"

end
