(* ===== verification/Isac_Coder.thy ===== *)
theory Isac_Coder
  imports Isac_Arith
begin

unbundle bit_operations_syntax

text \<open>
  The arithmetic coder as a coder of intervals of numbers, and the proof that the encoder and the two decoders of
  \<open>Isac_Arith\<close> compute it.  The bytes written so far and the value in the register are one number, carries included; a
  decoder's value is the distance of the code from the lower end of the interval.  What the two decoders share is proved
  once, in a locale over their symbol search.
\<close>

lemma top_byte: "W AND 0xFF000000 = 0 \<longleftrightarrow> unat (W :: 32 word) < 16777216"
proof -
  have "W AND 0xFF000000 = W AND push_bit 24 (mask 8)" by (simp add: mask_eq_exp_minus_1)
  also have "\<dots> = push_bit 24 (drop_bit 24 W)"
    by (rule bit_word_eqI) (auto simp: bit_simps)
  finally have "W AND 0xFF000000 = 0 \<longleftrightarrow> push_bit 24 (drop_bit 24 W) = 0" by simp
  also have "\<dots> \<longleftrightarrow> drop_bit 24 W = 0"
  proof
    assume "push_bit 24 (drop_bit 24 W) = 0"
    moreover have "drop_bit 24 (push_bit 24 (drop_bit 24 W)) = drop_bit 24 W"
      by (rule bit_word_eqI) (auto simp: bit_simps dest: bit_imp_le_length)
    ultimately show "drop_bit 24 W = 0" by (metis drop_bit_of_0)
  qed simp
  also have "\<dots> \<longleftrightarrow> unat W div 16777216 = 0" by (simp add: unat_high flip: unat_eq_zero)
  finally show ?thesis by (simp add: div_eq_0_iff)
qed

lemma cdf_scale_unat: "unat (cdf_scale W c) = unat W * unat c div 65536"
proof -
  let ?M = "unat W div 65536" and ?L = "unat W mod 65536" and ?c = "unat c"
  have c: "?c < 65536" and W: "unat W < 4294967296" by (rule unat_less_16, rule unat_less_32)
  have M: "?M < 65536" using W by (simp add: less_mult_imp_div_less)
  have uc: "unat (ucast c :: 32 word) = ?c" by (rule unat_up) simp
  have um: "unat (W AND 0x0000FFFF) = ?L" using unat_low [of 16 W] by (simp add: mask_eq_exp_minus_1)
  have ud: "unat (drop_bit 16 W) = ?M" using unat_high [of 16 W] by simp
  have m: "?M * ?c \<le> 65535 * 65535" "?L * ?c \<le> 65535 * 65535"
    by (rule mult_le_mono; use M c in simp)+
  have "unat ((W AND 0x0000FFFF) * ucast c) = ?L * ?c"
    unfolding unat_word_ariths um uc using m(2) by simp
  then have l: "unat (drop_bit 16 ((W AND 0x0000FFFF) * ucast c)) = ?L * ?c div 65536" by (simp add: unat_high)
  have h: "unat (drop_bit 16 W * ucast c) = ?M * ?c"
    unfolding unat_word_ariths ud uc using m(1) by simp
  have "?M * ?c + ?L * ?c div 65536 = (?M * ?c * 65536 + ?L * ?c) div 65536" by simp
  also have "?M * ?c * 65536 + ?L * ?c = (?M * 65536 + ?L) * ?c" by (simp only: algebra_simps)
  also have "?M * 65536 + ?L = unat W" by simp
  finally have e: "?M * ?c + ?L * ?c div 65536 = unat W * ?c div 65536" .
  have "unat W * ?c div 65536 \<le> unat W * 65536 div 65536" by (rule div_le_mono) (use c in simp)
  then have "unat W * ?c div 65536 < 4294967296" using W by simp
  then show ?thesis unfolding cdf_scale_def Let_def unat_word_ariths(1) [of "drop_bit 16 W * ucast c"] l h e by simp
qed

section \<open>The stream as a number\<close>

text \<open>The bytes of a stream of words, and the number that the first \<open>k\<close> of them are the digits of.\<close>

definition stream_byte :: "16 word list \<Rightarrow> nat \<Rightarrow> nat" where
  "stream_byte st k = (if even k then unat (st ! (k div 2)) div 256 else unat (st ! (k div 2)) mod 256)"

primrec prefix :: "16 word list \<Rightarrow> nat \<Rightarrow> nat" where
  "prefix st 0 = 0"
| "prefix st (Suc k) = prefix st k * 256 + stream_byte st k"

lemma stream_byte_less: "stream_byte st k < 256"
  using unat_less_16 [of "st ! (k div 2)"] by (simp add: stream_byte_def less_mult_imp_div_less)

lemma prefix_less: "prefix st k < 256 ^ k"
proof (induction k)
  case (Suc k)
  have "prefix st k * 256 + stream_byte st k < Suc (prefix st k) * 256" using stream_byte_less [of st k] by simp
  also have "\<dots> \<le> 256 ^ k * 256" using Suc.IH by (intro mult_le_mono1) simp
  finally show ?case by simp
qed simp

lemma prefix_cong: "(\<And>i. i < k \<Longrightarrow> stream_byte st i = stream_byte st' i) \<Longrightarrow> prefix st k = prefix st' k"
  by (induction k) simp_all

lemma prefix_cong_words: "(\<And>i. 2 * i < k \<Longrightarrow> st ! i = st' ! i) \<Longrightarrow> prefix st k = prefix st' k"
  by (rule prefix_cong) (simp add: stream_byte_def)

lemma prefix_word: "prefix st (2 * p + 2) = prefix st (2 * p) * 65536 + unat (st ! p)"
proof -
  have "prefix st (2 * p + 2) = (prefix st (2 * p) * 256 + stream_byte st (2 * p)) * 256 + stream_byte st (2 * p + 1)" by simp
  then show ?thesis by (simp add: stream_byte_def)
qed

lemma prefix_split: "\<exists>x < 256 ^ r. prefix st (k + r) = prefix st k * 256 ^ r + x"
proof (induction r)
  case (Suc r)
  then obtain x where x: "x < 256 ^ r" "prefix st (k + r) = prefix st k * 256 ^ r + x" by blast
  have "x * 256 + stream_byte st (k + r) < Suc x * 256" using stream_byte_less [of st "k + r"] by simp
  also have "\<dots> \<le> 256 ^ r * 256" using x(1) by (intro mult_le_mono1) simp
  finally show ?case using x(2) by (intro exI [of _ "x * 256 + stream_byte st (k + r)"]) (simp add: algebra_simps)
qed simp

section \<open>The carry\<close>

lemma word_inc: "unat (v + 1 :: 16 word) = (if unat v = 65535 then 0 else unat v + 1)"
  using unat_less_16 [of v] by (auto simp: unat_word_ariths)

lemma carry_back_ok:
  assumes "p \<le> length st" "prefix st (2 * p) + 1 < 256 ^ (2 * p)"
  shows "\<exists>st'. carry_back st p = Some st' \<and> length st' = length st \<and> prefix st' (2 * p) = prefix st (2 * p) + 1 \<and>
    (\<forall>i \<ge> p. st' ! i = st ! i)"
  using assms
proof (induction st p rule: carry_back.induct)
  case (2 st p)
  have p: "p < length st" using "2.prems" by simp
  let ?st = "st[p := st ! p + 1]"
  have pre: "prefix ?st (2 * p) = prefix st (2 * p)" by (rule prefix_cong_words) simp
  show ?case
  proof (cases "st ! p + 1 = 0")
    case True
    then have v: "unat (st ! p) = 65535" using word_inc [of "st ! p"] by (simp split: if_splits)
    have "prefix st (2 * p) * 65536 + 65535 + 1 < 256 ^ (2 * p) * 65536"
      using "2.prems"(2) prefix_word [of st p] v by simp
    then have "prefix ?st (2 * p) + 1 < 256 ^ (2 * p)" unfolding pre by linarith
    then obtain st' where st': "carry_back ?st p = Some st'" "length st' = length ?st"
        "prefix st' (2 * p) = prefix ?st (2 * p) + 1" "\<forall>i \<ge> p. st' ! i = ?st ! i"
      using "2.IH" [of "st ! p" ?st] p True by auto
    have "prefix st' (2 * p + 2) = prefix st (2 * p + 2) + 1"
      unfolding prefix_word using st'(3,4) pre v True p by simp
    then show ?thesis using st' p True by auto
  next
    case False
    then have "unat (?st ! p) = unat (st ! p) + 1" using word_inc [of "st ! p"] p unat_eq_zero [of "st ! p + 1"] by (simp split: if_splits)
    then have "prefix ?st (2 * p + 2) = prefix st (2 * p + 2) + 1" unfolding prefix_word pre by simp
    then show ?thesis using p False by simp
  qed
qed simp

section \<open>The state of the encoder\<close>

definition pos :: "int \<Rightarrow> nat \<Rightarrow> nat" where
  "pos f p = 2 * p + (if f = 0 then 1 else 0)"

definition enc_wf :: "Bitstr_enc \<Rightarrow> nat \<Rightarrow> bool" where
  "enc_wf sd p \<longleftrightarrow> length (stream sd) = STREAM_MAXW16_60MS \<and> full sd \<in> {0, 1} \<and> p < STREAM_MAXW16_60MS \<and>
     (full sd = 0 \<longrightarrow> unat (stream sd ! p) mod 256 = 0)"

definition enc_val :: "Bitstr_enc \<Rightarrow> nat \<Rightarrow> nat" where
  "enc_val sd p = prefix (stream sd) (pos (full sd) p) * 4294967296 + unat (streamval sd)"

lemma propagate_carry_ok:
  assumes "enc_wf sd p" "prefix (stream sd) (pos (full sd) p) + 1 < 256 ^ pos (full sd) p"
  shows "\<exists>st. propagate_carry sd p = Some (sd\<lparr>stream := st\<rparr>) \<and> enc_wf (sd\<lparr>stream := st\<rparr>) p \<and>
    prefix st (pos (full sd) p) = prefix (stream sd) (pos (full sd) p) + 1"
proof (cases "full sd = 0")
  case False
  then have "pos (full sd) p = 2 * p" by (simp add: pos_def)
  moreover have "p \<le> length (stream sd)" using assms(1) by (simp add: enc_wf_def)
  ultimately obtain st where st: "carry_back (stream sd) p = Some st" "length st = length (stream sd)"
      "prefix st (pos (full sd) p) = prefix (stream sd) (pos (full sd) p) + 1"
    using carry_back_ok [of p "stream sd"] assms(2) by metis
  have "propagate_carry sd p = Some (sd\<lparr>stream := st\<rparr>)" using False st(1) by (simp add: propagate_carry_def)
  moreover have "enc_wf (sd\<lparr>stream := st\<rparr>) p" using False assms(1) st(2) by (simp add: enc_wf_def)
  ultimately show ?thesis using st(3) by blast
next
  case True
  let ?v = "stream sd ! p"
  let ?st = "(stream sd)[p := ?v + 0x100]"
  have p: "p < length (stream sd)" and z: "unat ?v mod 256 = 0" using assms(1) True by (auto simp: enc_wf_def)
  have u: "unat (?v + 0x100) = (unat ?v + 256) mod 65536" by (simp add: unat_word_ariths)
  have v: "unat ?v < 65536" by (rule unat_less_16)
  have pre: "prefix ?st (2 * p) = prefix (stream sd) (2 * p)" by (rule prefix_cong_words) simp
  have odd: "prefix st (2 * p + 1) = prefix st (2 * p) * 256 + unat (st ! p) div 256" for st by (simp add: stream_byte_def)
  have pos: "pos (full sd) p = 2 * p + 1" using True by (simp add: pos_def)
  show ?thesis
  proof (cases "?v + 0x100 = 0")
    case c: True
    then have "(unat ?v + 256) mod 65536 = 0" using u by simp
    then have v': "unat ?v = 65280" using v by (cases "unat ?v + 256 < 65536") (simp_all add: le_mod_geq)
    have "prefix (stream sd) (2 * p) * 256 + 255 + 1 < 256 ^ (2 * p) * 256" using assms(2) v' unfolding pos odd by simp
    then have "prefix ?st (2 * p) + 1 < 256 ^ (2 * p)" unfolding pre by linarith
    then obtain st where st: "carry_back ?st p = Some st" "length st = length ?st"
        "prefix st (2 * p) = prefix ?st (2 * p) + 1" "\<forall>i \<ge> p. st ! i = ?st ! i"
      using carry_back_ok [of p ?st] p by auto
    have "prefix st (2 * p + 1) = prefix (stream sd) (2 * p + 1) + 1" unfolding odd st(3) pre using st(4) c v' p by simp
    moreover have "propagate_carry sd p = Some (sd\<lparr>stream := st\<rparr>)" using True c p st(1) by (simp add: propagate_carry_def)
    moreover have "enc_wf (sd\<lparr>stream := st\<rparr>) p" using assms(1) st(2,4) p c by (simp add: enc_wf_def)
    ultimately show ?thesis unfolding pos by blast
  next
    case c: False
    then have "unat (?v + 0x100) \<noteq> 0" by (simp add: unat_eq_zero)
    moreover have "unat ?v \<le> 65280" using z v by (simp add: mod_eq_0_iff_dvd) (auto elim!: dvdE)
    ultimately have v': "unat (?v + 0x100) = unat ?v + 256" using u by (cases "unat ?v = 65280") simp_all
    then have "prefix ?st (2 * p + 1) = prefix (stream sd) (2 * p + 1) + 1" unfolding odd pre using p by simp
    moreover have "propagate_carry sd p = Some (sd\<lparr>stream := ?st\<rparr>)" using True c p by (simp add: propagate_carry_def)
    moreover have "enc_wf (sd\<lparr>stream := ?st\<rparr>) p" using assms(1) p z v' by (simp add: enc_wf_def)
    ultimately show ?thesis unfolding pos by blast
  qed
qed

lemma byte_aligned: "(v :: nat) mod 256 = 0 \<Longrightarrow> v < 65536 \<Longrightarrow> v \<le> 65280 \<and> v div 256 * 256 = v"
  by (simp add: mod_eq_0_iff_dvd) (auto elim!: dvdE)

lemma put_byte_ok:
  assumes "enc_wf sd p"
  shows "\<exists>p' sd'. put_byte sd p = Some (p', sd') \<and> streamval sd' = streamval sd \<and> pos (full sd') p' = Suc (pos (full sd) p) \<and>
    prefix (stream sd') (Suc (pos (full sd) p)) = prefix (stream sd) (pos (full sd) p) * 256 + unat (streamval sd) div 16777216 \<and>
    (p' < STREAM_MAXW16_60MS \<longrightarrow> enc_wf sd' p')"
proof -
  let ?b = "unat (streamval sd) div 16777216"
  have p: "p < length (stream sd)" "p < STREAM_MAXW16_60MS" "length (stream sd) = STREAM_MAXW16_60MS"
    using assms by (auto simp: enc_wf_def)
  have b: "?b < 256" using unat_less_32 [of "streamval sd"] by (simp add: less_mult_imp_div_less)
  show ?thesis
  proof (cases "full sd = 0")
    case True
    let ?v = "stream sd ! p" and ?w = "stream sd ! p + ucast (drop_bit 24 (streamval sd))"
    let ?st = "(stream sd)[p := ?w]"
    have v: "unat ?v \<le> 65280" "unat ?v div 256 * 256 = unat ?v"
      using assms True byte_aligned [OF _ unat_less_16 [of ?v]] by (auto simp: enc_wf_def)
    have "unat (ucast (drop_bit 24 (streamval sd)) :: 16 word) = ?b" using b by (simp add: unat_down unat_high)
    then have w: "unat ?w = unat ?v + ?b" using v(1) b by (simp add: unat_word_ariths)
    have pre: "prefix ?st (2 * p) = prefix (stream sd) (2 * p)" by (rule prefix_cong_words) simp
    have "prefix ?st (2 * p + 2) = (prefix (stream sd) (2 * p) * 256 + unat ?v div 256) * 256 + ?b"
      unfolding prefix_word pre using p(1) w v(2) by (simp add: algebra_simps)
    moreover have "prefix (stream sd) (2 * p + 1) = prefix (stream sd) (2 * p) * 256 + unat ?v div 256" by (simp add: stream_byte_def)
    ultimately have "prefix ?st (2 * p + 2) = prefix (stream sd) (2 * p + 1) * 256 + ?b" by simp
    moreover have "put_byte sd p = Some (p + 1, sd\<lparr>stream := ?st, full := 1\<rparr>)" using True p(1) by (simp add: put_byte_def)
    ultimately show ?thesis using True p by (simp add: pos_def enc_wf_def)
  next
    case False
    let ?w = "ucast (push_bit 8 (drop_bit 24 (streamval sd))) :: 16 word"
    let ?st = "(stream sd)[p := ?w]"
    have w: "unat ?w = ?b * 256" using b by (simp add: unat_down unat_shift unat_high)
    have pre: "prefix ?st (2 * p) = prefix (stream sd) (2 * p)" by (rule prefix_cong_words) simp
    have "prefix ?st (Suc (2 * p)) = prefix (stream sd) (2 * p) * 256 + ?b"
      using p(1) w pre by (simp add: stream_byte_def)
    moreover have "put_byte sd p = Some (p, sd\<lparr>stream := ?st, full := 0\<rparr>)" using False p(1) by (simp add: put_byte_def)
    ultimately show ?thesis using False p w by (simp add: pos_def enc_wf_def)
  qed
qed

lemma enc_put:
  assumes "enc_wf sd p"
  shows "\<exists>p' sd'. put_byte sd p = Some (p', sd') \<and> pos (full sd') p' = Suc (pos (full sd) p) \<and>
    enc_val (sd'\<lparr>streamval := push_bit 8 (streamval sd')\<rparr>) p' = enc_val sd p * 256 \<and>
    (p' < STREAM_MAXW16_60MS \<longrightarrow> enc_wf (sd'\<lparr>streamval := push_bit 8 (streamval sd')\<rparr>) p')"
proof -
  obtain p' sd' where a: "put_byte sd p = Some (p', sd')" "streamval sd' = streamval sd"
      "pos (full sd') p' = Suc (pos (full sd) p)"
      "prefix (stream sd') (Suc (pos (full sd) p)) = prefix (stream sd) (pos (full sd) p) * 256 + unat (streamval sd) div 16777216"
      "p' < STREAM_MAXW16_60MS \<longrightarrow> enc_wf sd' p'"
    using put_byte_ok [OF assms] by blast
  let ?s = "unat (streamval sd)"
  have "?s * 256 = ?s div 16777216 * 4294967296 + ?s * 256 mod 4294967296"
  proof -
    have "?s * 256 div (16777216 * 256) = ?s div 16777216" by (rule div_mult_mult2) simp
    then show ?thesis using div_mult_mod_eq [of "?s * 256" 4294967296] by simp
  qed
  moreover have "unat (push_bit 8 (streamval sd)) = ?s * 256 mod 4294967296" by (simp add: unat_shift)
  ultimately have "enc_val (sd'\<lparr>streamval := push_bit 8 (streamval sd')\<rparr>) p' = enc_val sd p * 256"
    unfolding enc_val_def using a(2-4) by (simp add: algebra_simps)
  moreover have "p' < STREAM_MAXW16_60MS \<Longrightarrow> enc_wf (sd'\<lparr>streamval := push_bit 8 (streamval sd')\<rparr>) p'"
    using a(5) by (simp add: enc_wf_def)
  ultimately show ?thesis using a(1,3) by blast
qed

section \<open>Renormalisation\<close>

text \<open>The number of bytes that leave when an interval of width \<open>W\<close> is scaled up.\<close>

function shifts :: "nat \<Rightarrow> nat" where
  "shifts W = (if W = 0 \<or> 16777216 \<le> W then 0 else Suc (shifts (W * 256)))"
  by pat_completeness auto
termination by (relation "measure (\<lambda>W. 16777216 - W)") auto

declare shifts.simps [simp del]

lemma shifts_bounds:
  assumes "0 < W" "W < 4294967296"
  shows "16777216 \<le> W * 256 ^ shifts W" "W * 256 ^ shifts W < 4294967296"
  using assms
proof (induction W rule: shifts.induct)
  case (1 W)
  { case 1 with "1.IH" show ?case by (cases "16777216 \<le> W") (simp_all add: shifts.simps [of W] mult.assoc) }
  { case 2 with "1.IH" show ?case by (cases "16777216 \<le> W") (simp_all add: shifts.simps [of W] mult.assoc) }
qed

lemma shifts_le: "255 \<le> W \<Longrightarrow> shifts W \<le> 3"
proof -
  assume W: "255 \<le> W"
  have "shifts (W * 256 * 256 * 256) = 0" using W by (subst shifts.simps) simp
  then have "shifts (W * 256 * 256) \<le> 1" by (subst shifts.simps) simp
  then have "shifts (W * 256) \<le> 2" by (subst shifts.simps) simp
  then show ?thesis by (subst shifts.simps) simp
qed

lemma word_shift: "unat (W :: 32 word) < 16777216 \<Longrightarrow> unat (push_bit 8 W) = unat W * 256"
  by (simp add: unat_shift)

lemma pos_less: "f \<in> {0, 1} \<Longrightarrow> pos f p < 400 \<longleftrightarrow> p < STREAM_MAXW16_60MS"
  by (auto simp: pos_def STREAM_MAXW16_60MS_def)

text \<open>Scaled up \<open>r\<close> times the value and the width grow by \<open>256 ^ r\<close>; when the array is full the call is given up.\<close>

lemma enc_renorm_ok:
  assumes "enc_wf sd p" "0 < unat W"
  defines "r \<equiv> shifts (unat W)"
  shows "if pos (full sd) p + r < 400
    then \<exists>W' p' sd'. enc_renorm W p sd = Some (Inr (W', p', sd')) \<and> enc_wf sd' p' \<and> unat W' = unat W * 256 ^ r \<and>
      pos (full sd') p' = pos (full sd) p + r \<and> enc_val sd' p' = enc_val sd p * 256 ^ r
    else \<exists>sd'. enc_renorm W p sd = Some (Inl sd')"
  using assms(1,2) unfolding r_def
proof (induction W p sd rule: enc_renorm.induct)
  case (1 W p sd)
  have f: "full sd \<in> {0, 1}" "pos (full sd) p < 400" using "1.prems"(1) by (auto simp: enc_wf_def pos_def STREAM_MAXW16_60MS_def)
  show ?case
  proof (cases "unat W < 16777216")
    case False
    then have "shifts (unat W) = 0" by (simp add: shifts.simps)
    then show ?thesis using False f "1.prems"(1) by (simp add: enc_renorm.simps [of W] top_byte)
  next
    case True
    then have t: "W AND 0xFF000000 = 0" by (simp add: top_byte)
    have s: "shifts (unat W) = Suc (shifts (unat (push_bit 8 W)))"
      using True "1.prems"(2) word_shift [OF True] by (simp add: shifts.simps [of "unat W"])
    obtain p' sd' where a: "put_byte sd p = Some (p', sd')" "pos (full sd') p' = Suc (pos (full sd) p)"
        "enc_val (sd'\<lparr>streamval := push_bit 8 (streamval sd')\<rparr>) p' = enc_val sd p * 256"
        "p' < STREAM_MAXW16_60MS \<longrightarrow> enc_wf (sd'\<lparr>streamval := push_bit 8 (streamval sd')\<rparr>) p'"
      using enc_put [OF "1.prems"(1)] by blast
    have W: "0 < unat (push_bit 8 W)" using word_shift [OF True] "1.prems"(2) by simp
    show ?thesis
    proof (cases "p' < STREAM_MAXW16_60MS")
      case p': True
      then have "\<not> STREAM_MAXW16_60MS - 1 < p'" by simp
      note IH = "1.IH" [OF _ a(1) refl this a(4) [rule_format, OF p'] W]
      have e: "enc_renorm W p sd = enc_renorm (push_bit 8 W) p' (sd'\<lparr>streamval := push_bit 8 (streamval sd')\<rparr>)"
        using t a(1) p' by (subst enc_renorm.simps) (simp add: STREAM_MAXW16_60MS_def)
      show ?thesis using IH t unfolding e s a(3) by (simp add: a(2) word_shift [OF True] mult.assoc cong: if_cong)
    next
      case p': False
      then have "enc_renorm W p sd = Some (Inl sd')" using t a(1) by (simp add: enc_renorm.simps [of W] STREAM_MAXW16_60MS_def)
      moreover have "\<not> Suc (pos (full sd) p) < 400" using p' unfolding a(2) [symmetric] by (simp add: pos_def STREAM_MAXW16_60MS_def)
      ultimately show ?thesis unfolding s by simp
    qed
  qed
qed

section \<open>The coder on numbers\<close>

text \<open>
  The state of the coder is the code value \<open>E\<close>, the number \<open>n\<close> of bytes that have left, and the width \<open>W\<close>: a code is any number with
  \<open>n + 4\<close> bytes between \<open>E\<close> and \<open>E + W\<close>.  A symbol with the cumulative frequencies \<open>lo\<close> and \<open>hi\<close> narrows the interval.
\<close>

definition coder_step :: "nat \<times> nat \<times> nat \<Rightarrow> nat \<times> nat \<Rightarrow> nat \<times> nat \<times> nat" where
  "coder_step s c = (case s of (E, n, W) \<Rightarrow> case c of (lo, hi) \<Rightarrow>
     let l = W * lo div 65536 + 1; w = W * hi div 65536 - l; r = shifts w
     in ((E + l) * 256 ^ r, n + r, w * 256 ^ r))"

definition coder_ok :: "nat \<times> nat \<times> nat \<Rightarrow> bool" where
  "coder_ok s = (case s of (E, n, W) \<Rightarrow> 16777216 \<le> W \<and> W < 4294967296 \<and> E + W < 256 ^ n * 4294967296)"

lemma narrow:
  fixes W lo hi :: nat
  assumes "16777216 \<le> W" "lo < hi" "hi < 65536"
  shows "W * lo div 65536 + 256 \<le> W * hi div 65536" "W * hi div 65536 \<le> W"
proof -
  have "W * lo + 16777216 \<le> W * Suc lo" using assms(1) by simp
  also have "\<dots> \<le> W * hi" using assms(2) by (intro mult_le_mono2) simp
  finally have "(W * lo + 16777216) div 65536 \<le> W * hi div 65536" by (rule div_le_mono)
  then show "W * lo div 65536 + 256 \<le> W * hi div 65536" by simp
  have "W * hi div 65536 \<le> W * 65536 div 65536" using assms(3) by (intro div_le_mono mult_le_mono2) simp
  then show "W * hi div 65536 \<le> W" by simp
qed

lemma coder_step_ok:
  assumes "coder_ok (E, n, W)" "lo < hi" "hi < 65536"
  obtains E' n' W' where "coder_step (E, n, W) (lo, hi) = (E', n', W')" "coder_ok (E', n', W')" "n' \<le> n + 3"
proof -
  let ?l = "W * lo div 65536 + 1"
  let ?w = "W * hi div 65536 - ?l"
  let ?r = "shifts ?w"
  have a: "16777216 \<le> W" "W < 4294967296" "E + W < 256 ^ n * 4294967296" using assms(1) by (auto simp: coder_ok_def)
  note b = narrow [OF a(1) assms(2,3)]
  have w: "255 \<le> ?w" "?w < 4294967296" "?l + ?w \<le> W" using b a(2) by linarith+
  have "(E + ?l) * 256 ^ ?r + ?w * 256 ^ ?r = (E + (?l + ?w)) * 256 ^ ?r" by (simp only: add_mult_distrib add.assoc)
  also have "\<dots> \<le> (E + W) * 256 ^ ?r" using w(3) by (intro mult_le_mono1) simp
  also have "\<dots> < (256 ^ n * 4294967296) * 256 ^ ?r" using a(3) by (intro mult_strict_right_mono) simp_all
  finally have "(E + ?l) * 256 ^ ?r + ?w * 256 ^ ?r < 256 ^ (n + ?r) * 4294967296" by (simp only: power_add ac_simps)
  moreover have "16777216 \<le> ?w * 256 ^ ?r" "?w * 256 ^ ?r < 4294967296" using shifts_bounds [of ?w] w by linarith+
  ultimately have "coder_ok ((E + ?l) * 256 ^ ?r, n + ?r, ?w * 256 ^ ?r)" unfolding coder_ok_def split_conv by (intro conjI)
  moreover have "n + ?r \<le> n + 3" using shifts_le [OF w(1)] by simp
  moreover have "coder_step (E, n, W) (lo, hi) = ((E + ?l) * 256 ^ ?r, n + ?r, ?w * 256 ^ ?r)"
    by (simp only: coder_step_def split_conv Let_def)
  ultimately show thesis using that by blast
qed

section \<open>The encoder computes the coder\<close>

definition enc_abs :: "Bitstr_enc \<Rightarrow> nat \<Rightarrow> 32 word \<Rightarrow> nat \<times> nat \<times> nat" where
  "enc_abs sd p W = (enc_val sd p, pos (full sd) p, unat W)"

text \<open>Adding to the low word, with the carry into the bytes that have left.\<close>

lemma enc_add:
  assumes "enc_wf sd p" "enc_val sd p + unat l < 256 ^ pos (full sd) p * 4294967296"
  shows "\<exists>sd'. (if streamval (sd\<lparr>streamval := streamval sd + l\<rparr>) < l then propagate_carry (sd\<lparr>streamval := streamval sd + l\<rparr>) p
      else Some (sd\<lparr>streamval := streamval sd + l\<rparr>)) = Some sd' \<and>
    enc_wf sd' p \<and> full sd' = full sd \<and> enc_val sd' p = enc_val sd p + unat l"
proof -
  let ?sd = "sd\<lparr>streamval := streamval sd + l\<rparr>" and ?n = "pos (full sd) p" and ?s = "unat (streamval sd)"
  have wf: "enc_wf ?sd p" using assms(1) by (simp add: enc_wf_def)
  have s: "?s < 4294967296" "unat l < 4294967296" by (rule unat_less_32)+
  have v: "unat (streamval sd + l) = (?s + unat l) mod 4294967296" by (simp add: unat_word_ariths)
  show ?thesis
  proof (cases "?s + unat l < 4294967296")
    case True
    then have "\<not> streamval ?sd < l" using v by (simp add: word_less_nat_alt)
    then show ?thesis using wf v True by (simp add: enc_val_def)
  next
    case False
    then have v': "unat (streamval sd + l) = ?s + unat l - 4294967296" using v s by (simp add: le_mod_geq)
    then have c: "streamval ?sd < l" using s False by (simp add: word_less_nat_alt)
    have "(prefix (stream sd) ?n + 1) * 4294967296 < 256 ^ ?n * 4294967296"
      using assms(2) False unfolding enc_val_def by simp
    then have "prefix (stream sd) ?n + 1 < 256 ^ ?n" by (simp only: mult_less_cancel2)
    then obtain st where st: "propagate_carry ?sd p = Some (?sd\<lparr>stream := st\<rparr>)" "enc_wf (?sd\<lparr>stream := st\<rparr>) p"
        "prefix st ?n = prefix (stream sd) ?n + 1"
      using propagate_carry_ok [OF wf] by auto
    have "enc_val (?sd\<lparr>stream := st\<rparr>) p = enc_val sd p + unat l" unfolding enc_val_def using st(3) v' False by simp
    then show ?thesis using c st(1,2) by simp
  qed
qed

text \<open>A symbol of a table, with its frequencies.\<close>

definition symbol_ok :: "16 word list \<Rightarrow> int \<Rightarrow> bool" where
  "symbol_ok cdf d \<longleftrightarrow> 0 \<le> d \<and> d \<le> 32767 \<and> nat d + 1 < length cdf \<and> unat (cdf ! nat d) < unat (cdf ! (nat d + 1))"

definition freqs :: "16 word list \<Rightarrow> int \<Rightarrow> nat \<times> nat" where
  "freqs cdf d = (unat (cdf ! nat d), unat (cdf ! (nat d + 1)))"

lemma enc_interval_ok:
  assumes "enc_wf sd p" "coder_ok (enc_abs sd p W)" "unat lo < unat hi"
  defines "s \<equiv> coder_step (enc_abs sd p W) (unat lo, unat hi)"
  shows "if fst (snd s) < 400
    then \<exists>W' p' sd'. enc_interval lo hi W p sd = Some (Inr (W', p', sd')) \<and> enc_wf sd' p' \<and> enc_abs sd' p' W' = s
    else \<exists>sd'. enc_interval lo hi W p sd = Some (Inl sd')"
proof -
  let ?l = "cdf_scale W lo + 1" and ?E = "enc_val sd p" and ?n = "pos (full sd) p"
  let ?w = "cdf_scale W hi - ?l"
  have W: "16777216 \<le> unat W" "unat W < 4294967296" "?E + unat W < 256 ^ ?n * 4294967296"
    using assms(2) by (auto simp: coder_ok_def enc_abs_def)
  note b = narrow [OF W(1) assms(3) unat_less_16]
  have l: "unat ?l = unat W * unat lo div 65536 + 1"
    using b W(2) by (simp add: unat_word_ariths cdf_scale_unat)
  then have "?l \<le> cdf_scale W hi" using b unfolding word_le_nat_alt by (simp add: cdf_scale_unat)
  then have w: "unat ?w = unat W * unat hi div 65536 - (unat W * unat lo div 65536 + 1)"
    using l by (simp add: unat_sub cdf_scale_unat)
  have "?E + unat ?l < 256 ^ ?n * 4294967296" using l b W(3) by linarith
  then obtain sd' where sd': "(if streamval (sd\<lparr>streamval := streamval sd + ?l\<rparr>) < ?l
        then propagate_carry (sd\<lparr>streamval := streamval sd + ?l\<rparr>) p else Some (sd\<lparr>streamval := streamval sd + ?l\<rparr>)) = Some sd'"
      "enc_wf sd' p" "full sd' = full sd" "enc_val sd' p = ?E + unat ?l"
    using enc_add [OF assms(1)] by blast
  have e: "enc_interval lo hi W p sd = enc_renorm ?w p sd'" using sd'(1) unfolding enc_interval_def Let_def by simp
  have s: "s = ((?E + unat ?l) * 256 ^ shifts (unat ?w), ?n + shifts (unat ?w), unat ?w * 256 ^ shifts (unat ?w))"
    by (simp only: s_def coder_step_def enc_abs_def split_conv Let_def l w)
  have "0 < unat ?w" using w b by linarith
  from enc_renorm_ok [OF sd'(2) this] show ?thesis
    unfolding e s sd'(3,4) enc_abs_def fst_conv snd_conv by (auto split: if_splits)
qed

lemma enc_symbol_ok:
  assumes "enc_wf sd p" "coder_ok (enc_abs sd p W)" "symbol_ok cdf d"
  defines "s \<equiv> coder_step (enc_abs sd p W) (freqs cdf d)"
  shows "if fst (snd s) < 400
    then \<exists>W' p' sd'. enc_symbol cdf d W p sd = Some (Inr (W', p', sd')) \<and> enc_wf sd' p' \<and> enc_abs sd' p' W' = s
    else \<exists>sd'. enc_symbol cdf d W p sd = Some (Inl sd')"
proof -
  have i: "nat (u32 d) = nat d" "nat d + 1 < length cdf" "unat (cdf ! nat d) < unat (cdf ! (nat d + 1))"
    using assms(3) by (auto simp: symbol_ok_def u32_def)
  then have "enc_symbol cdf d W p sd = enc_interval (cdf ! nat d) (cdf ! (nat d + 1)) W p sd" by (simp add: enc_symbol_def)
  then show ?thesis using enc_interval_ok [OF assms(1,2) i(3)] unfolding s_def freqs_def by (simp only:)
qed

lemma coder_step_grows: "fst (snd s) \<le> fst (snd (coder_step s c))"
  by (simp add: coder_step_def Let_def split: prod.split)

lemma coder_run_grows: "fst (snd s) \<le> fst (snd (foldl coder_step s cs))"
proof (induction cs arbitrary: s)
  case (Cons c cs)
  show ?case using order.trans [OF coder_step_grows Cons.IH] by simp
qed simp

lemma freqs_ok: "symbol_ok cdf d \<Longrightarrow> fst (freqs cdf d) < snd (freqs cdf d) \<and> snd (freqs cdf d) < 65536"
  by (simp add: symbol_ok_def freqs_def unat_less_16)

lemma coder_step_symbol:
  assumes "coder_ok s" "symbol_ok cdf d"
  shows "coder_ok (coder_step s (freqs cdf d)) \<and> fst (snd (coder_step s (freqs cdf d))) \<le> fst (snd s) + 3"
proof -
  obtain E n W where s: "s = (E, n, W)" by (cases s)
  obtain lo hi where c: "freqs cdf d = (lo, hi)" by fastforce
  have "lo < hi" "hi < 65536" using freqs_ok [OF assms(2)] c by simp_all
  from coder_step_ok [OF assms(1) [unfolded s] this] show ?thesis unfolding s c by (metis fst_conv snd_conv)
qed

lemma coder_run_ok:
  "coder_ok s \<Longrightarrow> list_all2 symbol_ok cdf data \<Longrightarrow> coder_ok (foldl coder_step s (map2 freqs cdf data)) \<and>
   fst (snd (foldl coder_step s (map2 freqs cdf data))) \<le> fst (snd s) + 3 * length data"
proof (induction data arbitrary: cdf s)
  case (Cons d data)
  then obtain c cdf' where c: "cdf = c # cdf'" "symbol_ok c d" "list_all2 symbol_ok cdf' data" by (auto simp: list_all2_Cons2)
  have "coder_ok (coder_step s (freqs c d))" "fst (snd (coder_step s (freqs c d))) \<le> fst (snd s) + 3"
    using coder_step_symbol [OF Cons.prems(1) c(2)] by simp_all
  then show ?case using Cons.IH [OF _ c(3), of "coder_step s (freqs c d)"] c(1) by simp
qed simp

lemma enc_hist_ok:
  assumes "enc_wf sd p" "coder_ok (enc_abs sd p W)" "list_all2 symbol_ok cdf data"
  shows "if fst (snd (foldl coder_step (enc_abs sd p W) (map2 freqs cdf data))) < 400
    then \<exists>W' p' sd'. enc_hist (length data) data cdf W p sd = Some (Inr (W', p', sd')) \<and> enc_wf sd' p' \<and>
      enc_abs sd' p' W' = foldl coder_step (enc_abs sd p W) (map2 freqs cdf data)
    else \<exists>sd'. enc_hist (length data) data cdf W p sd = Some (Inl sd')"
  using assms
proof (induction data arbitrary: cdf sd p W)
  case Nil
  then have "pos (full sd) p < 400" using pos_less by (auto simp: enc_wf_def)
  then show ?case using Nil by (simp add: enc_abs_def)
next
  case (Cons d data)
  then obtain c cdf' where c: "cdf = c # cdf'" "symbol_ok c d" "list_all2 symbol_ok cdf' data" by (auto simp: list_all2_Cons2)
  let ?s = "coder_step (enc_abs sd p W) (freqs c d)"
  note e = enc_symbol_ok [OF Cons.prems(1,2) c(2)]
  show ?case
  proof (cases "fst (snd ?s) < 400")
    case True
    then obtain W' p' sd' where r: "enc_symbol c d W p sd = Some (Inr (W', p', sd'))" "enc_wf sd' p'" "enc_abs sd' p' W' = ?s"
      using e by auto
    have "coder_ok (enc_abs sd' p' W')" unfolding r(3) using coder_step_symbol [OF Cons.prems(2) c(2)] by simp
    from Cons.IH [OF r(2) this c(3)] show ?thesis using r(1) c(1) unfolding r(3) by simp
  next
    case False
    moreover have "fst (snd ?s) \<le> fst (snd (foldl coder_step ?s (map2 freqs cdf' data)))" by (rule coder_run_grows)
    ultimately show ?thesis using e c(1) by auto
  qed
qed

text \<open>Between two calls the encoder is in a state of the coder.\<close>

definition encoder :: "Bitstr_enc \<Rightarrow> nat \<times> nat \<times> nat \<Rightarrow> bool" where
  "encoder sd s \<longleftrightarrow> enc_wf sd (stream_index sd) \<and> enc_abs sd (stream_index sd) (W_upper sd) = s \<and> coder_ok s"

lemma EncHistMulti_ok:
  assumes "encoder sd s" "list_all2 symbol_ok cdf data"
  defines "s' \<equiv> foldl coder_step s (map2 freqs cdf data)"
  shows "if fst (snd s') < 400
    then \<exists>sd'. WebRtcIsacfix_EncHistMulti sd data cdf (int (length data)) = Some (0, sd') \<and> encoder sd' s'
    else \<exists>sd'. WebRtcIsacfix_EncHistMulti sd data cdf (int (length data)) = Some (- ISAC_DISALLOWED_BITSTREAM_LENGTH, sd')"
proof -
  let ?p = "stream_index sd" and ?W = "W_upper sd"
  have a: "enc_wf sd ?p" "coder_ok (enc_abs sd ?p ?W)" "enc_abs sd ?p ?W = s" using assms(1) by (auto simp: encoder_def)
  have ok: "coder_ok s'" unfolding s'_def using coder_run_ok [OF _ assms(2), of s] a(2,3) by simp
  note h = enc_hist_ok [OF a(1,2) assms(2), unfolded a(3), folded s'_def]
  show ?thesis
  proof (cases "fst (snd s') < 400")
    case True
    then obtain W' p' sd' where r: "enc_hist (length data) data cdf ?W ?p sd = Some (Inr (W', p', sd'))" "enc_wf sd' p'"
        "enc_abs sd' p' W' = s'" using h by auto
    have "p' mod 65536 = p'" using r(2) by (simp add: enc_wf_def STREAM_MAXW16_60MS_def)
    then have "encoder (sd'\<lparr>stream_index := p' mod 65536, W_upper := W'\<rparr>) s'"
      using r(2,3) ok by (simp add: encoder_def enc_wf_def enc_abs_def enc_val_def)
    then show ?thesis using True r(1) by (simp add: WebRtcIsacfix_EncHistMulti_def)
  next
    case False
    then show ?thesis using h by (auto simp: WebRtcIsacfix_EncHistMulti_def)
  qed
qed

section \<open>Termination of the stream\<close>

text \<open>A stream that starts with the code lies in the interval, whatever follows.\<close>

definition in_code :: "16 word list \<Rightarrow> nat \<times> nat \<times> nat \<Rightarrow> bool" where
  "in_code st s = (case s of (E, n, W) \<Rightarrow> E \<le> prefix st (n + 4) \<and> prefix st (n + 4) \<le> E + W)"

lemma code_any_tail:
  assumes "prefix st (n + k) = (E + 256 ^ m) div 256 ^ m" "k + m = 4" "2 * 256 ^ m \<le> W"
  shows "in_code st (E, n, W)"
proof -
  let ?A = "256 ^ m :: nat"
  obtain x where x: "x < ?A" "prefix st (n + k + m) = prefix st (n + k) * ?A + x" using prefix_split by blast
  have "(E + ?A) div ?A * ?A + (E + ?A) mod ?A = E + ?A" by (rule div_mult_mod_eq)
  moreover have "(E + ?A) mod ?A < ?A" by (rule mod_less_divisor) simp
  moreover have "prefix st (n + 4) = (E + ?A) div ?A * ?A + x" using x(2) assms(2) unfolding assms(1) [symmetric] by (simp add: add.assoc)
  ultimately show ?thesis using x(1) assms(3) unfolding in_code_def split_conv by linarith
qed

lemma enc_val_high: "prefix (stream sd) (pos (full sd) p) * 65536 + unat (streamval sd) div 65536 = enc_val sd p div 65536"
  by (simp add: enc_val_def)

text \<open>The two bytes of a narrow interval.\<close>

lemma two_bytes_full:
  assumes "enc_wf sd p" "full sd \<noteq> 0"
  shows "prefix ((stream sd)[p := ucast (drop_bit 16 (streamval sd))]) (pos (full sd) p + 2) = enc_val sd p div 65536"
proof -
  let ?w = "ucast (drop_bit 16 (streamval sd)) :: 16 word"
  let ?st = "(stream sd)[p := ?w]"
  have p: "p < length (stream sd)" "pos (full sd) p = 2 * p" using assms by (simp_all add: enc_wf_def pos_def)
  have "unat (streamval sd) div 65536 < 65536" using unat_less_32 [of "streamval sd"] by (simp add: less_mult_imp_div_less)
  then have w: "unat ?w = unat (streamval sd) div 65536" by (simp add: unat_down unat_high)
  have "prefix ?st (2 * p) = prefix (stream sd) (2 * p)" by (rule prefix_cong_words) simp
  then have "prefix ?st (2 * p + 2) = prefix (stream sd) (2 * p) * 65536 + unat (streamval sd) div 65536"
    unfolding prefix_word using p(1) w by simp
  then show ?thesis using enc_val_high [of sd p] p(2) by simp
qed

lemma two_bytes_half:
  assumes "enc_wf sd p" "full sd = 0" and q: "p + 1 < length (stream sd)"
  shows "prefix ((stream sd)[p := stream sd ! p OR ucast (drop_bit 24 (streamval sd)),
      p + 1 := ucast (drop_bit 8 (streamval sd)) AND 0xFF00]) (pos (full sd) p + 2) = enc_val sd p div 65536"
proof -
  let ?v = "unat (stream sd ! p)" and ?s = "unat (streamval sd)"
  let ?w = "stream sd ! p OR ucast (drop_bit 24 (streamval sd))" and ?u = "ucast (drop_bit 8 (streamval sd)) AND 0xFF00 :: 16 word"
  let ?st = "(stream sd)[p := ?w, p + 1 := ?u]"
  have p: "pos (full sd) p = 2 * p + 1" and v: "?v mod 256 = 0" using assms by (simp_all add: enc_wf_def pos_def)
  have b: "?s div 16777216 < 256" using unat_less_32 [of "streamval sd"] by (simp add: less_mult_imp_div_less)
  have "unat (ucast (drop_bit 24 (streamval sd)) :: 16 word) = ?s div 16777216" using b by (simp add: unat_down unat_high)
  moreover have v': "?v = ?v div 256 * 2 ^ 8" using byte_aligned [OF v unat_less_16] by simp
  ultimately have w: "unat ?w = ?v + ?s div 16777216"
    unfolding unsigned_or_eq using nat_or_add [of "?s div 16777216" 8 "?v div 256"] b by simp
  have "drop_bit 8 (x AND push_bit 8 (mask 8)) = drop_bit 8 x" for x :: "16 word"
    by (rule bit_word_eqI) (auto simp: bit_simps dest: bit_imp_le_length)
  then have "drop_bit 8 ?u = drop_bit 8 (ucast (drop_bit 8 (streamval sd)))" by (simp add: mask_eq_exp_minus_1)
  then have "unat ?u div 2 ^ 8 = ?s div 2 ^ 8 mod 2 ^ 16 div 2 ^ 8" 
    using unat_high [of 8 ?u] unat_high [of 8 "ucast (drop_bit 8 (streamval sd)) :: 16 word"]
    by (simp add: unat_down unat_high)
  also have "\<dots> = ?s div 65536 mod 256" using mod_mult2_eq [of "?s div 256" 256 256] by (simp add: div_mult2_eq [symmetric])
  finally have u: "unat ?u div 256 = ?s div 65536 mod 256" by simp
  have pre: "prefix ?st (2 * p) = prefix (stream sd) (2 * p)" by (rule prefix_cong_words) simp
  have "prefix ?st (2 * p + 2) = prefix (stream sd) (2 * p) * 65536 + ?v + ?s div 16777216"
    unfolding prefix_word pre using w q by simp
  moreover have "prefix (stream sd) (2 * p + 1) = prefix (stream sd) (2 * p) * 256 + ?v div 256" by (simp add: stream_byte_def)
  ultimately have "prefix ?st (2 * p + 2) = prefix (stream sd) (2 * p + 1) * 256 + ?s div 16777216" using v' by simp
  moreover have "stream_byte ?st (2 * p + 2) = ?s div 65536 mod 256" using u q by (simp add: stream_byte_def)
  ultimately have "prefix ?st (2 * p + 3) = prefix (stream sd) (2 * p + 1) * 65536 + (?s div 16777216 * 256 + ?s div 65536 mod 256)"
    by (simp add: numeral_3_eq_3)
  also have "?s div 16777216 = ?s div 65536 div 256" by (simp add: div_mult2_eq [symmetric])
  finally show ?thesis using enc_val_high [of sd p] p by (simp add: numeral_3_eq_3)
qed

lemma EncTerminate_ok:
  assumes "encoder sd (E, n, W)" "n \<le> 397"
  defines "L \<equiv> n + (if 33554431 < W then 1 else 2)"
  shows "\<exists>sd'. WebRtcIsacfix_EncTerminate sd = Some (int L, sd') \<and> length (stream sd') = STREAM_MAXW16_60MS \<and>
    (\<forall>st. (\<forall>i < L. stream_byte st i = stream_byte (stream sd') i) \<longrightarrow> in_code st (E, n, W))"
proof -
  let ?p = "stream_index sd"
  have wf: "enc_wf sd ?p" and n: "n = pos (full sd) ?p" and E: "E = enc_val sd ?p" and W: "W = unat (W_upper sd)"
    and ok: "16777216 \<le> W" "E + W < 256 ^ n * 4294967296" using assms(1) by (auto simp: encoder_def enc_abs_def coder_ok_def)
  have p: "?p < 199" "length (stream sd) = 200" using wf assms(2) n by (auto simp: enc_wf_def pos_def STREAM_MAXW16_60MS_def split: if_splits)
  have cmp: "0x01FFFFFF < W_upper sd \<longleftrightarrow> 33554431 < W" unfolding W by (simp add: word_less_nat_alt)
  have done_: "\<forall>st. (\<forall>i < n + k. stream_byte st i = stream_byte st' i) \<longrightarrow> in_code st (E, n, W)"
    if "prefix st' (n + k) = (E + 256 ^ m) div 256 ^ m" "k + m = 4" "2 * 256 ^ m \<le> W" for k m st'
    using code_any_tail [OF _ that(2,3)] that(1) prefix_cong by metis
  show ?thesis
  proof (cases "33554431 < W")
    case True
    have "enc_val sd ?p + unat (0x01000000 :: 32 word) < 256 ^ pos (full sd) ?p * 4294967296" using ok True unfolding E n by simp
    from enc_add [OF wf this] obtain sd1 where a: "(if streamval (sd\<lparr>streamval := streamval sd + 0x01000000\<rparr>) < 0x01000000
          then propagate_carry (sd\<lparr>streamval := streamval sd + 0x01000000\<rparr>) ?p else Some (sd\<lparr>streamval := streamval sd + 0x01000000\<rparr>)) = Some sd1"
        "enc_wf sd1 ?p" "full sd1 = full sd" "enc_val sd1 ?p = E + 16777216" unfolding E by auto
    obtain q sd2 where b: "put_byte sd1 ?p = Some (q, sd2)" "pos (full sd2) q = Suc n"
        "prefix (stream sd2) (Suc n) = prefix (stream sd1) n * 256 + unat (streamval sd1) div 16777216"
        "q < STREAM_MAXW16_60MS \<longrightarrow> enc_wf sd2 q"
      using put_byte_ok [OF a(2)] unfolding a(3) n by blast
    then have len: "length (stream sd2) = STREAM_MAXW16_60MS"
      using assms(2) by (auto simp: enc_wf_def pos_def STREAM_MAXW16_60MS_def split: if_splits)
    have "enc_val sd1 ?p div 16777216 = prefix (stream sd1) n * 256 + unat (streamval sd1) div 16777216"
      by (simp add: enc_val_def a(3) n)
    then have "prefix (stream sd2) (n + 1) = (E + 256 ^ 3) div 256 ^ 3" using b(3) a(4) by simp
    then have t: "\<forall>st. (\<forall>i < n + 1. stream_byte st i = stream_byte (stream sd2) i) \<longrightarrow> in_code st (E, n, W)" 
    proof (rule done_ [where m = 3])
      show "2 * 256 ^ 3 \<le> W" using True by simp
    qed simp_all
    have "int q * 2 + (if full sd2 = 0 then 1 else 0) = int (n + 1)" using b(2) by (auto simp: pos_def)
    moreover have "s16 (int (n + 1)) = int (n + 1)" using assms(2) by (intro s16_id) (simp add: is_s16_def)
    ultimately have "WebRtcIsacfix_EncTerminate sd = Some (int (n + 1), sd2)"
      using a(1) b(1) True cmp by (simp add: WebRtcIsacfix_EncTerminate_def Let_def)
    then show ?thesis using t len True unfolding L_def by auto
  next
    case False
    have "enc_val sd ?p + unat (0x00010000 :: 32 word) < 256 ^ pos (full sd) ?p * 4294967296" using ok unfolding E n by simp
    from enc_add [OF wf this] obtain sd1 where a: "(if streamval (sd\<lparr>streamval := streamval sd + 0x00010000\<rparr>) < 0x00010000
          then propagate_carry (sd\<lparr>streamval := streamval sd + 0x00010000\<rparr>) ?p else Some (sd\<lparr>streamval := streamval sd + 0x00010000\<rparr>)) = Some sd1"
        "enc_wf sd1 ?p" "full sd1 = full sd" "enc_val sd1 ?p = E + 65536" unfolding E by auto
    have l: "length (stream sd1) = 200" using a(2) by (simp add: enc_wf_def STREAM_MAXW16_60MS_def)
    have "s16 (int (n + 2)) = int (n + 2)" using assms(2) by (intro s16_id) (simp add: is_s16_def)
    then have "\<exists>sd2. WebRtcIsacfix_EncTerminate sd = Some (int (n + 2), sd2) \<and> length (stream sd2) = 200 \<and> prefix (stream sd2) (n + 2) = enc_val sd1 ?p div 65536"
      using a(1,3) p(1) l False cmp two_bytes_full [OF a(2)] two_bytes_half [OF a(2)]
      by (cases "full sd = 0") (simp_all add: WebRtcIsacfix_EncTerminate_def Let_def n pos_def algebra_simps)
    then obtain sd2 where b: "WebRtcIsacfix_EncTerminate sd = Some (int (n + 2), sd2)" "prefix (stream sd2) (n + 2) = enc_val sd1 ?p div 65536"
        "length (stream sd2) = 200" by blast
    have "\<forall>st. (\<forall>i < n + 2. stream_byte st i = stream_byte (stream sd2) i) \<longrightarrow> in_code st (E, n, W)"
      using b(2) a(4) ok(1) by (intro done_ [where m = 2]) simp_all
    then show ?thesis using b(1,3) False unfolding L_def by (auto simp: STREAM_MAXW16_60MS_def)
  qed
qed

section \<open>The interval seen from the decoder\<close>

lemma in_code_step:
  assumes "in_code st (coder_step (E, n, W) (lo, hi))" "coder_ok (E, n, W)" "lo < hi" "hi < 65536"
  shows "E + W * lo div 65536 + 1 \<le> prefix st (n + 4)" "prefix st (n + 4) \<le> E + W * hi div 65536"
proof -
  let ?l = "W * lo div 65536 + 1"
  let ?w = "W * hi div 65536 - ?l"
  let ?r = "shifts ?w"
  have "16777216 \<le> W" using assms(2) by (simp add: coder_ok_def)
  note b = narrow [OF this assms(3,4)]
  have "n + ?r + 4 = n + 4 + ?r" by simp
  then obtain x where x: "x < 256 ^ ?r" "prefix st (n + ?r + 4) = prefix st (n + 4) * 256 ^ ?r + x" using prefix_split by metis
  have c: "(E + ?l) * 256 ^ ?r \<le> prefix st (n + ?r + 4)" "prefix st (n + ?r + 4) \<le> (E + ?l) * 256 ^ ?r + ?w * 256 ^ ?r"
    using assms(1) unfolding in_code_def coder_step_def split_conv Let_def by simp_all
  have "(E + ?l) * 256 ^ ?r < Suc (prefix st (n + 4)) * 256 ^ ?r" unfolding mult_Suc using c(1) x by linarith
  then show "E + W * lo div 65536 + 1 \<le> prefix st (n + 4)" by (simp only: mult_less_cancel2 less_Suc_eq_le add.assoc)
  have "prefix st (n + 4) * 256 ^ ?r \<le> (E + ?l + ?w) * 256 ^ ?r" using c(2) x(2) by (simp add: add_mult_distrib)
  then have "prefix st (n + 4) \<le> E + ?l + ?w" by (rule mult_right_le_imp_le) simp
  then show "prefix st (n + 4) \<le> E + W * hi div 65536" using b by linarith
qed

lemma in_code_run:
  assumes "in_code st (foldl coder_step s (map2 freqs cdf data))" "coder_ok s" "list_all2 symbol_ok cdf data"
  shows "in_code st s"
  using assms
proof (induction data arbitrary: cdf s)
  case (Cons d data)
  then obtain c cdf' where c: "cdf = c # cdf'" "symbol_ok c d" "list_all2 symbol_ok cdf' data" by (auto simp: list_all2_Cons2)
  obtain E n W lo hi where s: "s = (E, n, W)" "freqs c d = (lo, hi)" by (cases s, cases "freqs c d") blast
  have f: "lo < hi" "hi < 65536" using freqs_ok [OF c(2)] s(2) by simp_all
  have "16777216 \<le> W" using Cons.prems(2) s(1) by (simp add: coder_ok_def)
  note b = narrow [OF this f]
  have "in_code st (coder_step s (freqs c d))"
    using Cons.IH [of "coder_step s (freqs c d)" cdf'] Cons.prems(1) coder_step_symbol [OF Cons.prems(2) c(2)] c(1,3) by simp
  then show ?case using in_code_step [of st E n W lo hi] Cons.prems(2) f b unfolding s in_code_def split_conv by simp
qed simp

section \<open>The decoder follows the coder\<close>

lemma get_byte_ok:
  assumes "full sd \<in> {0, 1}" "pos (full sd) (r_ptr r) < 2 * length (stream sd)" "unat (r_val r) < 16777216"
  shows "\<exists>r' sd'. get_byte sd r = Some (r', sd') \<and> stream sd' = stream sd \<and> full sd' \<in> {0, 1} \<and>
    pos (full sd') (r_ptr r') = Suc (pos (full sd) (r_ptr r)) \<and> r_upper r' = r_upper r \<and>
    unat (r_val r') = unat (r_val r) * 256 + stream_byte (stream sd) (pos (full sd) (r_ptr r))"
proof -
  let ?v = "stream sd ! r_ptr r"
  have p: "r_ptr r < length (stream sd)" using assms(2) by (simp add: pos_def split: if_splits)
  have low: "unat (ucast ?v AND 0x00FF :: 32 word) = unat ?v mod 256"
    using unat_low [of 8 "ucast ?v :: 32 word"] by (simp add: mask_eq_exp_minus_1 unat_up)
  have high: "unat (drop_bit 8 (ucast ?v) :: 32 word) = unat ?v div 256" by (simp add: unat_high unat_up)
  have or: "unat (push_bit 8 (r_val r) OR x) = unat (r_val r) * 256 + unat x" if "unat x < 256" for x
    unfolding unsigned_or_eq word_shift [OF assms(3)] using nat_or_add [of "unat x" 8 "unat (r_val r)"] that by simp
  have l: "unat ?v mod 256 < 256" "unat ?v div 256 < 256" using unat_less_16 [of ?v] by (simp_all add: less_mult_imp_div_less)
  show ?thesis
  proof (cases "full sd = 0")
    case True
    then show ?thesis using p or low l(1) by (simp add: get_byte_def pos_def stream_byte_def)
  next
    case False
    then show ?thesis using p or high l(2) by (simp add: get_byte_def pos_def stream_byte_def)
  qed
qed

text \<open>The value stays below the width rounded up to the bytes read so far, so that no shift loses a bit.\<close>

lemma room_for_byte:
  assumes "256 ^ k dvd U" "v < U + 256 ^ k" "0 < U" "U < 16777216"
  shows "v < (16777216 :: nat)"
proof -
  have "256 ^ k < (256 :: nat) ^ 3" using dvd_imp_le [OF assms(1,3)] assms(4) by simp
  then have k: "k \<le> 3" using power_less_imp_less_exp [of "256 :: nat" k 3] by simp
  obtain q where q: "U = 256 ^ k * q" using assms(1) by blast
  have "(16777216 :: nat) = 256 ^ k * 256 ^ (3 - k)" using k by (simp flip: power_add)
  then have "256 ^ k * q < 256 ^ k * 256 ^ (3 - k)" using q assms(4) by simp
  then have "256 ^ k * Suc q \<le> 256 ^ k * 256 ^ (3 - k)" by (intro mult_le_mono2) simp
  then show ?thesis using assms(2) q \<open>16777216 = 256 ^ k * 256 ^ (3 - k)\<close> by simp
qed

lemma dec_renorm_ok:
  assumes "full sd \<in> {0, 1}" "0 < unat (r_upper r)" "256 ^ k dvd unat (r_upper r)" "unat (r_val r) < unat (r_upper r) + 256 ^ k"
    and "pos (full sd) (r_ptr r) + shifts (unat (r_upper r)) \<le> 2 * length (stream sd)"
  shows "\<exists>r' sd'. dec_renorm sd r = Some (r', sd') \<and> stream sd' = stream sd \<and> full sd' \<in> {0, 1} \<and>
    pos (full sd') (r_ptr r') = pos (full sd) (r_ptr r) + shifts (unat (r_upper r)) \<and>
    unat (r_upper r') = unat (r_upper r) * 256 ^ shifts (unat (r_upper r)) \<and>
    unat (r_val r') + prefix (stream sd) (pos (full sd) (r_ptr r)) * 256 ^ shifts (unat (r_upper r)) =
      unat (r_val r) * 256 ^ shifts (unat (r_upper r)) + prefix (stream sd) (pos (full sd) (r_ptr r) + shifts (unat (r_upper r)))"
  using assms
proof (induction sd r arbitrary: k rule: dec_renorm.induct)
  case (1 sd r)
  let ?U = "unat (r_upper r)" and ?m = "pos (full sd) (r_ptr r)"
  show ?case
  proof (cases "?U < 16777216")
    case False
    then have "shifts ?U = 0" by (simp add: shifts.simps)
    then show ?thesis using False "1.prems"(1) by (simp add: dec_renorm.simps [of sd] top_byte)
  next
    case True
    then have t: "r_upper r AND 0xFF000000 = 0" by (simp add: top_byte)
    have u: "unat (push_bit 8 (r_upper r)) = ?U * 256" by (rule word_shift [OF True])
    have s: "shifts ?U = Suc (shifts (?U * 256))" using True "1.prems"(2) by (simp add: shifts.simps [of ?U])
    have "?m < 2 * length (stream sd)" "unat (r_val r) < 16777216"
      using "1.prems"(5) s room_for_byte [OF "1.prems"(3,4,2) True] by linarith+
    then obtain r1 sd1 where g: "get_byte sd r = Some (r1, sd1)" "stream sd1 = stream sd" "full sd1 \<in> {0, 1}"
        "pos (full sd1) (r_ptr r1) = Suc ?m" "r_upper r1 = r_upper r" "unat (r_val r1) = unat (r_val r) * 256 + stream_byte (stream sd) ?m"
      using get_byte_ok [OF "1.prems"(1)] by blast
    let ?r1 = "r1\<lparr>r_upper := push_bit 8 (r_upper r1)\<rparr>"
    have U: "unat (r_upper ?r1) = ?U * 256" using u g(5) by simp
    have "0 < unat (r_upper ?r1)" "256 ^ Suc k dvd unat (r_upper ?r1)"
      using U "1.prems"(2,3) by (simp_all add: mult_dvd_mono mult.commute)
    moreover have "unat (r_val ?r1) < unat (r_upper ?r1) + 256 ^ Suc k"
      using U g(6) "1.prems"(4) stream_byte_less [of "stream sd" ?m] by simp
    moreover have "pos (full sd1) (r_ptr ?r1) + shifts (unat (r_upper ?r1)) \<le> 2 * length (stream sd1)"
      using "1.prems"(5) s g(2,4) U by simp
    ultimately obtain r' sd' where i: "dec_renorm sd1 ?r1 = Some (r', sd')" "stream sd' = stream sd" "full sd' \<in> {0, 1}"
        "pos (full sd') (r_ptr r') = Suc ?m + shifts (?U * 256)" "unat (r_upper r') = ?U * 256 * 256 ^ shifts (?U * 256)"
        "unat (r_val r') + prefix (stream sd) (Suc ?m) * 256 ^ shifts (?U * 256) =
          unat (r_val r1) * 256 ^ shifts (?U * 256) + prefix (stream sd) (Suc ?m + shifts (?U * 256))"
      using "1.IH" [OF _ g(1) refl g(3), of "Suc k"] t U g(2,4) by auto
    have "dec_renorm sd r = Some (r', sd')" using t g(1) i(1) by (subst dec_renorm.simps) simp
    then show ?thesis using i(2-6) g(6) unfolding s by (simp add: algebra_simps)
  qed
qed

text \<open>The registers of a decoder in a state of the coder: the value read so far is the offset of the code in the interval.\<close>

definition dec_match :: "Bitstr_dec \<Rightarrow> dec_regs \<Rightarrow> nat \<times> nat \<times> nat \<Rightarrow> bool" where
  "dec_match sd r s = (case s of (E, n, W) \<Rightarrow> full sd \<in> {0, 1} \<and> pos (full sd) (r_ptr r) = n + 4 \<and>
     unat (r_upper r) = W \<and> E + unat (r_val r) = prefix (stream sd) (n + 4))"

lemma dec_shift_ok:
  assumes "dec_match sd r s" "coder_ok s" "symbol_ok cdf d" "in_code (stream sd) (coder_step s (freqs cdf d))"
    and "fst (snd (coder_step s (freqs cdf d))) + 4 \<le> 2 * length (stream sd)"
  defines "lo \<equiv> cdf_scale (r_upper r) (cdf ! nat d)" and "hi \<equiv> cdf_scale (r_upper r) (cdf ! (nat d + 1))"
  shows "lo < r_val r" "r_val r \<le> hi"
    "\<exists>r' sd'. dec_shift sd (r\<lparr>r_lower := lo, r_upper := hi\<rparr>) = Some (r', sd') \<and> stream sd' = stream sd \<and>
       dec_match sd' r' (coder_step s (freqs cdf d))"
proof -
  obtain E n W where s: "s = (E, n, W)" by (cases s)
  let ?a = "unat (cdf ! nat d)" and ?b = "unat (cdf ! (nat d + 1))"
  have f: "freqs cdf d = (?a, ?b)" "?a < ?b" "?b < 65536" using assms(3) unat_less_16 by (simp_all add: freqs_def symbol_ok_def)
  have m: "full sd \<in> {0, 1}" "pos (full sd) (r_ptr r) = n + 4" "unat (r_upper r) = W" "E + unat (r_val r) = prefix (stream sd) (n + 4)"
    using assms(1) by (auto simp: dec_match_def s)
  have W: "16777216 \<le> W" "W < 4294967296" using assms(2) by (auto simp: coder_ok_def s)
  note b = narrow [OF W(1) f(2,3)]
  note c = in_code_step [OF assms(4) [unfolded s f(1)] assms(2) [unfolded s] f(2,3)]
  have u: "unat lo = W * ?a div 65536" "unat hi = W * ?b div 65536" unfolding lo_def hi_def cdf_scale_unat m(3) by simp_all
  show v: "lo < r_val r" "r_val r \<le> hi" unfolding word_less_nat_alt word_le_nat_alt u using c m(4) by linarith+
  let ?l = "lo + 1"
  have l: "unat ?l = W * ?a div 65536 + 1" using b W(2) u(1) by (simp add: unat_word_ariths)
  then have le: "?l \<le> hi" "?l \<le> r_val r" using b c m(4) unfolding word_le_nat_alt u by linarith+
  let ?w = "W * ?b div 65536 - (W * ?a div 65536 + 1)"
  let ?r = "r\<lparr>r_lower := ?l, r_upper := hi - ?l, r_val := r_val r - ?l\<rparr>"
  have w: "unat (r_upper ?r) = ?w" "unat (r_val ?r) = unat (r_val r) - (W * ?a div 65536 + 1)" using le l u(2) by (simp_all add: unat_sub)
  have step: "coder_step s (freqs cdf d) = ((E + (W * ?a div 65536 + 1)) * 256 ^ shifts ?w, n + shifts ?w, ?w * 256 ^ shifts ?w)"
    by (simp only: s f(1) coder_step_def split_conv Let_def)
  have "0 < unat (r_upper ?r)" "unat (r_val ?r) < unat (r_upper ?r) + 256 ^ 0" unfolding w power_0 using b c m(4) by linarith+
  moreover have "pos (full sd) (r_ptr ?r) + shifts (unat (r_upper ?r)) \<le> 2 * length (stream sd)"
    using assms(5) m(2) unfolding w(1) step by simp
  ultimately obtain r' sd' where n: "dec_renorm sd ?r = Some (r', sd')" "stream sd' = stream sd" "full sd' \<in> {0, 1}"
      "pos (full sd') (r_ptr r') = n + 4 + shifts ?w" "unat (r_upper r') = ?w * 256 ^ shifts ?w"
      "unat (r_val r') + prefix (stream sd) (n + 4) * 256 ^ shifts ?w =
        (unat (r_val r) - (W * ?a div 65536 + 1)) * 256 ^ shifts ?w + prefix (stream sd) (n + 4 + shifts ?w)"
    using dec_renorm_ok [OF m(1), of ?r 0] unfolding w by (auto simp: m(2))
  have "(E + (W * ?a div 65536 + 1) + (unat (r_val r) - (W * ?a div 65536 + 1))) * 256 ^ shifts ?w = prefix (stream sd) (n + 4) * 256 ^ shifts ?w"
    using c(1) m(4) by simp
  then have "(E + (W * ?a div 65536 + 1)) * 256 ^ shifts ?w + unat (r_val r') = prefix (stream sd) (n + 4 + shifts ?w)"
    using n(6) unfolding add_mult_distrib by linarith
  moreover have e: "n + 4 + shifts ?w = n + shifts ?w + 4" by simp
  ultimately have "dec_match sd' r' (coder_step s (freqs cdf d))"
    using n(3-5) unfolding step dec_match_def split_conv n(2) e by (intro conjI)
  then show "\<exists>r' sd'. dec_shift sd (r\<lparr>r_lower := lo, r_upper := hi\<rparr>) = Some (r', sd') \<and> stream sd' = stream sd \<and>
       dec_match sd' r' (coder_step s (freqs cdf d))"
    using n(1,2) by (simp add: dec_shift_def Let_def)
qed

definition code_run :: "nat \<times> nat \<times> nat \<Rightarrow> 16 word list list \<Rightarrow> int list \<Rightarrow> nat \<times> nat \<times> nat" where
  "code_run s cdf ds = foldl coder_step s (map2 freqs cdf ds)"

section \<open>What a symbol search has to find\<close>

text \<open>
  Both decoders search a table for the symbol whose interval contains the value, and differ only in the search.  With a search that
  finds it, a decoder follows the encoder through any sequence of symbols.
\<close>

locale symbol_decoder =
  fixes table :: "'t \<Rightarrow> 16 word list" and ok :: "'t \<Rightarrow> int \<Rightarrow> bool"
    and decode :: "'t \<Rightarrow> Bitstr_dec \<Rightarrow> dec_regs \<Rightarrow> symbol_result"
  assumes ok_symbol: "ok t d \<Longrightarrow> symbol_ok (table t) d"
    and finds: "ok t d \<Longrightarrow> cdf_scale (r_upper r) (table t ! nat d) < r_val r \<Longrightarrow>
      r_val r \<le> cdf_scale (r_upper r) (table t ! (nat d + 1)) \<Longrightarrow>
      dec_shift sd (r\<lparr>r_lower := cdf_scale (r_upper r) (table t ! nat d), r_upper := cdf_scale (r_upper r) (table t ! (nat d + 1))\<rparr>) =
        Some (r', sd') \<Longrightarrow> r_upper r' \<noteq> 0 \<Longrightarrow> decode t sd r = Some (Inr (d, r', sd'))"
begin

lemma symbols: "list_all2 ok ts ds \<Longrightarrow> list_all2 symbol_ok (map table ts) ds"
  by (auto simp: list_all2_map1 elim!: list.rel_mono_strong intro: ok_symbol)

lemma dec_loop_ok:
  assumes "dec_match sd r s" "coder_ok s" "list_all2 ok ts ds" "in_code (stream sd) (code_run s (map table ts) ds)"
    and "fst (snd (code_run s (map table ts) ds)) + 4 \<le> 2 * length (stream sd)" "i + length ds \<le> length data"
  shows "\<exists>r' sd'. dec_loop decode (length ds) ts data i sd r =
      Some (Inr (take i data @ ds @ drop (i + length ds) data, r', sd')) \<and> stream sd' = stream sd \<and> dec_match sd' r' (code_run s (map table ts) ds)"
  using assms
proof (induction ds arbitrary: ts data i sd r s)
  case Nil
  then show ?case by (simp add: code_run_def)
next
  case (Cons d ds)
  then obtain t ts' where t: "ts = t # ts'" "ok t d" "list_all2 ok ts' ds" by (auto simp: list_all2_Cons2)
  let ?s = "coder_step s (freqs (table t) d)"
  have run: "code_run s (map table ts) (d # ds) = code_run ?s (map table ts') ds" by (simp add: t(1) code_run_def)
  have ok: "coder_ok ?s" using coder_step_symbol [OF Cons.prems(2) ok_symbol [OF t(2)]] by simp
  have i: "in_code (stream sd) ?s" using in_code_run [OF _ ok symbols [OF t(3)]] Cons.prems(4) unfolding run by (simp add: code_run_def)
  have l: "fst (snd ?s) + 4 \<le> 2 * length (stream sd)"
    using Cons.prems(5) [unfolded run] coder_run_grows [of ?s "map2 freqs (map table ts') ds"] unfolding code_run_def by linarith
  note a = dec_shift_ok [OF Cons.prems(1,2) ok_symbol [OF t(2)] i l]
  obtain r1 sd1 where b: "dec_shift sd (r\<lparr>r_lower := cdf_scale (r_upper r) (table t ! nat d),
        r_upper := cdf_scale (r_upper r) (table t ! (nat d + 1))\<rparr>) = Some (r1, sd1)" "stream sd1 = stream sd" "dec_match sd1 r1 ?s"
    using a(3) by blast
  have "0 < unat (r_upper r1)" using b(3) ok by (auto simp: dec_match_def coder_ok_def split: prod.splits)
  then have "r_upper r1 \<noteq> 0" by auto
  then have dc: "decode t sd r = Some (Inr (d, r1, sd1))" by (rule finds [OF t(2) a(1,2) b(1)])
  have i': "i < length data" "Suc i + length ds \<le> length (data[i := d])" using Cons.prems(6) by simp_all
  obtain r' sd' where c: "dec_loop decode (length ds) ts' (data[i := d]) (Suc i) sd1 r1 =
      Some (Inr (take (Suc i) (data[i := d]) @ ds @ drop (Suc i + length ds) (data[i := d]), r', sd'))"
      "stream sd' = stream sd1" "dec_match sd' r' (code_run ?s (map table ts') ds)"
    using Cons.IH [OF b(3) ok t(3) _ _ i'(2)] Cons.prems(4,5) b(2) unfolding run by auto
  have "take (Suc i) (data[i := d]) = take i data @ [d]" using i'(1) by (simp add: take_Suc_conv_app_nth)
  moreover have "drop (Suc i + length ds) (data[i := d]) = drop (i + length (d # ds)) data" by simp
  ultimately show ?case using dc c b(2) i'(1) run by (simp add: t(1))
qed

end

text \<open>A decoder between two calls; before the first one nothing has been read.\<close>

definition decoder :: "Bitstr_dec \<Rightarrow> nat \<times> nat \<times> nat \<Rightarrow> bool" where
  "decoder sd s \<longleftrightarrow> coder_ok s \<and> (\<exists>p v. dec_first sd = Some (p, v) \<and>
     dec_match sd \<lparr>r_lower = 0, r_upper = W_upper sd, r_val = v, r_ptr = p\<rparr> s)"

text \<open>The length of the stream if it ended here.\<close>

definition code_length :: "nat \<times> nat \<times> nat \<Rightarrow> nat" where
  "code_length s = (case s of (E, n, W) \<Rightarrow> n + (if 33554431 < W then 1 else 2))"

context symbol_decoder
begin

lemma dec_multi_ok:
  assumes "decoder sd s" "list_all2 ok ts ds" "in_code (stream sd) (code_run s (map table ts) ds)"
    and "fst (snd (code_run s (map table ts) ds)) + 4 \<le> 2 * length (stream sd)" "length (stream sd) \<le> 16000" "length ds \<le> length data"
  shows "\<exists>sd'. dec_multi decode data sd ts (int (length ds)) =
      Some (int (code_length (code_run s (map table ts) ds)), ds @ drop (length ds) data, sd') \<and>
    stream sd' = stream sd \<and> decoder sd' (code_run s (map table ts) ds)"
proof -
  let ?s = "code_run s (map table ts) ds"
  obtain p v where f: "dec_first sd = Some (p, v)" "dec_match sd \<lparr>r_lower = 0, r_upper = W_upper sd, r_val = v, r_ptr = p\<rparr> s"
    and ok: "coder_ok s" using assms(1) by (auto simp: decoder_def)
  have ok': "coder_ok ?s" using coder_run_ok [OF ok symbols [OF assms(2)]] by (simp add: code_run_def)
  have "0 < unat (W_upper sd)" using f(2) ok by (auto simp: dec_match_def coder_ok_def split: prod.splits)
  then have nz: "W_upper sd \<noteq> 0" by auto
  obtain r sd1 where l: "dec_loop decode (length ds) ts data 0 sd \<lparr>r_lower = 0, r_upper = W_upper sd, r_val = v, r_ptr = p\<rparr> =
      Some (Inr (ds @ drop (length ds) data, r, sd1))" "stream sd1 = stream sd" "dec_match sd1 r ?s"
    using dec_loop_ok [OF f(2) ok assms(2-4), of 0 data] assms(6) by auto
  obtain E n W where s: "?s = (E, n, W)" by (cases ?s)
  have m: "full sd1 \<in> {0, 1}" "pos (full sd1) (r_ptr r) = n + 4" "unat (r_upper r) = W" "E + unat (r_val r) = prefix (stream sd1) (n + 4)"
    using l(3) by (auto simp: dec_match_def s)
  have n: "n + 4 \<le> 32000" using assms(4,5) s by simp
  have p: "r_ptr r mod 65536 = r_ptr r" "r_ptr r \<noteq> 0" using m(2) n by (auto simp: pos_def split: if_splits)
  let ?sd = "sd1\<lparr>stream_index := r_ptr r, W_upper := r_upper r, streamval := r_val r\<rparr>"
  have "decoder ?sd ?s" using ok' p(2) m unfolding decoder_def dec_first_def dec_match_def s by simp
  moreover have "int (r_ptr r) * 2 - (if r_upper r > 0x01FFFFFF then 3 else 2) + (if full sd1 = 0 then 1 else 0) = int (code_length ?s)"
    using m(2,3) by (auto simp: s code_length_def pos_def word_less_nat_alt)
  moreover have "s16 (int (code_length ?s)) = int (code_length ?s)"
    using n by (intro s16_id) (simp add: s code_length_def is_s16_def)
  ultimately show ?thesis using nz f(1) l(1,2) p(1) by (simp add: dec_multi_def Let_def)
qed

end

section \<open>The searches\<close>

lemma cdf_scale_mono: "c \<le> c' \<Longrightarrow> cdf_scale W c \<le> cdf_scale W c'"
  unfolding word_le_nat_alt cdf_scale_unat by (intro div_le_mono mult_le_mono2)

text \<open>In an increasing table the positions up to the symbol are those whose bound is below the value.\<close>

lemma below_value:
  assumes "sorted_wrt (<) cdf" "symbol_ok cdf d" "cdf_scale W (cdf ! nat d) < val" "val \<le> cdf_scale W (cdf ! (nat d + 1))" "i < length cdf"
  shows "cdf_scale W (cdf ! i) < val \<longleftrightarrow> int i \<le> d"
proof (cases "int i \<le> d")
  case True
  have "i < nat d \<or> i = nat d" using True assms(2) by (auto simp: symbol_ok_def)
  then have "cdf ! i \<le> cdf ! nat d"
    using sorted_wrt_nth_less [OF assms(1), of i "nat d"] assms(2) by (auto simp: symbol_ok_def)
  from cdf_scale_mono [OF this] show ?thesis using assms(3) True by (auto intro: le_less_trans)
next
  case False
  then have "nat d + 1 < i \<or> nat d + 1 = i" using assms(2) by (auto simp: symbol_ok_def)
  then have "cdf ! (nat d + 1) \<le> cdf ! i" using sorted_wrt_nth_less [OF assms(1), of "nat d + 1" i] assms(5) by auto
  from cdf_scale_mono [OF this] show ?thesis using assms(4) False by (metis leD le_less_trans not_le)
qed

lemma bisect_ok:
  assumes "\<And>i. i < length cdf \<Longrightarrow> cdf_scale W (cdf ! i) < val \<longleftrightarrow> int i \<le> d"
    and "2 ^ j - 1 \<le> p" "p + 2 ^ j \<le> int (length cdf)" "p - 2 ^ j \<le> d" "d \<le> p + 2 ^ j - 1"
    and "d = p - 2 ^ j \<longrightarrow> lower = cdf_scale W (cdf ! nat d)" "d = p + 2 ^ j - 1 \<longrightarrow> upper = cdf_scale W (cdf ! nat (d + 1))"
  shows "\<exists>q w l u. bisect W cdf val (2 ^ j) p lower upper = Some (q, w, l, u) \<and>
    (if val > w then (q, w, u) else (q - 1, l, w)) = (d, cdf_scale W (cdf ! nat d), cdf_scale W (cdf ! nat (d + 1)))"
  using assms(2-)
proof (induction j arbitrary: p lower upper)
  case 0
  let ?w = "cdf_scale W (cdf ! nat p)"
  have p: "0 \<le> p" "nat p < length cdf" using 0 by simp_all
  have "bisect W cdf val (2 ^ 0) p lower upper = Some (p, ?w, lower, upper)"
    using p by (simp add: bisect.simps table_at_def Let_def)
  moreover have "(if val > ?w then (p, ?w, upper) else (p - 1, lower, ?w)) = (d, cdf_scale W (cdf ! nat d), cdf_scale W (cdf ! nat (d + 1)))"
  proof (cases "p \<le> d")
    case True
    then have "d = p" using 0 by simp
    then show ?thesis using assms(1) [OF p(2)] 0 p(1) by simp
  next
    case False
    then have "d = p - 1" using 0 by simp
    then show ?thesis using assms(1) [OF p(2)] 0 p(1) by simp
  qed
  ultimately show ?case by blast
next
  case (Suc j)
  let ?w = "cdf_scale W (cdf ! nat p)"
  have e: "(2 :: int) ^ Suc j = 2 ^ j + 2 ^ j" "(1 :: int) \<le> 2 ^ j" by simp_all
  have p: "0 \<le> p" "nat p < length cdf" using Suc.prems(1,2) e by linarith+
  have d: "(2 :: nat) ^ Suc j div 2 = 2 ^ j" "\<not> (2 :: nat) ^ Suc j < 2" by simp_all
  have b: "bisect W cdf val (2 ^ Suc j) p lower upper =
      (if val > ?w then bisect W cdf val (2 ^ j) (p + 2 ^ j) ?w upper else bisect W cdf val (2 ^ j) (p - 2 ^ j) lower ?w)"
    using p by (subst bisect.simps) (simp add: table_at_def Let_def)
  show ?case
  proof (cases "p \<le> d")
    case True
    then have v: "val > ?w" using assms(1) [OF p(2)] p(1) by simp
    have "\<exists>q w l u. bisect W cdf val (2 ^ j) (p + 2 ^ j) ?w upper = Some (q, w, l, u) \<and>
      (if val > w then (q, w, u) else (q - 1, l, w)) = (d, cdf_scale W (cdf ! nat d), cdf_scale W (cdf ! nat (d + 1)))"
      using Suc.prems True e by (intro Suc.IH) (auto simp: algebra_simps)
    then show ?thesis using b v by simp
  next
    case False
    then have v: "\<not> val > ?w" using assms(1) [OF p(2)] p(1) by simp
    have "\<exists>q w l u. bisect W cdf val (2 ^ j) (p - 2 ^ j) lower ?w = Some (q, w, l, u) \<and>
      (if val > w then (q, w, u) else (q - 1, l, w)) = (d, cdf_scale W (cdf ! nat d), cdf_scale W (cdf ! nat (d + 1)))"
      using Suc.prems False e by (intro Suc.IH) (auto simp: algebra_simps)
    then show ?thesis using b v by simp
  qed
qed

lemma steps_up_ok:
  assumes "\<And>i. i < length cdf \<Longrightarrow> cdf_scale W (cdf ! i) < val \<longleftrightarrow> int i \<le> d" "sorted_wrt (<) cdf" "symbol_ok cdf d" "int p \<le> d"
  shows "steps_up W cdf val p (cdf_scale W (cdf ! p)) =
    Some (Inr (nat d + 1, cdf_scale W (cdf ! nat d), cdf_scale W (cdf ! (nat d + 1))))"
  using assms(4)
proof (induction "nat d - p" arbitrary: p)
  case (0 p)
  then have p: "p = nat d" "nat d + 1 < length cdf" "0 \<le> d" using assms(3) by (auto simp: symbol_ok_def)
  have "cdf ! nat d < cdf ! (nat d + 1)" using sorted_wrt_nth_less [OF assms(2)] p(2) by simp
  then have "cdf ! nat d \<noteq> 65535" using unat_less_16 [of "cdf ! (nat d + 1)"] by (auto simp: word_less_nat_alt)
  moreover have "val \<le> cdf_scale W (cdf ! (nat d + 1))" using assms(1) [OF p(2)] p(3) by (simp add: not_less [symmetric])
  ultimately show ?case using p by (subst steps_up.simps) (simp add: Let_def)
next
  case (Suc k p)
  then have p: "int (Suc p) \<le> d" "Suc p < length cdf" "k = nat d - Suc p" using assms(3) by (auto simp: symbol_ok_def)
  have "cdf ! p < cdf ! Suc p" using sorted_wrt_nth_less [OF assms(2)] p(2) by simp
  then have "cdf ! p \<noteq> 65535" using unat_less_16 [of "cdf ! Suc p"] by (auto simp: word_less_nat_alt)
  moreover have "\<not> val \<le> cdf_scale W (cdf ! Suc p)" using assms(1) [OF p(2)] p(1) by (simp add: not_le)
  ultimately show ?case using Suc.hyps(1) [OF p(3,1)] p(2) by (subst steps_up.simps) (simp add: Let_def)
qed

lemma steps_down_ok:
  assumes "\<And>i. i < length cdf \<Longrightarrow> cdf_scale W (cdf ! i) < val \<longleftrightarrow> int i \<le> d" "symbol_ok cdf d" "d < int p" "p < length cdf"
  shows "steps_down W cdf val p (cdf_scale W (cdf ! p)) =
    Some (Inr (nat d, cdf_scale W (cdf ! nat d), cdf_scale W (cdf ! (nat d + 1))))"
  using assms(3,4)
proof (induction p)
  case 0
  then show ?case using assms(2) by (simp add: symbol_ok_def)
next
  case (Suc p)
  show ?case
  proof (cases "int p \<le> d")
    case True
    then have "p = nat d" using Suc.prems by simp
    then show ?thesis using assms(1) [of p] True Suc.prems by (simp add: Let_def)
  next
    case False
    then show ?thesis using Suc assms(1) [of p] by (simp add: Let_def)
  qed
qed

definition bisect_table_ok :: "16 word list \<times> 16 word \<Rightarrow> int \<Rightarrow> bool" where
  "bisect_table_ok t d = (case t of (cdf, cdfSize) \<Rightarrow> symbol_ok cdf d \<and> sorted_wrt (<) cdf \<and>
     (\<exists>k. unat cdfSize = 2 ^ k \<and> length cdf = 2 ^ k - 1))"

definition one_step_table_ok :: "16 word list \<times> 16 word \<Rightarrow> int \<Rightarrow> bool" where
  "one_step_table_ok t d = (case t of (cdf, initIndex) \<Rightarrow> symbol_ok cdf d \<and> sorted_wrt (<) cdf \<and> unat initIndex < length cdf)"

lemma s16_symbol: "symbol_ok cdf d \<Longrightarrow> s16 d = d"
  by (rule s16_id) (simp add: symbol_ok_def is_s16_def)

interpretation bisection: symbol_decoder fst bisect_table_ok bisect_symbol
proof
  fix t :: "16 word list \<times> 16 word" and d r sd r' sd'
  obtain cdf cdfSize where t: "t = (cdf, cdfSize)" by (cases t)
  show "symbol_ok (fst t) d" if "bisect_table_ok t d" using that by (auto simp: t bisect_table_ok_def)
  assume a: "bisect_table_ok t d" "cdf_scale (r_upper r) (fst t ! nat d) < r_val r" "r_val r \<le> cdf_scale (r_upper r) (fst t ! (nat d + 1))"
    "dec_shift sd (r\<lparr>r_lower := cdf_scale (r_upper r) (fst t ! nat d), r_upper := cdf_scale (r_upper r) (fst t ! (nat d + 1))\<rparr>) = Some (r', sd')"
    "r_upper r' \<noteq> 0"
  have s: "symbol_ok cdf d" "sorted_wrt (<) cdf" using a(1) by (auto simp: t bisect_table_ok_def)
  obtain k where k: "unat cdfSize = 2 ^ k" "length cdf = 2 ^ k - 1" using a(1) by (auto simp: t bisect_table_ok_def)
  have d: "0 \<le> d" "nat d + 1 < length cdf" using s(1) by (auto simp: symbol_ok_def)
  then have "k \<noteq> 0" using k(2) by (cases k) auto
  then obtain j where j: "k = Suc j" by (cases k) auto
  have h: "unat cdfSize div 2 = 2 ^ j" "int (length cdf) = 2 ^ j + 2 ^ j - 1" using k j by (simp_all add: of_nat_diff)
  have n: "nat (d + 1) = nat d + 1" using d(1) by simp
  let ?W = "r_upper r" and ?v = "r_val r"
  have "\<And>i. i < length cdf \<Longrightarrow> cdf_scale ?W (cdf ! i) < ?v \<longleftrightarrow> int i \<le> d" using below_value [OF s(2,1)] a(2,3) by (simp add: t)
  then obtain q w l u where b: "bisect ?W cdf ?v (2 ^ j) (2 ^ j - 1) (r_lower r) ?W = Some (q, w, l, u)"
      "(if ?v > w then (q, w, u) else (q - 1, l, w)) = (d, cdf_scale ?W (cdf ! nat d), cdf_scale ?W (cdf ! nat (d + 1)))"
    using bisect_ok [of cdf ?W ?v d j "2 ^ j - 1" "r_lower r" ?W] d h(2) by fastforce
  have "(if ?v > w then (s16 q, w, u) else (s16 (q - 1), l, w)) = (d, cdf_scale ?W (cdf ! nat d), cdf_scale ?W (cdf ! (nat d + 1)))"
    using b(2) s16_symbol [OF s(1)] n by (auto split: if_splits)
  then show "bisect_symbol t sd r = Some (Inr (d, r', sd'))"
    using b(1) h(1) a(4,5) by (simp add: bisect_symbol_def t Let_def)
qed

interpretation one_step: symbol_decoder fst one_step_table_ok one_step_symbol
proof
  fix t :: "16 word list \<times> 16 word" and d r sd r' sd'
  obtain cdf initIndex where t: "t = (cdf, initIndex)" by (cases t)
  show "symbol_ok (fst t) d" if "one_step_table_ok t d" using that by (auto simp: t one_step_table_ok_def)
  assume a: "one_step_table_ok t d" "cdf_scale (r_upper r) (fst t ! nat d) < r_val r" "r_val r \<le> cdf_scale (r_upper r) (fst t ! (nat d + 1))"
    "dec_shift sd (r\<lparr>r_lower := cdf_scale (r_upper r) (fst t ! nat d), r_upper := cdf_scale (r_upper r) (fst t ! (nat d + 1))\<rparr>) = Some (r', sd')"
  have s: "symbol_ok cdf d" "sorted_wrt (<) cdf" "unat initIndex < length cdf" using a(1) by (auto simp: t one_step_table_ok_def)
  let ?W = "r_upper r" and ?v = "r_val r" and ?p = "unat initIndex"
  have below: "\<And>i. i < length cdf \<Longrightarrow> cdf_scale ?W (cdf ! i) < ?v \<longleftrightarrow> int i \<le> d" using below_value [OF s(2,1)] a(2,3) by (simp add: t)
  have d: "0 \<le> d" "s16 d = d" using s(1) s16_symbol by (auto simp: symbol_ok_def)
  show "one_step_symbol t sd r = Some (Inr (d, r', sd'))"
  proof (cases "int ?p \<le> d")
    case True
    then show ?thesis using steps_up_ok [OF below s(2,1) True] below [OF s(3)] s(3) d a(4) by (simp add: one_step_symbol_def t Let_def)
  next
    case False
    then show ?thesis using steps_down_ok [OF below s(1) _ s(3)] below [OF s(3)] s(3) d a(4)
      by (simp add: one_step_symbol_def t Let_def)
  qed
qed

end
