(* ===== verification/Isac_Packet.thy ===== *)
theory Isac_Packet
  imports Isac_Coder
begin

text \<open>
  Sequences of calls of the arithmetic coder and the packets they make: the bytes of \<open>write_be16\<close> and \<open>read_be16\<close>, the round trip of a
  packet, and the ends of the encoder's array.
\<close>

section \<open>Calls\<close>

text \<open>A call of the encoder, and the decoder call it is for: its method, tables, and data.\<close>

datatype dec_method = Bisect | OneStep

type_synonym segment = "dec_method \<times> (16 word list \<times> 16 word) list \<times> int list"

definition segment_ok :: "segment \<Rightarrow> bool" where
  "segment_ok seg = (case seg of (m, ts, ds) \<Rightarrow>
     list_all2 (case m of Bisect \<Rightarrow> bisect_table_ok | OneStep \<Rightarrow> one_step_table_ok) ts ds)"

fun encode_all :: "segment list \<Rightarrow> Bitstr_enc \<Rightarrow> Bitstr_enc option" where
  "encode_all [] sd = Some sd"
| "encode_all ((m, ts, ds) # segs) sd = do {
     (status, sd) \<leftarrow> WebRtcIsacfix_EncHistMulti sd ds (map fst ts) (int (length ds));
     if status < 0 then None else encode_all segs sd
   }"

fun decode_all :: "segment list \<Rightarrow> Bitstr_dec \<Rightarrow> (int list \<times> int list list \<times> Bitstr_dec) option" where
  "decode_all [] sd = Some ([], [], sd)"
| "decode_all ((m, ts, ds) # segs) sd = do {
     (len, data, sd) \<leftarrow> (case m of Bisect \<Rightarrow> WebRtcIsacfix_DecHistBisectMulti | OneStep \<Rightarrow> WebRtcIsacfix_DecHistOneStepMulti)
       (replicate (length ds) 0) sd (map fst ts) (map snd ts) (int (length ds));
     (lens, datas, sd) \<leftarrow> decode_all segs sd;
     Some (len # lens, data # datas, sd)
   }"

section \<open>Packets\<close>

lemma read_word_bytes: "unat (push_bit 8 (ucast (a :: byte)) OR ucast (b :: byte) :: 16 word) = unat a * 256 + unat b"
proof -
  have l: "unat a < 256" "unat b < 256" using unsigned_less [of a, where 'a = nat] unsigned_less [of b, where 'a = nat] by simp_all
  have "unat (push_bit 8 (ucast a) :: 16 word) = unat a * 2 ^ 8" using l(1) by (simp add: unat_shift unat_up)
  then show ?thesis unfolding unsigned_or_eq using nat_or_add [of "unat b" 8 "unat a"] l(2) by (simp add: unat_up)
qed

lemma read_be16_loop_ok:
  assumes "2 * (i + k) \<le> length src" "i + k \<le> length dest"
  shows "\<exists>d. read_be16_loop src i k dest = Some d \<and> length d = length dest \<and>
    (\<forall>j < length dest. d ! j = (if i \<le> j \<and> j < i + k then push_bit 8 (ucast (src ! (2 * j))) OR ucast (src ! (2 * j + 1)) else dest ! j))"
  using assms
proof (induction src i k dest rule: read_be16_loop.induct)
  case (2 src i k dest)
  let ?dest = "dest[i := push_bit 8 (ucast (src ! (2 * i))) OR ucast (src ! (2 * i + 1))]"
  have l: "2 * i < length src" "2 * i + 1 < length src" "i < length dest" using "2.prems" by simp_all
  obtain d where d: "read_be16_loop src (i + 1) k ?dest = Some d" "length d = length dest"
      "\<forall>j < length dest. d ! j = (if i + 1 \<le> j \<and> j < i + 1 + k then push_bit 8 (ucast (src ! (2 * j))) OR ucast (src ! (2 * j + 1)) else ?dest ! j)"
    using "2.IH" [of "src ! (2 * i)" "src ! (2 * i + 1)" ?dest] "2.prems" l by auto
  have "d ! j = (if i \<le> j \<and> j < i + Suc k then push_bit 8 (ucast (src ! (2 * j))) OR ucast (src ! (2 * j + 1)) else dest ! j)"
    if "j < length dest" for j using d(3) that by (cases "j = i") auto
  then show ?case using l d(1,2) by simp
qed auto

lemma read_be16_ok:
  assumes "n \<le> length src" "n \<le> 2 * length dest"
  shows "\<exists>d. read_be16 src n dest = Some d \<and> length d = length dest \<and> (\<forall>i < n. stream_byte d i = unat (src ! i)) \<and>
    (\<forall>j < length dest. (n + 1) div 2 \<le> j \<longrightarrow> d ! j = dest ! j)"
proof -
  have k: "2 * (0 + n div 2) \<le> length src" "0 + n div 2 \<le> length dest" using assms by presburger+
  obtain d where d: "read_be16_loop src 0 (n div 2) dest = Some d" "length d = length dest"
      "\<And>j. j < n div 2 \<Longrightarrow> d ! j = push_bit 8 (ucast (src ! (2 * j))) OR ucast (src ! (2 * j + 1))"
      "\<And>j. n div 2 \<le> j \<Longrightarrow> j < length dest \<Longrightarrow> d ! j = dest ! j"
    using read_be16_loop_ok [OF k] k(2) by auto
  have full: "stream_byte d' i = unat (src ! i)" if "i div 2 < n div 2" "d' ! (i div 2) = d ! (i div 2)" for d' i
  proof -
    have "unat (d' ! (i div 2)) = unat (src ! (2 * (i div 2))) * 256 + unat (src ! (2 * (i div 2) + 1))"
      unfolding that(2) d(3) [OF that(1)] by (rule read_word_bytes)
    then show ?thesis using unsigned_less [of "src ! (2 * (i div 2) + 1)", where 'a = nat] by (cases "even i") (auto simp: stream_byte_def)
  qed
  show ?thesis
  proof (cases "n mod 2 = 1")
    case False
    then have "i div 2 < n div 2" if "i < n" for i using that by presburger
    moreover have "n div 2 \<le> (n + 1) div 2" by simp
    ultimately show ?thesis using d(1,2,4) full False by (auto simp: read_be16_def)
  next
    case True
    then have n: "n div 2 < length d" "n - 1 < length src" "n - 1 = 2 * (n div 2)" using assms d(2) by presburger+
    let ?d = "d[n div 2 := push_bit 8 (ucast (src ! (n - 1)))]"
    have "unat (push_bit 8 (ucast (src ! (n - 1))) :: 16 word) = unat (src ! (n - 1)) * 256"
      using unsigned_less [of "src ! (n - 1)", where 'a = nat] by (simp add: unat_shift unat_up)
    then have "stream_byte ?d (n - 1) = unat (src ! (n - 1))" using n(1,3) by (simp add: stream_byte_def)
    moreover have "stream_byte ?d i = unat (src ! i)" if "i < n - 1" for i using that n(3) by (intro full) simp_all
    ultimately have "\<forall>i < n. stream_byte ?d i = unat (src ! i)" by (metis Suc_pred' less_Suc_eq less_zeroE gr0I less_imp_diff_less)
    moreover have "?d ! j = dest ! j" if "j < length dest" "(n + 1) div 2 \<le> j" for j
    proof -
      have "n div 2 < j" using that(2) True by presburger
      then show ?thesis using d(4) [of j] that(1) by simp
    qed
    ultimately show ?thesis using d(1,2) True n(1,2) by (auto simp: read_be16_def)
  qed
qed

lemma write_be16_loop_ok:
  assumes "i + k \<le> length src" "2 * (i + k) \<le> length dest"
  shows "\<exists>d. write_be16_loop src i k dest = Some d \<and> length d = length dest \<and>
    (\<forall>j < length dest. d ! j = (if 2 * i \<le> j \<and> j < 2 * (i + k)
       then (if even j then ucast (drop_bit 8 (src ! (j div 2))) else ucast (src ! (j div 2))) else dest ! j))"
  using assms
proof (induction src i k dest rule: write_be16_loop.induct)
  case (2 src i k dest)
  let ?dest = "dest[2 * i := ucast (drop_bit 8 (src ! i)), 2 * i + 1 := ucast (src ! i)]"
  have l: "i < length src" "2 * i < length dest" "2 * i + 1 < length dest" using "2.prems" by simp_all
  obtain d where d: "write_be16_loop src (i + 1) k ?dest = Some d" "length d = length dest"
      "\<forall>j < length dest. d ! j = (if 2 * (i + 1) \<le> j \<and> j < 2 * (i + 1 + k)
         then (if even j then ucast (drop_bit 8 (src ! (j div 2))) else ucast (src ! (j div 2))) else ?dest ! j)"
    using "2.IH" [of "src ! i" "dest[2 * i := ucast (drop_bit 8 (src ! i))]" ?dest] "2.prems" l by auto
  have "d ! j = (if 2 * i \<le> j \<and> j < 2 * (i + Suc k)
       then (if even j then ucast (drop_bit 8 (src ! (j div 2))) else ucast (src ! (j div 2))) else dest ! j)"
    if j: "j < length dest" for j
  proof -
    have "j = 2 * i \<or> j = 2 * i + 1 \<or> j < 2 * i \<or> 2 * (i + 1) \<le> j" by arith
    then show ?thesis using d(3) j by (elim disjE) auto
  qed
  then show ?case using l d(1,2) by simp
qed auto

lemma write_be16_ok:
  assumes "n \<le> 2 * length src" "n + n mod 2 \<le> length dest"
  shows "\<exists>d. write_be16 src n dest = Some d \<and> length d = length dest \<and> (\<forall>i < n. unat (d ! i) = stream_byte src i)"
proof -
  have k: "0 + n div 2 \<le> length src" "2 * (0 + n div 2) \<le> length dest" using assms by presburger+
  obtain d where d: "write_be16_loop src 0 (n div 2) dest = Some d" "length d = length dest"
      "\<And>j. j < 2 * (n div 2) \<Longrightarrow> d ! j = (if even j then ucast (drop_bit 8 (src ! (j div 2))) else ucast (src ! (j div 2)))"
    using write_be16_loop_ok [OF k] k(2) by auto
  have high: "unat (ucast (drop_bit 8 w) :: byte) = unat w div 256" for w :: "16 word"
    using unat_less_16 [of w] by (simp add: unat_down unat_high less_mult_imp_div_less)
  have low: "unat (ucast w :: byte) = unat w mod 256" for w :: "16 word" by (simp add: unat_down)
  have full: "unat (d ! i) = stream_byte src i" if "i < 2 * (n div 2)" for i using d(3) [OF that] high low by (simp add: stream_byte_def)
  show ?thesis
  proof (cases "n mod 2 = 1")
    case False
    then have "n = 2 * (n div 2)" by presburger
    then show ?thesis using d(1,2) full False by (auto simp: write_be16_def)
  next
    case True
    then have n: "n div 2 < length src" "n < length dest" "n = Suc (2 * (n div 2))" using assms by presburger+
    let ?d = "d[n - 1 := ucast (drop_bit 8 (src ! (n div 2))), n := 0]"
    have "unat (?d ! i) = stream_byte src i" if "i < n" for i
    proof (cases "i = n - 1")
      case i: True
      then have i': "i = 2 * (n div 2)" using n(3) by linarith
      have "?d ! i = ucast (drop_bit 8 (src ! (n div 2)))" using n(2) d(2) i that by simp
      then show ?thesis using high i' by (simp add: stream_byte_def)
    next
      case i: False
      then have "i < 2 * (n div 2)" using that n(3) by linarith
      then show ?thesis using full i that by simp
    qed
    then show ?thesis using d(1,2) True n(1,2) by (auto simp: write_be16_def)
  qed
qed

section \<open>Sequences of calls\<close>

fun run_all :: "nat \<times> nat \<times> nat \<Rightarrow> segment list \<Rightarrow> nat \<times> nat \<times> nat" where
  "run_all s [] = s"
| "run_all s ((m, ts, ds) # segs) = run_all (code_run s (map fst ts) ds) segs"

lemma segment_symbols: "segment_ok (m, ts, ds) \<Longrightarrow> list_all2 symbol_ok (map fst ts) ds"
  using bisection.symbols one_step.symbols by (cases m) (auto simp: segment_ok_def)

lemma segment_run:
  assumes "coder_ok s" "segment_ok (m, ts, ds)"
  shows "coder_ok (code_run s (map fst ts) ds)" "fst (snd (code_run s (map fst ts) ds)) \<le> fst (snd s) + 3 * length ds"
  using coder_run_ok [OF assms(1) segment_symbols [OF assms(2)]] by (simp_all add: code_run_def)

lemma run_all_grows: "fst (snd s) \<le> fst (snd (run_all s segs))"
proof (induction s segs rule: run_all.induct)
  case (2 s m ts ds segs)
  show ?case using order.trans [OF coder_run_grows [of s "map2 freqs (map fst ts) ds"]] 2 by (simp add: code_run_def)
qed simp

lemma run_all_bound:
  "coder_ok s \<Longrightarrow> list_all segment_ok segs \<Longrightarrow>
   fst (snd (run_all s segs)) \<le> fst (snd s) + 3 * (\<Sum>(m, ts, ds)\<leftarrow>segs. length ds)"
proof (induction s segs rule: run_all.induct)
  case (2 s m ts ds segs)
  have a: "segment_ok (m, ts, ds)" "list_all segment_ok segs" using "2.prems"(2) by simp_all
  show ?case using "2.IH" [OF segment_run(1) [OF "2.prems"(1) a(1)] a(2)] segment_run(2) [OF "2.prems"(1) a(1)] by simp
qed simp

lemma run_all_ok: "coder_ok s \<Longrightarrow> list_all segment_ok segs \<Longrightarrow> coder_ok (run_all s segs)"
  by (induction s segs rule: run_all.induct) (auto dest: segment_run(1))

lemma in_code_all: "in_code st (run_all s segs) \<Longrightarrow> coder_ok s \<Longrightarrow> list_all segment_ok segs \<Longrightarrow> in_code st s"
proof (induction s segs rule: run_all.induct)
  case (2 s m ts ds segs)
  have a: "segment_ok (m, ts, ds)" "list_all segment_ok segs" using "2.prems"(3) by simp_all
  have "in_code st (code_run s (map fst ts) ds)" using "2.IH" [OF _ segment_run(1) [OF "2.prems"(2) a(1)] a(2)] "2.prems"(1) by simp
  then show ?case using in_code_run [OF _ "2.prems"(2) segment_symbols [OF a(1)]] by (simp add: code_run_def)
qed simp

lemma encode_all_ok:
  assumes "encoder sd s" "list_all segment_ok segs"
  shows "if fst (snd (run_all s segs)) < 400 then \<exists>sd'. encode_all segs sd = Some sd' \<and> encoder sd' (run_all s segs)
    else encode_all segs sd = None"
  using assms
proof (induction s segs arbitrary: sd rule: run_all.induct)
  case (1 s)
  then show ?case using pos_less by (auto simp: encoder_def enc_abs_def enc_wf_def)
next
  case (2 s m ts ds segs)
  have a: "segment_ok (m, ts, ds)" "list_all segment_ok segs" using "2.prems"(2) by simp_all
  note e = EncHistMulti_ok [OF "2.prems"(1) segment_symbols [OF a(1)], folded code_run_def]
  show ?case
  proof (cases "fst (snd (code_run s (map fst ts) ds)) < 400")
    case True
    then show ?thesis using e "2.IH" [OF _ a(2)] by auto
  next
    case False
    then show ?thesis using e run_all_grows [of "code_run s (map fst ts) ds" segs] by (auto simp: ISAC_DISALLOWED_BITSTREAM_LENGTH_def)
  qed
qed

lemma decode_segment:
  assumes "decoder sd s" "segment_ok (m, ts, ds)" "in_code (stream sd) (code_run s (map fst ts) ds)"
    and "fst (snd (code_run s (map fst ts) ds)) + 4 \<le> 2 * length (stream sd)" "length (stream sd) \<le> 16000"
  shows "\<exists>sd'. (case m of Bisect \<Rightarrow> WebRtcIsacfix_DecHistBisectMulti | OneStep \<Rightarrow> WebRtcIsacfix_DecHistOneStepMulti)
      (replicate (length ds) 0) sd (map fst ts) (map snd ts) (int (length ds)) =
        Some (int (code_length (code_run s (map fst ts) ds)), ds, sd') \<and>
    stream sd' = stream sd \<and> decoder sd' (code_run s (map fst ts) ds)"
proof (cases m)
  case Bisect
  then have "list_all2 bisect_table_ok ts ds" using assms(2) by (simp add: segment_ok_def)
  from bisection.dec_multi_ok [OF assms(1) this assms(3-5), of "replicate (length ds) 0"] show ?thesis
    by (simp add: Bisect WebRtcIsacfix_DecHistBisectMulti_def zip_map_fst_snd)
next
  case OneStep
  then have "list_all2 one_step_table_ok ts ds" using assms(2) by (simp add: segment_ok_def)
  from one_step.dec_multi_ok [OF assms(1) this assms(3-5), of "replicate (length ds) 0"] show ?thesis
    by (simp add: OneStep WebRtcIsacfix_DecHistOneStepMulti_def zip_map_fst_snd)
qed

lemma decode_all_ok:
  assumes "decoder sd s" "list_all segment_ok segs" "in_code (stream sd) (run_all s segs)"
    and "fst (snd (run_all s segs)) + 4 \<le> 2 * length (stream sd)" "length (stream sd) \<le> 16000"
  shows "\<exists>lens sd'. decode_all segs sd = Some (lens, map (snd \<circ> snd) segs, sd') \<and> length lens = length segs \<and>
    (segs \<noteq> [] \<longrightarrow> last lens = int (code_length (run_all s segs))) \<and> stream sd' = stream sd \<and>
    decoder sd' (run_all s segs)"
  using assms
proof (induction s segs arbitrary: sd rule: run_all.induct)
  case (2 s m ts ds segs)
  let ?s = "code_run s (map fst ts) ds"
  have a: "segment_ok (m, ts, ds)" "list_all segment_ok segs" "coder_ok s" using "2.prems"(1,2) by (simp_all add: decoder_def)
  have i: "in_code (stream sd) ?s" using in_code_all [OF _ segment_run(1) [OF a(3,1)] a(2)] "2.prems"(3) by simp
  have l: "fst (snd ?s) + 4 \<le> 2 * length (stream sd)" using run_all_grows [of ?s segs] "2.prems"(4) by simp
  obtain sd1 where d: "(case m of Bisect \<Rightarrow> WebRtcIsacfix_DecHistBisectMulti | OneStep \<Rightarrow> WebRtcIsacfix_DecHistOneStepMulti)
      (replicate (length ds) 0) sd (map fst ts) (map snd ts) (int (length ds)) = Some (int (code_length ?s), ds, sd1)"
      "stream sd1 = stream sd" "decoder sd1 ?s"
    using decode_segment [OF "2.prems"(1) a(1) i l "2.prems"(5)] by blast
  obtain lens sd2 where r: "decode_all segs sd1 = Some (lens, map (snd \<circ> snd) segs, sd2)" "length lens = length segs"
      "segs \<noteq> [] \<longrightarrow> last lens = int (code_length (run_all ?s segs))" "stream sd2 = stream sd1" "decoder sd2 (run_all ?s segs)"
    using "2.IH" [OF d(3) a(2)] "2.prems"(3-5) d(2) by auto
  then show ?case using d(1,2) by (cases "segs = []") auto
qed simp

definition encode_packet :: "segment list \<Rightarrow> Bitstr_enc \<Rightarrow> byte list \<Rightarrow> (int \<times> byte list) option" where
  "encode_packet segs sd encoded = do {
     sd \<leftarrow> encode_all segs (init_encoder_bitstream sd);
     (len, sd) \<leftarrow> WebRtcIsacfix_EncTerminate sd;
     encoded \<leftarrow> write_be16 (stream sd) (nat len) encoded;
     Some (len, encoded)
   }"

definition decode_packet :: "segment list \<Rightarrow> byte list \<Rightarrow> nat \<Rightarrow> Bitstr_dec \<Rightarrow> (int list \<times> int list list \<times> Bitstr_dec) option" where
  "decode_packet segs encoded len sd = do {
     let sd = InitializeDecoderBitstream len sd;
     st \<leftarrow> read_be16 encoded len (stream sd);
     decode_all segs (sd\<lparr>stream := st\<rparr>)
   }"

lemma encoder_start:
  "length (stream sd) = STREAM_MAXW16_60MS \<Longrightarrow> encoder (init_encoder_bitstream sd) (0, 0, 4294967295)"
  by (simp add: encoder_def init_encoder_bitstream_def enc_wf_def enc_abs_def enc_val_def coder_ok_def pos_def STREAM_MAXW16_60MS_def)

lemma decoder_start:
  assumes "2 \<le> length st"
  shows "decoder ((InitializeDecoderBitstream len sd)\<lparr>stream := st\<rparr>) (0, 0, 4294967295)"
proof -
  let ?v = "push_bit 16 (ucast (st ! 0)) OR ucast (st ! 1) :: 32 word"
  have "unat (push_bit 16 (ucast (st ! 0)) :: 32 word) = unat (st ! 0) * 2 ^ 16"
    using unat_less_16 [of "st ! 0"] by (simp add: unat_shift unat_up)
  then have "unat ?v = unat (st ! 0) * 65536 + unat (st ! 1)"
    unfolding unsigned_or_eq using nat_or_add [of "unat (st ! 1)" 16 "unat (st ! 0)"] unat_less_16 [of "st ! 1"] by (simp add: unat_up)
  moreover have "prefix st 2 = unat (st ! 0)" using prefix_word [of st 0] by (simp only: mult_0_right add_0 prefix.simps mult_0)
  then have "prefix st 4 = unat (st ! 0) * 65536 + unat (st ! 1)" using prefix_word [of st 1] by simp
  moreover have "0 < length st" "1 < length st" using assms by linarith+
  ultimately show ?thesis
    by (simp add: decoder_def coder_ok_def dec_first_def dec_match_def InitializeDecoderBitstream_def pos_def)
qed

text \<open>The terminated stream, written to a packet, is a code of the symbols, whatever stands behind it.\<close>

lemma terminate_packet:
  assumes "encoder sd s" "stream_index sd < 199" "400 \<le> length encoded"
  shows "\<exists>sd' packet. WebRtcIsacfix_EncTerminate sd = Some (int (code_length s), sd') \<and>
    write_be16 (stream sd') (code_length s) encoded = Some packet \<and> length packet = length encoded \<and> fst (snd s) \<le> 397 \<and>
    code_length s \<le> 399 \<and> (\<forall>st. (\<forall>i < code_length s. stream_byte st i = unat (packet ! i)) \<longrightarrow> in_code st s)"
proof -
  obtain E n W where s: "s = (E, n, W)" by (cases s)
  have enc: "encoder sd (E, n, W)" using assms(1) s by simp
  then have n: "n \<le> 397" using assms(2) by (auto simp: encoder_def enc_abs_def pos_def split: if_splits)
  let ?L = "code_length (E, n, W)"
  have L: "?L \<le> 399" using n by (simp add: code_length_def)
  obtain sd' where t: "WebRtcIsacfix_EncTerminate sd = Some (int ?L, sd')" "length (stream sd') = STREAM_MAXW16_60MS"
      "\<forall>st. (\<forall>i < ?L. stream_byte st i = stream_byte (stream sd') i) \<longrightarrow> in_code st (E, n, W)"
    using EncTerminate_ok [OF enc n] by (auto simp: code_length_def)
  have "?L \<le> 2 * length (stream sd')" "?L + ?L mod 2 \<le> length encoded"
    using L t(2) assms(3) mod_less_divisor [of 2 ?L] by (simp_all add: STREAM_MAXW16_60MS_def)
  then obtain packet where p: "write_be16 (stream sd') ?L encoded = Some packet" "length packet = length encoded"
      "\<forall>i < ?L. unat (packet ! i) = stream_byte (stream sd') i"
    using write_be16_ok by blast
  then show ?thesis using t n L unfolding s by auto
qed

lemma encode_packet_code:
  assumes "list_all segment_ok segs" "encode_all segs (init_encoder_bitstream enc) = Some sd" "stream_index sd < 199"
    and "length (stream enc) = STREAM_MAXW16_60MS" "400 \<le> length encoded"
  defines "s \<equiv> run_all (0, 0, 4294967295) segs"
  shows "\<exists>packet. encode_packet segs enc encoded = Some (int (code_length s), packet) \<and> length packet = length encoded \<and>
    fst (snd s) \<le> 397 \<and> code_length s \<le> 399 \<and> (\<forall>st. (\<forall>i < code_length s. stream_byte st i = unat (packet ! i)) \<longrightarrow> in_code st s)"
proof -
  note e = encode_all_ok [OF encoder_start [OF assms(4)] assms(1), folded s_def]
  have "encoder sd s" using e assms(2) by (cases "fst (snd s) < 400") auto
  from terminate_packet [OF this assms(3,5)] show ?thesis using assms(2) by (auto simp: encode_packet_def)
qed

lemma packet_roundtrip:
  assumes "list_all segment_ok segs" "segs \<noteq> []" "encode_all segs (init_encoder_bitstream enc) = Some sd" "stream_index sd < 199"
    and "length (stream enc) = STREAM_MAXW16_60MS" "length (stream dec) = INTERNAL_STREAM_SIZE_W16" "400 \<le> length encoded"
  shows "\<exists>L packet lens dec'. encode_packet segs enc encoded = Some (int L, packet) \<and> L \<le> 399 \<and>
    decode_packet segs packet L dec = Some (lens, map (snd \<circ> snd) segs, dec') \<and> last lens = int L"
proof -
  let ?s = "run_all (0, 0, 4294967295) segs"
  let ?L = "code_length ?s" and ?dec = "InitializeDecoderBitstream (code_length ?s) dec"
  obtain packet where p: "encode_packet segs enc encoded = Some (int ?L, packet)" "length packet = length encoded"
      "fst (snd ?s) \<le> 397" "?L \<le> 399" "\<forall>st. (\<forall>i < ?L. stream_byte st i = unat (packet ! i)) \<longrightarrow> in_code st ?s"
    using encode_packet_code [OF assms(1,3,4,5,7)] by blast
  have "length (stream ?dec) = 305" using assms(6) by (simp add: InitializeDecoderBitstream_def INTERNAL_STREAM_SIZE_W16_def)
  then obtain st where st: "read_be16 packet ?L (stream ?dec) = Some st" "length st = 305" "\<forall>i < ?L. stream_byte st i = unat (packet ! i)"
    using read_be16_ok [of ?L packet "stream ?dec"] p(2,4) assms(7) by auto
  then obtain lens dec' where d: "decode_all segs (?dec\<lparr>stream := st\<rparr>) = Some (lens, map (snd \<circ> snd) segs, dec')" "last lens = int ?L"
    using decode_all_ok [OF decoder_start [of st ?L dec] assms(1)] p(3,5) assms(2) by auto
  have "decode_packet segs packet ?L dec = Some (lens, map (snd \<circ> snd) segs, dec')"
    using st(1) d(1) by (simp add: decode_packet_def)
  then show ?thesis using p(1,4) d(2) by metis
qed

lemma few_symbols_fit:
  assumes "list_all segment_ok segs" "length (stream enc) = STREAM_MAXW16_60MS" "3 * (\<Sum>(m, ts, ds)\<leftarrow>segs. length ds) \<le> 397"
  shows "\<exists>sd. encode_all segs (init_encoder_bitstream enc) = Some sd \<and> stream_index sd < 199"
proof -
  let ?s = "run_all (0, 0, 4294967295) segs"
  have "fst (snd ?s) \<le> 397" using run_all_bound [of "(0, 0, 4294967295)" segs] assms(1,3) by (simp add: coder_ok_def)
  then obtain sd where "encode_all segs (init_encoder_bitstream enc) = Some sd" "encoder sd ?s"
    using encode_all_ok [OF encoder_start [OF assms(2)] assms(1)] by auto
  moreover have "pos (full sd) (stream_index sd) \<le> 397"
    using \<open>encoder sd ?s\<close> \<open>fst (snd ?s) \<le> 397\<close> unfolding encoder_def enc_abs_def by (metis fst_conv snd_conv)
  ultimately show ?thesis by (auto simp: pos_def split: if_splits)
qed

section \<open>A stream that is one word too long\<close>

text \<open>A symbol of probability 1/256 takes a byte and keeps the interval wide.\<close>

lemma step_byte:
  assumes "65537 \<le> q" "q \<le> 16777216"
  shows "coder_step (E, n, 256 * q) (0, 256) = ((E + 1) * 256, Suc n, 256 * (q - 1))"
proof -
  have "256 * q * 256 div 65536 = q" by simp
  moreover have "shifts ((q - 1) * 256) = 0" using assms by (subst shifts.simps) simp
  then have "shifts (q - 1) = 1" using assms by (subst shifts.simps) simp
  ultimately show ?thesis by (simp add: coder_step_def)
qed

lemma steps_byte:
  "q \<le> 16777216 \<Longrightarrow> 65536 + k \<le> q \<Longrightarrow> \<exists>E'. foldl coder_step (E, n, 256 * q) (replicate k (0, 256)) = (E', n + k, 256 * (q - k))"
proof (induction k arbitrary: E n q)
  case (Suc k)
  then have "65537 \<le> q" by simp
  then show ?case using Suc.IH [of "q - 1" "(E + 1) * 256" "Suc n"] Suc.prems by (auto simp: step_byte)
qed simp

lemma EncTerminate_overrun:
  assumes "encoder sd (E, 399, W)" "W \<le> 33554431"
  shows "WebRtcIsacfix_EncTerminate sd = None"
proof -
  let ?p = "stream_index sd"
  have wf: "enc_wf sd ?p" and n: "pos (full sd) ?p = 399" and E: "E = enc_val sd ?p" and W: "W = unat (W_upper sd)"
    and ok: "16777216 \<le> W" "E + W < 256 ^ 399 * 4294967296" using assms(1) by (auto simp: encoder_def enc_abs_def coder_ok_def)
  have p: "?p = 199" "full sd = 0" using n by (auto simp: pos_def split: if_splits, presburger)
  have cmp: "\<not> 0x01FFFFFF < W_upper sd" using assms(2) unfolding W by (simp add: word_less_nat_alt)
  have "enc_val sd ?p + unat (0x00010000 :: 32 word) < 256 ^ pos (full sd) ?p * 4294967296"
    using ok unfolding E n unat_numeral by simp
  from enc_add [OF wf this] obtain sd1 where a: "(if streamval (sd\<lparr>streamval := streamval sd + 0x00010000\<rparr>) < 0x00010000
        then propagate_carry (sd\<lparr>streamval := streamval sd + 0x00010000\<rparr>) ?p else Some (sd\<lparr>streamval := streamval sd + 0x00010000\<rparr>)) = Some sd1"
      "enc_wf sd1 ?p" "full sd1 = full sd" by auto
  have "length (stream sd1) = 200" using a(2) by (simp add: enc_wf_def STREAM_MAXW16_60MS_def)
  then show ?thesis unfolding WebRtcIsacfix_EncTerminate_def Let_def a(1) using a(3) p cmp by (simp add: store_def)
qed

definition long_data :: "int list" where
  "long_data = replicate 399 0 @ [0]"

definition long_cdf :: "16 word list list" where
  "long_cdf = replicate 399 [0, 256] @ [[0, 384]]"

lemma long_run: "\<exists>E. code_run (0, 0, 4294967295) long_cdf long_data = (E, 399, 25165223)"
proof -
  have f: "map2 freqs long_cdf long_data = (0, 256) # replicate 398 (0, 256) @ [(0, 384)]"
  proof -
    have "map2 freqs long_cdf long_data = map2 freqs (replicate 399 [0, 256]) (replicate 399 0) @ [freqs [0, 384] 0]"
      by (simp add: long_cdf_def long_data_def)
    also have "map2 freqs (replicate 399 [0, 256]) (replicate 399 0) = replicate (Suc 398) (0, 256)"
      by (simp only: zip_replicate map_replicate) (simp add: freqs_def)
    finally have "map2 freqs long_cdf long_data = replicate (Suc 398) (0, 256) @ [freqs [0, 384] 0]" .
    moreover have "freqs [0, 384] 0 = (0, 384)" by (simp add: freqs_def)
    ultimately show ?thesis by (simp only: replicate_Suc append_Cons)
  qed
  have "shifts (16777214 * 256) = 0" "shifts 25165223 = 0" by (simp_all add: shifts.simps)
  then have sh: "shifts 16777214 = 1" "shifts 25165223 = 0" by (simp_all add: shifts.simps [of 16777214])
  have a: "coder_step (0, 0, 4294967295) (0, 256) = (256, 1, 256 * 16777214)" by (simp add: coder_step_def sh)
  obtain E where b: "foldl coder_step (256, 1, 256 * 16777214) (replicate 398 (0, 256)) = (E, 1 + 398, 256 * (16777214 - 398))"
    using steps_byte [of 16777214 398 256 1] by auto
  have c: "coder_step (E, 399, 256 * 16776816) (0, 384) = (E + 1, 399, 25165223)" by (simp add: coder_step_def sh)
  have "foldl coder_step (0, 0, 4294967295) ((0, 256) # replicate 398 (0, 256) @ [(0, 384)]) = (E + 1, 399, 25165223)"
    unfolding foldl_append foldl.simps a b using c by simp
  then show ?thesis unfolding code_run_def f by blast
qed

section \<open>Properties\<close>

text \<open>C4: Packets decode to what was encoded.  Take any sequence of encoder calls, each for a decoder call by bisection or by steps,
  on tables that increase (for the bisection of a length one below a power of two), whose code leaves a
  word of the encoder's array free, as that of up to 132 symbols always does.  From freshly initialised bit streams, whatever the arrays
  held before, all encoder calls succeed, the stream is terminated at some length \<open>L\<close> of at most 399 bytes and written to a packet; the decoder reads
  the packet and returns the same data for every call, never looking outside its array, and the
  last call reports the length \<open>L\<close>.\<close>

theorem isac_packet_roundtrip:
  assumes "list_all segment_ok segs" "segs \<noteq> []"
    and "3 * (\<Sum>(m, ts, ds)\<leftarrow>segs. length ds) \<le> 397 \<or>
      (\<exists>sd. encode_all segs (init_encoder_bitstream enc) = Some sd \<and> stream_index sd < 199)"
    and "length (stream enc) = STREAM_MAXW16_60MS" "length (stream dec) = INTERNAL_STREAM_SIZE_W16" "400 \<le> length encoded"
  shows "\<exists>L packet lens dec'. encode_packet segs enc encoded = Some (int L, packet) \<and> L \<le> 399 \<and>
    decode_packet segs packet L dec = Some (lens, map (snd \<circ> snd) segs, dec') \<and> last lens = int L"
proof -
  obtain sd where "encode_all segs (init_encoder_bitstream enc) = Some sd" "stream_index sd < 199"
    using few_symbols_fit [OF assms(1,4)] assms(3) by blast
  then show ?thesis by (rule packet_roundtrip [OF assms(1,2) _ _ assms(4-6)])
qed

theorem isac_packet_roundtrip_witness:
  "let segs = [(OneStep, [([0, 30000, 65535], 1), ([0, 10, 65535], 2)], [1, 0]), (Bisect, [([0, 20000, 65535], 4)], [1])];
       enc = \<lparr>stream = replicate 200 7, W_upper = 0, streamval = 9, stream_index = 3, full = 0\<rparr>;
       dec = \<lparr>stream = replicate 305 7, W_upper = 0, streamval = 9, stream_index = 3, full = 0, stream_size = 0\<rparr>
   in \<exists>L packet lens dec'. encode_packet segs enc (replicate 400 0) = Some (int L, packet) \<and>
     decode_packet segs packet L dec = Some (lens, [[1, 0], [1]], dec') \<and> last lens = int L"
proof -
  let ?segs = "[(OneStep, [([0, 30000, 65535], 1), ([0, 10, 65535], 2)], [1, 0]), (Bisect, [([0, 20000, 65535], 4)], [1])]"
  have "list_all segment_ok ?segs"
    by (auto simp: segment_ok_def one_step_table_ok_def bisect_table_ok_def symbol_ok_def intro!: exI [of _ 2])
  from isac_packet_roundtrip [OF this, of
      "\<lparr>stream = replicate 200 7, W_upper = 0, streamval = 9, stream_index = 3, full = 0\<rparr>"
      "\<lparr>stream = replicate 305 7, W_upper = 0, streamval = 9, stream_index = 3, full = 0, stream_size = 0\<rparr>" "replicate 400 0"]
  show ?thesis unfolding Let_def
    by (auto simp: STREAM_MAXW16_60MS_def INTERNAL_STREAM_SIZE_W16_def)
qed

text \<open>C12: Encoder calls on symbols of increasing tables never access memory out of bounds and never lose a carry: from the initialised
  stream on, every further call returns 0 and leaves a state of the same kind, or returns
  the error for a stream that is too long.  \<open>WebRtcIsacfix_EncTerminate\<close> has no such check: 400 symbols are accepted whose
  code ends in the last word of the array, and its termination writes one word past the array.\<close>

theorem isac_encoder_safe:
  assumes "list_all segment_ok segs" "length (stream enc) = STREAM_MAXW16_60MS" "encode_all segs (init_encoder_bitstream enc) = Some sd"
    and "list_all2 symbol_ok cdf data"
  shows "(\<exists>status sd'. WebRtcIsacfix_EncHistMulti sd data cdf (int (length data)) = Some (status, sd') \<and>
      status \<in> {0, - ISAC_DISALLOWED_BITSTREAM_LENGTH}) \<and>
    (stream_index sd < 199 \<longrightarrow> WebRtcIsacfix_EncTerminate sd \<noteq> None) \<and>
    (\<exists>sd'. WebRtcIsacfix_EncHistMulti (init_encoder_bitstream enc) long_data long_cdf 400 = Some (0, sd') \<and>
      WebRtcIsacfix_EncTerminate sd' = None)"
proof -
  let ?s = "run_all (0, 0, 4294967295) segs"
  obtain E n W where s: "?s = (E, n, W)" by (cases ?s)
  note start = encoder_start [OF assms(2)]
  have e: "encoder sd (E, n, W)" using encode_all_ok [OF start assms(1)] assms(3) s by (cases "fst (snd ?s) < 400") auto
  have "\<exists>status sd'. WebRtcIsacfix_EncHistMulti sd data cdf (int (length data)) = Some (status, sd') \<and>
      status \<in> {0, - ISAC_DISALLOWED_BITSTREAM_LENGTH}"
    using EncHistMulti_ok [OF e assms(4)] by (auto split: if_splits)
  moreover have "WebRtcIsacfix_EncTerminate sd \<noteq> None" if "stream_index sd < 199"
  proof -
    have "n \<le> 397" using e that by (auto simp: encoder_def enc_abs_def pos_def split: if_splits)
    then show ?thesis using EncTerminate_ok [OF e] by auto
  qed
  moreover have "\<exists>sd'. WebRtcIsacfix_EncHistMulti (init_encoder_bitstream enc) long_data long_cdf 400 = Some (0, sd') \<and>
      WebRtcIsacfix_EncTerminate sd' = None"
  proof -
    have "list_all2 symbol_ok (replicate 399 [0, 256]) (replicate 399 0)" "list_all2 symbol_ok [[0, 384]] [0]"
      by (simp_all add: list_all2_conv_all_nth symbol_ok_def)
    then have "list_all2 symbol_ok long_cdf long_data" unfolding long_cdf_def long_data_def by (rule list_all2_appendI)
    note h = EncHistMulti_ok [OF start this, folded code_run_def]
    have "int (length long_data) = 400" by (simp add: long_data_def)
    then show ?thesis using h long_run EncTerminate_overrun by fastforce
  qed
  ultimately show ?thesis by blast
qed

theorem isac_encoder_safe_witness:
  "let enc = \<lparr>stream = replicate 200 7, W_upper = 0, streamval = 9, stream_index = 3, full = 0\<rparr>
   in \<exists>status sd'. WebRtcIsacfix_EncHistMulti (init_encoder_bitstream enc) [1, 0] [[0, 300, 65535], [5, 9]] 2 = Some (status, sd') \<and>
     status \<in> {0, - ISAC_DISALLOWED_BITSTREAM_LENGTH}"
  using isac_encoder_safe [of "[]" "\<lparr>stream = replicate 200 7, W_upper = 0, streamval = 9, stream_index = 3, full = 0\<rparr>" _ "[[0, 300, 65535], [5, 9]]" "[1, 0]"]
  by (simp add: STREAM_MAXW16_60MS_def symbol_ok_def)

end
