(* ===== verification/Isac_Header.thy ===== *)
theory Isac_Header
  imports Isac_Packet
begin

text \<open>
  The header of an iSAC packet, \<^verbatim>\<open>entropy_coding.c\<close> and \<^verbatim>\<open>isacfix.c\<close>: the frame length and the index of the bandwidth estimate, the first two
  symbols of the stream, and the functions that read them from the first ten bytes of a packet.  An
  out-parameter is an optional result, \<open>None\<close> when it is not written.
\<close>

definition ISAC_DISALLOWED_FRAME_MODE_ENCODER :: int where
  "ISAC_DISALLOWED_FRAME_MODE_ENCODER = 6430"

definition ISAC_DISALLOWED_FRAME_MODE_DECODER :: int where
  "ISAC_DISALLOWED_FRAME_MODE_DECODER = 6630"

definition ISAC_RANGE_ERROR_DECODE_FRAME_LENGTH :: int where
  "ISAC_RANGE_ERROR_DECODE_FRAME_LENGTH = 6640"

definition ISAC_RANGE_ERROR_DECODE_BANDWIDTH :: int where
  "ISAC_RANGE_ERROR_DECODE_BANDWIDTH = 6650"

definition kFrameLenCdf :: "16 word list" where
  "kFrameLenCdf = [0, 21845, 43690, 65535]"

definition kFrameLenInitIndex :: "16 word list" where
  "kFrameLenInitIndex = [1]"

definition kBwCdf :: "16 word list" where
  "kBwCdf = [0, 2731, 5461, 8192, 10923, 13653, 16384, 19114, 21845, 24576, 27306, 30037,
     32768, 35498, 38229, 40959, 43690, 46421, 49151, 51882, 54613, 57343, 60074, 62804, 65535]"

definition kBwInitIndex :: "16 word list" where
  "kBwInitIndex = [7]"

definition WebRtcIsacfix_EncodeFrameLen :: "int \<Rightarrow> Bitstr_enc \<Rightarrow> (int \<times> Bitstr_enc) option" where
  "WebRtcIsacfix_EncodeFrameLen framesamples sd =
     (if framesamples = 480 then WebRtcIsacfix_EncHistMulti sd [1] [kFrameLenCdf] 1
      else if framesamples = 960 then WebRtcIsacfix_EncHistMulti sd [2] [kFrameLenCdf] 1
      else Some (- ISAC_DISALLOWED_FRAME_MODE_ENCODER, sd))"

definition WebRtcIsacfix_EncodeReceiveBandwidth :: "int \<Rightarrow> Bitstr_enc \<Rightarrow> (int \<times> Bitstr_enc) option" where
  "WebRtcIsacfix_EncodeReceiveBandwidth BWno sd = WebRtcIsacfix_EncHistMulti sd [BWno] [kBwCdf] 1"

definition WebRtcIsacfix_DecodeFrameLen :: "Bitstr_dec \<Rightarrow> (int \<times> nat option \<times> Bitstr_dec) option" where
  "WebRtcIsacfix_DecodeFrameLen sd = do {
     (err, data, sd) \<leftarrow> WebRtcIsacfix_DecHistOneStepMulti [0] sd [kFrameLenCdf] kFrameLenInitIndex 1;
     Some (if err < 0 then (- ISAC_RANGE_ERROR_DECODE_FRAME_LENGTH, None, sd)
       else if hd data = 1 then (err, Some 480, sd)
       else if hd data = 2 then (err, Some 960, sd)
       else (- ISAC_DISALLOWED_FRAME_MODE_DECODER, None, sd))
   }"

definition WebRtcIsacfix_DecodeSendBandwidth :: "Bitstr_dec \<Rightarrow> (int \<times> int option \<times> Bitstr_dec) option" where
  "WebRtcIsacfix_DecodeSendBandwidth sd = do {
     (err, data, sd) \<leftarrow> WebRtcIsacfix_DecHistOneStepMulti [0] sd [kBwCdf] kBwInitIndex 1;
     Some (if err < 0 then (- ISAC_RANGE_ERROR_DECODE_BANDWIDTH, None, sd) else (err, Some (hd data), sd))
   }"

text \<open>\<open>streamdata\<close> is the local variable of the functions, before it is initialised.\<close>

definition kRequiredEncodedLenBytes :: nat where
  "kRequiredEncodedLenBytes = 10"

definition WebRtcIsacfix_ReadFrameLen :: "Bitstr_dec \<Rightarrow> byte list \<Rightarrow> nat \<Rightarrow> (int \<times> nat option) option" where
  "WebRtcIsacfix_ReadFrameLen streamdata encoded encoded_len_bytes =
     (if encoded_len_bytes < kRequiredEncodedLenBytes then Some (-1, None) else do {
        let sd = InitializeDecoderBitstream encoded_len_bytes streamdata;
        st \<leftarrow> read_be16 encoded kRequiredEncodedLenBytes (stream sd);
        (err, frameLength, sd) \<leftarrow> WebRtcIsacfix_DecodeFrameLen (sd\<lparr>stream := st\<rparr>);
        Some (if s16 err < 0 then s16 err else 0, frameLength)
      })"

definition WebRtcIsacfix_ReadBwIndex :: "Bitstr_dec \<Rightarrow> byte list \<Rightarrow> nat \<Rightarrow> (int \<times> int option) option" where
  "WebRtcIsacfix_ReadBwIndex streamdata encoded encoded_len_bytes =
     (if encoded_len_bytes < kRequiredEncodedLenBytes then Some (-1, None) else do {
        let sd = InitializeDecoderBitstream encoded_len_bytes streamdata;
        st \<leftarrow> read_be16 encoded kRequiredEncodedLenBytes (stream sd);
        (err, frameLength, sd) \<leftarrow> WebRtcIsacfix_DecodeFrameLen (sd\<lparr>stream := st\<rparr>);
        if s16 err < 0 then Some (s16 err, None) else do {
          (err, rateIndex, sd) \<leftarrow> WebRtcIsacfix_DecodeSendBandwidth sd;
          Some (if s16 err < 0 then s16 err else 0, rateIndex)
        }
      })"

section \<open>A packet and its header\<close>

text \<open>A packet as the encoder builds it: frame length, bandwidth index, the other symbols, the end.\<close>

definition encode_frame :: "int \<Rightarrow> int \<Rightarrow> segment list \<Rightarrow> Bitstr_enc \<Rightarrow> byte list \<Rightarrow> (int \<times> byte list) option" where
  "encode_frame framesamples BWno segs sd encoded = do {
     (status, sd) \<leftarrow> WebRtcIsacfix_EncodeFrameLen framesamples (init_encoder_bitstream sd);
     if status < 0 then Some (status, encoded) else do {
       (status, sd) \<leftarrow> WebRtcIsacfix_EncodeReceiveBandwidth BWno sd;
       if status < 0 then Some (status, encoded) else do {
         sd \<leftarrow> encode_all segs sd;
         (len, sd) \<leftarrow> WebRtcIsacfix_EncTerminate sd;
         encoded \<leftarrow> write_be16 (stream sd) (nat len) encoded;
         Some (len, encoded)
       }
     }
   }"

definition frame_mode :: "int \<Rightarrow> int" where
  "frame_mode framesamples = (if framesamples = 480 then 1 else 2)"

abbreviation header :: "int \<Rightarrow> int \<Rightarrow> segment list" where
  "header framesamples BWno \<equiv> [(OneStep, [(kFrameLenCdf, 1)], [frame_mode framesamples]), (OneStep, [(kBwCdf, 7)], [BWno])]"

lemma header_ok:
  assumes "framesamples \<in> {480, 960}" "0 \<le> BWno" "BWno \<le> 23"
  shows "list_all segment_ok (header framesamples BWno)"
proof -
  have "BWno \<in> set [0..23]" using assms(2,3) by simp
  then have "unat (kBwCdf ! nat BWno) < unat (kBwCdf ! (nat BWno + 1))"
    by (simp only: upto_rec1) (auto simp: kBwCdf_def)
  then show ?thesis using assms
    by (auto simp: segment_ok_def one_step_table_ok_def symbol_ok_def kFrameLenCdf_def kBwCdf_def frame_mode_def)
qed

lemma run_all_append: "run_all s (a @ b) = run_all (run_all s a) b"
  by (induction s a rule: run_all.induct) simp_all

lemma encode_frame_packet:
  assumes "encode_packet (header framesamples BWno @ segs) enc encoded = Some r" "framesamples \<in> {480, 960}"
  shows "encode_frame framesamples BWno segs enc encoded = Some r"
proof -
  have "WebRtcIsacfix_EncodeFrameLen framesamples sd = WebRtcIsacfix_EncHistMulti sd [frame_mode framesamples] [kFrameLenCdf] 1" for sd
    using assms(2) by (auto simp: WebRtcIsacfix_EncodeFrameLen_def frame_mode_def)
  then show ?thesis using assms(1)
    by (auto simp: encode_packet_def encode_frame_def WebRtcIsacfix_EncodeReceiveBandwidth_def bind_eq_Some_conv split: if_splits) blast
qed

text \<open>Ten bytes are enough for the two symbols.\<close>

lemma read_header:
  assumes "framesamples \<in> {480, 960}" "0 \<le> BWno" "BWno \<le> 23" "length st = 305"
    and "in_code st (run_all (0, 0, 4294967295) (header framesamples BWno))"
  shows "\<exists>err sd' err' sd''. WebRtcIsacfix_DecodeFrameLen ((InitializeDecoderBitstream L streamdata)\<lparr>stream := st\<rparr>) =
      Some (err, Some (nat framesamples), sd') \<and> 0 \<le> s16 err \<and>
    WebRtcIsacfix_DecodeSendBandwidth sd' = Some (err', Some BWno, sd'') \<and> 0 \<le> s16 err'"
proof -
  let ?s0 = "(0, 0, 4294967295) :: nat \<times> nat \<times> nat"
  let ?s1 = "code_run ?s0 [kFrameLenCdf] [frame_mode framesamples]"
  let ?s2 = "code_run ?s1 [kBwCdf] [BWno]"
  let ?sd = "(InitializeDecoderBitstream L streamdata)\<lparr>stream := st\<rparr>"
  have ok: "segment_ok (OneStep, [(kFrameLenCdf, 1)], [frame_mode framesamples])" "segment_ok (OneStep, [(kBwCdf, 7)], [BWno])"
    using header_ok [OF assms(1-3)] by simp_all
  have c0: "coder_ok ?s0" by (simp add: coder_ok_def)
  have c1: "coder_ok ?s1" "fst (snd ?s1) \<le> 3" using segment_run [OF c0 ok(1)] by simp_all
  have c2: "fst (snd ?s2) \<le> 6" using segment_run(2) [OF c1(1) ok(2)] c1(2) by simp
  have i2: "in_code st ?s2" using assms(5) by simp
  then have i1: "in_code st ?s1"
    using in_code_run [OF _ c1(1) segment_symbols [OF ok(2)]] by (simp add: code_run_def)
  have d0: "decoder ?sd ?s0" using assms(4) by (intro decoder_start) simp
  obtain sd1 where r1: "WebRtcIsacfix_DecHistOneStepMulti [0] ?sd [kFrameLenCdf] kFrameLenInitIndex 1 =
      Some (int (code_length ?s1), [frame_mode framesamples], sd1)" "stream sd1 = st" "decoder sd1 ?s1"
    using decode_segment [OF d0 ok(1)] i1 c1(2) assms(4) by (auto simp: kFrameLenInitIndex_def)
  obtain sd2 where r2: "WebRtcIsacfix_DecHistOneStepMulti [0] sd1 [kBwCdf] kBwInitIndex 1 = Some (int (code_length ?s2), [BWno], sd2)"
    using decode_segment [OF r1(3) ok(2)] r1(2) i2 c2 assms(4) by (auto simp: kBwInitIndex_def)
  have "s16 (int (code_length s)) = int (code_length s)" if "fst (snd s) \<le> 6" for s
    using that by (intro s16_id) (auto simp: is_s16_def code_length_def split: prod.splits)
  then have "0 \<le> s16 (int (code_length ?s1))" "0 \<le> s16 (int (code_length ?s2))" using c1(2) c2 by simp_all
  moreover have "WebRtcIsacfix_DecodeFrameLen ?sd = Some (int (code_length ?s1), Some (nat framesamples), sd1)"
    using r1(1) assms(1) by (auto simp: WebRtcIsacfix_DecodeFrameLen_def frame_mode_def)
  moreover have "WebRtcIsacfix_DecodeSendBandwidth sd1 = Some (int (code_length ?s2), Some BWno, sd2)"
    using r2 by (simp add: WebRtcIsacfix_DecodeSendBandwidth_def)
  ultimately show ?thesis by blast
qed

text \<open>C14: The header of a packet can be read without decoding the packet.  For a packet that the encoder builds with a frame length of 480 or 960 samples, a bandwidth index
  from 0 to 23 and any other symbols after it, \<open>WebRtcIsacfix_ReadFrameLen\<close> and \<open>WebRtcIsacfix_ReadBwIndex\<close> return these two values, from
  the first ten bytes; packets shorter than that they refuse.\<close>

theorem isac_header_roundtrip:
  assumes "framesamples \<in> {480, 960}" "0 \<le> BWno" "BWno \<le> 23" "list_all segment_ok segs"
    and "3 * (\<Sum>(m, ts, ds)\<leftarrow>segs. length ds) \<le> 391 \<or>
      (\<exists>sd. encode_all (header framesamples BWno @ segs) (init_encoder_bitstream enc) = Some sd \<and> stream_index sd < 199)"
    and "length (stream enc) = STREAM_MAXW16_60MS" "length (stream streamdata) = INTERNAL_STREAM_SIZE_W16" "400 \<le> length encoded"
  shows "\<exists>L packet. encode_frame framesamples BWno segs enc encoded = Some (int L, packet) \<and>
    (if L < 10 then WebRtcIsacfix_ReadFrameLen streamdata packet L = Some (-1, None) \<and>
       WebRtcIsacfix_ReadBwIndex streamdata packet L = Some (-1, None)
     else WebRtcIsacfix_ReadFrameLen streamdata packet L = Some (0, Some (nat framesamples)) \<and>
       WebRtcIsacfix_ReadBwIndex streamdata packet L = Some (0, Some BWno))"
proof -
  let ?h = "header framesamples BWno"
  let ?s0 = "(0, 0, 4294967295) :: nat \<times> nat \<times> nat"
  let ?s2 = "run_all ?s0 ?h" and ?t = "run_all ?s0 (?h @ segs)"
  have ok: "list_all segment_ok (?h @ segs)" using header_ok [OF assms(1-3)] assms(4) by simp
  obtain sd where sd: "encode_all (?h @ segs) (init_encoder_bitstream enc) = Some sd" "stream_index sd < 199"
    using few_symbols_fit [OF ok assms(6)] assms(5) by auto
  obtain packet where p: "encode_packet (?h @ segs) enc encoded = Some (int (code_length ?t), packet)" "length packet = length encoded"
      "code_length ?t \<le> 399" "\<forall>st. (\<forall>i < code_length ?t. stream_byte st i = unat (packet ! i)) \<longrightarrow> in_code st ?t"
    using encode_packet_code [OF ok sd assms(6,8)] by blast
  let ?L = "code_length ?t"
  have f: "encode_frame framesamples BWno segs enc encoded = Some (int ?L, packet)" by (rule encode_frame_packet [OF p(1) assms(1)])
  have c: "coder_ok ?s0" by (simp add: coder_ok_def)
  have "(\<Sum>(m, ts, ds)\<leftarrow>?h. length ds) = 2" by simp
  then have s2: "fst (snd ?s2) \<le> 6" using run_all_bound [OF c header_ok [OF assms(1-3)]] by simp
  have c2: "coder_ok ?s2" by (rule run_all_ok [OF c header_ok [OF assms(1-3)]])
  show ?thesis
  proof (cases "?L < 10")
    case True
    then show ?thesis using f
      by (intro exI [of _ ?L] exI [of _ packet]) (simp add: WebRtcIsacfix_ReadFrameLen_def WebRtcIsacfix_ReadBwIndex_def kRequiredEncodedLenBytes_def)
  next
    case False
    let ?d = "InitializeDecoderBitstream ?L streamdata"
    have l: "length (stream ?d) = 305" using assms(7) by (simp add: InitializeDecoderBitstream_def INTERNAL_STREAM_SIZE_W16_def)
    obtain st1 where st1: "\<forall>i < ?L. stream_byte st1 i = unat (packet ! i)"
      using read_be16_ok [of ?L packet "stream ?d"] l p(2,3) assms(8) by auto
    obtain st where st: "read_be16 packet 10 (stream ?d) = Some st" "length st = 305" "\<forall>i < 10. stream_byte st i = unat (packet ! i)"
      using read_be16_ok [of 10 packet "stream ?d"] l p(2) assms(8) by auto
    have "in_code st1 ?s2" using in_code_all [OF _ c2 assms(4)] p(4) st1 by (simp only: run_all_append)
    moreover have "prefix st (fst (snd ?s2) + 4) = prefix st1 (fst (snd ?s2) + 4)"
      using s2 st(3) st1 False by (intro prefix_cong) simp
    ultimately have "in_code st ?s2" by (auto simp only: in_code_def split: prod.splits) (simp_all only: fst_conv snd_conv)
    from read_header [OF assms(1-3) st(2) this, of ?L streamdata]
    have "WebRtcIsacfix_ReadFrameLen streamdata packet ?L = Some (0, Some (nat framesamples)) \<and>
        WebRtcIsacfix_ReadBwIndex streamdata packet ?L = Some (0, Some BWno)"
      using False st(1) by (auto simp: WebRtcIsacfix_ReadFrameLen_def WebRtcIsacfix_ReadBwIndex_def kRequiredEncodedLenBytes_def)
    then show ?thesis using f False by (intro exI [of _ ?L] exI [of _ packet]) simp
  qed
qed

theorem isac_header_roundtrip_witness:
  "\<exists>L packet. encode_frame 960 17 [(Bisect, [([0, 2, 65535], 4), ([0, 2, 65535], 4), ([0, 2, 65535], 4), ([0, 2, 65535], 4), ([0, 2, 65535], 4), ([0, 2, 65535], 4)], [0, 0, 0, 0, 0, 0])]
      \<lparr>stream = replicate 200 0, W_upper = 0, streamval = 0, stream_index = 0, full = 0\<rparr> (replicate 400 0) = Some (int L, packet) \<and> 10 \<le> L \<and>
    WebRtcIsacfix_ReadFrameLen \<lparr>stream = replicate 305 9, W_upper = 0, streamval = 0, stream_index = 0, full = 0, stream_size = 0\<rparr> packet L =
      Some (0, Some 960) \<and>
    WebRtcIsacfix_ReadBwIndex \<lparr>stream = replicate 305 9, W_upper = 0, streamval = 0, stream_index = 0, full = 0, stream_size = 0\<rparr> packet L =
      Some (0, Some 17)"
proof -
  let ?segs = "[(Bisect, [([0, 2, 65535], 4), ([0, 2, 65535], 4), ([0, 2, 65535], 4), ([0, 2, 65535], 4), ([0, 2, 65535], 4), ([0, 2, 65535], 4)], [0, 0, 0, 0, 0, 0])]"
  let ?enc = "\<lparr>stream = replicate 200 0, W_upper = 0, streamval = 0, stream_index = 0, full = 0\<rparr>"
  have ok: "list_all segment_ok ?segs"
    by (auto simp: segment_ok_def bisect_table_ok_def symbol_ok_def intro!: exI [of _ 2])
  have l: "length (stream ?enc) = STREAM_MAXW16_60MS" by (simp add: STREAM_MAXW16_60MS_def)
  have all: "list_all segment_ok (header 960 17 @ ?segs)" using ok header_ok [of 960 17] by simp
  obtain sd where "encode_all (header 960 17 @ ?segs) (init_encoder_bitstream ?enc) = Some sd" "stream_index sd < 199"
    using few_symbols_fit [OF all l] by auto
  then obtain packet where "encode_packet (header 960 17 @ ?segs) ?enc (replicate 400 0) =
      Some (int (code_length (run_all (0, 0, 4294967295) (header 960 17 @ ?segs))), packet)"
    using encode_packet_code [OF all _ _ l, of sd "replicate 400 0"] by auto
  then have "encode_frame 960 17 ?segs ?enc (replicate 400 0) =
      Some (int (code_length (run_all (0, 0, 4294967295) (header 960 17 @ ?segs))), packet)"
    by (rule encode_frame_packet) simp
  moreover have "10 \<le> code_length (run_all (0, 0, 4294967295) (header 960 17 @ ?segs))"
    by (simp add: code_run_def freqs_def coder_step_def Let_def shifts.simps code_length_def kFrameLenCdf_def kBwCdf_def frame_mode_def)
  ultimately show ?thesis
    using isac_header_roundtrip [OF _ _ _ ok, of 960 17 ?enc
      "\<lparr>stream = replicate 305 9, W_upper = 0, streamval = 0, stream_index = 0, full = 0, stream_size = 0\<rparr>" "replicate 400 0"]
    by (auto simp: STREAM_MAXW16_60MS_def INTERNAL_STREAM_SIZE_W16_def split: if_splits)
qed

end
