(* ===== verification/Isac_Logistic.thy ===== *)
theory Isac_Logistic
  imports Isac_Arith Spl_Arith
begin

unbundle bit_operations_syntax

text \<open>
  The coding of the spectrum in the fixed point iSAC codec, \<^verbatim>\<open>arith_routines_logist.c\<close>: the symbols are spectral lines, whose
  frequencies come from a piecewise linear approximation of the logistic function scaled by an envelope.

  The decoder's searches and its renormalisation have no bound on their number of rounds in the
  code; they are partial functions, \<open>None\<close> when they do not return.
\<close>

section \<open>The distribution\<close>

definition kHistEdges :: "int list" where
  "kHistEdges = [-327680, -314573, -301466, -288359, -275252, -262144, -249037, -235930, -222823, -209716,
     -196608, -183501, -170394, -157287, -144180, -131072, -117965, -104858, -91751, -78644,
     -65536, -52429, -39322, -26215, -13108, 0, 13107, 26214, 39321, 52428,
     65536, 78643, 91750, 104857, 117964, 131072, 144179, 157286, 170393, 183500,
     196608, 209715, 222822, 235929, 249036, 262144, 275251, 288358, 301465, 314572, 327680]"

definition kCdfSlope :: "int list" where
  "kCdfSlope = [5, 5, 5, 5, 5, 5, 5, 5, 5, 5, 5, 5, 13, 23, 47, 87, 154, 315, 700, 1088,
     2471, 6064, 14221, 21463, 36634, 36924, 19750, 13270, 5806, 2312,
     1095, 660, 316, 145, 86, 41, 32, 5, 5, 5, 5, 5, 5, 5, 5, 5, 5, 5, 5, 2, 0]"

definition kCdfLogistic :: "int list" where
  "kCdfLogistic = [0, 2, 4, 6, 8, 10, 12, 14, 16, 18, 20, 22, 24, 29, 38, 57, 92, 153, 279, 559,
     994, 1983, 4408, 10097, 18682, 33336, 48105, 56005, 61313, 63636,
     64560, 64998, 65262, 65389, 65447, 65481, 65497, 65510, 65512, 65514,
     65516, 65518, 65520, 65522, 65524, 65526, 65528, 65530, 65532, 65534, 65535]"

definition spl_sat :: "int \<Rightarrow> int \<Rightarrow> int \<Rightarrow> int" where
  "spl_sat a b c = (if b > a then a else if b < c then c else b)"

definition WebRtcIsacfix_Piecewise :: "int \<Rightarrow> int" where
  "WebRtcIsacfix_Piecewise xinQ15 =
     (let qtmp1 = spl_sat (kHistEdges ! 50) xinQ15 (kHistEdges ! 0);
          ind = nat (asr (s32 (5 * (qtmp1 - kHistEdges ! 0))) 16);
          qtmp1 = qtmp1 - kHistEdges ! ind;
          qtmp2 = u16 (asr (u32 (u32 qtmp1 * kCdfSlope ! ind)) 15)
      in u16 (kCdfLogistic ! ind + qtmp2))"

text \<open>The frequency at \<open>c\<close> steps of a spectral line from the center, for an envelope \<open>env\<close>.\<close>

definition mul_16_u16 :: "int \<Rightarrow> int \<Rightarrow> int" where
  "mul_16_u16 a b = s16 a * u16 b"

definition logist :: "int \<Rightarrow> int \<Rightarrow> 16 word" where
  "logist env c = word_of_int (WebRtcIsacfix_Piecewise (mul_16_u16 c env))"

section \<open>Encoding\<close>

text \<open>The loop that moves a line towards zero while its probability is too small.\<close>

partial_function (option) enc_clip :: "int \<Rightarrow> int \<Rightarrow> 16 word \<Rightarrow> 16 word \<Rightarrow> (int \<times> 16 word \<times> 16 word) option" where
  "enc_clip env dataQ7 cdfLo cdfHi =
     (if unat cdfLo + 1 \<ge> unat cdfHi
      then if dataQ7 > 0 then enc_clip env (s16 (dataQ7 - 128)) (logist env (s16 (dataQ7 - 128) - 64)) cdfLo
           else enc_clip env (s16 (dataQ7 + 128)) cdfHi (logist env (s16 (dataQ7 + 128) + 64))
      else Some (dataQ7, cdfLo, cdfHi))"

text \<open>\<open>k\<close> counts the lines from the start, \<open>e\<close> is the position in the envelope; the lines are clipped in place.\<close>

fun enc_logistic ::
    "nat \<Rightarrow> nat \<Rightarrow> nat \<Rightarrow> int list \<Rightarrow> int list \<Rightarrow> 32 word \<Rightarrow> nat \<Rightarrow> Bitstr_enc \<Rightarrow>
     (int list \<times> Bitstr_enc + int list \<times> 32 word \<times> nat \<times> Bitstr_enc) option" where
  "enc_logistic 0 k e dataQ7 envQ8 W p sd = Some (Inr (dataQ7, W, p, sd))"
| "enc_logistic (Suc n) k e dataQ7 envQ8 W p sd = do {
     d \<leftarrow> fetch dataQ7 k;
     env \<leftarrow> fetch envQ8 e;
     (d, cdfLo, cdfHi) \<leftarrow> enc_clip env d (logist env (d - 64)) (logist env (d + 64));
     dataQ7 \<leftarrow> store dataQ7 k d;
     r \<leftarrow> enc_interval cdfLo cdfHi W p sd;
     case r of Inl sd \<Rightarrow> Some (Inl (dataQ7, sd))
     | Inr (W, p, sd) \<Rightarrow> enc_logistic n (k + 1) (e + ((k AND 1) AND drop_bit 1 k)) dataQ7 envQ8 W p sd
   }"

definition WebRtcIsacfix_EncLogisticMulti2 ::
    "Bitstr_enc \<Rightarrow> int list \<Rightarrow> int list \<Rightarrow> int \<Rightarrow> (int \<times> int list \<times> Bitstr_enc) option" where
  "WebRtcIsacfix_EncLogisticMulti2 sd dataQ7 envQ8 lenData = do {
     r \<leftarrow> enc_logistic (nat lenData) 0 0 dataQ7 envQ8 (W_upper sd) (stream_index sd) sd;
     Some (case r of Inl (dataQ7, sd) \<Rightarrow> (- ISAC_DISALLOWED_BITSTREAM_LENGTH, dataQ7, sd)
       | Inr (dataQ7, W, p, sd) \<Rightarrow> (0, dataQ7, sd\<lparr>stream_index := p mod 65536, W_upper := W\<rparr>))
   }"

section \<open>Decoding\<close>

record logist_regs = dec_regs +
  r_offset :: nat

text \<open>Behind the stream zeros are inserted; \<open>r_offset\<close> counts the words that are not there.\<close>

definition get_byte_logist :: "Bitstr_dec \<Rightarrow> logist_regs \<Rightarrow> (logist_regs \<times> Bitstr_dec) option" where
  "get_byte_logist sd r =
     (if r_ptr r < stream_size sd then do {
        v \<leftarrow> fetch (stream sd) (r_ptr r);
        Some (if full sd = 0
          then (r\<lparr>r_val := push_bit 8 (r_val r) OR (ucast v AND 0x00FF), r_ptr := r_ptr r + 1\<rparr>, sd\<lparr>full := 1\<rparr>)
          else (r\<lparr>r_val := push_bit 8 (r_val r) OR drop_bit 8 (ucast v)\<rparr>, sd\<lparr>full := 0\<rparr>))
      } else Some (if full sd = 0
          then (r\<lparr>r_val := push_bit 8 (r_val r), r_offset := r_offset r + 1\<rparr>, sd\<lparr>full := 1\<rparr>)
          else (r\<lparr>r_val := push_bit 8 (r_val r)\<rparr>, sd\<lparr>full := 0\<rparr>)))"

partial_function (option) dec_renorm_logist :: "Bitstr_dec \<Rightarrow> logist_regs \<Rightarrow> (logist_regs \<times> Bitstr_dec) option" where
  "dec_renorm_logist sd r =
     (if r_upper r AND 0xFF000000 \<noteq> 0 then Some (r, sd)
      else Option.bind (get_byte_logist sd r)
        (\<lambda>(r', sd'). dec_renorm_logist sd' (r'\<lparr>r_upper := push_bit 8 (r_upper r')\<rparr>)))"

text \<open>The searches; the inner \<open>None\<close> is the error return.\<close>

partial_function (option) logist_up ::
    "32 word \<Rightarrow> int \<Rightarrow> 32 word \<Rightarrow> int \<Rightarrow> 32 word \<Rightarrow> 32 word \<Rightarrow> (int \<times> 32 word \<times> 32 word) option option" where
  "logist_up W env val candQ7 lower W_tmp =
     (if val > W_tmp
      then let cand' = s16 (candQ7 + 128); W_tmp' = cdf_scale W (logist env cand')
           in if W_tmp = W_tmp' then Some None else logist_up W env val cand' W_tmp W_tmp'
      else Some (Some (s16 (candQ7 - 64), lower, W_tmp)))"

partial_function (option) logist_down ::
    "32 word \<Rightarrow> int \<Rightarrow> 32 word \<Rightarrow> int \<Rightarrow> 32 word \<Rightarrow> 32 word \<Rightarrow> (int \<times> 32 word \<times> 32 word) option option" where
  "logist_down W env val candQ7 upper W_tmp =
     (if \<not> val > W_tmp
      then let cand' = s16 (candQ7 - 128); W_tmp' = cdf_scale W (logist env cand')
           in if W_tmp = W_tmp' then Some None else logist_down W env val cand' W_tmp W_tmp'
      else Some (Some (s16 (candQ7 + 64), W_tmp, upper)))"

definition logist_search :: "32 word \<Rightarrow> int \<Rightarrow> 32 word \<Rightarrow> int \<Rightarrow> (int \<times> 32 word \<times> 32 word) option option" where
  "logist_search W env val dither =
     (let candQ7 = s16 (- dither + 64); W_tmp = cdf_scale W (logist env candQ7)
      in if val > W_tmp
         then let cand' = s16 (candQ7 + 128) in logist_up W env val cand' W_tmp (cdf_scale W (logist env cand'))
         else let cand' = s16 (candQ7 - 128) in logist_down W env val cand' W_tmp (cdf_scale W (logist env cand')))"

text \<open>The next \<open>n\<close> lines, all with the envelope \<open>env\<close>; \<open>i\<close> is the position in \<^verbatim>\<open>dataQ7\<close>, which holds the dither of the
  lines to come.\<close>

fun dec_lines ::
    "nat \<Rightarrow> int \<Rightarrow> int list \<Rightarrow> nat \<Rightarrow> Bitstr_dec \<Rightarrow> logist_regs \<Rightarrow> (int list \<times> Bitstr_dec + int list \<times> logist_regs \<times> Bitstr_dec) option" where
  "dec_lines 0 env dataQ7 i sd r = Some (Inr (dataQ7, r, sd))"
| "dec_lines (Suc n) env dataQ7 i sd r = do {
     dither \<leftarrow> fetch dataQ7 i;
     f \<leftarrow> logist_search (r_upper r) env (r_val r) dither;
     case f of None \<Rightarrow> Some (Inl (dataQ7, sd))
     | Some (d, lower, upper) \<Rightarrow> do {
         dataQ7 \<leftarrow> store dataQ7 i d;
         let lower = lower + 1;
         (r, sd) \<leftarrow> dec_renorm_logist sd (r\<lparr>r_lower := lower, r_upper := upper - lower, r_val := r_val r - lower\<rparr>);
         dec_lines n env dataQ7 (i + 1) sd r
       }
   }"

text \<open>The square root of an envelope, by Newton's iteration from the root before it.\<close>

definition newton_step :: "int \<Rightarrow> int \<Rightarrow> int option" where
  "newton_step inSqrt res = (if res = 0 then None else Some (asr (s32 (cdiv inSqrt res + res)) 1))"

fun newton :: "nat \<Rightarrow> int \<Rightarrow> int \<Rightarrow> (int \<times> int) option" where
  "newton i inSqrt res = do {
     newRes \<leftarrow> newton_step inSqrt res;
     if newRes \<noteq> res \<and> i > 0 then newton (i - 1) inSqrt newRes else Some (res, newRes)
   }"

declare newton.simps [simp del]

definition ar_spec :: "int \<Rightarrow> int \<Rightarrow> (int \<times> int) option" where
  "ar_spec envQ8 res = do {
     let inSqrt = (if envQ8 < 0 then s32 (- envQ8) else envQ8);
     newRes \<leftarrow> newton_step inSqrt res;
     (res, newRes) \<leftarrow> newton 10 inSqrt newRes;
     Some (res, u16 newRes)
   }"

fun dec_groups ::
    "nat \<Rightarrow> nat \<Rightarrow> int \<Rightarrow> int list \<Rightarrow> int list \<Rightarrow> nat \<Rightarrow> Bitstr_dec \<Rightarrow> logist_regs \<Rightarrow>
     (int list \<times> Bitstr_dec + int list \<times> logist_regs \<times> Bitstr_dec) option" where
  "dec_groups 0 envCount res envQ8 dataQ7 i sd r = Some (Inr (dataQ7, r, sd))"
| "dec_groups (Suc n) envCount res envQ8 dataQ7 i sd r = do {
     v \<leftarrow> fetch envQ8 envCount;
     (res, env) \<leftarrow> ar_spec v res;
     x \<leftarrow> dec_lines 4 env dataQ7 i sd r;
     case x of Inl y \<Rightarrow> Some (Inl y)
     | Inr (dataQ7, r, sd) \<Rightarrow> dec_groups n (envCount + 1) res envQ8 dataQ7 (i + 4) sd r
   }"

definition WebRtcIsacfix_DecLogisticMulti2 ::
    "int list \<Rightarrow> Bitstr_dec \<Rightarrow> int list \<Rightarrow> int \<Rightarrow> (int \<times> int list \<times> Bitstr_dec) option" where
  "WebRtcIsacfix_DecLogisticMulti2 dataQ7 sd envQ8 lenData = do {
     (p, val) \<leftarrow> dec_first sd;
     v \<leftarrow> fetch envQ8 0;
     let res = 2 ^ nat (asr (WebRtcSpl_GetSizeInBits (u32 v)) 1);
     x \<leftarrow> dec_groups ((nat lenData + 3) div 4) 0 res envQ8 dataQ7 0 sd
            \<lparr>r_lower = 0, r_upper = W_upper sd, r_val = val, r_ptr = p, r_offset = 0\<rparr>;
     Some (case x of Inl (dataQ7, sd) \<Rightarrow> (-1, dataQ7, sd)
       | Inr (dataQ7, r, sd) \<Rightarrow>
           let sd = sd\<lparr>stream_index := (r_ptr r + r_offset r) mod 65536, W_upper := r_upper r, streamval := r_val r\<rparr>
           in (int (stream_index sd) * 2 - (if r_upper r > 0x01FFFFFF then 3 else 2) + (if full sd = 0 then 1 else 0), dataQ7, sd))
   }"

end
