(* ===== verification/Isac_Distribution.thy ===== *)
theory Isac_Distribution
  imports Isac_Logistic
begin

text \<open>
  The frequencies of the spectrum coder: the piecewise linear function of \<^verbatim>\<open>arith_routines_logist.c\<close> has no wrap-around, increases, and has
  its plateaus where the code expects them.
\<close>

section \<open>The distribution increases\<close>

definition piece :: "nat \<Rightarrow> int \<Rightarrow> int" where
  "piece i x = kCdfLogistic ! i + (x - kHistEdges ! i) * kCdfSlope ! i div 32768"

definition piecewise :: "int \<Rightarrow> int" where
  "piecewise x = piece (nat (5 * (x + 327680) div 65536)) x"

definition table_step :: "nat \<Rightarrow> bool" where
  "table_step i \<longleftrightarrow> 5 * kHistEdges ! i \<le> 65536 * int i - 1638400 \<and> 65536 * int i - 1638400 < 5 * kHistEdges ! i + 5 \<and>
     0 \<le> kCdfSlope ! i \<and> kCdfSlope ! i \<le> 36924 \<and> 0 \<le> kCdfLogistic ! i \<and> kCdfLogistic ! i \<le> 65535 \<and>
     (i < 50 \<longrightarrow> kCdfLogistic ! i \<le> kCdfLogistic ! Suc i \<and> piece i (kHistEdges ! Suc i) \<le> kCdfLogistic ! Suc i)"

lemma table_steps: "i \<le> 50 \<Longrightarrow> table_step i"
proof -
  have "list_all table_step [0..<51]" by code_simp
  then show "i \<le> 50 \<Longrightarrow> table_step i" by (simp add: list_all_iff)
qed

lemma segment_index:
  assumes "-327680 \<le> x" "x \<le> 327680"
  obtains i where "i \<le> 50" "piecewise x = piece i x" "65536 * int i \<le> 5 * (x + 327680)" "5 * (x + 327680) < 65536 * int i + 65536"
    "nat (5 * (x + 327680) div 65536) = i"
proof (rule that [of "nat (5 * (x + 327680) div 65536)"])
  show "nat (5 * (x + 327680) div 65536) \<le> 50" using assms by (simp add: nat_le_iff)
  show "piecewise x = piece (nat (5 * (x + 327680) div 65536)) x" by (rule piecewise_def)
  have "int (nat (5 * (x + 327680) div 65536)) = 5 * (x + 327680) div 65536" using assms by simp
  then show "65536 * int (nat (5 * (x + 327680) div 65536)) \<le> 5 * (x + 327680)"
    "5 * (x + 327680) < 65536 * int (nat (5 * (x + 327680) div 65536)) + 65536" by linarith+
qed simp

lemma piece_bounds:
  assumes "i \<le> 50" "65536 * int i \<le> 5 * (x + 327680)" "5 * (x + 327680) < 65536 * int i + 65536" "x \<le> 327680"
  shows "0 \<le> x - kHistEdges ! i" "x - kHistEdges ! i \<le> 13108" "kCdfLogistic ! i \<le> piece i x" "piece i x \<le> (if i < 50 then kCdfLogistic ! Suc i else 65535)"
proof -
  note t = table_steps [OF assms(1), unfolded table_step_def]
  from t have "5 * kHistEdges ! i \<le> 65536 * int i - 1638400" "65536 * int i - 1638400 < 5 * kHistEdges ! i + 5" by blast+
  then have "5 * kHistEdges ! i \<le> 5 * x" "5 * x \<le> 5 * kHistEdges ! i + 65540" using assms(2,3) by simp_all
  then show q: "0 \<le> x - kHistEdges ! i" "x - kHistEdges ! i \<le> 13108" by simp_all
  show "kCdfLogistic ! i \<le> piece i x" unfolding piece_def using q(1) t by (simp add: pos_imp_zdiv_nonneg_iff)
  show "piece i x \<le> (if i < 50 then kCdfLogistic ! Suc i else 65535)"
  proof (cases "i < 50")
    case True
    have "65536 * int (Suc i) - 1638400 < 5 * kHistEdges ! Suc i + 5" using table_steps [of "Suc i"] True by (simp add: table_step_def)
    then have "x \<le> kHistEdges ! Suc i" using assms(3) by simp
    then have "piece i x \<le> piece i (kHistEdges ! Suc i)" unfolding piece_def using t
      by (intro add_left_mono zdiv_mono1 mult_right_mono) simp_all
    then show ?thesis using t True by simp
  next
    case False
    then have "i = 50" using assms(1) by simp
    then show ?thesis using q by (simp add: piece_def kCdfSlope_def kCdfLogistic_def)
  qed
qed

lemma cdf_sorted: "i \<le> j \<Longrightarrow> j \<le> 50 \<Longrightarrow> kCdfLogistic ! i \<le> kCdfLogistic ! j"
proof (induction j)
  case (Suc j)
  then show ?case using table_steps [of j] by (cases "i = Suc j") (simp_all add: table_step_def)
qed simp

lemma piecewise_bounds:
  assumes "-327680 \<le> x" "x \<le> 327680"
  shows "0 \<le> piecewise x" "piecewise x \<le> 65535"
proof -
  obtain i where i: "i \<le> 50" "piecewise x = piece i x" "65536 * int i \<le> 5 * (x + 327680)" "5 * (x + 327680) < 65536 * int i + 65536"
    using segment_index [OF assms] by blast
  note b = piece_bounds [OF i(1,3,4) assms(2)]
  have t: "0 \<le> kCdfLogistic ! i" "kCdfLogistic ! Suc i \<le> 65535" if "i < 50"
    using table_steps [of i] table_steps [of "Suc i"] that by (simp_all add: table_step_def)
  show "0 \<le> piecewise x" unfolding i(2) using b(3) table_steps [OF i(1)] unfolding table_step_def by linarith
  show "piecewise x \<le> 65535" unfolding i(2) using b(4) t(2) by (cases "i < 50") simp_all
qed

lemma piecewise_mono:
  assumes "-327680 \<le> x" "x \<le> y" "y \<le> 327680"
  shows "piecewise x \<le> piecewise y"
proof -
  obtain i where i: "i \<le> 50" "piecewise x = piece i x" "65536 * int i \<le> 5 * (x + 327680)" "5 * (x + 327680) < 65536 * int i + 65536"
    using segment_index [OF assms(1) order.trans [OF assms(2,3)]] by blast
  obtain j where j: "j \<le> 50" "piecewise y = piece j y" "65536 * int j \<le> 5 * (y + 327680)" "5 * (y + 327680) < 65536 * int j + 65536"
    using segment_index [OF order.trans [OF assms(1,2)] assms(3)] by blast
  have "65536 * int i < 65536 * (int j + 1)" using i(3) j(4) assms(2) by simp
  then have "i \<le> j" by simp
  show ?thesis
  proof (cases "i = j")
    case True
    then show ?thesis unfolding i(2) j(2) piece_def using assms(2) table_steps [OF i(1)]
      by (simp add: table_step_def) (intro zdiv_mono1 mult_right_mono; simp)
  next
    case False
    then have "i < j" using \<open>i \<le> j\<close> by simp
    have "piece i x \<le> kCdfLogistic ! Suc i" using piece_bounds(4) [OF i(1,3,4)] assms \<open>i < j\<close> j(1) by simp
    also have "\<dots> \<le> kCdfLogistic ! j" using \<open>i < j\<close> j(1) by (intro cdf_sorted) simp_all
    also have "\<dots> \<le> piece j y" using piece_bounds(3) [OF j(1,3,4)] assms(3) by simp
    finally show ?thesis using i(2) j(2) by simp
  qed
qed

definition clamp :: "int \<Rightarrow> int" where
  "clamp x = max (-327680) (min 327680 x)"

lemma Piecewise_eq: "WebRtcIsacfix_Piecewise x = piecewise (clamp x)"
proof -
  have s: "spl_sat (kHistEdges ! 50) x (kHistEdges ! 0) = clamp x" by (auto simp: spl_sat_def clamp_def kHistEdges_def)
  have e0: "kHistEdges ! 0 = -327680" by (simp add: kHistEdges_def)
  have b: "-327680 \<le> clamp x" "clamp x \<le> 327680" by (auto simp: clamp_def)
  then obtain i where i: "i \<le> 50" "piecewise (clamp x) = piece i (clamp x)" "65536 * int i \<le> 5 * (clamp x + 327680)"
      "5 * (clamp x + 327680) < 65536 * int i + 65536" "nat (5 * (clamp x + 327680) div 65536) = i" by (rule segment_index)
  have "s32 (5 * (clamp x - kHistEdges ! 0)) = 5 * (clamp x + 327680)" using b unfolding e0 by (intro s32_id [THEN trans]) (simp_all add: is_s32_def)
  then have n: "nat (asr (s32 (5 * (clamp x - kHistEdges ! 0))) 16) = i" using i(5) by (simp add: asr_def)
  let ?q = "clamp x - kHistEdges ! i" and ?S = "kCdfSlope ! i"
  note q = piece_bounds [OF i(1,3,4) b(2)]
  have t: "0 \<le> ?S" "?S \<le> 36924" "0 \<le> kCdfLogistic ! i" using table_steps [OF i(1)] by (simp_all add: table_step_def)
  have m: "0 \<le> ?q * ?S" "?q * ?S \<le> 13108 * 36924" using q(1,2) t by (simp, intro mult_mono) simp_all
  have "u32 (u32 ?q * ?S) = ?q * ?S" using q(1,2) m by (simp add: u32_def)
  moreover have "0 \<le> ?q * ?S div 32768" "?q * ?S div 32768 \<le> 65535" using m by (simp_all add: pos_imp_zdiv_nonneg_iff)
  then have "u16 (asr (?q * ?S) 15) = ?q * ?S div 32768" by (simp add: u16_def asr_def)
  moreover have "u16 (piece i (clamp x)) = piece i (clamp x)"
    using piecewise_bounds [OF b] unfolding i(2) by (simp add: u16_def)
  ultimately show ?thesis unfolding WebRtcIsacfix_Piecewise_def Let_def s n i(2) by (simp add: piece_def)
qed

section \<open>Plateaus\<close>

text \<open>Where the distribution is steep, it increases on every stretch of 1408.\<close>

lemma one_boundary:
  fixes a b :: int
  assumes "a div 65536 \<noteq> (a + b) div 65536" "0 < b" "2 * b \<le> 65536"
  shows "(a + b) div 65536 = (a + 2 * b) div 65536"
proof (rule int_div_pos_eq [symmetric])
  let ?q = "(a + b) div 65536"
  have "a div 65536 \<le> ?q" using assms(2) by (intro zdiv_mono1) simp_all
  then have "a div 65536 + 1 \<le> ?q" using assms(1) by simp
  moreover have "a < 65536 * (a div 65536) + 65536" "65536 * ?q \<le> a + b" by simp_all
  ultimately show "0 \<le> a + 2 * b - 65536 * ?q" "a + 2 * b - 65536 * ?q < 65536" using assms(2,3) by linarith+
qed simp

lemma steep_gen:
  assumes slope: "\<And>i. m \<le> i \<Longrightarrow> i \<le> n \<Longrightarrow> 32768 \<le> h * kCdfSlope ! i"
    and "n \<le> 50" "0 < h" "h \<le> 6553" "65536 * int m \<le> 5 * (x + 327680)" "5 * (x + 2 * h + 327680) < 65536 * int n + 65536" "x + 2 * h \<le> 327680"
  shows "piecewise x < piecewise (x + 2 * h)"
proof -
  have lo: "-327680 \<le> x" using assms(5) by simp
  have st: "piecewise y < piecewise (y + h)"
    if "5 * (y + 327680) div 65536 = 5 * (y + h + 327680) div 65536" "x \<le> y" "y + h \<le> x + 2 * h" for y
  proof -
    define i where "i = nat (5 * (y + 327680) div 65536)"
    have i: "piecewise y = piece i y" "piecewise (y + h) = piece i (y + h)" unfolding piecewise_def that(1) [symmetric] i_def by (rule refl)+
    have "65536 * int m \<le> 5 * (y + 327680)" "5 * (y + h + 327680) \<le> 65536 * int n + 65535" using assms(5,6) that(2,3) by simp_all
    from zdiv_mono1 [OF this(1), of 65536] zdiv_mono1 [OF this(2), of 65536]
    have "int m \<le> 5 * (y + 327680) div 65536" "5 * (y + h + 327680) div 65536 \<le> int n" by simp_all
    then have "m \<le> i" "i \<le> n" using that(1) by (simp_all add: i_def)
    then have "32768 \<le> h * kCdfSlope ! i" by (rule slope)
    then have "(y - kHistEdges ! i) * kCdfSlope ! i + 32768 \<le> (y + h - kHistEdges ! i) * kCdfSlope ! i" by (simp add: algebra_simps)
    from zdiv_mono1 [OF this, of 32768] show ?thesis unfolding i by (simp add: piece_def)
  qed
  have m: "piecewise x \<le> piecewise (x + h)" "piecewise (x + h) \<le> piecewise (x + 2 * h)"
    using lo assms(3,7) by (auto intro: piecewise_mono)
  show ?thesis
  proof (cases "5 * (x + 327680) div 65536 = 5 * (x + h + 327680) div 65536")
    case True
    then show ?thesis using st [of x] m(2) assms(3) by simp
  next
    case False
    then have "5 * (x + h + 327680) div 65536 = 5 * (x + h + h + 327680) div 65536"
      using one_boundary [of "5 * (x + 327680)" "5 * h"] assms(3,4) by (simp add: algebra_simps)
    then show ?thesis using st [of "x + h"] m(1) assms(3) by (simp add: algebra_simps)
  qed
qed

lemma steep:
  assumes "-144179 \<le> x" "x + 1408 \<le> 131071"
  shows "piecewise x < piecewise (x + 1408)"
proof -
  have "list_all (\<lambda>i. 32768 \<le> 704 * kCdfSlope ! i) [14..<35]" by code_simp
  then have "32768 \<le> 704 * kCdfSlope ! i" if "14 \<le> i" "i \<le> 34" for i using that unfolding list_all_iff set_upt by auto
  from steep_gen [of 14 34 704, OF this] show ?thesis using assms by simp
qed

text \<open>Around the center it does so on every stretch of 128.\<close>

lemma steep_center:
  assumes "-39321 \<le> x" "x + 128 \<le> 39321"
  shows "piecewise x < piecewise (x + 128)"
proof -
  have "list_all (\<lambda>i. 32768 \<le> 64 * kCdfSlope ! i) [22..<28]" by code_simp
  then have "32768 \<le> 64 * kCdfSlope ! i" if "22 \<le> i" "i \<le> 27" for i using that unfolding list_all_iff set_upt by auto
  from steep_gen [of 22 27 64, OF this] show ?thesis using assms by simp
qed

text \<open>Where it is flat, its steps are tabulated: where the values from 65476 on are reached, and how far the values up to 41 stay.\<close>

definition reaches :: "int list" where
  "reaches = [129014, 129395, 129776, 130157, 130538, 130919, 131872, 132671, 133470, 134269, 135069, 135868, 136667,
     137466, 138265, 139065, 139864, 140663, 141462, 142262, 143061, 143860, 145203, 146227, 147251, 148275, 149299,
     150323, 151347, 152371, 153395, 154419, 155443, 156467, 157287, 163840, 170394, 176947, 183501, 190054, 196608,
     203162, 209716, 216269, 222823, 229376, 235930, 242483, 249037, 255590, 262144, 268698, 275252, 281805, 288359,
     294912, 301466, 308019, 314573, 327680]"

definition stays :: "int list" where
  "stays = [-321127, -314573, -308020, -301466, -294913, -288359, -281806, -275252, -268699, -262145, -255591, -249037,
     -242484, -235930, -229377, -222823, -216270, -209716, -203163, -196609, -190055, -183501, -176948, -170394,
     -167874, -165353, -162833, -160312, -157791, -155863, -154438, -153013, -151589, -150164, -148739, -147315,
     -145890, -144465, -143483, -142786, -142089, -141392]"

lemma reaches_table: "k \<le> 59 \<Longrightarrow> -327680 < reaches ! k \<and> reaches ! k \<le> 327680 \<and>
    65476 + int k \<le> piecewise (reaches ! k) \<and> piecewise (reaches ! k - 1) < 65476 + int k"
proof -
  have "list_all (\<lambda>k. -327680 < reaches ! k \<and> reaches ! k \<le> 327680 \<and> 65476 + int k \<le> piecewise (reaches ! k) \<and>
      piecewise (reaches ! k - 1) < 65476 + int k) [0..<60]" by code_simp
  then show "k \<le> 59 \<Longrightarrow> ?thesis" unfolding list_all_iff set_upt by auto
qed

lemma stays_table: "k \<le> 41 \<Longrightarrow> -327680 \<le> stays ! k \<and> stays ! k < 327680 \<and>
    piecewise (stays ! k) \<le> int k \<and> int k < piecewise (stays ! k + 1)"
proof -
  have "list_all (\<lambda>k. -327680 \<le> stays ! k \<and> stays ! k < 327680 \<and> piecewise (stays ! k) \<le> int k \<and>
      int k < piecewise (stays ! k + 1)) [0..<42]" by code_simp
  then show "k \<le> 41 \<Longrightarrow> ?thesis" unfolding list_all_iff set_upt by auto
qed

lemma reaches_lengths:
  "a < b \<Longrightarrow> b < 59 \<Longrightarrow> 1408 < reaches ! Suc a - reaches ! a \<Longrightarrow> reaches ! Suc a - reaches ! a \<le> reaches ! Suc b - reaches ! b + 1"
proof -
  have "list_all (\<lambda>a. 1408 < reaches ! Suc a - reaches ! a \<longrightarrow>
      list_all (\<lambda>b. reaches ! Suc a - reaches ! a \<le> reaches ! Suc b - reaches ! b + 1) [Suc a..<59]) [0..<59]" by code_simp
  then show "a < b \<Longrightarrow> b < 59 \<Longrightarrow> 1408 < reaches ! Suc a - reaches ! a \<Longrightarrow> ?thesis" unfolding list_all_iff set_upt by auto
qed

lemma stays_lengths:
  "j < k \<Longrightarrow> k < 41 \<Longrightarrow> 1408 < stays ! Suc k - stays ! k \<Longrightarrow> stays ! Suc k - stays ! k \<le> stays ! Suc j - stays ! j + 1"
proof -
  have "list_all (\<lambda>k. 1408 < stays ! Suc k - stays ! k \<longrightarrow>
      list_all (\<lambda>j. stays ! Suc k - stays ! k \<le> stays ! Suc j - stays ! j + 1) [0..<k]) [0..<41]" by code_simp
  then show "j < k \<Longrightarrow> k < 41 \<Longrightarrow> 1408 < stays ! Suc k - stays ! k \<Longrightarrow> ?thesis" unfolding list_all_iff set_upt by auto
qed

abbreviation distr :: "int \<Rightarrow> int" where
  "distr x \<equiv> piecewise (clamp x)"

lemma clamp_bounds: "-327680 \<le> clamp x" "clamp x \<le> 327680"
  by (simp_all add: clamp_def)

lemma distr_mono: "x \<le> y \<Longrightarrow> distr x \<le> distr y"
  by (rule piecewise_mono) (auto simp: clamp_def)

lemma distr_bounds: "0 \<le> distr x" "distr x \<le> 65535"
  using piecewise_bounds [OF clamp_bounds] by simp_all

lemma reaches_iff: "k \<le> 59 \<Longrightarrow> 65476 + int k \<le> distr x \<longleftrightarrow> reaches ! k \<le> x"
proof -
  assume k: "k \<le> 59"
  note t = reaches_table [OF k]
  have c: "clamp (reaches ! k) = reaches ! k" "clamp (reaches ! k - 1) = reaches ! k - 1" using t by (simp_all add: clamp_def)
  show ?thesis
  proof (cases "reaches ! k \<le> x")
    case True
    then show ?thesis using distr_mono [OF True] t c by simp
  next
    case False
    then show ?thesis using distr_mono [of x "reaches ! k - 1"] t c by simp
  qed
qed

lemma stays_iff: "k \<le> 41 \<Longrightarrow> distr x \<le> int k \<longleftrightarrow> x \<le> stays ! k"
proof -
  assume k: "k \<le> 41"
  note t = stays_table [OF k]
  have c: "clamp (stays ! k) = stays ! k" "clamp (stays ! k + 1) = stays ! k + 1" using t by (simp_all add: clamp_def)
  show ?thesis
  proof (cases "x \<le> stays ! k")
    case True
    then show ?thesis using distr_mono [OF True] t c by simp
  next
    case False
    then show ?thesis using distr_mono [of "stays ! k + 1" x] t c by simp
  qed
qed

text \<open>Behind a plateau, every stretch of its length has at most one step.\<close>

lemma plateau_up:
  assumes "0 \<le> x" "x \<le> y" "1408 \<le> h" "distr x = distr (x + h)"
  shows "distr (y + h) \<le> distr y + 1"
proof (rule ccontr)
  assume "\<not> distr (y + h) \<le> distr y + 1"
  then have w: "distr y + 2 \<le> distr (y + h)" by simp
  have v: "65476 \<le> distr x"
  proof (rule ccontr)
    assume "\<not> 65476 \<le> distr x"
    then have "x < reaches ! 0" using reaches_iff [of 0 x] by simp
    then have x: "x + 1408 \<le> 131071" by (simp add: reaches_def)
    then have "distr x < distr (x + 1408)" using steep [of x] assms(1) by (simp add: clamp_def)
    then show False using distr_mono [of "x + 1408" "x + h"] assms(3,4) by simp
  qed
  define a b where "a = nat (distr x - 65476)" and "b = nat (distr y + 1 - 65476)"
  have xy: "distr x \<le> distr y" using assms(2) by (rule distr_mono)
  have a: "distr x = 65476 + int a" "distr y + 1 = 65476 + int b" using v xy by (simp_all add: a_def b_def)
  have ab: "a < b" "b < 59" using a xy w distr_bounds [of "y + h"] by simp_all
  have "reaches ! a \<le> x" "x + h < reaches ! Suc a" "y < reaches ! b" "reaches ! Suc b \<le> y + h"
    using reaches_iff [of a x] reaches_iff [of "Suc a" "x + h"] reaches_iff [of b y] reaches_iff [of "Suc b" "y + h"] a ab w assms(4) by simp_all
  then show False using reaches_lengths [OF ab] assms(3) by simp
qed

lemma plateau_down:
  assumes "x \<le> 0" "y \<le> x" "1408 \<le> h" "distr x = distr (x - h)"
  shows "distr y \<le> distr (y - h) + 1"
proof (rule ccontr)
  assume "\<not> distr y \<le> distr (y - h) + 1"
  then have w: "distr (y - h) + 2 \<le> distr y" by simp
  have v: "distr x \<le> 41"
  proof (rule ccontr)
    assume "\<not> distr x \<le> 41"
    then have "stays ! 41 < x" using stays_iff [of 41 x] by simp
    then have x: "-144179 \<le> x - 1408" by (simp add: stays_def)
    then have "distr (x - 1408) < distr x" using steep [of "x - 1408"] assms(1) by (simp add: clamp_def)
    then show False using distr_mono [of "x - h" "x - 1408"] assms(3,4) by simp
  qed
  define k j where "k = nat (distr x - 1)" and "j = nat (distr y - 2)"
  have xy: "distr y \<le> distr x" using assms(2) by (rule distr_mono)
  have a: "distr x = int (Suc k)" "distr y = int (Suc (Suc j))" using w xy distr_bounds [of "y - h"] by (simp_all add: k_def j_def)
  have jk: "j < k" "k < 41" using a xy v by simp_all
  have "x \<le> stays ! Suc k" "stays ! k < x - h" "stays ! Suc j < y" "y - h \<le> stays ! j"
    using stays_iff [of "Suc k" x] stays_iff [of k "x - h"] stays_iff [of "Suc j" y] stays_iff [of j "y - h"] a jk w assms(4) by simp_all
  then show False using stays_lengths [OF jk] assms(3) by simp
qed

end
