(* ===== verification/Isac_Lines.thy ===== *)
theory Isac_Lines
  imports Isac_Distribution Isac_Coder
begin

text \<open>
  The spectrum coder follows the arithmetic coder of \<open>Isac_Coder\<close>: a line is a symbol of a table with one interval, the encoder's clipping returns, and the
  decoder's searches find the line again.
\<close>

unbundle bit_operations_syntax

section \<open>Lines\<close>

definition line_table :: "int \<Rightarrow> int \<Rightarrow> 16 word list" where
  "line_table env d = [logist env (d - 64), logist env (d + 64)]"

definition line_range :: "int \<Rightarrow> int \<Rightarrow> bool" where
  "line_range env d \<longleftrightarrow> 1 \<le> env \<and> env \<le> 65535 \<and> -32704 \<le> d \<and> d \<le> 32703"

definition line_ok :: "int \<Rightarrow> int \<Rightarrow> bool" where
  "line_ok env d \<longleftrightarrow> line_range env d \<and> unat (logist env (d - 64)) + 2 \<le> unat (logist env (d + 64))"

lemma logist_distr:
  assumes "0 \<le> env" "env \<le> 65535" "-32768 \<le> c" "c \<le> 32767"
  shows "uint (logist env c) = distr (c * env)"
proof -
  have "mul_16_u16 c env = c * env" using assms by (simp add: mul_16_u16_def s16_id is_s16_def u16_def)
  then have "logist env c = word_of_int (distr (c * env))" by (simp add: logist_def Piecewise_eq)
  then show ?thesis using distr_bounds [of "c * env"]
    by (simp add: uint_word_of_int)
qed

lemma logist_mono:
  assumes "0 \<le> env" "env \<le> 65535" "-32768 \<le> c" "c \<le> c'" "c' \<le> 32767"
  shows "unat (logist env c) \<le> unat (logist env c')"
proof -
  have "uint (logist env c) \<le> uint (logist env c')" using assms by (simp add: logist_distr distr_mono mult_right_mono)
  then show ?thesis unfolding uint_nat by linarith
qed

lemma central_line: "line_range env d \<Longrightarrow> \<bar>d\<bar> \<le> 64 \<Longrightarrow> line_ok env d"
proof -
  assume a: "line_range env d" "\<bar>d\<bar> \<le> 64"
  then have e: "1 \<le> env" "env \<le> 65535" "-64 \<le> d" "d \<le> 64" by (auto simp: line_range_def)
  have v: "distr 0 = 33336" "distr 64 = 33408" "distr (-64) = 33264" by code_simp+
  have "distr ((d - 64) * env) + 2 \<le> distr ((d + 64) * env)"
  proof (cases "0 \<le> d")
    case True
    have "64 * 1 \<le> (d + 64) * env" using e True by (intro mult_mono) simp_all
    moreover have "(d - 64) * env \<le> 0" using e by (simp add: mult_nonpos_nonneg)
    ultimately show ?thesis using distr_mono [of "(d - 64) * env" 0] distr_mono [of 64 "(d + 64) * env"] v by simp
  next
    case False
    have "64 * 1 \<le> (64 - d) * env" using e False by (intro mult_mono) simp_all
    then have "(d - 64) * env \<le> -64" by (simp add: algebra_simps)
    moreover have "0 \<le> (d + 64) * env" using e by simp
    ultimately show ?thesis using distr_mono [of "(d - 64) * env" "-64"] distr_mono [of 0 "(d + 64) * env"] v by simp
  qed
  then have "uint (logist env (d - 64)) + 2 \<le> uint (logist env (d + 64))" using e by (simp add: logist_distr)
  then show "line_ok env d" using a(1) unfolding uint_nat line_ok_def by linarith
qed

lemma enc_clip_ok:
  assumes "line_range env d"
  shows "\<exists>d'. enc_clip env d (logist env (d - 64)) (logist env (d + 64)) = Some (d', logist env (d' - 64), logist env (d' + 64)) \<and>
    line_ok env d' \<and> d' mod 128 = d mod 128 \<and> (line_ok env d \<longrightarrow> d' = d)"
  using assms
proof (induction "nat \<bar>d\<bar>" arbitrary: d rule: less_induct)
  case less
  show ?case
  proof (cases "line_ok env d")
    case True
    then show ?thesis by (subst enc_clip.simps) (simp add: line_ok_def)
  next
    case False
    then have far: "64 < \<bar>d\<bar>" using central_line [OF less.prems] by force
    have thin: "unat (logist env (d - 64)) + 1 \<ge> unat (logist env (d + 64))" using False less.prems by (simp add: line_ok_def)
    show ?thesis
    proof (cases "d > 0")
      case True
      have r: "line_range env (d - 128)" "s16 (d - 128) = d - 128" "nat \<bar>d - 128\<bar> < nat \<bar>d\<bar>"
        using less.prems True far by (auto simp: line_range_def s16_id is_s16_def)
      show ?thesis using less.hyps [OF r(3,1)] True thin False r(2)
        by (subst enc_clip.simps) (auto simp: minus_mod_self2)
    next
      case d: False
      have r: "line_range env (d + 128)" "s16 (d + 128) = d + 128" "nat \<bar>d + 128\<bar> < nat \<bar>d\<bar>"
        using less.prems d far by (auto simp: line_range_def s16_id is_s16_def)
      show ?thesis using less.hyps [OF r(3,1)] d thin False r(2)
        by (subst enc_clip.simps) (auto simp: add.commute [of d])
    qed
  qed
qed

text \<open>Lines whose bounds leave the 16 bits the multiplication takes wrap around to the other end, so that the loop moves them inwards once.\<close>

definition line_s16 :: "int \<Rightarrow> int \<Rightarrow> bool" where
  "line_s16 env d \<longleftrightarrow> 1 \<le> env \<and> env \<le> 65535 \<and> is_s16 d"

lemma logist_wrap: "logist env (c + 65536) = logist env c" "logist env (c - 65536) = logist env c"
proof -
  have w: "s16 (c + 65536) = s16 c" for c
    unfolding s16_def using mod_add_self2 [of "c + 32768" 65536] by (simp add: ac_simps)
  have "s16 (c - 65536) = s16 c" using w [of "c - 65536"] by simp
  note w = w this
  show "logist env (c + 65536) = logist env c" "logist env (c - 65536) = logist env c"
    using w by (simp_all add: logist_def mul_16_u16_def)
qed

lemma enc_clip_s16:
  assumes "line_s16 env d"
  shows "\<exists>d'. enc_clip env d (logist env (d - 64)) (logist env (d + 64)) = Some (d', logist env (d' - 64), logist env (d' + 64)) \<and>
    line_ok env d' \<and> d' mod 128 = d mod 128 \<and> (line_ok env d \<longrightarrow> d' = d)"
proof -
  have e: "0 \<le> env" "env \<le> 65535" "1 \<le> env" "-32768 \<le> d" "d \<le> 32767" using assms by (simp_all add: line_s16_def is_s16_def)
  consider "line_range env d" | "32703 < d" | "d < -32704" using e by (fastforce simp: line_range_def)
  then show ?thesis
  proof cases
    case 1
    then show ?thesis by (rule enc_clip_ok)
  next
    case 2
    then have "line_range env (d - 128)" using e by (simp add: line_range_def)
    note i = enc_clip_ok [OF this]
    have "unat (logist env (d + 64 - 65536)) \<le> unat (logist env (d - 64))" by (rule logist_mono) (use e 2 in simp_all)
    then have "unat (logist env (d + 64)) \<le> unat (logist env (d - 64))" unfolding logist_wrap .
    moreover have "s16 (d - 128) = d - 128" using e 2 by (simp add: s16_id is_s16_def)
    moreover have "\<not> line_ok env d" using 2 by (simp add: line_ok_def line_range_def)
    ultimately show ?thesis using i 2 by (subst enc_clip.simps) (auto simp: minus_mod_self2)
  next
    case 3
    then have "line_range env (d + 128)" using e by (simp add: line_range_def)
    note i = enc_clip_ok [OF this]
    have "unat (logist env (d + 64)) \<le> unat (logist env (d - 64 + 65536))" by (rule logist_mono) (use e 3 in simp_all)
    then have "unat (logist env (d + 64)) \<le> unat (logist env (d - 64))" unfolding logist_wrap .
    moreover have "s16 (d + 128) = d + 128" using e 3 by (simp add: s16_id is_s16_def)
    moreover have "\<not> line_ok env d" using 3 by (simp add: line_ok_def line_range_def)
    ultimately show ?thesis using i 3 by (subst enc_clip.simps) (auto simp: add.commute [of d])
  qed
qed

definition clip_line :: "int \<Rightarrow> int \<Rightarrow> int" where
  "clip_line env d = (case enc_clip env d (logist env (d - 64)) (logist env (d + 64)) of Some (d', _) \<Rightarrow> d' | None \<Rightarrow> d)"

lemma clip_line:
  assumes "line_s16 env d"
  shows "enc_clip env d (logist env (d - 64)) (logist env (d + 64)) =
      Some (clip_line env d, logist env (clip_line env d - 64), logist env (clip_line env d + 64))"
    "line_ok env (clip_line env d)" "clip_line env d mod 128 = d mod 128" "line_ok env d \<Longrightarrow> clip_line env d = d"
  using enc_clip_s16 [OF assms] by (auto simp: clip_line_def)

lemma line_symbol: "line_ok env d \<Longrightarrow> symbol_ok (line_table env d) 0"
  by (simp add: line_ok_def line_table_def symbol_ok_def)

section \<open>Encoding\<close>

lemma next_envelope: "(k :: nat) div 4 + ((k AND 1) AND drop_bit 1 k) = Suc k div 4"
proof -
  have "k AND 1 = k mod 2" by (simp add: and_one_eq)
  moreover have "drop_bit 1 k = k div 2" by (simp add: drop_bit_eq_div)
  moreover have "(k mod 2) AND (k div 2) = (if odd k \<and> odd (k div 2) then 1 else 0)"
    by (cases "even k") (simp_all add: odd_iff_mod_2_eq_one one_and_eq even_iff_mod_2_eq_zero)
  moreover have "odd k \<and> odd (k div 2) \<longleftrightarrow> k mod 4 = 3" by presburger
  ultimately show ?thesis by simp presburger
qed

text \<open>The lines that are coded, and their tables; four lines share an envelope.\<close>

definition clipped :: "int list \<Rightarrow> int list \<Rightarrow> int list" where
  "clipped envQ8 dataQ7 = map (\<lambda>j. clip_line (envQ8 ! (j div 4)) (dataQ7 ! j)) [0..<length dataQ7]"

definition lines_ok :: "int list \<Rightarrow> int list \<Rightarrow> nat \<Rightarrow> nat \<Rightarrow> bool" where
  "lines_ok envQ8 dataQ7 k n \<longleftrightarrow> k + n \<le> length dataQ7 \<and> k + n \<le> 4 * length envQ8 \<and>
     (\<forall>j. k \<le> j \<and> j < k + n \<longrightarrow> line_s16 (envQ8 ! (j div 4)) (dataQ7 ! j))"

definition line_tables :: "int list \<Rightarrow> int list \<Rightarrow> nat \<Rightarrow> nat \<Rightarrow> 16 word list list" where
  "line_tables envQ8 ls k n = map (\<lambda>j. line_table (envQ8 ! (j div 4)) (ls ! j)) [k..<k + n]"

lemma line_tables_Suc: "line_tables envQ8 ls k (Suc n) = line_table (envQ8 ! (k div 4)) (ls ! k) # line_tables envQ8 ls (Suc k) n"
  by (simp add: line_tables_def upt_conv_Cons del: upt_Suc)

lemma length_clipped [simp]: "length (clipped envQ8 dataQ7) = length dataQ7"
  by (simp add: clipped_def)

lemma nth_clipped: "j < length dataQ7 \<Longrightarrow> clipped envQ8 dataQ7 ! j = clip_line (envQ8 ! (j div 4)) (dataQ7 ! j)"
  by (simp add: clipped_def)

lemma enc_logistic_ok:
  assumes "enc_wf sd p" "coder_ok (enc_abs sd p W)" "lines_ok envQ8 dataQ7 k n"
  defines "s \<equiv> code_run (enc_abs sd p W) (line_tables envQ8 (clipped envQ8 dataQ7) k n) (replicate n 0)"
  shows "if fst (snd s) < 400
    then \<exists>W' p' sd'. enc_logistic n k (k div 4) dataQ7 envQ8 W p sd =
        Some (Inr (take k dataQ7 @ take n (drop k (clipped envQ8 dataQ7)) @ drop (k + n) dataQ7, W', p', sd')) \<and>
      enc_wf sd' p' \<and> enc_abs sd' p' W' = s \<and> coder_ok s
    else \<exists>dataQ7' sd'. enc_logistic n k (k div 4) dataQ7 envQ8 W p sd = Some (Inl (dataQ7', sd'))"
  using assms(1-3) unfolding s_def
proof (induction n arbitrary: k dataQ7 W p sd)
  case 0
  then have "pos (full sd) p < 400" using pos_less by (auto simp: enc_wf_def)
  then show ?case using 0 by (simp add: enc_abs_def code_run_def)
next
  case (Suc n)
  let ?d = "dataQ7 ! k" and ?env = "envQ8 ! (k div 4)"
  let ?c = "clip_line ?env ?d"
  let ?data = "dataQ7[k := ?c]" and ?t = "line_table ?env ?c"
  have k: "k < length dataQ7" "k div 4 < length envQ8" "line_s16 ?env ?d" "lines_ok envQ8 ?data (Suc k) n"
    using Suc.prems(3) by (auto simp: lines_ok_def)
  note c = clip_line [OF k(3)]
  have cl: "clipped envQ8 ?data ! j = clipped envQ8 dataQ7 ! j" if "k < j" "j < length dataQ7" for j
    using that by (simp add: nth_clipped)
  then have tb: "line_tables envQ8 (clipped envQ8 ?data) (Suc k) n = line_tables envQ8 (clipped envQ8 dataQ7) (Suc k) n"
    using k(4) by (auto simp: line_tables_def lines_ok_def)
  let ?u = "enc_abs sd p W"
  let ?s = "coder_step ?u (freqs ?t 0)"
  have run: "code_run ?u (line_tables envQ8 (clipped envQ8 dataQ7) k (Suc n)) (replicate (Suc n) 0) =
      code_run ?s (line_tables envQ8 (clipped envQ8 ?data) (Suc k) n) (replicate n 0)"
    using k(1) by (simp add: line_tables_Suc code_run_def nth_clipped tb)
  have f: "freqs ?t 0 = (unat (logist ?env (?c - 64)), unat (logist ?env (?c + 64)))" by (simp add: freqs_def line_table_def)
  have "unat (logist ?env (?c - 64)) < unat (logist ?env (?c + 64))" using c(2) by (simp add: line_ok_def)
  note e = enc_interval_ok [OF Suc.prems(1,2) this, folded f]
  have step: "enc_logistic (Suc n) k (k div 4) dataQ7 envQ8 W p sd = do {
      r \<leftarrow> enc_interval (logist ?env (?c - 64)) (logist ?env (?c + 64)) W p sd;
      case r of Inl sd \<Rightarrow> Some (Inl (?data, sd))
      | Inr (W, p, sd) \<Rightarrow> enc_logistic n (Suc k) (Suc k div 4) ?data envQ8 W p sd }"
    using k c(1) next_envelope [of k] by simp
  show ?case
  proof (cases "fst (snd ?s) < 400")
    case True
    then obtain W' p' sd' where r: "enc_interval (logist ?env (?c - 64)) (logist ?env (?c + 64)) W p sd = Some (Inr (W', p', sd'))"
        "enc_wf sd' p'" "enc_abs sd' p' W' = ?s" using e by auto
    have ok: "coder_ok (enc_abs sd' p' W')"
      unfolding r(3) using coder_step_symbol [OF Suc.prems(2) line_symbol [OF c(2)]] by simp
    have eq: "take (Suc k) ?data @ take n (drop (Suc k) (clipped envQ8 ?data)) @ drop (Suc k + n) ?data =
        take k dataQ7 @ take (Suc n) (drop k (clipped envQ8 dataQ7)) @ drop (k + Suc n) dataQ7"
    proof -
      have "drop (Suc k) (clipped envQ8 ?data) = drop (Suc k) (clipped envQ8 dataQ7)" using cl by (intro nth_equalityI) simp_all
      moreover have "drop k (clipped envQ8 dataQ7) = ?c # drop (Suc k) (clipped envQ8 dataQ7)"
        using k(1) by (simp add: Cons_nth_drop_Suc [symmetric] nth_clipped)
      moreover have "take (Suc k) ?data = take k dataQ7 @ [?c]" using k(1) by (simp add: take_Suc_conv_app_nth)
      ultimately show ?thesis by simp
    qed
    show ?thesis using Suc.IH [OF r(2) ok k(4)] unfolding run step r(1) r(3) eq
      by (simp only: bind.bind_lunit sum.case prod.case)
  next
    case False
    then have "\<not> fst (snd (code_run ?u (line_tables envQ8 (clipped envQ8 dataQ7) k (Suc n)) (replicate (Suc n) 0))) < 400"
      unfolding run using coder_run_grows [of ?s "map2 freqs (line_tables envQ8 (clipped envQ8 ?data) (Suc k) n) (replicate n 0)"]
      unfolding code_run_def by simp
    then show ?thesis unfolding step using False e by auto
  qed
qed

lemma EncLogisticMulti2_ok:
  assumes "encoder sd s" "lines_ok envQ8 dataQ7 0 (length dataQ7)"
  defines "s' \<equiv> code_run s (line_tables envQ8 (clipped envQ8 dataQ7) 0 (length dataQ7)) (replicate (length dataQ7) 0)"
  shows "if fst (snd s') < 400
    then \<exists>sd'. WebRtcIsacfix_EncLogisticMulti2 sd dataQ7 envQ8 (int (length dataQ7)) = Some (0, clipped envQ8 dataQ7, sd') \<and> encoder sd' s'
    else \<exists>dataQ7' sd'. WebRtcIsacfix_EncLogisticMulti2 sd dataQ7 envQ8 (int (length dataQ7)) =
      Some (- ISAC_DISALLOWED_BITSTREAM_LENGTH, dataQ7', sd')"
proof -
  let ?p = "stream_index sd" and ?W = "W_upper sd"
  have a: "enc_wf sd ?p" "coder_ok (enc_abs sd ?p ?W)" "enc_abs sd ?p ?W = s" using assms(1) by (auto simp: encoder_def)
  note h = enc_logistic_ok [OF a(1,2) assms(2), unfolded a(3), folded s'_def]
  show ?thesis
  proof (cases "fst (snd s') < 400")
    case True
    then obtain W' p' sd' where r: "enc_logistic (length dataQ7) 0 0 dataQ7 envQ8 ?W ?p sd = Some (Inr (clipped envQ8 dataQ7, W', p', sd'))"
        "enc_wf sd' p'" "enc_abs sd' p' W' = s'" "coder_ok s'" using h by auto
    have "p' mod 65536 = p'" using r(2) by (simp add: enc_wf_def STREAM_MAXW16_60MS_def)
    then have "encoder (sd'\<lparr>stream_index := p' mod 65536, W_upper := W'\<rparr>) s'"
      using r(2-4) by (simp add: encoder_def enc_wf_def enc_abs_def enc_val_def)
    then show ?thesis using True r(1) by (simp add: WebRtcIsacfix_EncLogisticMulti2_def)
  next
    case False
    then show ?thesis using h by (auto simp: WebRtcIsacfix_EncLogisticMulti2_def)
  qed
qed

section \<open>The search\<close>

lemma cdf_scale_strict:
  assumes "16777216 \<le> unat W" "unat c < unat c'"
  shows "cdf_scale W c < cdf_scale W c'"
  using narrow(1) [OF assms unat_less_16 [of c']] by (simp add: word_less_nat_alt cdf_scale_unat)

text \<open>The dithers for which the first two steps are on their side of the center.\<close>

definition dither_ok :: "int \<Rightarrow> bool" where
  "dither_ok \<delta> \<longleftrightarrow> -64 \<le> \<delta> \<and> \<delta> \<le> 64"

text \<open>An envelope from 11 on has no plateau before a line that can be coded.\<close>

lemma no_plateau_up:
  assumes "line_ok env d" "11 \<le> env" "0 \<le> c" "c \<le> d - 64"
  shows "unat (logist env c) < unat (logist env (c + 128))"
proof -
  have r: "0 \<le> env" "env \<le> 65535" "-32704 \<le> d" "d \<le> 32703" using assms(1,2) by (auto simp: line_ok_def line_range_def)
  have u: "uint (logist env c) = distr (c * env)" "uint (logist env (c + 128)) = distr (c * env + 128 * env)"
      "uint (logist env (d - 64)) = distr ((d - 64) * env)" "uint (logist env (d + 64)) = distr ((d - 64) * env + 128 * env)"
    using r assms(3,4) logist_distr [of env c] logist_distr [of env "c + 128"] logist_distr [of env "d - 64"] logist_distr [of env "d + 64"]
    by (simp_all add: algebra_simps)
  have "distr (c * env) \<noteq> distr (c * env + 128 * env)"
  proof
    assume "distr (c * env) = distr (c * env + 128 * env)"
    then have "distr ((d - 64) * env + 128 * env) \<le> distr ((d - 64) * env) + 1"
      using assms r(1) by (intro plateau_up [of "c * env"]) (simp_all add: mult_right_mono)
    then have "uint (logist env (d + 64)) \<le> uint (logist env (d - 64)) + 1" using u(3,4) by simp
    then show False using assms(1) unfolding uint_nat line_ok_def by linarith
  qed
  moreover have "distr (c * env) \<le> distr (c * env + 128 * env)" using r(1) by (intro distr_mono) simp
  ultimately have "uint (logist env c) < uint (logist env (c + 128))" using u(1,2) by simp
  then show ?thesis unfolding uint_nat by linarith
qed

lemma no_plateau_down:
  assumes "line_ok env d" "11 \<le> env" "c \<le> 0" "d + 64 \<le> c"
  shows "unat (logist env (c - 128)) < unat (logist env c)"
proof -
  have r: "0 \<le> env" "env \<le> 65535" "-32704 \<le> d" "d \<le> 32703" using assms(1,2) by (auto simp: line_ok_def line_range_def)
  have u: "uint (logist env c) = distr (c * env)" "uint (logist env (c - 128)) = distr (c * env - 128 * env)"
      "uint (logist env (d + 64)) = distr ((d + 64) * env)" "uint (logist env (d - 64)) = distr ((d + 64) * env - 128 * env)"
    using r assms(3,4) logist_distr [of env c] logist_distr [of env "c - 128"] logist_distr [of env "d - 64"] logist_distr [of env "d + 64"]
    by (simp_all add: algebra_simps)
  have "distr (c * env) \<noteq> distr (c * env - 128 * env)"
  proof
    assume "distr (c * env) = distr (c * env - 128 * env)"
    then have "distr ((d + 64) * env) \<le> distr ((d + 64) * env - 128 * env) + 1"
      using assms r(1) by (intro plateau_down [of "c * env"]) (simp_all add: mult_right_mono mult_nonpos_nonneg)
    then have "uint (logist env (d + 64)) \<le> uint (logist env (d - 64)) + 1" using u(3,4) by simp
    then show False using assms(1) unfolding uint_nat line_ok_def by linarith
  qed
  moreover have "distr (c * env - 128 * env) \<le> distr (c * env)" using r(1) by (intro distr_mono) simp
  ultimately have "uint (logist env (c - 128)) < uint (logist env c)" using u(1,2) by simp
  then show ?thesis unfolding uint_nat by linarith
qed

text \<open>The bounds of the candidates below and above a line.\<close>

lemma bound_below:
  assumes "line_ok env d" "cdf_scale W (logist env (d - 64)) < val" "c \<le> d - 64" "-32768 \<le> c"
  shows "cdf_scale W (logist env c) < val"
proof -
  have "unat (logist env c) \<le> unat (logist env (d - 64))"
    using assms by (intro logist_mono) (auto simp: line_ok_def line_range_def)
  then have "cdf_scale W (logist env c) \<le> cdf_scale W (logist env (d - 64))" by (intro cdf_scale_mono) (simp add: word_le_nat_alt)
  then show ?thesis using assms(2) by (rule le_less_trans)
qed

lemma bound_above:
  assumes "line_ok env d" "val \<le> cdf_scale W (logist env (d + 64))" "d + 64 \<le> c" "c \<le> 32767"
  shows "val \<le> cdf_scale W (logist env c)"
proof -
  have "unat (logist env (d + 64)) \<le> unat (logist env c)"
    using assms by (intro logist_mono) (auto simp: line_ok_def line_range_def)
  then have "cdf_scale W (logist env (d + 64)) \<le> cdf_scale W (logist env c)" by (intro cdf_scale_mono) (simp add: word_le_nat_alt)
  with assms(2) show ?thesis by (rule order.trans)
qed

lemma logist_up_ok:
  assumes "line_ok env d" "11 \<le> env" "16777216 \<le> unat W"
    and "cdf_scale W (logist env (d - 64)) < val" "val \<le> cdf_scale W (logist env (d + 64))"
    and "0 \<le> c" "c + 128 * int n = d + 64"
  shows "logist_up W env val c (cdf_scale W (logist env (c - 128))) (cdf_scale W (logist env c)) =
    Some (Some (d, cdf_scale W (logist env (d - 64)), cdf_scale W (logist env (d + 64))))"
  using assms(6,7)
proof (induction n arbitrary: c)
  case 0
  then have "c - 128 = d - 64" "c = d + 64" by simp_all
  moreover have "s16 d = d" using assms(1) by (intro s16_id) (auto simp: line_ok_def line_range_def is_s16_def)
  moreover have "\<not> cdf_scale W (logist env (d + 64)) < val" using assms(5) by simp
  ultimately show ?case by (subst logist_up.simps) simp
next
  case (Suc n)
  have c: "c \<le> d - 64" "0 \<le> c + 128" "c + 128 + 128 * int n = d + 64" using Suc.prems by simp_all
  have "d \<le> 32703" using assms(1) by (auto simp: line_ok_def line_range_def)
  then have s: "s16 (c + 128) = c + 128" using Suc.prems(1) c(3) by (intro s16_id) (simp add: is_s16_def)
  have "cdf_scale W (logist env c) \<noteq> cdf_scale W (logist env (c + 128))"
    using cdf_scale_strict [OF assms(3) no_plateau_up [OF assms(1,2) Suc.prems(1) c(1)]] by simp
  moreover have "cdf_scale W (logist env c) < val" using Suc.prems(1) by (intro bound_below [OF assms(1,4) c(1)]) simp
  ultimately show ?case using Suc.IH [OF c(2,3)] s by (subst logist_up.simps) (simp add: Let_def)
qed

lemma logist_down_ok:
  assumes "line_ok env d" "11 \<le> env" "16777216 \<le> unat W"
    and "cdf_scale W (logist env (d - 64)) < val" "val \<le> cdf_scale W (logist env (d + 64))"
    and "c \<le> 0" "c - 128 * int n = d - 64"
  shows "logist_down W env val c (cdf_scale W (logist env (c + 128))) (cdf_scale W (logist env c)) =
    Some (Some (d, cdf_scale W (logist env (d - 64)), cdf_scale W (logist env (d + 64))))"
  using assms(6,7)
proof (induction n arbitrary: c)
  case 0
  then have "c + 128 = d + 64" "c = d - 64" by simp_all
  moreover have "s16 d = d" using assms(1) by (intro s16_id) (auto simp: line_ok_def line_range_def is_s16_def)
  ultimately show ?case using assms(4) by (subst logist_down.simps) (simp add: add.commute [of d])
next
  case (Suc n)
  have c: "d + 64 \<le> c" "c - 128 \<le> 0" "c - 128 - 128 * int n = d - 64" using Suc.prems by simp_all
  have "-32704 \<le> d" using assms(1) by (auto simp: line_ok_def line_range_def)
  then have s: "s16 (c - 128) = c - 128" using Suc.prems(1) c(3) by (intro s16_id) (simp add: is_s16_def)
  have "cdf_scale W (logist env c) \<noteq> cdf_scale W (logist env (c - 128))"
    using cdf_scale_strict [OF assms(3) no_plateau_down [OF assms(1,2) Suc.prems(1) c(1)]] by simp
  moreover have "val \<le> cdf_scale W (logist env c)" using Suc.prems(1) by (intro bound_above [OF assms(1,5) c(1)]) simp
  ultimately show ?case using Suc.IH [OF c(2,3)] s by (subst logist_down.simps) (simp add: Let_def not_less)
qed

lemma logist_search_ok:
  assumes "line_ok env d" "11 \<le> env" "16777216 \<le> unat W"
    and "cdf_scale W (logist env (d - 64)) < val" "val \<le> cdf_scale W (logist env (d + 64))"
    and "dither_ok dither" "(d + dither) mod 128 = 0"
  shows "logist_search W env val dither = Some (Some (d, cdf_scale W (logist env (d - 64)), cdf_scale W (logist env (d + 64))))"
proof -
  obtain q where q: "d + dither = 128 * q" using assms(7) by (auto simp: mod_eq_0_iff_dvd)
  have dt: "-64 \<le> dither" "dither \<le> 64" and d: "-32704 \<le> d" "d \<le> 32703"
    using assms(1,6) by (auto simp: dither_ok_def line_ok_def line_range_def)
  have s: "s16 (64 - dither) = 64 - dither" "s16 (192 - dither) = 192 - dither" "s16 (- 64 - dither) = - 64 - dither"
    using dt by (simp_all add: s16_id is_s16_def)
  show ?thesis
  proof (cases "1 \<le> q")
    case True
    define n where "n = nat (q - 1)"
    have n: "192 - dither + 128 * int n = d + 64" using True q by (simp add: n_def)
    have "cdf_scale W (logist env (64 - dither)) < val" using q True dt by (intro bound_below [OF assms(1,4)]) simp_all
    then show ?thesis using logist_up_ok [OF assms(1-5) _ n] dt s by (simp add: logist_search_def Let_def)
  next
    case False
    define n where "n = nat (- q)"
    have n: "- 64 - dither - 128 * int n = d - 64" using False q by (simp add: n_def)
    have "val \<le> cdf_scale W (logist env (64 - dither))" using q False dt by (intro bound_above [OF assms(1,5)]) simp_all
    then have "\<not> cdf_scale W (logist env (64 - dither)) < val" by simp
    then show ?thesis using logist_down_ok [OF assms(1-5) _ n] dt s by (simp add: logist_search_def Let_def)
  qed
qed

section \<open>Bytes behind the stream\<close>

text \<open>With zeros behind the stream the inserted zeros are those of the array; the pointer is split in two.\<close>

definition plain :: "logist_regs \<Rightarrow> dec_regs" where
  "plain r = \<lparr>r_lower = r_lower r, r_upper = r_upper r, r_val = r_val r, r_ptr = r_ptr r + r_offset r\<rparr>"

definition zeros_behind :: "Bitstr_dec \<Rightarrow> bool" where
  "zeros_behind sd \<longleftrightarrow> (\<forall>i. stream_size sd \<le> i \<longrightarrow> i < length (stream sd) \<longrightarrow> stream sd ! i = 0)"

definition offset_ok :: "Bitstr_dec \<Rightarrow> logist_regs \<Rightarrow> bool" where
  "offset_ok sd r \<longleftrightarrow> (0 < r_offset r \<longrightarrow> stream_size sd \<le> r_ptr r)"

lemma get_byte_logist_ok:
  assumes "get_byte sd (plain r) = Some (rp, sd')" "zeros_behind sd" "offset_ok sd r"
  shows "\<exists>r'. get_byte_logist sd r = Some (r', sd') \<and> plain r' = rp \<and> offset_ok sd' r' \<and> zeros_behind sd'"
proof -
  have len: "r_ptr r + r_offset r < length (stream sd)" using assms(1) by (auto simp: get_byte_def plain_def fetch_def split: if_splits)
  show ?thesis
  proof (cases "r_ptr r < stream_size sd")
    case True
    then have "r_offset r = 0" using assms(3) by (auto simp: offset_ok_def)
    then show ?thesis using assms len True
      by (auto simp: get_byte_def get_byte_logist_def plain_def offset_ok_def zeros_behind_def)
  next
    case False
    then have "stream sd ! (r_ptr r + r_offset r) = 0" using assms(2) len by (simp add: zeros_behind_def)
    then show ?thesis using assms len False
      by (auto simp: get_byte_def get_byte_logist_def plain_def offset_ok_def zeros_behind_def)
  qed
qed

lemma dec_renorm_logist_ok:
  assumes "dec_renorm sd (plain r) = Some (rp, sd')" "zeros_behind sd" "offset_ok sd r"
  shows "\<exists>r'. dec_renorm_logist sd r = Some (r', sd') \<and> plain r' = rp \<and> offset_ok sd' r' \<and> zeros_behind sd'"
  using assms
proof (induction sd "plain r" arbitrary: r rule: dec_renorm.induct)
  case (1 sd r)
  show ?case
  proof (cases "r_upper r AND 0xFF000000 = 0")
    case False
    then show ?thesis using "1.prems" by (subst dec_renorm_logist.simps) (auto simp: dec_renorm.simps plain_def)
  next
    case True
    then have u: "\<not> r_upper (plain r) AND 0xFF000000 \<noteq> 0" by (simp add: plain_def)
    obtain r1 sd1 where g: "get_byte sd (plain r) = Some (r1, sd1)" "dec_renorm sd1 (r1\<lparr>r_upper := push_bit 8 (r_upper r1)\<rparr>) = Some (rp, sd')"
      using "1.prems"(1) u by (subst (asm) dec_renorm.simps) (auto split: option.splits)
    obtain r2 where r2: "get_byte_logist sd r = Some (r2, sd1)" "plain r2 = r1" "offset_ok sd1 r2" "zeros_behind sd1"
      using get_byte_logist_ok [OF g(1) "1.prems"(2,3)] by blast
    let ?r = "r2\<lparr>r_upper := push_bit 8 (r_upper r2)\<rparr>"
    have p: "plain ?r = r1\<lparr>r_upper := push_bit 8 (r_upper r1)\<rparr>" using r2(2) by (auto simp: plain_def)
    have "offset_ok sd1 ?r" using r2(3) by (simp add: offset_ok_def)
    from "1.hyps" [OF u g(1) refl p [symmetric] _ r2(4) this] g(2) p
    show ?thesis using True r2(1) by (subst dec_renorm_logist.simps) simp
  qed
qed

section \<open>Decoding\<close>

definition logist_match :: "Bitstr_dec \<Rightarrow> logist_regs \<Rightarrow> nat \<times> nat \<times> nat \<Rightarrow> bool" where
  "logist_match sd r s \<longleftrightarrow> dec_match sd (plain r) s \<and> coder_ok s \<and> zeros_behind sd \<and> offset_ok sd r"

text \<open>A line that can be coded, and its dither.\<close>

definition line_dither :: "int \<Rightarrow> int \<Rightarrow> int \<Rightarrow> bool" where
  "line_dither env d dither \<longleftrightarrow> line_ok env d \<and> 11 \<le> env \<and> dither_ok dither \<and> (d + dither) mod 128 = 0"

lemma lines_symbols:
  assumes "\<And>j. j < length ts \<Longrightarrow> \<exists>env d. ts ! j = line_table env d \<and> line_ok env d"
  shows "list_all2 symbol_ok ts (replicate (length ts) 0)"
  using assms line_symbol by (fastforce simp: list_all2_conv_all_nth)

lemma dec_line_ok:
  assumes "logist_match sd r s" "line_dither env d (data ! i)" "i < length data"
    and "in_code (stream sd) (coder_step s (freqs (line_table env d) 0))"
    and "fst (snd (coder_step s (freqs (line_table env d) 0))) + 4 \<le> 2 * length (stream sd)"
  shows "\<exists>r' sd'. dec_lines (Suc n) env data i sd r = dec_lines n env (data[i := d]) (Suc i) sd' r' \<and> stream sd' = stream sd \<and>
    logist_match sd' r' (coder_step s (freqs (line_table env d) 0))"
proof -
  let ?t = "line_table env d"
  let ?lo = "cdf_scale (r_upper r) (logist env (d - 64))" and ?hi = "cdf_scale (r_upper r) (logist env (d + 64))"
  have m: "dec_match sd (plain r) s" "coder_ok s" "zeros_behind sd" "offset_ok sd r" using assms(1) by (simp_all add: logist_match_def)
  have l: "line_ok env d" "11 \<le> env" "dither_ok (data ! i)" "(d + data ! i) mod 128 = 0" using assms(2) by (simp_all add: line_dither_def)
  have t: "?t ! nat 0 = logist env (d - 64)" "?t ! (nat 0 + 1) = logist env (d + 64)" "r_upper (plain r) = r_upper r" "r_val (plain r) = r_val r"
    by (simp_all add: line_table_def plain_def)
  note sh = dec_shift_ok [OF m(1,2) line_symbol [OF l(1)] assms(4,5), unfolded t]
  have W: "16777216 \<le> unat (r_upper r)" using m(1,2) by (auto simp: dec_match_def coder_ok_def plain_def split: prod.splits)
  have f: "logist_search (r_upper r) env (r_val r) (data ! i) = Some (Some (d, ?lo, ?hi))"
    by (rule logist_search_ok [OF l(1,2) W sh(1,2) l(3,4)])
  let ?r = "r\<lparr>r_lower := ?lo + 1, r_upper := ?hi - (?lo + 1), r_val := r_val r - (?lo + 1)\<rparr>"
  obtain rp sd' where d: "dec_shift sd ((plain r)\<lparr>r_lower := ?lo, r_upper := ?hi\<rparr>) = Some (rp, sd')" "stream sd' = stream sd"
      "dec_match sd' rp (coder_step s (freqs ?t 0))" using sh(3) by blast
  have p: "dec_renorm sd (plain ?r) = Some (rp, sd')" using d(1) by (simp add: dec_shift_def Let_def plain_def)
  have "offset_ok sd ?r" using m(4) by (simp add: offset_ok_def)
  from dec_renorm_logist_ok [OF p m(3) this] obtain r' where r': "dec_renorm_logist sd ?r = Some (r', sd')" "plain r' = rp"
      "offset_ok sd' r'" "zeros_behind sd'" by blast
  have "coder_ok (coder_step s (freqs ?t 0))" using coder_step_symbol [OF m(2) line_symbol [OF l(1)]] by simp
  then have "logist_match sd' r' (coder_step s (freqs ?t 0))" using r' d(3) by (simp add: logist_match_def)
  moreover have "dec_lines (Suc n) env data i sd r = dec_lines n env (data[i := d]) (Suc i) sd' r'"
    using assms(3) f r'(1) by (simp add: Let_def)
  ultimately show ?thesis using d(2) by blast
qed

lemma dec_lines_ok:
  assumes "logist_match sd r s" "\<And>j. j < length ds \<Longrightarrow> line_dither env (ds ! j) (data ! (i + j))" "i + length ds \<le> length data"
    and "in_code (stream sd) (code_run s (map (line_table env) ds) (replicate (length ds) 0))"
    and "fst (snd (code_run s (map (line_table env) ds) (replicate (length ds) 0))) + 4 \<le> 2 * length (stream sd)"
  shows "\<exists>r' sd'. dec_lines (length ds) env data i sd r = Some (Inr (take i data @ ds @ drop (i + length ds) data, r', sd')) \<and>
    stream sd' = stream sd \<and> logist_match sd' r' (code_run s (map (line_table env) ds) (replicate (length ds) 0))"
  using assms
proof (induction ds arbitrary: data i sd r s)
  case Nil
  then show ?case by (simp add: code_run_def)
next
  case (Cons d ds)
  let ?s = "coder_step s (freqs (line_table env d) 0)"
  have run: "code_run s (map (line_table env) (d # ds)) (replicate (length (d # ds)) 0) = code_run ?s (map (line_table env) ds) (replicate (length ds) 0)"
    by (simp add: code_run_def)
  have ld: "line_dither env d (data ! i)" "line_dither env (ds ! j) (data ! (Suc i + j))" if "j < length ds" for j
    using Cons.prems(2) [of 0] Cons.prems(2) [of "Suc j"] that by simp_all
  have ld0: "line_dither env d (data ! i)" using Cons.prems(2) [of 0] by simp
  have sy: "list_all2 symbol_ok (map (line_table env) ds) (replicate (length ds) 0)"
    using lines_symbols [of "map (line_table env) ds"] ld(2) by (fastforce simp: line_dither_def)
  have ok: "coder_ok ?s" using Cons.prems(1) ld0 coder_step_symbol line_symbol by (auto simp: logist_match_def line_dither_def)
  have i: "in_code (stream sd) ?s" using in_code_run [OF _ ok sy] Cons.prems(4) unfolding run by (simp add: code_run_def)
  have l: "fst (snd ?s) + 4 \<le> 2 * length (stream sd)"
    using Cons.prems(5) [unfolded run] coder_run_grows [of ?s "map2 freqs (map (line_table env) ds) (replicate (length ds) 0)"]
    unfolding code_run_def by linarith
  have i': "i < length data" "Suc i + length ds \<le> length (data[i := d])" using Cons.prems(3) by simp_all
  obtain r1 sd1 where st: "dec_lines (Suc (length ds)) env data i sd r = dec_lines (length ds) env (data[i := d]) (Suc i) sd1 r1"
      "stream sd1 = stream sd" "logist_match sd1 r1 ?s"
    using dec_line_ok [OF Cons.prems(1) ld0 i'(1) i l] by blast
  obtain r' sd' where c: "dec_lines (length ds) env (data[i := d]) (Suc i) sd1 r1 =
      Some (Inr (take (Suc i) (data[i := d]) @ ds @ drop (Suc i + length ds) (data[i := d]), r', sd'))"
      "stream sd' = stream sd1" "logist_match sd' r' (code_run ?s (map (line_table env) ds) (replicate (length ds) 0))"
    using Cons.IH [OF st(3) _ i'(2)] ld(2) Cons.prems(4,5) st(2) unfolding run by auto
  have "take (Suc i) (data[i := d]) = take i data @ [d]" using i'(1) by (simp add: take_Suc_conv_app_nth)
  moreover have "drop (Suc i + length ds) (data[i := d]) = drop (i + length (d # ds)) data" by simp
  ultimately show ?case using st(1,2) c run by simp
qed

text \<open>The roots of a spectrum, each from the one before it.\<close>

fun roots :: "int \<Rightarrow> int list \<Rightarrow> int list option" where
  "roots res [] = Some []"
| "roots res (v # vs) = do {
     (res, env) \<leftarrow> ar_spec v res;
     envs \<leftarrow> roots res vs;
     Some (env # envs)
   }"

lemma roots_length: "roots res vs = Some es \<Longrightarrow> length es = length vs"
  by (induction vs arbitrary: res es) (auto simp: bind_eq_Some_conv)

lemma line_tables_group:
  assumes "length ds = 4 + n"
  shows "line_tables (e # es) ds 0 (4 + n) = map (line_table e) (take 4 ds) @ line_tables es (drop 4 ds) 0 n"
proof (rule nth_equalityI)
  show "length (line_tables (e # es) ds 0 (4 + n)) = length (map (line_table e) (take 4 ds) @ line_tables es (drop 4 ds) 0 n)"
    using assms by (simp add: line_tables_def)
next
  fix j assume "j < length (line_tables (e # es) ds 0 (4 + n))"
  then have j: "j < 4 + n" by (simp add: line_tables_def)
  show "line_tables (e # es) ds 0 (4 + n) ! j = (map (line_table e) (take 4 ds) @ line_tables es (drop 4 ds) 0 n) ! j"
  proof (cases "j < 4")
    case True
    then show ?thesis using j assms by (simp add: line_tables_def nth_append del: upt_Suc)
  next
    case False
    then obtain k where k: "j = 4 + k" by (metis le_Suc_ex not_less)
    then have "(4 + k) div 4 = Suc (k div 4)" by simp
    then show ?thesis using j assms k by (simp add: line_tables_def nth_append del: upt_Suc)
  qed
qed

lemma code_run_append:
  "length cdf = length ds \<Longrightarrow> code_run s (cdf @ cdf') (ds @ ds') = code_run (code_run s cdf ds) cdf' ds'"
  by (simp add: code_run_def)

lemma dec_groups_ok:
  assumes "logist_match sd r s" "roots res (drop c envQ8) = Some es" "length ds = 4 * length es"
    and "\<And>j. j < length ds \<Longrightarrow> line_dither (es ! (j div 4)) (ds ! j) (data ! (i + j))" "i + length ds \<le> length data"
    and "in_code (stream sd) (code_run s (line_tables es ds 0 (length ds)) (replicate (length ds) 0))"
    and "fst (snd (code_run s (line_tables es ds 0 (length ds)) (replicate (length ds) 0))) + 4 \<le> 2 * length (stream sd)"
  shows "\<exists>r' sd'. dec_groups (length es) c res envQ8 data i sd r = Some (Inr (take i data @ ds @ drop (i + length ds) data, r', sd')) \<and>
    stream sd' = stream sd \<and> logist_match sd' r' (code_run s (line_tables es ds 0 (length ds)) (replicate (length ds) 0))"
  using assms
proof (induction es arbitrary: c res ds data i sd r s)
  case Nil
  then show ?case by (simp add: code_run_def line_tables_def)
next
  case (Cons e es)
  have "drop c envQ8 \<noteq> []" using Cons.prems(2) by auto
  then have c: "c < length envQ8" by simp
  then have dr: "drop c envQ8 = envQ8 ! c # drop (Suc c) envQ8" by (simp add: Cons_nth_drop_Suc)
  obtain res' where a: "ar_spec (envQ8 ! c) res = Some (res', e)" "roots res' (drop (Suc c) envQ8) = Some es"
    using Cons.prems(2) unfolding dr by (auto simp: bind_eq_Some_conv)
  let ?d = "take 4 ds" and ?ds = "drop 4 ds"
  have len: "length ?d = 4" "length ?ds = 4 * length es" "length ds = 4 + 4 * length es" using Cons.prems(3) by simp_all
  let ?u = "code_run s (map (line_table e) ?d) (replicate (length ?d) 0)"
  have tb: "line_tables (e # es) ds 0 (length ds) = map (line_table e) ?d @ line_tables es ?ds 0 (length ?ds)"
    unfolding len(2,3) by (rule line_tables_group [OF len(3)])
  have run: "code_run s (line_tables (e # es) ds 0 (length ds)) (replicate (length ds) 0) =
      code_run ?u (line_tables es ?ds 0 (length ?ds)) (replicate (length ?ds) 0)"
  proof -
    have "replicate (length ds) (0 :: int) = replicate (length ?d) 0 @ replicate (length ?ds) 0" using len by (simp add: replicate_add [symmetric])
    then show ?thesis unfolding tb by (simp add: code_run_append)
  qed
  have ld: "line_dither e (?d ! j) (data ! (i + j))" if "j < length ?d" for j
    using Cons.prems(4) [of j] that len by simp
  have ld': "line_dither (es ! (j div 4)) (?ds ! j) (data ! (i + 4 + j))" if "j < length ?ds" for j
  proof -
    have "(4 + j) div 4 = Suc (j div 4)" by simp
    then show ?thesis using Cons.prems(4) [of "4 + j"] that len by (simp add: add.assoc)
  qed
  have sy: "list_all2 symbol_ok (map (line_table e) ?d) (replicate (length ?d) 0)"
    using lines_symbols [of "map (line_table e) ?d"] ld by (fastforce simp: line_dither_def)
  have ok: "coder_ok ?u" using coder_run_ok [OF _ sy, of s] Cons.prems(1) by (simp add: logist_match_def code_run_def)
  have "list_all2 symbol_ok (line_tables es ?ds 0 (length ?ds)) (replicate (length (line_tables es ?ds 0 (length ?ds))) 0)"
    by (rule lines_symbols) (use ld' in \<open>fastforce simp: line_tables_def line_dither_def\<close>)
  then have sy': "list_all2 symbol_ok (line_tables es ?ds 0 (length ?ds)) (replicate (length ?ds) 0)" by (simp add: line_tables_def)
  have i: "in_code (stream sd) ?u" using in_code_run [OF _ ok sy'] Cons.prems(6) unfolding run by (simp add: code_run_def)
  have l: "fst (snd ?u) + 4 \<le> 2 * length (stream sd)"
    using Cons.prems(7) [unfolded run] coder_run_grows [of ?u "map2 freqs (line_tables es ?ds 0 (length ?ds)) (replicate (length ?ds) 0)"]
    unfolding code_run_def by linarith
  let ?data = "take i data @ ?d @ drop (i + length ?d) data"
  obtain r1 sd1 where st: "dec_lines 4 e data i sd r = Some (Inr (?data, r1, sd1))" "stream sd1 = stream sd" "logist_match sd1 r1 ?u"
    using dec_lines_ok [OF Cons.prems(1) ld _ i l] Cons.prems(5) len by auto
  have dl: "length ?data = length data" "?data ! (i + 4 + j) = data ! (i + 4 + j)" if "j < length ?ds" for j
    using Cons.prems(5) len that by (simp_all add: nth_append)
  have il: "i + 4 + length ?ds \<le> length ?data" using Cons.prems(5) len by simp
  have ld2: "line_dither (es ! (j div 4)) (?ds ! j) (?data ! (i + 4 + j))" if "j < length ?ds" for j
    unfolding dl(2) [OF that] by (rule ld' [OF that])
  obtain r' sd' where rs: "dec_groups (length es) (Suc c) res' envQ8 ?data (i + 4) sd1 r1 =
      Some (Inr (take (i + 4) ?data @ ?ds @ drop (i + 4 + length ?ds) ?data, r', sd'))" "stream sd' = stream sd1"
      "logist_match sd' r' (code_run ?u (line_tables es ?ds 0 (length ?ds)) (replicate (length ?ds) 0))"
    using Cons.IH [OF st(3) a(2) len(2) ld2 il, unfolded st(2), OF _ Cons.prems(6) [unfolded run] Cons.prems(7) [unfolded run]]
    unfolding st(2) by blast
  have td: "take (i + 4) ?data = take i data @ ?d" "drop (i + 4 + length ?ds) ?data = drop (i + length ds) data"
    using Cons.prems(5) len by (simp_all add: ac_simps)
  have "take (i + 4) ?data @ ?ds @ drop (i + 4 + length ?ds) ?data = take i data @ ds @ drop (i + length ds) data"
    unfolding td append_assoc by (simp only: append_assoc [symmetric] append_take_drop_id)
  note res = rs(1) [unfolded this]
  have "dec_groups (length (e # es)) c res envQ8 data i sd r = Some (Inr (take i data @ ds @ drop (i + length ds) data, r', sd'))"
    using a(1) st(1) res c by simp
  then show ?case using st(2) rs(2,3) unfolding run by auto
qed

lemma DecLogisticMulti2_ok:
  assumes "decoder sd s" "zeros_behind sd" "roots (2 ^ nat (asr (WebRtcSpl_GetSizeInBits (u32 (envQ8 ! 0))) 1)) envQ8 = Some es" "es \<noteq> []"
    and "length ds = 4 * length es" "length data = length ds" "\<And>j. j < length ds \<Longrightarrow> line_dither (es ! (j div 4)) (ds ! j) (data ! j)"
    and "in_code (stream sd) (code_run s (line_tables es ds 0 (length ds)) (replicate (length ds) 0))"
    and "fst (snd (code_run s (line_tables es ds 0 (length ds)) (replicate (length ds) 0))) + 4 \<le> 2 * length (stream sd)"
    and "length (stream sd) \<le> 16000"
  defines "s' \<equiv> code_run s (line_tables es ds 0 (length ds)) (replicate (length ds) 0)"
  shows "\<exists>sd'. WebRtcIsacfix_DecLogisticMulti2 data sd envQ8 (int (length data)) = Some (int (code_length s'), ds, sd') \<and>
    stream sd' = stream sd \<and> decoder sd' s'"
proof -
  obtain p v where f: "dec_first sd = Some (p, v)" "dec_match sd \<lparr>r_lower = 0, r_upper = W_upper sd, r_val = v, r_ptr = p\<rparr> s"
    and ok: "coder_ok s" using assms(1) by (auto simp: decoder_def)
  let ?r = "\<lparr>r_lower = 0, r_upper = W_upper sd, r_val = v, r_ptr = p, r_offset = 0\<rparr>"
  have m: "logist_match sd ?r s" using f(2) ok assms(2) by (simp add: logist_match_def plain_def offset_ok_def)
  let ?res = "2 ^ nat (asr (WebRtcSpl_GetSizeInBits (u32 (envQ8 ! 0))) 1) :: int"
  have e0: "0 < length envQ8" using roots_length [OF assms(3)] assms(4) by auto
  obtain r sd1 where g: "dec_groups (length es) 0 ?res envQ8 data 0 sd ?r =
      Some (Inr (ds, r, sd1))" "stream sd1 = stream sd" "logist_match sd1 r s'"
    using dec_groups_ok [OF m, of ?res 0 envQ8 es ds data 0] assms(3,5-9) unfolding s'_def by auto
  obtain E n W where s: "s' = (E, n, W)" by (cases s')
  have d: "full sd1 \<in> {0, 1}" "pos (full sd1) (r_ptr r + r_offset r) = n + 4" "unat (r_upper r) = W"
      "E + unat (r_val r) = prefix (stream sd1) (n + 4)" "coder_ok s'"
    using g(3) by (auto simp: logist_match_def dec_match_def plain_def s)
  have n: "n + 4 \<le> 32000" using assms(9,10) s unfolding s'_def by simp
  have q: "(r_ptr r + r_offset r) mod 65536 = r_ptr r + r_offset r" "r_ptr r + r_offset r \<noteq> 0"
    using d(2) n by (auto simp: pos_def split: if_splits)
  define p' where "p' = r_ptr r + r_offset r"
  note d = d [folded p'_def] and q = q [folded p'_def]
  let ?sd = "sd1\<lparr>stream_index := p', W_upper := r_upper r, streamval := r_val r\<rparr>"
  have "decoder ?sd s'" using d q(2) unfolding decoder_def dec_first_def dec_match_def s by simp
  moreover have "int p' * 2 - (if r_upper r > 0x01FFFFFF then 3 else 2) + (if full sd1 = 0 then 1 else 0) = int (code_length s')"
    using d(2,3) by (auto simp: s code_length_def pos_def word_less_nat_alt)
  moreover have "(nat (int (length data)) + 3) div 4 = length es" using assms(5,6) by simp
  ultimately show ?thesis using f(1) g(1,2) q(1) e0
    by (simp add: WebRtcIsacfix_DecLogisticMulti2_def Let_def p'_def [symmetric])
qed

end
