(* ===== verification/Isac_Spectrum.thy ===== *)
theory Isac_Spectrum
  imports Isac_Lines Isac_Packet
begin

text \<open>
  Packets that end in a spectrum, as the iSAC encoder makes them: the symbols, the lines, the end of the stream; and the envelopes the spectrum coder is not made
  for.
\<close>

section \<open>Envelopes the code does not handle\<close>

text \<open>A plateau before a line makes the decoder give up.\<close>

lemma logist_up_rejects:
  assumes "line_ok env d" "cdf_scale W (logist env (d - 64)) < val" "logist env q = logist env (q + 128)" "q \<le> d - 64"
    and "-32768 \<le> c" "c + 128 * int n = q"
  shows "logist_up W env val c lo (cdf_scale W (logist env c)) = Some None"
  using assms(5,6)
proof (induction n arbitrary: c lo)
  case 0
  have "q + 128 \<le> 32767" using assms(1,4) by (auto simp: line_ok_def line_range_def)
  then have "s16 (q + 128) = q + 128" using 0 by (intro s16_id) (simp add: is_s16_def)
  moreover have "cdf_scale W (logist env q) < val" using 0 by (intro bound_below [OF assms(1,2,4)]) simp
  ultimately show ?case using 0 assms(3) by (subst logist_up.simps) simp
next
  case (Suc n)
  have c: "c \<le> d - 64" "-32768 \<le> c + 128" "c + 128 + 128 * int n = q" using Suc.prems assms(4) by simp_all
  have "d \<le> 32703" using assms(1) by (auto simp: line_ok_def line_range_def)
  then have s: "s16 (c + 128) = c + 128" using Suc.prems(1) c(3) assms(4) by (intro s16_id) (simp add: is_s16_def)
  have "cdf_scale W (logist env c) < val" by (rule bound_below [OF assms(1,2) c(1) Suc.prems(1)])
  then show ?case using Suc.IH [OF c(2,3)] s by (subst logist_up.simps) (simp add: Let_def)
qed

lemma line_7: "line_ok 7 18897"
proof -
  have "distr (18833 * 7) = 65481" "distr (18961 * 7) = 65483" by code_simp+
  then have "uint (logist 7 18833) = 65481" "uint (logist 7 18961) = 65483" by (simp_all add: logist_distr)
  then have "unat (logist 7 18833) = 65481" "unat (logist 7 18961) = 65483" unfolding uint_nat by linarith+
  then show ?thesis by (simp add: line_ok_def line_range_def)
qed

lemma search_rejects:
  assumes "cdf_scale W (logist 7 (18897 - 64)) < val"
  shows "logist_search W 7 val 47 = Some None"
proof -
  have "cdf_scale W (logist 7 17) < val" by (rule bound_below [OF line_7 assms]) simp_all
  moreover have "logist 7 18705 = logist 7 (18705 + 128)" by code_simp
  from logist_up_rejects [OF line_7 assms this, of 145 145] have
    "logist_up W 7 val 145 lo (cdf_scale W (logist 7 145)) = Some None" for lo by simp
  ultimately show ?thesis by (simp add: logist_search_def s16_id is_s16_def Let_def)
qed

text \<open>With an envelope of 1 the candidates wrap around before the distribution reaches its end.\<close>

definition cand_1 :: "int \<Rightarrow> bool" where
  "cand_1 c \<longleftrightarrow> c mod 128 = 64 \<and> -32704 \<le> c \<and> c \<le> 32704"

lemma next_cand_1:
  assumes "cand_1 c"
  shows "cand_1 (s16 (c + 128))" "logist 1 c \<noteq> logist 1 (s16 (c + 128))"
proof -
  have "cand_1 (s16 (c + 128)) \<and> logist 1 c \<noteq> logist 1 (s16 (c + 128))"
  proof (cases "c \<le> 32639")
    case True
    then have s: "s16 (c + 128) = c + 128" using assms by (intro s16_id) (simp add: cand_1_def is_s16_def)
    have "cand_1 (c + 128)" using assms True by (simp add: cand_1_def) presburger
    moreover have "distr c < distr (c + 128)" using steep_center [of c] assms True by (simp add: clamp_def cand_1_def)
    then have "uint (logist 1 c) < uint (logist 1 (c + 128))" using assms True by (simp add: logist_distr cand_1_def)
    ultimately show ?thesis using s by auto
  next
    case False
    have "c = 32704" using assms False unfolding cand_1_def by presburger
    moreover have "cand_1 (s16 (32704 + 128)) \<and> logist 1 32704 \<noteq> logist 1 (s16 (32704 + 128))" by code_simp
    ultimately show ?thesis by simp
  qed
  then show "cand_1 (s16 (c + 128))" "logist 1 c \<noteq> logist 1 (s16 (c + 128))" by simp_all
qed

lemma logist_up_1_loops:
  assumes "logist_up W env val c lo w = Some r"
  shows "\<not> (env = 1 \<and> cand_1 c \<and> w = cdf_scale W (logist 1 c) \<and> 16777216 \<le> unat W \<and> (\<forall>c. cand_1 c \<longrightarrow> cdf_scale W (logist 1 c) < val))"
    (is "\<not> ?P W env val c w")
  using assms
proof (rule logist_up.raw_induct [where P = "\<lambda>W env val c lo w r. \<not> ?P W env val c w", rotated])
  fix f :: "32 word \<Rightarrow> int \<Rightarrow> 32 word \<Rightarrow> int \<Rightarrow> 32 word \<Rightarrow> 32 word \<Rightarrow> (int \<times> 32 word \<times> 32 word) option option" and W env val c lo w r
  assume IH: "\<And>W env val c lo w r. f W env val c lo w = Some r \<Longrightarrow> \<not> ?P W env val c w"
    and st: "(if w < val then let cand' = s16 (c + 128); W_tmp' = cdf_scale W (logist env cand')
        in if w = W_tmp' then Some None else f W env val cand' w W_tmp' else Some (Some (s16 (c - 64), lo, w))) = Some r"
  show "\<not> ?P W env val c w"
  proof
    assume P: "?P W env val c w"
    note n = next_cand_1 [of c]
    have "unat (logist 1 c) \<noteq> unat (logist 1 (s16 (c + 128)))" using n(2) P by (metis word_unat_eq_iff)
    then have "cdf_scale W (logist 1 c) \<noteq> cdf_scale W (logist 1 (s16 (c + 128)))"
      using cdf_scale_strict [of W] P by (metis linorder_neqE_nat order_less_irrefl)
    then have "f W 1 val (s16 (c + 128)) w (cdf_scale W (logist 1 (s16 (c + 128)))) = Some r" using st P by (auto simp: Let_def)
    then show False using IH n(1) P by blast
  qed
qed

lemma search_loops:
  assumes "16777216 \<le> unat W" "cdf_scale W (logist 1 32704) < val"
  shows "logist_search W 1 val 0 = None"
proof -
  have below: "cdf_scale W (logist 1 c) < val" if "cand_1 c" for c
  proof -
    have "unat (logist 1 c) \<le> unat (logist 1 32704)" using that by (intro logist_mono) (auto simp: cand_1_def)
    then have "cdf_scale W (logist 1 c) \<le> cdf_scale W (logist 1 32704)" by (intro cdf_scale_mono) (simp add: word_le_nat_alt)
    then show ?thesis using assms(2) by (rule le_less_trans)
  qed
  have "cand_1 64" "cand_1 192" by (simp_all add: cand_1_def)
  moreover have "logist_up W 1 val 192 lo (cdf_scale W (logist 1 192)) = None" for lo
    using logist_up_1_loops [of W 1 val 192 lo] below \<open>cand_1 192\<close> assms(1) by (cases "logist_up W 1 val 192 lo (cdf_scale W (logist 1 192))") auto
  ultimately show ?thesis using below by (simp add: logist_search_def s16_id is_s16_def Let_def)
qed

text \<open>With an envelope of 0 all lines have probability 0, and the encoder's clipping finds none it can code.\<close>

lemma logist_0: "logist 0 c = 33336"
  by (simp add: logist_def mul_16_u16_def u16_def) code_simp

lemma enc_clip_0_loops:
  assumes "enc_clip env d lo hi = Some r"
  shows "\<not> (env = 0 \<and> lo = 33336 \<and> hi = 33336)"
  using assms
  by (rule enc_clip.raw_induct [where P = "\<lambda>env d lo hi r. \<not> (env = 0 \<and> lo = 33336 \<and> hi = 33336)", rotated])
    (fastforce simp: logist_0 split: if_splits)

lemma clip_loops: "enc_clip 0 d (logist 0 (d - 64)) (logist 0 (d + 64)) = None"
proof (cases "enc_clip 0 d (logist 0 (d - 64)) (logist 0 (d + 64))")
  case (Some r)
  from enc_clip_0_loops [OF this] show ?thesis by (simp add: logist_0)
qed

section \<open>Square roots\<close>

text \<open>On spectra without zeros, from a start that is not zero, the iteration never divides by zero and never overflows.\<close>

definition root_ok :: "int \<Rightarrow> bool" where
  "root_ok r \<longleftrightarrow> 1 \<le> r \<and> r \<le> 1073741824"

lemma newton_step_ok:
  assumes "1 \<le> x" "x \<le> 1073741824" "root_ok res"
  shows "\<exists>r. newton_step x res = Some r \<and> root_ok r"
proof -
  have res: "1 \<le> res" "res \<le> 1073741824" using assms(3) by (simp_all add: root_ok_def)
  have d: "cdiv x res = x div res" using assms(1) res by (simp add: cdiv_nonneg)
  have "2 \<le> x div res + res \<and> x div res + res \<le> 1610612736"
  proof (cases "res = 1")
    case True
    then show ?thesis using assms by simp
  next
    case False
    then have "x div res \<le> x div 2" using assms res by (intro zdiv_mono2) simp_all
    moreover have "0 \<le> x div res" using assms(1) res by (simp add: pos_imp_zdiv_nonneg_iff)
    ultimately show ?thesis using False assms(2) res by simp
  qed
  then show ?thesis using res d by (auto simp: newton_step_def s32_id is_s32_def asr_def root_ok_def)
qed

lemma newton_ok:
  assumes "1 \<le> x" "x \<le> 1073741824" "root_ok res"
  shows "\<exists>r r'. newton i x res = Some (r, r') \<and> root_ok r \<and> root_ok r'"
  using assms(3)
proof (induction i arbitrary: res)
  case 0
  then show ?case using newton_step_ok [OF assms(1,2) 0] by (subst newton.simps) auto
next
  case (Suc i)
  then show ?case using newton_step_ok [OF assms(1,2) Suc.prems] by (subst newton.simps) auto
qed

lemma ar_spec_ok:
  assumes "v \<noteq> 0" "\<bar>v\<bar> \<le> 1073741824" "root_ok res"
  shows "\<exists>r e. ar_spec v res = Some (r, e) \<and> root_ok r \<and> 0 \<le> e \<and> e \<le> 65535"
proof -
  let ?x = "if v < 0 then s32 (- v) else v"
  have x: "1 \<le> ?x" "?x \<le> 1073741824" using assms(1,2) by (auto simp: s32_id is_s32_def)
  obtain r1 where r1: "newton_step ?x res = Some r1" "root_ok r1" using newton_step_ok [OF x assms(3)] by blast
  obtain r r' where r: "newton 10 ?x r1 = Some (r, r')" "root_ok r" "root_ok r'" using newton_ok [OF x r1(2)] by blast
  show ?thesis unfolding ar_spec_def Let_def using r1(1) r by (simp add: u16_def)
qed

lemma roots_ok:
  assumes "\<And>v. v \<in> set vs \<Longrightarrow> v \<noteq> 0 \<and> \<bar>v\<bar> \<le> 1073741824" "root_ok res"
  shows "\<exists>es. roots res vs = Some es \<and> (\<forall>e \<in> set es. 0 \<le> e \<and> e \<le> 65535)"
  using assms
proof (induction vs arbitrary: res)
  case (Cons v vs)
  obtain r e where r: "ar_spec v res = Some (r, e)" "root_ok r" "0 \<le> e" "e \<le> 65535" using ar_spec_ok [of v res] Cons.prems by auto
  obtain es where "roots r vs = Some es" "\<forall>e \<in> set es. 0 \<le> e \<and> e \<le> 65535" using Cons.IH [OF _ r(2)] Cons.prems(1) by auto
  then show ?case using r by auto
qed simp

lemma roots_bounds: "roots res vs = Some es \<Longrightarrow> e \<in> set es \<Longrightarrow> 0 \<le> e \<and> e \<le> 65535"
  by (induction vs arbitrary: res es) (auto simp: bind_eq_Some_conv ar_spec_def Let_def u16_def)

abbreviation first_root :: "int list \<Rightarrow> int" where
  "first_root envQ8 \<equiv> 2 ^ nat (asr (WebRtcSpl_GetSizeInBits (u32 (envQ8 ! 0))) 1)"

section \<open>Packets with a spectrum\<close>

text \<open>The decoders leave the size of the stream alone.\<close>

lemma get_byte_size: "get_byte sd r = Some (r', sd') \<Longrightarrow> stream_size sd' = stream_size sd"
  by (auto simp: get_byte_def split: if_splits bind_splits)

lemma dec_renorm_size: "dec_renorm sd r = Some (r', sd') \<Longrightarrow> stream_size sd' = stream_size sd"
proof (induction sd r rule: dec_renorm.induct)
  case (1 sd r)
  show ?case using "1.prems" "1.IH" get_byte_size by (subst (asm) dec_renorm.simps) (fastforce split: if_splits option.splits)
qed

definition result_size :: "int \<times> 'a \<times> Bitstr_dec + 'b \<times> 'c \<times> Bitstr_dec \<Rightarrow> nat" where
  "result_size x = stream_size (case x of Inl (e, y, sd) \<Rightarrow> sd | Inr (d, r, sd) \<Rightarrow> sd)"

definition keeps_size :: "('t \<Rightarrow> Bitstr_dec \<Rightarrow> dec_regs \<Rightarrow> symbol_result) \<Rightarrow> bool" where
  "keeps_size step \<longleftrightarrow> (\<forall>t sd r x. step t sd r = Some x \<longrightarrow> result_size x = stream_size sd)"

lemma bisect_symbol_size: "keeps_size bisect_symbol"
  unfolding keeps_size_def
proof (intro allI impI)
  fix t sd r x assume "bisect_symbol t sd r = Some x"
  then obtain d r1 r2 sd' where "dec_renorm sd r1 = Some (r2, sd')" "x = (if r_upper r2 = 0 then Inl (-2, Some d, sd') else Inr (d, r2, sd'))"
    by (cases t) (auto simp: bisect_symbol_def dec_shift_def Let_def bind_eq_Some_conv split: if_splits)
  then show "result_size x = stream_size sd" using dec_renorm_size by (auto simp: result_size_def)
qed

lemma one_step_symbol_size: "keeps_size one_step_symbol"
  unfolding keeps_size_def
proof (intro allI impI)
  fix t sd r x assume "one_step_symbol t sd r = Some x"
  then obtain f where f: "(case f of Inl e \<Rightarrow> Some (Inl (e, None, sd))
      | Inr (d, lower, upper) \<Rightarrow> do {
          (r, sd) \<leftarrow> dec_shift sd (r\<lparr>r_lower := lower, r_upper := upper\<rparr>);
          Some (Inr (d, r, sd))
        }) = Some x"
    by (cases t) (auto simp only: one_step_symbol_def prod.case Let_def bind_eq_Some_conv)
  show "result_size x = stream_size sd"
  proof (cases f)
    case (Inl e)
    then show ?thesis using f by (auto simp: result_size_def)
  next
    case (Inr l)
    then obtain d lower upper where "f = Inr (d, lower, upper)" by (cases l) auto
    then show ?thesis using f dec_renorm_size by (auto simp: result_size_def dec_shift_def Let_def bind_eq_Some_conv)
  qed
qed

lemma dec_loop_size:
  "keeps_size step \<Longrightarrow> dec_loop step k ts data i sd r = Some x \<Longrightarrow> result_size x = stream_size sd"
proof (induction step k ts data i sd r rule: dec_loop.induct)
  case (2 step k t ts data i sd r)
  obtain y where y: "step t sd r = Some y" using "2.prems"(2) by (auto simp: bind_eq_Some_conv)
  then have s: "result_size y = stream_size sd" using "2.prems"(1) by (simp add: keeps_size_def)
  show ?case
  proof (cases y)
    case (Inl l)
    then show ?thesis using "2.prems"(2) y s by (cases l) (auto simp: result_size_def bind_eq_Some_conv)
  next
    case (Inr l)
    obtain d r' sd' where l: "l = (d, r', sd')" by (cases l)
    obtain data' where u: "store data i d = Some data'" "dec_loop step k ts data' (i + 1) sd' r' = Some x"
      using "2.prems"(2) y Inr l by (auto simp: bind_eq_Some_conv)
    have "result_size x = stream_size sd'" using "2.IH" y Inr l u "2.prems"(1) by blast
    then show ?thesis using s by (simp add: Inr l result_size_def)
  qed
qed (auto simp: result_size_def)

lemma dec_multi_size:
  assumes "keeps_size step" "dec_multi step data sd ts n = Some (len, data', sd')"
  shows "stream_size sd' = stream_size sd"
proof (cases "W_upper sd = 0")
  case True
  then show ?thesis using assms(2) by (simp add: dec_multi_def)
next
  case False
  then obtain p v x where x: "dec_first sd = Some (p, v)"
      "dec_loop step (nat n) ts data 0 sd \<lparr>r_lower = 0, r_upper = W_upper sd, r_val = v, r_ptr = p\<rparr> = Some x"
    using assms(2) by (auto simp: dec_multi_def bind_eq_Some_conv)
  from dec_loop_size [OF assms(1) x(2)] show ?thesis using x assms(2) False
    by (cases x) (auto simp: dec_multi_def Let_def result_size_def)
qed

lemma decode_all_size: "decode_all segs sd = Some (lens, datas, sd') \<Longrightarrow> stream_size sd' = stream_size sd"
proof (induction segs sd arbitrary: lens datas rule: decode_all.induct)
  case (2 m ts ds segs sd)
  then show ?case
    by (cases m) (fastforce simp: bind_eq_Some_conv WebRtcIsacfix_DecHistBisectMulti_def WebRtcIsacfix_DecHistOneStepMulti_def
      dest: dec_multi_size [OF bisect_symbol_size] dec_multi_size [OF one_step_symbol_size])+
qed simp

definition encode_spectrum ::
    "segment list \<Rightarrow> int list \<Rightarrow> int list \<Rightarrow> Bitstr_enc \<Rightarrow> byte list \<Rightarrow> (int \<times> int list \<times> byte list) option" where
  "encode_spectrum segs dataQ7 envQ8 sd encoded = do {
     sd \<leftarrow> encode_all segs (init_encoder_bitstream sd);
     (status, dataQ7, sd) \<leftarrow> WebRtcIsacfix_EncLogisticMulti2 sd dataQ7 envQ8 (int (length dataQ7));
     if status \<noteq> 0 then Some (status, dataQ7, encoded) else do {
       (len, sd) \<leftarrow> WebRtcIsacfix_EncTerminate sd;
       encoded \<leftarrow> write_be16 (stream sd) (nat len) encoded;
       Some (len, dataQ7, encoded)
     }
   }"

definition decode_spectrum ::
    "segment list \<Rightarrow> int list \<Rightarrow> int list \<Rightarrow> byte list \<Rightarrow> nat \<Rightarrow> Bitstr_dec \<Rightarrow> (int list list \<times> int \<times> int list) option" where
  "decode_spectrum segs dither envQ8 encoded len sd = do {
     let sd = InitializeDecoderBitstream len sd;
     st \<leftarrow> read_be16 encoded len (stream sd);
     (lens, datas, sd) \<leftarrow> decode_all segs (sd\<lparr>stream := st\<rparr>);
     (len, dataQ7, sd) \<leftarrow> WebRtcIsacfix_DecLogisticMulti2 dither sd envQ8 (int (length dither));
     Some (datas, len, dataQ7)
   }"

text \<open>What the encoder promises of lines, envelope and dither.\<close>

definition spectrum_ok :: "int list \<Rightarrow> int list \<Rightarrow> int list \<Rightarrow> bool" where
  "spectrum_ok envQ8 dataQ7 dither \<longleftrightarrow> length dataQ7 = 4 * length envQ8 \<and> length dither = length dataQ7 \<and> envQ8 \<noteq> [] \<and>
     (\<forall>e \<in> set envQ8. 11 \<le> e \<and> e \<le> 65535) \<and>
     (\<forall>j < length dataQ7. is_s16 (dataQ7 ! j) \<and> -64 \<le> dither ! j \<and> dither ! j \<le> 64 \<and> (dataQ7 ! j + dither ! j) mod 128 = 0)"

lemma spectrum_lines:
  assumes "spectrum_ok envQ8 dataQ7 dither" "j < length dataQ7"
  shows "line_s16 (envQ8 ! (j div 4)) (dataQ7 ! j)" "line_dither (envQ8 ! (j div 4)) (clipped envQ8 dataQ7 ! j) (dither ! j)"
proof -
  have "j div 4 < length envQ8" using assms by (auto simp: spectrum_ok_def)
  then have e: "11 \<le> envQ8 ! (j div 4)" "envQ8 ! (j div 4) \<le> 65535" using assms(1) nth_mem unfolding spectrum_ok_def by blast+
  have "is_s16 (dataQ7 ! j)" using assms by (simp add: spectrum_ok_def)
  with e show r: "line_s16 (envQ8 ! (j div 4)) (dataQ7 ! j)" by (simp add: line_s16_def)
  let ?c = "clip_line (envQ8 ! (j div 4)) (dataQ7 ! j)"
  have "(?c + dither ! j) mod 128 = (dataQ7 ! j + dither ! j) mod 128" using clip_line(3) [OF r] by (rule mod_add_cong) simp
  then show "line_dither (envQ8 ! (j div 4)) (clipped envQ8 dataQ7 ! j) (dither ! j)"
    using assms e(1) clip_line(2) [OF r] by (simp add: line_dither_def nth_clipped spectrum_ok_def dither_ok_def)
qed

lemma spectrum_roundtrip:
  assumes "list_all segment_ok segs" "spectrum_ok envQ8 dataQ7 dither" "roots (first_root spec) spec = Some envQ8"
    and "encode_all segs (init_encoder_bitstream enc) = Some sd"
    and "WebRtcIsacfix_EncLogisticMulti2 sd dataQ7 envQ8 (int (length dataQ7)) = Some (0, data', sd')" "stream_index sd' < 199"
    and "length (stream enc) = STREAM_MAXW16_60MS" "length (stream dec) = INTERNAL_STREAM_SIZE_W16" "400 \<le> length encoded"
  shows "\<exists>L packet. encode_spectrum segs dataQ7 envQ8 enc encoded = Some (int L, clipped envQ8 dataQ7, packet) \<and> L \<le> 399 \<and>
    decode_spectrum segs dither spec packet L dec = Some (map (snd \<circ> snd) segs, int L, clipped envQ8 dataQ7)"
proof -
  let ?s = "run_all (0, 0, 4294967295) segs" and ?c = "clipped envQ8 dataQ7"
  let ?tabs = "line_tables envQ8 ?c 0 (length dataQ7)"
  let ?u = "code_run ?s ?tabs (replicate (length dataQ7) 0)"
  have len: "length dataQ7 = 4 * length envQ8" "length dither = length dataQ7" "envQ8 \<noteq> []" using assms(2) by (simp_all add: spectrum_ok_def)
  have lines: "lines_ok envQ8 dataQ7 0 (length dataQ7)" using len(1) spectrum_lines(1) [OF assms(2)] by (simp add: lines_ok_def)
  have e: "encoder sd ?s" using encode_all_ok [OF encoder_start [OF assms(7)] assms(1)] assms(4) by (cases "fst (snd ?s) < 400") auto
  have u: "data' = ?c" "encoder sd' ?u"
    using EncLogisticMulti2_ok [OF e lines] assms(5) by (auto simp: ISAC_DISALLOWED_BITSTREAM_LENGTH_def split: if_splits)
  let ?L = "code_length ?u"
  obtain sdt packet where p: "WebRtcIsacfix_EncTerminate sd' = Some (int ?L, sdt)" "write_be16 (stream sdt) ?L encoded = Some packet"
      "length packet = length encoded" "fst (snd ?u) \<le> 397" "?L \<le> 399" "\<forall>st. (\<forall>i < ?L. stream_byte st i = unat (packet ! i)) \<longrightarrow> in_code st ?u"
    using terminate_packet [OF u(2) assms(6,9)] by blast
  have en: "encode_spectrum segs dataQ7 envQ8 enc encoded = Some (int ?L, ?c, packet)"
    using assms(4,5) u(1) p(1,2) by (simp add: encode_spectrum_def)
  let ?dec = "InitializeDecoderBitstream ?L dec"
  have l: "length (stream ?dec) = 305" using assms(8) by (simp add: InitializeDecoderBitstream_def INTERNAL_STREAM_SIZE_W16_def)
  obtain st where st: "read_be16 packet ?L (stream ?dec) = Some st" "length st = 305" "\<forall>i < ?L. stream_byte st i = unat (packet ! i)"
      "\<forall>j < 305. (?L + 1) div 2 \<le> j \<longrightarrow> st ! j = stream ?dec ! j"
    using read_be16_ok [of ?L packet "stream ?dec"] p(3,5) assms(9) l by auto
  have "list_all2 symbol_ok ?tabs (replicate (length ?tabs) 0)"
    by (rule lines_symbols) (use spectrum_lines(2) [OF assms(2)] in \<open>fastforce simp: line_tables_def line_dither_def\<close>)
  then have sy: "list_all2 symbol_ok ?tabs (replicate (length dataQ7) 0)" by (simp add: line_tables_def)
  have cs: "coder_ok ?s" using e by (simp add: encoder_def)
  have iu: "in_code st ?u" using p(6) st(3) by blast
  then have si: "in_code st ?s" using in_code_run [OF _ cs sy] by (simp add: code_run_def)
  have "fst (snd ?s) \<le> fst (snd ?u)" unfolding code_run_def by (rule coder_run_grows)
  then have "fst (snd ?s) + 4 \<le> 2 * length st" using p(4) st(2) by simp
  then obtain lens sd1 where d: "decode_all segs (?dec\<lparr>stream := st\<rparr>) = Some (lens, map (snd \<circ> snd) segs, sd1)" "stream sd1 = st" "decoder sd1 ?s"
    using decode_all_ok [OF decoder_start [of st ?L dec] assms(1)] si st(2) by auto
  have "stream_size sd1 = (?L + 1) div 2" using decode_all_size [OF d(1)] p(5) by (simp add: InitializeDecoderBitstream_def sz_add_def size_range_def)
  moreover have "st ! j = 0" if "j < 305" "(?L + 1) div 2 \<le> j" for j
    using st(4) that l by (simp add: InitializeDecoderBitstream_def)
  ultimately have z: "zeros_behind sd1" using d(2) st(2) by (simp add: zeros_behind_def)
  obtain sd2 where "WebRtcIsacfix_DecLogisticMulti2 dither sd1 spec (int (length dither)) = Some (int ?L, ?c, sd2)"
    using DecLogisticMulti2_ok [OF d(3) z assms(3) len(3), of ?c dither] spectrum_lines(2) [OF assms(2)] len iu p(4) st(2) d(2) by auto
  then have "decode_spectrum segs dither spec packet ?L dec = Some (map (snd \<circ> snd) segs, int ?L, ?c)"
    using st(1) d(1) by (simp add: decode_spectrum_def)
  then show ?thesis using en p(5) by blast
qed

lemma few_lines_fit:
  assumes "list_all segment_ok segs" "spectrum_ok envQ8 dataQ7 dither" "length (stream enc) = STREAM_MAXW16_60MS"
    and "3 * ((\<Sum>(m, ts, ds)\<leftarrow>segs. length ds) + length dataQ7) \<le> 397"
  shows "\<exists>sd data' sd'. encode_all segs (init_encoder_bitstream enc) = Some sd \<and>
    WebRtcIsacfix_EncLogisticMulti2 sd dataQ7 envQ8 (int (length dataQ7)) = Some (0, data', sd') \<and> stream_index sd' < 199"
proof -
  let ?s = "run_all (0, 0, 4294967295) segs" and ?c = "clipped envQ8 dataQ7"
  let ?tabs = "line_tables envQ8 ?c 0 (length dataQ7)"
  let ?u = "code_run ?s ?tabs (replicate (length dataQ7) 0)"
  have b: "fst (snd ?s) \<le> 3 * (\<Sum>(m, ts, ds)\<leftarrow>segs. length ds)"
    using run_all_bound [of "(0, 0, 4294967295)" segs] assms(1) by (simp add: coder_ok_def)
  then obtain sd where e: "encode_all segs (init_encoder_bitstream enc) = Some sd" "encoder sd ?s"
    using encode_all_ok [OF encoder_start [OF assms(3)] assms(1)] assms(4) by auto
  have "list_all2 symbol_ok ?tabs (replicate (length ?tabs) 0)"
    by (rule lines_symbols) (use spectrum_lines(2) [OF assms(2)] in \<open>fastforce simp: line_tables_def line_dither_def\<close>)
  then have sy: "list_all2 symbol_ok ?tabs (replicate (length dataQ7) 0)" by (simp add: line_tables_def)
  have "coder_ok ?s" using e(2) by (simp add: encoder_def)
  from coder_run_ok [OF this sy] have n: "fst (snd ?u) \<le> 397" using b assms(4) by (simp add: code_run_def)
  have "lines_ok envQ8 dataQ7 0 (length dataQ7)"
    using assms(2) spectrum_lines(1) [OF assms(2)] by (simp add: lines_ok_def spectrum_ok_def)
  from EncLogisticMulti2_ok [OF e(2) this] n obtain sd' where
    sd': "WebRtcIsacfix_EncLogisticMulti2 sd dataQ7 envQ8 (int (length dataQ7)) = Some (0, ?c, sd')" "encoder sd' ?u" by auto
  have "pos (full sd') (stream_index sd') \<le> 397"
    using sd'(2) n unfolding encoder_def enc_abs_def by (metis fst_conv snd_conv)
  then have "stream_index sd' < 199" by (auto simp: pos_def split: if_splits)
  then show ?thesis using e(1) sd'(1) by blast
qed

section \<open>Properties\<close>

text \<open>C3: Spectra decode to what was encoded.  Take any symbols and after them the lines of a spectrum, four to each value of the
  envelope, which are the square roots the decoder computes from the squared envelope.  Let the envelope be 11 or more, and let each line and its dither (at most 64) sum to a
  multiple of 128, as the quantisation makes them.  The lines that
  are too improbable are clipped towards zero, the others kept.  When the code leaves a word of the encoder's array free, as that of up to 132 symbols and lines always does,
  the packet of some length \<open>L\<close> decodes, from the dither, to the symbols and to exactly the lines the encoder ended up with, and to the length \<open>L\<close>, without looking outside the
  arrays and with all searches returning.\<close>

theorem isac_spectrum_roundtrip:
  assumes "list_all segment_ok segs" "spectrum_ok envQ8 dataQ7 dither" "roots (first_root spec) spec = Some envQ8"
    and "3 * ((\<Sum>(m, ts, ds)\<leftarrow>segs. length ds) + length dataQ7) \<le> 397 \<or>
      (\<exists>sd data' sd'. encode_all segs (init_encoder_bitstream enc) = Some sd \<and>
        WebRtcIsacfix_EncLogisticMulti2 sd dataQ7 envQ8 (int (length dataQ7)) = Some (0, data', sd') \<and> stream_index sd' < 199)"
    and "length (stream enc) = STREAM_MAXW16_60MS" "length (stream dec) = INTERNAL_STREAM_SIZE_W16" "400 \<le> length encoded"
  shows "\<exists>L ls packet. encode_spectrum segs dataQ7 envQ8 enc encoded = Some (int L, ls, packet) \<and> L \<le> 399 \<and>
    decode_spectrum segs dither spec packet L dec = Some (map (snd \<circ> snd) segs, int L, ls) \<and>
    length ls = length dataQ7 \<and>
    (\<forall>j < length dataQ7. line_ok (envQ8 ! (j div 4)) (ls ! j) \<and> (line_ok (envQ8 ! (j div 4)) (dataQ7 ! j) \<longrightarrow> ls ! j = dataQ7 ! j))"
proof -
  let ?c = "clipped envQ8 dataQ7"
  obtain L packet where "encode_spectrum segs dataQ7 envQ8 enc encoded = Some (int L, ?c, packet) \<and> L \<le> 399 \<and>
      decode_spectrum segs dither spec packet L dec = Some (map (snd \<circ> snd) segs, int L, ?c)"
    using few_lines_fit [OF assms(1,2,5)] assms(4) spectrum_roundtrip [OF assms(1-3) _ _ _ assms(5-7)] by blast
  moreover have "line_ok (envQ8 ! (j div 4)) (?c ! j)" "line_ok (envQ8 ! (j div 4)) (dataQ7 ! j) \<longrightarrow> ?c ! j = dataQ7 ! j" if "j < length dataQ7" for j
    using clip_line(2,4) [OF spectrum_lines(1) [OF assms(2) that]] that by (simp_all add: nth_clipped)
  ultimately show ?thesis by (intro exI [of _ L] exI [of _ ?c] exI [of _ packet]) simp
qed

theorem isac_spectrum_roundtrip_witness:
  "\<exists>L ls packet. encode_spectrum [] [128, -5, 256, -123] [400] \<lparr>stream = replicate 200 7, W_upper = 0, streamval = 9, stream_index = 3, full = 0\<rparr>
      (replicate 400 0) = Some (int L, ls, packet) \<and>
    decode_spectrum [] [0, 5, 0, -5] [160000] packet L
      \<lparr>stream = replicate 305 7, W_upper = 0, streamval = 9, stream_index = 3, full = 0, stream_size = 0\<rparr> = Some ([], int L, ls)"
proof -
  have "spectrum_ok [400] [128, -5, 256, -123] [0, 5, 0, -5]" by (auto simp: spectrum_ok_def is_s16_def nth_Cons split: nat.splits)
  moreover have "bit_length 160000 = Suc 17" by (rule bit_length_unique) simp_all
  then have "first_root [160000] = 512" by (simp add: WebRtcSpl_GetSizeInBits_def CountLeadingZeros32_eq u32_def s16_def asr_def)
  moreover have "roots 512 [160000] = Some [400]"
    by (simp add: ar_spec_def newton_step_def newton.simps cdiv_def s32_def asr_def u16_def)
  ultimately show ?thesis
    using isac_spectrum_roundtrip [of "[]" "[400]" "[128, -5, 256, -123]" "[0, 5, 0, -5]" "[160000]"
      "\<lparr>stream = replicate 200 7, W_upper = 0, streamval = 9, stream_index = 3, full = 0\<rparr>"
      "\<lparr>stream = replicate 305 7, W_upper = 0, streamval = 9, stream_index = 3, full = 0, stream_size = 0\<rparr>" "replicate 400 0"]
    by (auto simp: STREAM_MAXW16_60MS_def INTERNAL_STREAM_SIZE_W16_def)
qed

text \<open>C13: The loop that clips a line returns for every line of 16 bits and every envelope from 1 to 65535: it ends at a line the coder can code, of the same residue modulo 128,
  and keeps a line that can be coded.  With envelope 0 it never returns, whatever the line.\<close>

theorem isac_clip_returns:
  "(1 \<le> env \<and> env \<le> 65535 \<and> is_s16 d \<longrightarrow> (\<exists>d'. enc_clip env d (logist env (d - 64)) (logist env (d + 64)) = Some (d', logist env (d' - 64), logist env (d' + 64)) \<and>
      line_ok env d' \<and> d' mod 128 = d mod 128 \<and> (line_ok env d \<longrightarrow> d' = d))) \<and>
   enc_clip 0 d (logist 0 (d - 64)) (logist 0 (d + 64)) = None"
  using enc_clip_s16 [of env d] clip_loops unfolding line_s16_def by blast

theorem isac_clip_returns_witness:
  "\<exists>d'. enc_clip 65535 32767 (logist 65535 (32767 - 64)) (logist 65535 (32767 + 64)) = Some (d', logist 65535 (d' - 64), logist 65535 (d' + 64)) \<and>
     line_ok 65535 d' \<and> d' mod 128 = 127"
  using isac_clip_returns [of 65535 32767] by (auto simp: is_s16_def)

text \<open>C40: Envelopes the decoder does not handle.  With envelope 7 the encoder codes the line 18897, but whenever the stream holds it for the dither 47, the decoder's check for a
  flat distribution takes the plateau before it for an error.  With envelope 1 and a value above all bounds the search goes round the 16-bit candidates for
  ever.  A squared envelope of 0 divides by zero in the square root.\<close>

theorem isac_logistic_limits:
  "line_ok 7 18897 \<and>
   (cdf_scale (r_upper r) (logist 7 (18897 - 64)) < r_val r \<longrightarrow> dec_lines (Suc n) 7 (47 # ds) 0 sd r = Some (Inl (47 # ds, sd))) \<and>
   (0x01000000 \<le> unat (r_upper r) \<longrightarrow> cdf_scale (r_upper r) (logist 1 32704) < r_val r \<longrightarrow> dec_lines (Suc n) 1 (0 # ds) 0 sd r = None) \<and>
   ar_spec 0 1 = None"
proof -
  have "ar_spec 0 1 = None" by code_simp
  then show ?thesis using line_7 search_rejects [of "r_upper r" "r_val r"] search_loops [of "r_upper r" "r_val r"] by auto
qed

theorem isac_logistic_limits_witness:
  "dec_lines 1 1 [0] 0 \<lparr>stream = [], W_upper = 0, streamval = 0, stream_index = 0, full = 0, stream_size = 0\<rparr> \<lparr>r_lower = 0, r_upper = 0xFFFFFFFF, r_val = 0xFFFFFFFE, r_ptr = 2, r_offset = 0\<rparr> = None"
proof -
  have "distr 32704 = 58633" by code_simp
  then have "uint (logist 1 32704) = 58633" by (simp add: logist_distr)
  then have "logist 1 32704 = 58633" by (simp add: word_uint_eq_iff)
  then have "cdf_scale 0xFFFFFFFF (logist 1 32704) < 0xFFFFFFFE" by (simp add: word_less_nat_alt cdf_scale_unat)
  then show ?thesis
    using isac_logistic_limits [of "\<lparr>r_lower = 0, r_upper = 0xFFFFFFFF, r_val = 0xFFFFFFFE, r_ptr = 2, r_offset = 0\<rparr>" 0 "[]" "\<lparr>stream = [], W_upper = 0, streamval = 0, stream_index = 0, full = 0, stream_size = 0\<rparr>"]
    by simp
qed

end
