(* ===== verification/G711.thy ===== *)
theory G711
  imports C_Prelude
begin

unbundle bit_operations_syntax

text \<open>
  G.711, \<^verbatim>\<open>modules/third_party/g711\<close>: compression of samples to eight bits by the u-law and the A-law, expansion, and transcoding between the laws.

  Samples are of type \<open>int\<close>, codes are words of eight bits.  The position of the highest bit is the portable version of the header, not one of its assembler
  versions.  Arguments of the compressors for which the C code overflows wrap around here; the theorems are about samples of 16 bits.
\<close>

section \<open>The code\<close>

definition top_step :: "32 word \<Rightarrow> nat \<Rightarrow> 32 word \<times> nat \<Rightarrow> 32 word \<times> nat" where
  "top_step m k s = (case s of (bits, i) \<Rightarrow> if bits AND m \<noteq> 0 then (bits AND m, i + k) else (bits, i))"

definition top_bit :: "32 word \<Rightarrow> int" where
  "top_bit bits =
     (if bits = 0 then -1
      else int (snd (top_step 0xAAAAAAAA 1 (top_step 0xCCCCCCCC 2 (top_step 0xF0F0F0F0 4 (top_step 0xFF00FF00 8
        (top_step 0xFFFF0000 16 (bits, 0))))))))"

definition ULAW_BIAS :: int where
  "ULAW_BIAS = 0x84"

definition linear_to_ulaw :: "int \<Rightarrow> 8 word" where
  "linear_to_ulaw linear =
     (let (linear, mask) = (if linear < 0 then (s32 (ULAW_BIAS - linear - 1), 0x7F) else (s32 (ULAW_BIAS + linear), 0xFF));
          seg = top_bit (word_of_int (linear OR 0xFF)) - 7
      in if seg \<ge> 8 then word_of_int (0x7F XOR mask)
         else word_of_int ((push_bit 4 seg OR (asr linear (nat (seg + 3)) AND 0xF)) XOR mask))"

definition ulaw_to_linear :: "8 word \<Rightarrow> int" where
  "ulaw_to_linear ulaw =
     (let ulaw = uint (NOT ulaw);
          t = push_bit (nat (asr (ulaw AND 0x70) 4)) (push_bit 3 (ulaw AND 0x0F) + ULAW_BIAS)
      in s16 (if ulaw AND 0x80 \<noteq> 0 then ULAW_BIAS - t else t - ULAW_BIAS))"

definition ALAW_AMI_MASK :: int where
  "ALAW_AMI_MASK = 0x55"

definition linear_to_alaw :: "int \<Rightarrow> 8 word" where
  "linear_to_alaw linear =
     (let (linear, mask) = (if linear \<ge> 0 then (linear, ALAW_AMI_MASK OR 0x80) else (s32 (- linear - 1), ALAW_AMI_MASK));
          seg = top_bit (word_of_int (linear OR 0xFF)) - 7
      in if seg \<ge> 8 then if linear \<ge> 0 then word_of_int (0x7F XOR mask) else word_of_int (0x00 XOR mask)
         else word_of_int ((push_bit 4 seg OR (asr linear (if seg \<noteq> 0 then nat (seg + 3) else 4) AND 0x0F)) XOR mask))"

definition alaw_to_linear :: "8 word \<Rightarrow> int" where
  "alaw_to_linear alaw =
     (let alaw = uint alaw XOR ALAW_AMI_MASK;
          i = push_bit 4 (alaw AND 0x0F);
          seg = asr (alaw AND 0x70) 4;
          i = (if seg \<noteq> 0 then push_bit (nat (seg - 1)) (i + 0x108) else i + 8)
      in s16 (if alaw AND 0x80 \<noteq> 0 then i else - i))"

definition ulaw_to_alaw_table :: "int list" where
  "ulaw_to_alaw_table = [42, 43, 40, 41, 46, 47, 44, 45, 34, 35, 32, 33, 38, 39, 36, 37, 58, 59, 56, 57, 62, 63, 60,
     61, 50, 51, 48, 49, 54, 55, 52, 53, 10, 11, 8, 9, 14, 15, 12, 13, 2, 3, 0, 1, 6, 7, 4, 26, 27, 24, 25, 30, 31, 28,
     29, 18, 19, 16, 17, 22, 23, 20, 21, 106, 104, 105, 110, 111, 108, 109, 98, 99, 96, 97, 102, 103, 100, 101, 122,
     120, 126, 127, 124, 125, 114, 115, 112, 113, 118, 119, 116, 117, 75, 73, 79, 77, 66, 67, 64, 65, 70, 71, 68, 69,
     90, 91, 88, 89, 94, 95, 92, 93, 82, 82, 83, 83, 80, 80, 81, 81, 86, 86, 87, 87, 84, 84, 85, 85, 170, 171, 168,
     169, 174, 175, 172, 173, 162, 163, 160, 161, 166, 167, 164, 165, 186, 187, 184, 185, 190, 191, 188, 189, 178, 179,
     176, 177, 182, 183, 180, 181, 138, 139, 136, 137, 142, 143, 140, 141, 130, 131, 128, 129, 134, 135, 132, 154, 155,
     152, 153, 158, 159, 156, 157, 146, 147, 144, 145, 150, 151, 148, 149, 234, 232, 233, 238, 239, 236, 237, 226, 227,
     224, 225, 230, 231, 228, 229, 250, 248, 254, 255, 252, 253, 242, 243, 240, 241, 246, 247, 244, 245, 203, 201, 207,
     205, 194, 195, 192, 193, 198, 199, 196, 197, 218, 219, 216, 217, 222, 223, 220, 221, 210, 210, 211, 211, 208, 208,
     209, 209, 214, 214, 215, 215, 212, 212, 213, 213]"

definition alaw_to_ulaw_table :: "int list" where
  "alaw_to_ulaw_table = [42, 43, 40, 41, 46, 47, 44, 45, 34, 35, 32, 33, 38, 39, 36, 37, 57, 58, 55, 56, 61, 62, 59,
     60, 49, 50, 47, 48, 53, 54, 51, 52, 10, 11, 8, 9, 14, 15, 12, 13, 2, 3, 0, 1, 6, 7, 4, 5, 26, 27, 24, 25, 30, 31,
     28, 29, 18, 19, 16, 17, 22, 23, 20, 21, 98, 99, 96, 97, 102, 103, 100, 101, 93, 93, 92, 92, 95, 95, 94, 94, 116,
     118, 112, 114, 124, 126, 120, 122, 106, 107, 104, 105, 110, 111, 108, 109, 72, 73, 70, 71, 76, 77, 74, 75, 64, 65,
     63, 63, 68, 69, 66, 67, 86, 87, 84, 85, 90, 91, 88, 89, 79, 79, 78, 78, 82, 83, 80, 81, 170, 171, 168, 169, 174,
     175, 172, 173, 162, 163, 160, 161, 166, 167, 164, 165, 185, 186, 183, 184, 189, 190, 187, 188, 177, 178, 175, 176,
     181, 182, 179, 180, 138, 139, 136, 137, 142, 143, 140, 141, 130, 131, 128, 129, 134, 135, 132, 133, 154, 155, 152,
     153, 158, 159, 156, 157, 146, 147, 144, 145, 150, 151, 148, 149, 226, 227, 224, 225, 230, 231, 228, 229, 221, 221,
     220, 220, 223, 223, 222, 222, 244, 246, 240, 242, 252, 254, 248, 250, 234, 235, 232, 233, 238, 239, 236, 237, 200,
     201, 198, 199, 204, 205, 202, 203, 192, 193, 191, 191, 196, 197, 194, 195, 214, 215, 212, 213, 218, 219, 216, 217,
     207, 207, 206, 206, 210, 211, 208, 209]"

definition alaw_to_ulaw :: "8 word \<Rightarrow> 8 word" where
  "alaw_to_ulaw alaw = word_of_int (alaw_to_ulaw_table ! unat alaw)"

definition ulaw_to_alaw :: "8 word \<Rightarrow> 8 word" where
  "ulaw_to_alaw ulaw = word_of_int (ulaw_to_alaw_table ! unat ulaw)"

section \<open>The highest bit\<close>

text \<open>
  After the step for the index bit \<open>k\<close> all bits left agree with \<open>i\<close> in their index above it, and no bit of the
  word from \<open>i\<close> on has been lost.
\<close>

definition top_inv :: "32 word \<Rightarrow> nat \<Rightarrow> 32 word \<times> nat \<Rightarrow> bool" where
  "top_inv w k s = (case s of (bits, i) \<Rightarrow> bits \<noteq> 0 \<and> 2 ^ k dvd i \<and> (\<forall>n. bit bits n \<longrightarrow> i \<le> n \<and> bit w n) \<and>
     (\<forall>n. bit w n \<longrightarrow> n < i + 2 ^ k \<and> (i \<le> n \<longrightarrow> bit bits n)))"

lemma top_step_inv:
  assumes "top_inv w (Suc k) s" "\<And>n. n < 32 \<Longrightarrow> bit m n \<longleftrightarrow> odd (n div 2 ^ k)"
  shows "top_inv w k (top_step m (2 ^ k) s)"
proof -
  obtain bits i where s: "s = (bits, i)" by (cases s)
  have a: "bits \<noteq> 0" "2 ^ Suc k dvd i" "\<And>n. bit bits n \<Longrightarrow> i \<le> n \<and> bit w n" "\<And>n. bit w n \<Longrightarrow> n < i + 2 ^ Suc k \<and> (i \<le> n \<longrightarrow> bit bits n)"
    using assms(1) by (auto simp: top_inv_def s)
  obtain c where c: "i = 2 ^ Suc k * c" using a(2) by (elim dvdE)
  have half: "bit m n \<longleftrightarrow> i + 2 ^ k \<le> n" if "bit bits n" for n
  proof -
    have n: "i \<le> n" "n < i + 2 ^ Suc k" "bit w n" using a(3,4) that by blast+
    then have "n < 32" using bit_imp_le_length [OF n(3)] by simp
    define r where "r = n - i"
    have r: "n = 2 * c * 2 ^ k + r" "r < 2 * 2 ^ k" using n(1,2) c by (simp_all add: r_def)
    have "n div 2 ^ k = 2 * c + r div 2 ^ k" unfolding r(1) by simp
    moreover have "r div 2 ^ k < 2" using r(2) by (simp add: less_mult_imp_div_less)
    then have "odd (r div 2 ^ k) \<longleftrightarrow> r div 2 ^ k = 1" by (auto simp: less_2_cases_iff)
    moreover have "r div 2 ^ k = 1 \<longleftrightarrow> 2 ^ k \<le> r"
    proof (cases "2 ^ k \<le> r")
      case True
      then have "0 < r div 2 ^ k" by (simp add: div_greater_zero_iff)
      then show ?thesis using \<open>r div 2 ^ k < 2\<close> True by simp
    qed simp
    ultimately show ?thesis using assms(2) [OF \<open>n < 32\<close>] c r(1) by simp
  qed
  show ?thesis
  proof (cases "bits AND m = 0")
    case True
    then have no: "\<not> bit m n" if "bit bits n" for n using that by (metis bit_and_iff bit_0_eq bot_apply bot_bool_def)
    have "n < i + 2 ^ k" if "bit w n" for n
    proof (rule ccontr)
      assume "\<not> n < i + 2 ^ k"
      moreover from this have "bit bits n" using a(4) [OF that] by simp
      ultimately show False using no [of n] half [of n] by simp
    qed
    moreover have "2 ^ k dvd i" using c by simp
    ultimately show ?thesis using a True by (auto simp: top_inv_def top_step_def s)
  next
    case False
    have "2 ^ k dvd i + 2 ^ k" using c by simp
    moreover have "i + 2 ^ k \<le> n \<and> bit w n" if "bit (bits AND m) n" for n using that half a(3) by (auto simp: bit_and_iff)
    moreover have "n < i + 2 ^ k + 2 ^ k \<and> (i + 2 ^ k \<le> n \<longrightarrow> bit (bits AND m) n)" if "bit w n" for n
      using a(4) [OF that] half by (auto simp: bit_and_iff)
    ultimately show ?thesis using False by (auto simp: top_inv_def top_step_def s)
  qed
qed

lemma index_masks:
  assumes "n < 32"
  shows "bit (0xFFFF0000 :: 32 word) n \<longleftrightarrow> odd (n div 2 ^ 4)" "bit (0xFF00FF00 :: 32 word) n \<longleftrightarrow> odd (n div 2 ^ 3)"
    "bit (0xF0F0F0F0 :: 32 word) n \<longleftrightarrow> odd (n div 2 ^ 2)" "bit (0xCCCCCCCC :: 32 word) n \<longleftrightarrow> odd (n div 2 ^ 1)"
    "bit (0xAAAAAAAA :: 32 word) n \<longleftrightarrow> odd (n div 2 ^ 0)"
proof -
  have "list_all (\<lambda>n. (bit (0xFFFF0000 :: 32 word) n \<longleftrightarrow> odd (n div 2 ^ 4)) \<and> (bit (0xFF00FF00 :: 32 word) n \<longleftrightarrow> odd (n div 2 ^ 3)) \<and>
      (bit (0xF0F0F0F0 :: 32 word) n \<longleftrightarrow> odd (n div 2 ^ 2)) \<and> (bit (0xCCCCCCCC :: 32 word) n \<longleftrightarrow> odd (n div 2 ^ 1)) \<and>
      (bit (0xAAAAAAAA :: 32 word) n \<longleftrightarrow> odd (n div 2 ^ 0))) [0..<32]" by code_simp
  then show "bit (0xFFFF0000 :: 32 word) n \<longleftrightarrow> odd (n div 2 ^ 4)" "bit (0xFF00FF00 :: 32 word) n \<longleftrightarrow> odd (n div 2 ^ 3)"
    "bit (0xF0F0F0F0 :: 32 word) n \<longleftrightarrow> odd (n div 2 ^ 2)" "bit (0xCCCCCCCC :: 32 word) n \<longleftrightarrow> odd (n div 2 ^ 1)"
    "bit (0xAAAAAAAA :: 32 word) n \<longleftrightarrow> odd (n div 2 ^ 0)"
    using assms unfolding list_all_iff set_upt by auto
qed

lemma top_bit_ok:
  assumes "w \<noteq> 0"
  shows "\<exists>i. top_bit w = int i \<and> bit w i \<and> (\<forall>n. bit w n \<longrightarrow> n \<le> i)"
proof -
  have "n < 32" if "bit w n" for n using bit_imp_le_length [OF that] by simp
  then have "top_inv w (Suc 4) (w, 0)" using assms by (auto simp: top_inv_def)
  from top_step_inv [OF this index_masks(1)] have "top_inv w (Suc 3) (top_step 0xFFFF0000 16 (w, 0))" by simp
  from top_step_inv [OF this index_masks(2)] have "top_inv w (Suc 2) (top_step 0xFF00FF00 8 (top_step 0xFFFF0000 16 (w, 0)))" by simp
  from top_step_inv [OF this index_masks(3)]
  have "top_inv w (Suc 1) (top_step 0xF0F0F0F0 4 (top_step 0xFF00FF00 8 (top_step 0xFFFF0000 16 (w, 0))))" unfolding Suc_1 by simp
  from top_step_inv [OF this index_masks(4)]
  have "top_inv w (Suc 0) (top_step 0xCCCCCCCC 2 (top_step 0xF0F0F0F0 4 (top_step 0xFF00FF00 8 (top_step 0xFFFF0000 16 (w, 0)))))" by simp
  from top_step_inv [OF this index_masks(5)]
  have inv: "top_inv w 0 (top_step 0xAAAAAAAA 1 (top_step 0xCCCCCCCC 2 (top_step 0xF0F0F0F0 4 (top_step 0xFF00FF00 8 (top_step 0xFFFF0000 16 (w, 0))))))"
    by simp
  obtain bits i where s: "top_step 0xAAAAAAAA 1 (top_step 0xCCCCCCCC 2 (top_step 0xF0F0F0F0 4 (top_step 0xFF00FF00 8 (top_step 0xFFFF0000 16 (w, 0))))) = (bits, i)"
    by fastforce
  have b: "bits \<noteq> 0" "\<And>n. bit bits n \<Longrightarrow> i \<le> n \<and> bit w n" "\<And>n. bit w n \<Longrightarrow> n < i + 1" using inv unfolding s by (auto simp: top_inv_def)
  obtain n where "bit bits n" using b(1) by (metis bit_eqI bit_0_eq bot_apply bot_bool_def)
  then have "bit w i" using b(2,3) by (metis Suc_eq_plus1 le_antisym less_Suc_eq_le)
  moreover have "top_bit w = int i" using assms s by (simp add: top_bit_def)
  ultimately show ?thesis using b(3) by fastforce
qed

text \<open>The segment of a magnitude.\<close>

lemma segment_ok:
  assumes "0 \<le> m" "m < 32768"
  shows "\<exists>seg. top_bit (word_of_int (m OR 0xFF)) - 7 = int seg \<and> seg \<le> 7 \<and> m < 2 ^ (seg + 8) \<and> (seg = 0 \<or> 2 ^ (seg + 7) \<le> m)"
proof -
  let ?w = "word_of_int (m OR 0xFF) :: 32 word"
  have hi: "\<not> bit m n" if "15 \<le> n" for n
  proof -
    have "m div 2 ^ n = 0"
    proof (rule div_pos_pos_trivial)
      have "(2 :: int) ^ 15 \<le> 2 ^ n" using that by (intro power_increasing) simp_all
      then show "m < 2 ^ n" using assms(2) by simp
    qed (use assms in simp)
    then show ?thesis by (simp add: bit_iff_odd)
  qed
  have ff: "bit (0xFF :: int) n \<longleftrightarrow> n < 8" for n
  proof -
    have "(0xFF :: int) = mask 8" by (simp add: mask_eq_exp_minus_1)
    then show ?thesis by (simp only: bit_mask_iff) simp
  qed
  have bw: "bit ?w n \<longleftrightarrow> bit m n \<or> n < 8" for n
    using hi [of n] by (cases "n < 15") (auto simp: bit_word_of_int_iff bit_or_iff ff)
  have "?w \<noteq> 0" using bw [of 0] by (metis bit_0_eq bot_apply bot_bool_def zero_less_numeral)
  then obtain i where i: "top_bit ?w = int i" "bit ?w i" "\<And>n. bit ?w n \<Longrightarrow> n \<le> i" using top_bit_ok by blast
  have i7: "7 \<le> i" using i(3) [of 7] bw by simp
  then obtain seg where seg: "i = seg + 7" by (metis add.commute le_Suc_ex)
  have "m = take_bit (Suc i) m"
  proof (rule bit_eqI)
    fix n show "bit m n \<longleftrightarrow> bit (take_bit (Suc i) m) n" using i(3) [of n] bw [of n] by (auto simp: bit_take_bit_iff)
  qed
  then have up: "m < 2 ^ (seg + 8)" using take_bit_int_less_exp [of "Suc i" m] seg by (simp add: add.commute)
  have "seg = 0 \<or> 2 ^ (seg + 7) \<le> m"
  proof (cases "seg = 0")
    case False
    then have "bit m i" using i(2) bw seg by simp
    then have "odd (m div 2 ^ i)" by (simp add: bit_iff_odd)
    then have "m div 2 ^ i \<noteq> 0" by (metis even_zero)
    then have "\<not> m < 2 ^ i" using assms(1) by (metis div_pos_pos_trivial)
    then show ?thesis using seg by simp
  qed simp
  moreover have "i < 15" using i(2) bw [of i] hi [of i] by (cases "i < 15") auto
  ultimately show ?thesis using i(1) seg up by (intro exI [of _ seg]) simp
qed

section \<open>Quantisation\<close>

text \<open>The magnitude for segment \<open>s\<close> and step \<open>r\<close>, the middle of its interval.\<close>

definition umag :: "nat \<Rightarrow> int \<Rightarrow> int" where
  "umag s r = (8 * r + 132) * 2 ^ s - 132"

definition amag :: "nat \<Rightarrow> int \<Rightarrow> int" where
  "amag s r = (if s = 0 then 16 * r + 8 else (16 * r + 264) * 2 ^ (s - 1))"

lemma codes:
  assumes "s < 8" "0 \<le> r" "r < 16"
  shows "ulaw_to_linear (word_of_int ((push_bit 4 (int s) OR r) XOR 0xFF)) = umag s r"
    "ulaw_to_linear (word_of_int ((push_bit 4 (int s) OR r) XOR 0x7F)) = - umag s r"
    "alaw_to_linear (word_of_int ((push_bit 4 (int s) OR r) XOR (ALAW_AMI_MASK OR 0x80))) = amag s r"
    "alaw_to_linear (word_of_int ((push_bit 4 (int s) OR r) XOR ALAW_AMI_MASK)) = - amag s r"
proof -
  have "list_all (\<lambda>s. list_all (\<lambda>r. ulaw_to_linear (word_of_int ((push_bit 4 (int s) OR r) XOR 0xFF)) = umag s r \<and>
      ulaw_to_linear (word_of_int ((push_bit 4 (int s) OR r) XOR 0x7F)) = - umag s r \<and>
      alaw_to_linear (word_of_int ((push_bit 4 (int s) OR r) XOR (ALAW_AMI_MASK OR 0x80))) = amag s r \<and>
      alaw_to_linear (word_of_int ((push_bit 4 (int s) OR r) XOR ALAW_AMI_MASK)) = - amag s r) [0..15]) [0..<8]" by code_simp
  then have "ulaw_to_linear (word_of_int ((push_bit 4 (int s) OR r) XOR 0xFF)) = umag s r \<and>
      ulaw_to_linear (word_of_int ((push_bit 4 (int s) OR r) XOR 0x7F)) = - umag s r \<and>
      alaw_to_linear (word_of_int ((push_bit 4 (int s) OR r) XOR (ALAW_AMI_MASK OR 0x80))) = amag s r \<and>
      alaw_to_linear (word_of_int ((push_bit 4 (int s) OR r) XOR ALAW_AMI_MASK)) = - amag s r"
    using assms unfolding list_all_iff set_upt set_upto by auto
  then show "ulaw_to_linear (word_of_int ((push_bit 4 (int s) OR r) XOR 0xFF)) = umag s r"
    "ulaw_to_linear (word_of_int ((push_bit 4 (int s) OR r) XOR 0x7F)) = - umag s r"
    "alaw_to_linear (word_of_int ((push_bit 4 (int s) OR r) XOR (ALAW_AMI_MASK OR 0x80))) = amag s r"
    "alaw_to_linear (word_of_int ((push_bit 4 (int s) OR r) XOR ALAW_AMI_MASK)) = - amag s r" by blast+
qed

lemma mod_16_up: "16 \<le> q \<Longrightarrow> q < 32 \<Longrightarrow> q mod 16 = q - (16 :: int)"
  by presburger

lemma low_bits: "(x :: int) AND 0xF = x mod 16"
  using take_bit_eq_mask [of 4 x] by (simp add: mask_eq_exp_minus_1 take_bit_eq_mod)

text \<open>The step of a magnitude in its segment.\<close>

lemma step_bounds:
  assumes "2 ^ (seg + 7) \<le> m" "m < 2 ^ (seg + 8)"
  shows "16 \<le> asr m (seg + 3)" "asr m (seg + 3) < 32" "2 ^ (seg + 3) * asr m (seg + 3) \<le> m" "m < 2 ^ (seg + 3) * asr m (seg + 3) + 2 ^ (seg + 3)"
proof -
  let ?p = "2 ^ (seg + 3) :: int"
  have p: "(2 :: int) ^ (seg + 7) = 16 * ?p" "(2 :: int) ^ (seg + 8) = 32 * ?p" "0 < ?p" by (simp_all add: power_add)
  have "?p * (m div ?p) + m mod ?p = m" "0 \<le> m mod ?p" "m mod ?p < ?p" by simp_all
  then show c: "?p * asr m (seg + 3) \<le> m" "m < ?p * asr m (seg + 3) + ?p" unfolding asr_def by linarith+
  have "?p * asr m (seg + 3) < ?p * 32" "?p * 15 < ?p * asr m (seg + 3)" using c assms p by linarith+
  then show "16 \<le> asr m (seg + 3)" "asr m (seg + 3) < 32" using p(3) by (simp_all add: mult_less_cancel_left)
qed

lemma u_quantise:
  assumes "132 \<le> m" "m < 32768"
  defines "seg \<equiv> top_bit (word_of_int (m OR 0xFF)) - 7"
  obtains s r where "seg = int s" "s < 8" "asr m (nat (seg + 3)) AND 0xF = r" "0 \<le> r" "r < 16" "2 ^ (s + 7) \<le> m" "m < 2 ^ (s + 8)"
    "umag s r + 132 \<le> m + 2 ^ (s + 2)" "m < umag s r + 132 + 2 ^ (s + 2)"
proof -
  obtain s where s: "seg = int s" "s \<le> 7" "m < 2 ^ (s + 8)" "s = 0 \<or> 2 ^ (s + 7) \<le> m" using segment_ok [of m] assms by auto
  then have lo: "2 ^ (s + 7) \<le> m" using assms(1) by auto
  note b = step_bounds [OF lo s(3)]
  let ?q = "asr m (s + 3)"
  have q: "?q mod 16 = ?q - 16" using b(1,2) by (rule mod_16_up)
  have "umag s (?q - 16) + 132 = 2 ^ (s + 3) * ?q + 2 ^ (s + 2)" by (simp add: umag_def power_add algebra_simps)
  moreover have "(2 :: int) ^ (s + 3) = 2 * 2 ^ (s + 2)" by (simp add: power_add)
  ultimately show ?thesis using that [of s "?q - 16"] s(1,2) lo s(3) b q by (simp add: low_bits nat_add_distrib)
qed

lemma a_quantise:
  assumes "0 \<le> m" "m < 32768"
  defines "seg \<equiv> top_bit (word_of_int (m OR 0xFF)) - 7"
  obtains s r where "seg = int s" "s < 8" "asr m (if seg \<noteq> 0 then nat (seg + 3) else 4) AND 0xF = r" "0 \<le> r" "r < 16" "m < 2 ^ (s + 8)" "s = 0 \<or> 2 ^ (s + 7) \<le> m"
    "amag s r \<le> m + 2 ^ (max 1 s + 2)" "m < amag s r + 2 ^ (max 1 s + 2)"
proof -
  obtain s where s: "seg = int s" "s \<le> 7" "m < 2 ^ (s + 8)" "s = 0 \<or> 2 ^ (s + 7) \<le> m" using segment_ok [of m] assms by auto
  show ?thesis
  proof (cases "s = 0")
    case True
    have "m div 16 mod 16 = m div 16" using assms(1) s(3) True by (intro mod_pos_pos_trivial) (simp_all add: pos_imp_zdiv_nonneg_iff)
    moreover have "0 \<le> m div 16" "m div 16 < 16" "16 * (m div 16) \<le> m" "m < 16 * (m div 16) + 16" using assms(1) s(3) True by simp_all
    ultimately show ?thesis using that [of 0 "m div 16"] s True by (simp add: low_bits asr_def amag_def)
  next
    case False
    then have lo: "2 ^ (s + 7) \<le> m" using s(4) by simp
    note b = step_bounds [OF lo s(3)]
    let ?q = "asr m (s + 3)"
    have q: "?q mod 16 = ?q - 16" using b(1,2) by (rule mod_16_up)
    obtain k where k: "s = Suc k" using False by (cases s) simp_all
    have "amag s (?q - 16) = 2 ^ (s + 3) * ?q + 2 ^ (s + 2)" by (simp add: amag_def k power_add algebra_simps)
    moreover have "(2 :: int) ^ (s + 3) = 2 * 2 ^ (s + 2)" by (simp add: power_add)
    moreover have "max 1 s = s" using False by simp
    ultimately show ?thesis using that [of s "?q - 16"] s b q False by (simp add: low_bits nat_add_distrib)
  qed
qed

text \<open>Expansion after compression, for a magnitude and both signs.\<close>

lemma ulaw_error:
  assumes "-32636 \<le> x" "x \<le> 32635"
  shows "32 * \<bar>ulaw_to_linear (linear_to_ulaw x) - x\<bar> \<le> \<bar>x\<bar> + 132"
proof -
  define m where "m = (if x < 0 then 131 - x else 132 + x)"
  have m: "132 \<le> m" "m < 32768" using assms by (auto simp: m_def)
  obtain s r where q: "top_bit (word_of_int (m OR 0xFF)) - 7 = int s" "s < 8" "asr m (nat (top_bit (word_of_int (m OR 0xFF)) - 7 + 3)) AND 0xF = r" "0 \<le> r" "r < 16"
      "2 ^ (s + 7) \<le> m" "m < 2 ^ (s + 8)" "umag s r + 132 \<le> m + 2 ^ (s + 2)" "m < umag s r + 132 + 2 ^ (s + 2)"
    by (rule u_quantise [OF m])
  have p: "(2 :: int) ^ (s + 7) = 32 * 2 ^ (s + 2)" by (simp add: power_add)
  have "linear_to_ulaw x = (let seg = top_bit (word_of_int (m OR 0xFF)) - 7; mask = if x < 0 then 0x7F else 0xFF
      in if seg \<ge> 8 then word_of_int (0x7F XOR mask) else word_of_int ((push_bit 4 seg OR (asr m (nat (seg + 3)) AND 0xF)) XOR mask))"
    using assms by (simp add: linear_to_ulaw_def m_def ULAW_BIAS_def s32_id is_s32_def Let_def)
  then have "linear_to_ulaw x = word_of_int ((push_bit 4 (int s) OR r) XOR (if x < 0 then 0x7F else 0xFF))"
    unfolding Let_def q(3) unfolding q(1) using q(2) by simp
  then have "ulaw_to_linear (linear_to_ulaw x) = (if x < 0 then - umag s r else umag s r)" using codes(1,2) [OF q(2,4,5)] by simp
  then have "\<bar>ulaw_to_linear (linear_to_ulaw x) - x\<bar> \<le> 2 ^ (s + 2)" using q(8,9) by (cases "x < 0") (simp_all add: m_def abs_le_iff del: power_add_numeral)
  then have "32 * \<bar>ulaw_to_linear (linear_to_ulaw x) - x\<bar> \<le> 32 * 2 ^ (s + 2)" by (rule mult_left_mono) simp
  also have "\<dots> \<le> m" using q(6) unfolding p .
  also have "m \<le> \<bar>x\<bar> + 132" by (simp add: m_def)
  finally show ?thesis .
qed

lemma alaw_error:
  assumes "-32768 \<le> x" "x \<le> 32767"
  shows "\<bar>alaw_to_linear (linear_to_alaw x) - x\<bar> \<le> max 8 (\<bar>x\<bar> div 32)"
proof -
  define m where "m = (if x < 0 then - x - 1 else x)"
  have m: "0 \<le> m" "m < 32768" using assms by (auto simp: m_def)
  let ?seg = "top_bit (word_of_int (m OR 0xFF)) - 7"
  obtain s r where q: "?seg = int s" "s < 8" "asr m (if ?seg \<noteq> 0 then nat (?seg + 3) else 4) AND 0xF = r" "0 \<le> r" "r < 16"
      "m < 2 ^ (s + 8)" "s = 0 \<or> 2 ^ (s + 7) \<le> m" "amag s r \<le> m + 2 ^ (max 1 s + 2)" "m < amag s r + 2 ^ (max 1 s + 2)"
    by (rule a_quantise [OF m])
  have "linear_to_alaw x = (let mask = if x < 0 then ALAW_AMI_MASK else ALAW_AMI_MASK OR 0x80
      in if ?seg \<ge> 8 then if m \<ge> 0 then word_of_int (0x7F XOR mask) else word_of_int (0x00 XOR mask)
         else word_of_int ((push_bit 4 ?seg OR (asr m (if ?seg \<noteq> 0 then nat (?seg + 3) else 4) AND 0xF)) XOR mask))"
    using assms by (simp add: linear_to_alaw_def m_def s32_id is_s32_def Let_def)
  then have "linear_to_alaw x = word_of_int ((push_bit 4 (int s) OR r) XOR (if x < 0 then ALAW_AMI_MASK else ALAW_AMI_MASK OR 0x80))"
    unfolding Let_def q(3) unfolding q(1) using q(2) by simp
  then have a: "alaw_to_linear (linear_to_alaw x) = (if x < 0 then - amag s r else amag s r)" using codes(3,4) [OF q(2,4,5)] by simp
  have "2 ^ (max 1 s + 2) \<le> max 8 (\<bar>x\<bar> div 32)"
  proof (cases "s \<le> 1")
    case True
    then have "max 1 s = 1" by simp
    then show ?thesis by simp
  next
    case False
    then have "2 ^ (s + 7) \<le> m" "max 1 s = s" using q(7) by auto
    moreover have "(2 :: int) ^ (s + 7) = 2 ^ (s + 2) * 32" by (simp add: power_add)
    moreover have "m \<le> \<bar>x\<bar>" by (simp add: m_def)
    ultimately have "2 ^ (s + 2) * 32 \<le> \<bar>x\<bar>" by linarith
    from zdiv_mono1 [OF this, of 32] show ?thesis using \<open>max 1 s = s\<close> by simp
  qed
  then show ?thesis using q(8,9) a by (auto simp: m_def split: if_splits)
qed

text \<open>Above the largest segment.\<close>

lemma ulaw_clips:
  assumes "32636 \<le> x" "x \<le> 32767"
  shows "ulaw_to_linear (linear_to_ulaw x) = 32124" "ulaw_to_linear (linear_to_ulaw (- x - 1)) = - 32124"
proof -
  let ?w = "word_of_int ((132 + x) OR 0xFF) :: 32 word"
  have "(132 + x) div 2 ^ 15 = 1" using assms by simp
  then have "bit (132 + x) 15" by (simp add: bit_iff_odd)
  then have b: "bit ?w 15" by (simp add: bit_word_of_int_iff bit_or_iff)
  then have "?w \<noteq> 0" by (metis bit_0_eq bot_apply bot_bool_def)
  then have seg: "8 \<le> top_bit ?w - 7" using top_bit_ok b by fastforce
  have "linear_to_ulaw x = word_of_int (0x7F XOR 0xFF)"
    using seg assms by (simp add: linear_to_ulaw_def ULAW_BIAS_def s32_id is_s32_def Let_def)
  moreover have "ulaw_to_linear (word_of_int (0x7F XOR 0xFF)) = 32124" by code_simp
  ultimately show "ulaw_to_linear (linear_to_ulaw x) = 32124" by simp
  have "linear_to_ulaw (- x - 1) = word_of_int (0x7F XOR 0x7F)"
    using seg assms by (simp add: linear_to_ulaw_def ULAW_BIAS_def s32_id is_s32_def Let_def)
  moreover have "ulaw_to_linear (word_of_int (0x7F XOR 0x7F)) = - 32124" by code_simp
  ultimately show "ulaw_to_linear (linear_to_ulaw (- x - 1)) = - 32124" by simp
qed

text \<open>The middle of an interval, or the value before it, is compressed to the interval.\<close>

lemma segment_unique:
  assumes "0 \<le> m" "m < 32768" "s = 0 \<or> 2 ^ (s + 7) \<le> m" "m < 2 ^ (s + 8)"
  shows "top_bit (word_of_int (m OR 0xFF)) - 7 = int s"
proof -
  obtain s' where s': "top_bit (word_of_int (m OR 0xFF)) - 7 = int s'" "m < 2 ^ (s' + 8)" "s' = 0 \<or> 2 ^ (s' + 7) \<le> m"
    using segment_ok [OF assms(1,2)] by blast
  have le: "a \<le> b" if "a = 0 \<or> (2 :: int) ^ (a + 7) \<le> m" "m < 2 ^ (b + 8)" for a b
  proof (cases "a = 0")
    case False
    then have "(2 :: int) ^ (a + 7) < 2 ^ (b + 8)" using that by (meson le_less_trans)
    then have "a + 7 < b + 8" by (rule power_less_imp_less_exp [rotated]) simp
    then show ?thesis by simp
  qed simp
  show ?thesis using le [OF assms(3) s'(2)] le [OF s'(3) assms(4)] s'(1) by simp
qed

lemma middle:
  assumes "s < 8" "0 \<le> r" "r < 16" "e = 0 \<or> e = 1"
  defines "m \<equiv> (8 * r + 132) * 2 ^ s - e"
  shows "2 ^ (s + 7) \<le> m" "m < 2 ^ (s + 8)" "asr m (s + 3) = r + 16" "m < 32768"
proof -
  let ?p = "2 ^ s :: int"
  have p: "1 \<le> ?p" "?p \<le> 2 ^ 7" using assms(1) by (simp, intro power_increasing) simp_all
  have m: "m = (8 * r + 132) * ?p - e" by (simp add: m_def)
  have a: "128 * ?p \<le> (8 * r + 132) * ?p - e" "(8 * r + 132) * ?p \<le> 252 * ?p"
  proof -
    have "132 * ?p \<le> (8 * r + 132) * ?p" using assms(2) p(1) by (intro mult_right_mono) simp_all
    then show "128 * ?p \<le> (8 * r + 132) * ?p - e" using p(1) assms(4) by linarith
    show "(8 * r + 132) * ?p \<le> 252 * ?p" using assms(3) p(1) by (intro mult_right_mono) simp_all
  qed
  have w: "(2 :: int) ^ (s + 7) = 128 * ?p" "(2 :: int) ^ (s + 8) = 256 * ?p" "(2 :: int) ^ (s + 3) = 8 * ?p" by (simp_all add: power_add)
  show "2 ^ (s + 7) \<le> m" unfolding w m by (rule a(1))
  show up: "m < 2 ^ (s + 8)" unfolding w m using a(2) p(1) assms(4) by linarith
  have "(2 :: int) ^ (s + 8) \<le> 2 ^ 15" using assms(1) by (intro power_increasing) simp_all
  then show "m < 32768" using up by simp
  show "asr m (s + 3) = r + 16" unfolding asr_def w
  proof (rule int_div_pos_eq)
    show "m = 8 * ?p * (r + 16) + (4 * ?p - e)" by (simp add: m algebra_simps)
    show "0 \<le> 4 * ?p - e" "4 * ?p - e < 8 * ?p" using p(1) assms(4) by linarith+
  qed
qed

lemma ulaw_middle:
  assumes "s < 8" "0 \<le> r" "r < 16"
  shows "linear_to_ulaw (umag s r) = word_of_int ((push_bit 4 (int s) OR r) XOR 0xFF)"
    "0 < umag s r \<Longrightarrow> linear_to_ulaw (- umag s r) = word_of_int ((push_bit 4 (int s) OR r) XOR 0x7F)"
proof -
  have r: "(r + 16) mod 16 = r" using assms by simp
  note m = middle [OF assms, of 0, simplified] and n = middle [OF assms, of 1, simplified]
  have u: "0 \<le> umag s r"
  proof -
    have "1 \<le> (2 :: int) ^ s" by simp
    then have "132 * 1 \<le> (8 * r + 132) * 2 ^ s" using assms(2) by (intro mult_mono) simp_all
    then show ?thesis by (simp add: umag_def)
  qed
  have "top_bit (word_of_int ((8 * r + 132) * 2 ^ s OR 0xFF)) - 7 = int s"
    using m u by (intro segment_unique) (simp_all add: umag_def)
  then show "linear_to_ulaw (umag s r) = word_of_int ((push_bit 4 (int s) OR r) XOR 0xFF)"
    using m u assms(1) r by (simp add: linear_to_ulaw_def umag_def ULAW_BIAS_def s32_id is_s32_def Let_def low_bits nat_add_distrib)
  assume pos: "0 < umag s r"
  have "top_bit (word_of_int ((8 * r + 132) * 2 ^ s - 1 OR 0xFF)) - 7 = int s"
    using n u by (intro segment_unique) (simp_all add: umag_def)
  then show "linear_to_ulaw (- umag s r) = word_of_int ((push_bit 4 (int s) OR r) XOR 0x7F)"
    using n pos assms(1) r by (simp add: linear_to_ulaw_def umag_def ULAW_BIAS_def s32_id is_s32_def Let_def low_bits nat_add_distrib)
qed

lemma alaw_middle:
  assumes "s < 8" "0 \<le> r" "r < 16"
  shows "linear_to_alaw (amag s r) = word_of_int ((push_bit 4 (int s) OR r) XOR (ALAW_AMI_MASK OR 0x80))"
    "linear_to_alaw (- amag s r) = word_of_int ((push_bit 4 (int s) OR r) XOR ALAW_AMI_MASK)"
proof -
  have low: "linear_to_alaw x = word_of_int ((push_bit 4 (int s) OR r) XOR (if x < 0 then ALAW_AMI_MASK else ALAW_AMI_MASK OR 0x80))"
    if "m = (if x < 0 then - x - 1 else x)" "0 \<le> m" "m < 32768" "s = 0 \<or> 2 ^ (s + 7) \<le> m" "m < 2 ^ (s + 8)"
      "asr m (if s = 0 then 4 else s + 3) mod 16 = r" for x m
  proof -
    have "top_bit (word_of_int (m OR 0xFF)) - 7 = int s" using that(2-5) by (rule segment_unique)
    then show ?thesis using that(1-3,6) assms(1)
      by (cases "x < 0"; cases "s = 0") (auto simp: linear_to_alaw_def s32_id is_s32_def Let_def low_bits nat_add_distrib)
  qed
  show "linear_to_alaw (amag s r) = word_of_int ((push_bit 4 (int s) OR r) XOR (ALAW_AMI_MASK OR 0x80))"
  proof (cases "s = 0")
    case True
    then show ?thesis using low [of "amag s r" "amag s r"] assms by (simp add: amag_def asr_def)
  next
    case False
    then have m: "amag s r = (8 * r + 132) * 2 ^ s" by (cases s) (simp_all add: amag_def)
    have b: "2 ^ (s + 7) \<le> amag s r" "amag s r < 2 ^ (s + 8)" "asr (amag s r) (s + 3) = r + 16" "amag s r < 32768"
      using middle [OF assms, of 0] m by simp_all
    have "asr (amag s r) (s + 3) mod 16 = r" unfolding b(3) using assms(2,3) by simp
    note b = b this
    have p: "0 \<le> amag s r" "\<not> amag s r < 0" using assms(2) by (simp_all add: m not_less)
    have "linear_to_alaw (amag s r) = word_of_int ((push_bit 4 (int s) OR r) XOR (if amag s r < 0 then ALAW_AMI_MASK else ALAW_AMI_MASK OR 0x80))"
      by (rule low [where m = "amag s r"])
        (simp add: p, use p in simp, rule b(4), rule disjI2 [OF b(1)], rule b(2), subst if_not_P [OF False], rule b(5))
    then show ?thesis using p by simp
  qed
  show "linear_to_alaw (- amag s r) = word_of_int ((push_bit 4 (int s) OR r) XOR ALAW_AMI_MASK)"
  proof (cases "s = 0")
    case True
    have "(16 * r + 7) div 16 = r" by simp
    then show ?thesis using low [of "amag s r - 1" "- amag s r"] assms True by (simp add: amag_def asr_def)
  next
    case False
    then have m: "amag s r = (8 * r + 132) * 2 ^ s" by (cases s) (simp_all add: amag_def)
    have b: "2 ^ (s + 7) \<le> amag s r - 1" "amag s r - 1 < 2 ^ (s + 8)" "asr (amag s r - 1) (s + 3) = r + 16" "amag s r - 1 < 32768"
      using middle [OF assms, of 1] m by simp_all
    have "asr (amag s r - 1) (s + 3) mod 16 = r" unfolding b(3) using assms(2,3) by simp
    note b = b this
    have p: "0 < amag s r" "- amag s r < 0" using assms(2) by (simp_all add: m)
    have "linear_to_alaw (- amag s r) = word_of_int ((push_bit 4 (int s) OR r) XOR (if - amag s r < 0 then ALAW_AMI_MASK else ALAW_AMI_MASK OR 0x80))"
      by (rule low [where m = "amag s r - 1"])
        (simp add: p, use p in simp, rule b(4), rule disjI2 [OF b(1)], rule b(2), subst if_not_P [OF False], rule b(5))
    then show ?thesis using p by simp
  qed
qed

lemma all_codes: "list_all (\<lambda>k. P (word_of_int k)) [0..255] \<Longrightarrow> P (c :: 8 word)"
proof -
  assume "list_all (\<lambda>k. P (word_of_int k)) [0..255]"
  then have "P (word_of_int k)" if "0 \<le> k" "k \<le> 255" for k :: int using that by (simp add: list_all_iff)
  from this [of "uint c"] show "P c" using uint_ge_0 [of c] uint_lt2p [of c] by simp
qed


lemma ulaw_code:
  fixes u :: "8 word"
  shows "\<exists>s r. s < 8 \<and> 0 \<le> r \<and> r < 16 \<and>
   (u = word_of_int ((push_bit 4 (int s) OR r) XOR 0xFF) \<or> u = word_of_int ((push_bit 4 (int s) OR r) XOR 0x7F))"
proof -
  let ?s = "nat (uint (NOT u) div 16 mod 8)" and ?r = "uint (NOT u) mod 16"
  have "u = word_of_int ((push_bit 4 (int ?s) OR ?r) XOR 0xFF) \<or> u = word_of_int ((push_bit 4 (int ?s) OR ?r) XOR 0x7F)"
    by (rule all_codes) code_simp
  moreover have "?s < 8" "0 \<le> ?r" "?r < 16" by (simp_all add: nat_less_iff)
  ultimately show ?thesis by blast
qed

lemma alaw_code:
  fixes a :: "8 word"
  shows "\<exists>s r. s < 8 \<and> 0 \<le> r \<and> r < 16 \<and>
   (a = word_of_int ((push_bit 4 (int s) OR r) XOR (ALAW_AMI_MASK OR 0x80)) \<or> a = word_of_int ((push_bit 4 (int s) OR r) XOR ALAW_AMI_MASK))"
proof -
  let ?a = "uint a XOR ALAW_AMI_MASK"
  let ?s = "nat (?a div 16 mod 8)" and ?r = "?a mod 16"
  have "a = word_of_int ((push_bit 4 (int ?s) OR ?r) XOR (ALAW_AMI_MASK OR 0x80)) \<or> a = word_of_int ((push_bit 4 (int ?s) OR ?r) XOR ALAW_AMI_MASK)"
    by (rule all_codes) code_simp
  moreover have "?s < 8" "0 \<le> ?r" "?r < 16" by (simp_all add: nat_less_iff)
  ultimately show ?thesis by blast
qed

section \<open>Properties\<close>

text \<open>C15: Compression after expansion gives every A-law code back, and every u-law code but the second zero \<open>0x7F\<close>, which becomes the first, \<open>0xFF\<close>.\<close>

theorem g711_codes_roundtrip:
  "linear_to_alaw (alaw_to_linear a) = a \<and> linear_to_ulaw (ulaw_to_linear u) = (if u = 0x7F then 0xFF else u)"
proof
  show "linear_to_alaw (alaw_to_linear a) = a" using alaw_code [of a] by (auto simp: codes alaw_middle)
  obtain s r where c: "s < 8" "0 \<le> r" "r < 16"
      "u = word_of_int ((push_bit 4 (int s) OR r) XOR 0xFF) \<or> u = word_of_int ((push_bit 4 (int s) OR r) XOR 0x7F)" using ulaw_code by blast
  have z: "linear_to_ulaw 0 = 0xFF" using ulaw_middle(1) [of 0 0] by (simp add: umag_def)
  have "ulaw_to_linear 0x7F = 0" by code_simp
  moreover have "u \<noteq> 0x7F \<Longrightarrow> linear_to_ulaw (ulaw_to_linear u) = u"
  proof (use c(4) in \<open>elim disjE\<close>)
    show "u = word_of_int ((push_bit 4 (int s) OR r) XOR 0xFF) \<Longrightarrow> linear_to_ulaw (ulaw_to_linear u) = u"
      using c(1-3) by (simp add: codes ulaw_middle)
  next
    assume u: "u \<noteq> 0x7F" "u = word_of_int ((push_bit 4 (int s) OR r) XOR 0x7F)"
    have "0 < umag s r"
    proof (rule ccontr)
      have "1 \<le> (2 :: int) ^ s" by simp
      then have "(8 * r + 132) * 1 \<le> (8 * r + 132) * 2 ^ s" using c(2) by (intro mult_left_mono) simp_all
      moreover assume "\<not> 0 < umag s r"
      moreover have "r = 0" if "(8 * r + 132) * 1 \<le> x" "\<not> 0 < x - 132" for x using that c(2) by simp
      ultimately have r: "r = 0" unfolding umag_def by blast
      have "(2 :: int) ^ s = 1" using \<open>\<not> 0 < umag s r\<close> \<open>1 \<le> (2 :: int) ^ s\<close> r by (simp add: umag_def)
      then have "s = 0" using one_less_power [of "2 :: int" s] by (cases "s = 0") simp_all
      then show False using u r by simp
    qed
    then show "linear_to_ulaw (ulaw_to_linear u) = u" using u(2) c(1-3) by (simp add: codes ulaw_middle)
  qed
  ultimately show "linear_to_ulaw (ulaw_to_linear u) = (if u = 0x7F then 0xFF else u)" using z by simp
qed

text \<open>C16: The error of the laws.  A sample that is compressed and expanded is off by at most 8 or a 32nd of its magnitude with the A-law, and by
  at most a 32nd of its magnitude plus the bias 132 with the u-law, which clips samples beyond 32635 to 32124.  Transcoding a code to the other
  law changes the sample by at most a 16th of its magnitude plus 132.\<close>

theorem g711_error_bounds:
  assumes "-32768 \<le> x" "x \<le> 32767"
  shows "\<bar>alaw_to_linear (linear_to_alaw x) - x\<bar> \<le> max 8 (\<bar>x\<bar> div 32) \<and>
    (if x < -32636 then ulaw_to_linear (linear_to_ulaw x) = -32124
     else if x > 32635 then ulaw_to_linear (linear_to_ulaw x) = 32124
     else 32 * \<bar>ulaw_to_linear (linear_to_ulaw x) - x\<bar> \<le> \<bar>x\<bar> + 132) \<and>
    16 * \<bar>ulaw_to_linear (alaw_to_ulaw a) - alaw_to_linear a\<bar> \<le> \<bar>alaw_to_linear a\<bar> + 132 \<and>
    16 * \<bar>alaw_to_linear (ulaw_to_alaw u) - ulaw_to_linear u\<bar> \<le> \<bar>ulaw_to_linear u\<bar> + 132"
proof (intro conjI)
  show "\<bar>alaw_to_linear (linear_to_alaw x) - x\<bar> \<le> max 8 (\<bar>x\<bar> div 32)" by (rule alaw_error [OF assms])
  show "if x < -32636 then ulaw_to_linear (linear_to_ulaw x) = -32124
     else if x > 32635 then ulaw_to_linear (linear_to_ulaw x) = 32124
     else 32 * \<bar>ulaw_to_linear (linear_to_ulaw x) - x\<bar> \<le> \<bar>x\<bar> + 132"
    using ulaw_clips(1) [of x] ulaw_clips(2) [of "- x - 1"] ulaw_error [of x] assms by auto
  show "16 * \<bar>ulaw_to_linear (alaw_to_ulaw a) - alaw_to_linear a\<bar> \<le> \<bar>alaw_to_linear a\<bar> + 132" by (rule all_codes) code_simp
  show "16 * \<bar>alaw_to_linear (ulaw_to_alaw u) - ulaw_to_linear u\<bar> \<le> \<bar>ulaw_to_linear u\<bar> + 132" by (rule all_codes) code_simp
qed

theorem g711_error_bounds_witness:
  "\<bar>alaw_to_linear (linear_to_alaw 1000) - 1000\<bar> \<le> 31 \<and> 32 * \<bar>ulaw_to_linear (linear_to_ulaw 1000) - 1000\<bar> \<le> 1132"
  using g711_error_bounds [of 1000] by simp

end
