(* ===== verification/Spec2Isabelle.thy ===== *)
theory Spec2Isabelle
  imports Ring_Buffer Bit_Codes Webrtc_Vad Fifo_Buffer Pa_Threads Isac_Header Isac_Spectrum G711
begin

text \<open>
  \<^bold>\<open>The program.\<close>  The repository is a build workspace around a copy of the WebRTC audio stack
  (\<^verbatim>\<open>src/workspace/webrtc\<close>).  Its parts: \<^verbatim>\<open>common_audio\<close>, the signal processing every audio module calls
  (the SPL fixed-point library, resamplers, ring buffer, voice activity detector, filters, WAV files);
  \<^verbatim>\<open>rtc_base\<close>, the base library (buffers, bit streams, strings, numerics, threads, sockets);
  \<^verbatim>\<open>modules\<close>, the audio devices, codecs, mixer and audio processing (echo cancellation, gain control,
  noise suppression); \<^verbatim>\<open>api\<close>, the interfaces; \<^verbatim>\<open>system_wrappers\<close>, \<^verbatim>\<open>audio\<close>, \<^verbatim>\<open>test\<close>; and third-party code.

  This library models the integer core on which the rest is built: queues in memory that wraps around (the
  ring buffer, the PortAudio ring buffer with its two threads, the FIFO buffer), bits that are packed (the bit buffer), fixed-point arithmetic on 16 and
  32 bits, streams that are filtered block by block (the resamplers), a detector composed of these, the arithmetic coder of the fixed-point iSAC
  codec with its packet header and its spectrum coder, and the G.711 codec.
  They interact as in the code: the detector calls the resampler chain for 48 kHz input, its filter bank
  calls \<open>WebRtcSpl_Energy\<close>, which calls \<open>WebRtcSpl_GetScalingSquare\<close>, which calls \<open>WebRtcSpl_NormW32\<close>; the
  chains call the resampling steps; the packet header and the spectrum are coded into the same stream as the symbols.

  \<^bold>\<open>Conventions.\<close>  A C struct is a record with the names of the source; an array is a list whose length
  is that of the C array, a pointer into it an index.  Signed integers are of type \<open>int\<close>, kept in range by
  \<open>s16\<close>, \<open>s32\<close> (wrap-around of a two's complement machine) at each assignment or operation that can leave
  the type; \<open>asr\<close> is the arithmetic right shift and \<open>cdiv\<close> the division of C; \<^verbatim>\<open>size_t\<close> in the ring buffer
  and the bit buffer is a natural number with \<open>sz_add\<close>, \<open>sz_sub\<close>, \<open>sz_mul\<close> modulo \<open>2 ^ 64\<close>; the bit buffer's
  bytes and values are words.  An access out of bounds, an undefined shift or a failed \<^verbatim>\<open>RTC_CHECK\<close> is
  \<open>None\<close>: that a function returns \<open>Some\<close> says that it has no such behaviour.  \<^verbatim>\<open>RTC_DCHECK\<close>s are hypotheses.
  \<^verbatim>\<open>malloc\<close> is a parameter.

  \<^bold>\<open>The theories.\<close>
  \<^item> \<open>C_Prelude\<close>: the machine integers, memory (\<open>rd\<close>, \<open>wr\<close>, \<open>memcpy\<close>, \<open>memset\<close>) and the lemmas the
    components share.
  \<^item> \<open>Stream_Buffer\<close>: a locale for byte queues (\<open>put\<close>, \<open>get\<close> against an abstract contents)
    and its theorem on sequences of operations; an extension with a capacity, \<open>bounded_buffer\<close>, whose instances refine a
    bounded list.  \<open>Circular\<close>: blocks read and written in two parts, for the FIFO buffer and the PortAudio buffer.
  \<^item> \<open>Ring_Buffer\<close> (\<^verbatim>\<open>common_audio/ring_buffer.c\<close>): creation, reading by pointer or copy, writing, moving
    the read position.  The contents of a buffer is the list of its unread bytes; each operation is
    proved against it, and the ring buffer interprets the locales of \<open>Stream_Buffer\<close>.
  \<^item> \<open>Fifo_Buffer\<close> (\<^verbatim>\<open>rtc_base/memory/fifo_buffer.cc\<close>): reading and writing with the events posted to the owner, access
    in place, offsets, capacity; it interprets the same locales.
  \<^item> \<open>Pa_Ring_Buffer\<close> (\<^verbatim>\<open>pa_ringbuffer.c\<close> in \<^verbatim>\<open>modules/third_party/portaudio\<close>): initialisation, regions, indices, whole reads and writes; again the
    same locales.  \<open>Pa_Threads\<close>: one writer and one reader as an inductive step relation over the steps of their calls.
  \<^item> \<open>Bit_Buffer\<close> (\<^verbatim>\<open>rtc_base/bit_buffer.cc\<close>): positions, reading and writing of up to 64 bits, against
    the list of the bits of the block; \<open>Bit_Codes\<close>: exponential Golomb and non-symmetric codes, with the
    round trip of sequences of fields and the safety of sequences of calls.
  \<^item> \<open>Spl_Arith\<close> (\<^verbatim>\<open>spl_inl.h\<close>, \<^verbatim>\<open>division_operations.c\<close>, \<^verbatim>\<open>spl_sqrt_floor.c\<close>): leading zeros,
    normalisation, saturation, Q31 division, integer square root.  \<open>Spl_Vector\<close>: minima and maxima, scaling,
    copying, energy, cross- and autocorrelation.
  \<^item> \<open>Resample\<close> (\<^verbatim>\<open>resample_by_2_internal.c\<close>, \<^verbatim>\<open>resample_fractional.c\<close>): the steps, in place on one
    scratch block.  \<open>Resample_Stream\<close>: a locale for streams that can be cut at block boundaries, the
    composition of two streams, and each step as a stream.  \<open>Resample_Chains\<close>
    (\<^verbatim>\<open>resample_48khz.c\<close>, \<^verbatim>\<open>resample.c\<close>): the eight chains refine the composition of their steps.
  \<^item> \<open>Vad_Inst\<close> (\<^verbatim>\<open>vad_core.h\<close>, \<^verbatim>\<open>vad_gmm.c\<close>): the detector's instance, tables and Gaussian
    probability.  \<open>Vad_Sp\<close> (\<^verbatim>\<open>vad_sp.c\<close>): decimation and the tracking of minima.  \<open>Vad_Filterbank\<close>
    (\<^verbatim>\<open>vad_filterbank.c\<close>): the features.  \<open>Vad_Core\<close> (\<^verbatim>\<open>vad_core.c\<close>): the likelihood test, the
    model update, the modes, and the invariant \<open>vad_inv\<close>.  \<open>Webrtc_Vad\<close> (\<^verbatim>\<open>webrtc_vad.c\<close>): the interface; the
    locale \<open>frame_detector\<close> is what \<open>WebRtcVad_Process\<close> needs of the detector of a rate, and \<open>vad_reach\<close> the
    instances a client can reach.
  \<^item> \<open>Isac_Arith\<close> (\<^verbatim>\<open>arith_routines.c\<close>, \<^verbatim>\<open>arith_routines_hist.c\<close>): the encoder and both decoders of the histogram coder.
    \<open>Isac_Coder\<close>: the coder on intervals of natural numbers and the proof that the code follows it, carries
    and renormalisation included; a locale for what a decoder's search has to find, interpreted on the bisection and on the steps.  \<open>Isac_Packet\<close>:
    sequences of symbols with termination and the packing into bytes.  \<open>Isac_Header\<close>
    (\<^verbatim>\<open>entropy_coding.c\<close>, \<^verbatim>\<open>isacfix.c\<close>): frame length and bandwidth index.
  \<^item> \<open>Isac_Logistic\<close> (\<^verbatim>\<open>arith_routines_logist.c\<close>): the code of the spectrum coder.  \<open>Isac_Distribution\<close>: the piecewise linear
    distribution is monotone and steep in the middle.  \<open>Isac_Lines\<close>: one line, clipped, coded and searched for.
    \<open>Isac_Spectrum\<close>: whole spectra, the square roots of the envelope and the limits of the decoder.
  \<^item> \<open>G711\<close> (\<^verbatim>\<open>modules/third_party/g711\<close>): both laws and the transcoding tables.

  \<^bold>\<open>What the theorems show.\<close>  The three byte queues and the resampler chains \<^emph>\<open>refine\<close> their specifications
  (a bounded list of bytes; the whole signal put through the pipeline of steps), over arbitrary sequences of
  operations; the queues are therefore \<^emph>\<open>interchangeable\<close>.  In every \<^emph>\<open>interleaving\<close> of its two threads the PortAudio buffer keeps the order
  of the bytes and neither thread touches what the other owns.  The bit codes \<^emph>\<open>round trip\<close> over arbitrary sequences of fields at any position, iSAC
  packets over arbitrary sequences of symbols followed by a spectrum, and G.711 codes through linear samples.  The
  arithmetic and vector routines are \<^emph>\<open>equal\<close> to their mathematical definitions on every argument in the range in
  which they can be; the error of G.711 is bounded for every sample.  The detector's invariant holds of \<^emph>\<open>every reachable\<close> instance, its results are in
  range, a valid frame is processed without undefined behaviour as long as the means of the models are in the range
  \<open>means_ok\<close> (which the start values are), and a hangover ends.  Where the code does not do what it
  means to, a lemma gives the inputs: sizes that overflow in \<open>WebRtc_CreateBuffer\<close>, an overflow in \<open>WebRtcSpl_Energy\<close> and in
  \<open>WebRtcSpl_DivResultInQ31\<close>, a shift by 32 in the non-symmetric code, a decimation of odd length, a capacity of 0 and a huge offset in
  the FIFO buffer, a \<^verbatim>\<open>NULL\<close> from the allocator in \<open>WebRtcVad_Create\<close>, a
  48 kHz frame of which only the first 10 ms are looked at, an undefined shift in the Gaussian
  probability, a termination of the arithmetic coder past its array, and envelopes for which the spectrum coder rejects a valid line, divides
  by zero or does not return.

  \<^bold>\<open>Loops.\<close>  No model has fuel.  Loops over arrays recurse on a counter or a list;
  \<open>valid_length_loop\<close>, the loops of the bit buffer and the renormalisation and steps of the histogram coder are functions with termination proofs.  Loops of the
  spectrum coder that need not end (\<open>enc_clip\<close>, \<open>logist_up\<close>, \<open>logist_down\<close>, \<open>dec_renorm_logist\<close>) are partial functions whose value is \<open>None\<close> when they run
  for ever: the round trip proves that they return, and two further properties of \<open>Isac_Spectrum\<close> say when they do not.

  \<^bold>\<open>Not modelled.\<close>  The NEON, SSE, AVX2, MIPS and assembly variants (other builds of the
  modelled functions); floating point code (echo cancellation, noise suppression, adaptive gain
  control, sinc resampler, FFTs): its correctness is numerical and HOL-Library has no model of IEEE
  arithmetic; code whose work is done by the operating system or a service (audio devices, sockets, threads, SSL,
  files, logging); interfaces without a body; tests, build scripts and third-party libraries.  Of the
  integer code, the rest of the fixed-point iSAC codec (LPC and pitch analysis, transforms, bandwidth estimation), G.722, the mobile echo canceller, the legacy gain
  control and the text and byte encoders of \<^verbatim>\<open>rtc_base\<close> are not modelled; of the SPL library the AR and MA
  filters, LPC conversions, the complex FFT, \<^verbatim>\<open>resample_by_2.c\<close> and the splitting filter.  The two threads of the PortAudio buffer run on
  sequentially consistent memory.  That the means of a reachable detector
  stay in the range \<open>means_ok\<close> is not proved: the update clamps them only in part, and outside
  the range the probability is in fact undefined.
\<close>

section \<open>Properties that span components\<close>

text \<open>C39: The byte queues of the program are interchangeable.  The ring buffer of \<^verbatim>\<open>common_audio\<close>, the one of PortAudio and, for
  elements of one byte, an open FIFO buffer of \<^verbatim>\<open>rtc_base\<close>, of the same capacity and with the same bytes queued, run every
  sequence of writes and reads alike: none faults, and each accepts, hands out and keeps exactly the bytes of a list bounded by the capacity.\<close>

theorem byte_queues_agree:
  assumes "rb_sized c z b" "pa_sized c z r" "pa_queued r = contents b" "list_all (op_ok z) ops"
    and "queue_ops c z (contents b) ops = (accepted, read, queued)"
  shows "(\<exists>b'. run_ops element_size rb_put rb_get b ops = Some (accepted, read, b') \<and> rb_sized c z b' \<and> contents b' = queued) \<and>
    (\<exists>r'. run_ops esz pa_put pa_get r ops = Some (accepted, read, r') \<and> pa_sized c z r' \<and> pa_queued r' = queued) \<and>
    (\<forall>fb. z = 1 \<and> fifo_sized c fb \<and> fifo_queued fb = contents b \<longrightarrow>
       (\<exists>fb'. run_ops (\<lambda>_. 1) fifo_put fifo_get fb ops = Some (accepted, read, fb') \<and> fifo_sized c fb' \<and> fifo_queued fb' = queued))"
  using rbq.run_refines [OF assms(1)] paq.run_refines [OF assms(2)] fifoq.run_refines [of c] assms(3-5) by auto

theorem byte_queues_agree_witness:
  "let b = \<lparr>read_pos = 3, write_pos = 3, element_count = 4, element_size = 1, rw_wrap = SAME_WRAP, data = [9, 9, 9, 9]\<rparr>;
       ops = [Put [1, 2, 3] 3, Get 2, Put [4, 5, 6, 7] 4, Get 1]
   in \<exists>r. rb_sized 4 1 b \<and> pa_sized 4 1 r \<and> fifo_sized 4 (FifoBuffer [9, 9, 9, 9]) \<and>
      (\<exists>b'. run_ops element_size rb_put rb_get b ops = Some ([1, 2, 3, 4, 5, 6], [1, 2, 3], b') \<and> contents b' = [4, 5, 6]) \<and>
      (\<exists>r'. run_ops esz pa_put pa_get r ops = Some ([1, 2, 3, 4, 5, 6], [1, 2, 3], r') \<and> pa_queued r' = [4, 5, 6]) \<and>
      (\<exists>fb'. run_ops (\<lambda>_. 1) fifo_put fifo_get (FifoBuffer [9, 9, 9, 9]) ops = Some ([1, 2, 3, 4, 5, 6], [1, 2, 3], fb') \<and>
         fifo_queued fb' = [4, 5, 6])"
proof -
  define b :: ring_buffer where "b = \<lparr>read_pos = 3, write_pos = 3, element_count = 4, element_size = 1, rw_wrap = SAME_WRAP, data = [9, 9, 9, 9]\<rparr>"
  define ops :: "byte stream_op list" where "ops = [Put [1, 2, 3] 3, Get 2, Put [4, 5, 6, 7] 4, Get 1]"
  have b: "rb_sized 4 1 b" "contents b = []"
    using size_range_gt [of 4] by (simp_all add: b_def rb_sized_def rb_inv_def contents_def available_def)
  obtain r where "pa_ok 2 r" "pa_queued r = []" "esz r = 1"
    using pa_initialize [of 2 1 "[9, 9, 9, 9]"] by auto
  then have r: "pa_sized 4 1 r" "pa_queued r = contents b" by (auto simp: pa_sized_ok b(2) intro!: exI [of _ 2])
  have f: "fifo_sized 4 (FifoBuffer [9, 9, 9, 9])" "fifo_queued (FifoBuffer [9, 9, 9, 9]) = contents b"
    by (simp_all add: fifo_sized_def fifo_inv_def FifoBuffer_def fifo_queued_def b(2))
  have "list_all (op_ok 1) ops" "queue_ops 4 1 (contents b) ops = ([1, 2, 3, 4, 5, 6], [1, 2, 3], [4, 5, 6])"
    by (simp_all add: ops_def b(2) Let_def)
  from byte_queues_agree [OF b(1) r this] show ?thesis
    using b(1) r(1) f unfolding Let_def b_def [symmetric] ops_def [symmetric] by blast
qed

end
